(* ===== verification/XPrelude.thy ===== *)
theory XPrelude
  imports Main "HOL-Library.Word" "HOL-Library.Monad_Syntax"
begin

text \<open>
  Shared ground of the development: the machine types of the kernel code, the constants of
  the kernel interface the driver uses (page size, errno values), the panic convention
  (\<open>BUG_ON\<close>), the update of an array element through a pointer, and the generic contract
  "every operation of a component keeps its invariant" with its lifting to runs.

  A function that can panic returns an \<open>option\<close>. \<open>None\<close> always means that the call never
  returns to its caller: a \<open>BUG_ON\<close> panic, an oops through a bad pointer, or a thread that
  spins on a lock it holds itself. Return codes of the kernel are \<open>int\<close>, negative for errors.
\<close>

unbundle bit_operations_syntax

named_theorems bits "values of the bit masks of the register file"
named_theorems frames "what an operation leaves unchanged"

section \<open>Machine types and kernel constants\<close>

type_synonym u8 = "8 word"
type_synonym u32 = "32 word"
type_synonym u64 = "64 word"

definition PAGE_SHIFT :: nat where "PAGE_SHIFT = 12"
definition PAGE_SIZE :: nat where "PAGE_SIZE = 4096"

definition EIO :: int where "EIO = 5"
definition EAGAIN :: int where "EAGAIN = 11"
definition ENOMEM :: int where "ENOMEM = 12"
definition EFAULT :: int where "EFAULT = 14"
definition EBUSY :: int where "EBUSY = 16"
definition ENODEV :: int where "ENODEV = 19"
definition EINVAL :: int where "EINVAL = 22"
definition EPROTO :: int where "EPROTO = 71"
definition ERESTARTSYS :: int where "ERESTARTSYS = 512"
definition EIOCBQUEUED :: int where "EIOCBQUEUED = 529"

lemmas errnos = EIO_def EAGAIN_def ENOMEM_def EFAULT_def EBUSY_def ENODEV_def EINVAL_def
  EPROTO_def ERESTARTSYS_def EIOCBQUEUED_def

lemma sint_small:
  assumes "unat (x :: u32) < 2 ^ 31"
  shows "sint x = int (unat x)"
proof -
  have eq: "uint x = int (unat x)" by (rule uint_nat)
  have "int (unat x) < int (2 ^ 31)" using assms by (simp only: of_nat_less_iff)
  then have "uint x < 2 ^ 31" unfolding eq [symmetric] by simp
  moreover have "- (2 ^ 31) \<le> uint x" by (rule order_trans [of _ 0]) simp_all
  ultimately have "sint x = uint x" by (simp add: sint_uint signed_take_bit_int_eq_self_iff)
  from this eq show ?thesis by (rule trans)
qed

lemma sint_small64:
  assumes "unat (x :: u64) < 2 ^ 63"
  shows "sint x = int (unat x)"
proof -
  have eq: "uint x = int (unat x)" by (rule uint_nat)
  have "int (unat x) < int (2 ^ 63)" using assms by (simp only: of_nat_less_iff)
  then have "uint x < 2 ^ 63" unfolding eq [symmetric] by simp
  moreover have "- (2 ^ 63) \<le> uint x" by (rule order_trans [of _ 0]) simp_all
  ultimately have "sint x = uint x" by (simp add: sint_uint signed_take_bit_int_eq_self_iff)
  from this eq show ?thesis by (rule trans)
qed

section \<open>Panics and pointer accesses\<close>

definition BUG_ON :: "bool \<Rightarrow> unit option" where
  "BUG_ON c = (if c then None else Some ())"

lemma BUG_ON_simps [simp]: "BUG_ON True = None" "BUG_ON False = Some ()"
  by (simp_all add: BUG_ON_def)

lemma BUG_ON_eq_Some [simp]: "BUG_ON c = Some u \<longleftrightarrow> \<not> c"
  by (simp add: BUG_ON_def)

lemma BUG_ON_bind [simp]: "Option.bind (BUG_ON c) f = (if c then None else f ())"
  by simp

text \<open>\<open>*(p + i) = f (*(p + i))\<close>: an access outside the array is a fault.\<close>

definition at_index :: "nat \<Rightarrow> ('a \<Rightarrow> 'a option) \<Rightarrow> 'a list \<Rightarrow> 'a list option" where
  "at_index i f xs = (if i < length xs then map_option (\<lambda>y. xs[i := y]) (f (xs ! i)) else None)"

definition set_index :: "nat \<Rightarrow> ('a \<Rightarrow> 'a) \<Rightarrow> 'a list \<Rightarrow> 'a list option" where
  "set_index i f xs = at_index i (\<lambda>x. Some (f x)) xs"

lemma at_index_length: "at_index i f xs = Some ys \<Longrightarrow> length ys = length xs"
  by (auto simp: at_index_def split: if_splits)

lemma set_index_in [simp]: "i < length xs \<Longrightarrow> set_index i f xs = Some (xs[i := f (xs ! i)])"
  by (simp add: set_index_def at_index_def)

lemma set_index_out [simp]: "length xs \<le> i \<Longrightarrow> set_index i f xs = None"
  by (simp add: set_index_def at_index_def)

lemma set_index_Some_iff:
  "set_index i f xs = Some ys \<longleftrightarrow> i < length xs \<and> ys = xs[i := f (xs ! i)]"
  by (auto simp: set_index_def at_index_def split: if_splits)

lemma set_index_length: "set_index i f xs = Some ys \<Longrightarrow> length ys = length xs"
  by (auto simp: set_index_Some_iff)

section \<open>Runs of operations under a contract\<close>

fun run_ops :: "('s \<Rightarrow> 'o \<Rightarrow> 's option) \<Rightarrow> 's \<Rightarrow> 'o list \<Rightarrow> 's option" where
  "run_ops f s [] = Some s"
| "run_ops f s (x # xs) = Option.bind (f s x) (\<lambda>s'. run_ops f s' xs)"

text \<open>
  A condition on the operations that depends on the state each of them meets: it holds along a run if
  it holds of the first operation, and along the rest of the run from the state that operation leaves.
\<close>

fun admissible :: "('s \<Rightarrow> 'o \<Rightarrow> bool) \<Rightarrow> ('s \<Rightarrow> 'o \<Rightarrow> 's option) \<Rightarrow> 's \<Rightarrow> 'o list \<Rightarrow> bool" where
  "admissible ok f s [] \<longleftrightarrow> True"
| "admissible ok f s (x # xs) \<longleftrightarrow> ok s x \<and> (case f s x of None \<Rightarrow> True | Some s' \<Rightarrow> admissible ok f s' xs)"

text \<open>
  The contract the operations of a component share: under the invariant, an operation whose
  precondition holds returns, and keeps the invariant. What follows for whole runs is proved once here.
\<close>

locale guarded_contract =
  fixes step :: "'s \<Rightarrow> 'o \<Rightarrow> 's option"
    and inv :: "'s \<Rightarrow> bool"
    and ok :: "'s \<Rightarrow> 'o \<Rightarrow> bool"
  assumes step_ok: "inv s \<Longrightarrow> ok s x \<Longrightarrow> \<exists>s'. step s x = Some s' \<and> inv s'"
begin

lemma run_guarded: "inv s \<Longrightarrow> admissible ok step s xs \<Longrightarrow> \<exists>s'. run_ops step s xs = Some s' \<and> inv s'"
proof (induction xs arbitrary: s)
  case (Cons x xs)
  from Cons.prems(2) have "ok s x" by simp
  then obtain t where t: "step s x = Some t" "inv t" using step_ok [OF Cons.prems(1)] by blast
  with Cons.IH [of t] show ?case using Cons.prems(2) by auto
qed simp

lemma run_inv: "inv s \<Longrightarrow> admissible ok step s xs \<Longrightarrow> run_ops step s xs = Some s' \<Longrightarrow> inv s'"
  using run_guarded by fastforce

end

text \<open>A precondition that does not look at the state: it restricts what the environment supplies.\<close>

locale event_contract =
  fixes step :: "'s \<Rightarrow> 'o \<Rightarrow> 's option"
    and inv :: "'s \<Rightarrow> bool"
    and event :: "'o \<Rightarrow> bool"
  assumes event_step: "inv s \<Longrightarrow> event x \<Longrightarrow> \<exists>s'. step s x = Some s' \<and> inv s'"

sublocale event_contract \<subseteq> guarded_contract step inv "\<lambda>_. event"
  by unfold_locales (rule event_step)

context event_contract
begin

lemma admissible_event: "list_all event xs \<Longrightarrow> admissible (\<lambda>_. event) step s xs"
  by (induction xs arbitrary: s) (simp_all split: option.split)

lemma run_ok: "inv s \<Longrightarrow> list_all event xs \<Longrightarrow> \<exists>s'. run_ops step s xs = Some s' \<and> inv s'"
  by (rule run_guarded [OF _ admissible_event])

end

end
