(* ===== verification/Mmio.thy ===== *)
theory Mmio
  imports XPrelude
begin

text \<open>
  Register access of the XDMA driver (\<open>driver/xdma-core.c\<close>, first part, and the register
  structures of \<open>include/xdma-core.h\<close>). The device is a parameter: \<open>resp\<close> gives the value
  a 32-bit read returns as a function of all accesses so far, so a device may answer in any
  way and differently each time. \<open>hist\<close> records the accesses, latest first.
\<close>

unbundle bit_operations_syntax

section \<open>The bus\<close>

datatype mmio = Rd u64 u32 | Wr u64 u32

record bus =
  hist :: "mmio list"
  resp :: "mmio list \<Rightarrow> u64 \<Rightarrow> u32"

definition write_register :: "u32 \<Rightarrow> u64 \<Rightarrow> bus \<Rightarrow> bus" where
  "write_register v a b = b\<lparr>hist := Wr a v # hist b\<rparr>"

definition read_register :: "u64 \<Rightarrow> bus \<Rightarrow> u32 \<times> bus" where
  "read_register a b = (let v = resp b (hist b) a in (v, b\<lparr>hist := Rd a v # hist b\<rparr>))"

text \<open>What the device has been told: the writes, oldest first, and the last one to an address.\<close>

fun wr_of :: "mmio \<Rightarrow> (u64 \<times> u32) list" where
  "wr_of (Wr a v) = [(a, v)]"
| "wr_of (Rd a v) = []"

definition writes :: "bus \<Rightarrow> (u64 \<times> u32) list" where
  "writes b = concat (map wr_of (rev (hist b)))"

definition last_write :: "bus \<Rightarrow> u64 \<Rightarrow> u32 option" where
  "last_write b a = map_of (rev (writes b)) a"

lemma writes_write [simp]: "writes (write_register v a b) = writes b @ [(a, v)]"
  by (simp add: writes_def write_register_def)

lemma writes_read [simp]: "writes (snd (read_register a b)) = writes b"
  by (simp add: writes_def read_register_def Let_def)

lemma last_write_write: "last_write (write_register v a b) c = (if c = a then Some v else last_write b c)"
  by (auto simp: last_write_def)

lemma last_write_read [simp]: "last_write (snd (read_register a b)) c = last_write b c"
  by (simp add: last_write_def)

lemma resp_write [simp]: "resp (write_register v a b) = resp b"
  by (simp add: write_register_def)

lemma resp_read [simp]: "resp (snd (read_register a b)) = resp b"
  by (simp add: read_register_def Let_def)

section \<open>Register structures\<close>

text \<open>
  A packed structure of 32-bit registers is its fields in order, each with the number of
  words it takes (arrays, padding); \<open>offsetof\<close> adds up the words before a field.
\<close>

fun offsetof :: "('f \<times> nat) list \<Rightarrow> 'f \<Rightarrow> nat" where
  "offsetof [] f = 0"
| "offsetof ((g, n) # l) f = (if g = f then 0 else 4 * n + offsetof l f)"

definition sizeof_regs :: "('f \<times> nat) list \<Rightarrow> nat" where
  "sizeof_regs l = 4 * sum_list (map snd l)"

datatype eng_reg =
    E_identifier | E_control | E_control_w1s | E_control_w1c | E_reserved_1
  | E_status | E_status_rc | E_completed_desc_count | E_alignments | E_reserved_2
  | E_poll_mode_wb_lo | E_poll_mode_wb_hi | E_interrupt_enable_mask
  | E_interrupt_enable_mask_w1s | E_interrupt_enable_mask_w1c | E_reserved_3
  | E_perf_ctrl | E_perf_cyc_lo | E_perf_cyc_hi | E_perf_dat_lo | E_perf_dat_hi
  | E_perf_pnd_lo | E_perf_pnd_hi

definition engine_regs :: "(eng_reg \<times> nat) list" where
  "engine_regs =
    [(E_identifier, 1), (E_control, 1), (E_control_w1s, 1), (E_control_w1c, 1),
     (E_reserved_1, 12),
     (E_status, 1), (E_status_rc, 1), (E_completed_desc_count, 1), (E_alignments, 1),
     (E_reserved_2, 14),
     (E_poll_mode_wb_lo, 1), (E_poll_mode_wb_hi, 1), (E_interrupt_enable_mask, 1),
     (E_interrupt_enable_mask_w1s, 1), (E_interrupt_enable_mask_w1c, 1),
     (E_reserved_3, 9),
     (E_perf_ctrl, 1), (E_perf_cyc_lo, 1), (E_perf_cyc_hi, 1), (E_perf_dat_lo, 1),
     (E_perf_dat_hi, 1), (E_perf_pnd_lo, 1), (E_perf_pnd_hi, 1)]"

datatype sgdma_reg =
    S_identifier | S_reserved_1 | S_first_desc_lo | S_first_desc_hi
  | S_first_desc_adjacent | S_credits

definition engine_sgdma_regs :: "(sgdma_reg \<times> nat) list" where
  "engine_sgdma_regs =
    [(S_identifier, 1), (S_reserved_1, 31), (S_first_desc_lo, 1), (S_first_desc_hi, 1),
     (S_first_desc_adjacent, 1), (S_credits, 1)]"

datatype irq_reg =
    I_identifier | I_user_int_enable | I_user_int_enable_w1s | I_user_int_enable_w1c
  | I_channel_int_enable | I_channel_int_enable_w1s | I_channel_int_enable_w1c
  | I_reserved_1 | I_user_int_request | I_channel_int_request | I_user_int_pending
  | I_channel_int_pending | I_reserved_2 | I_user_msi_vector | I_channel_msi_vector

definition interrupt_regs :: "(irq_reg \<times> nat) list" where
  "interrupt_regs =
    [(I_identifier, 1), (I_user_int_enable, 1), (I_user_int_enable_w1s, 1),
     (I_user_int_enable_w1c, 1), (I_channel_int_enable, 1), (I_channel_int_enable_w1s, 1),
     (I_channel_int_enable_w1c, 1), (I_reserved_1, 9),
     (I_user_int_request, 1), (I_channel_int_request, 1), (I_user_int_pending, 1),
     (I_channel_int_pending, 1), (I_reserved_2, 12),
     (I_user_msi_vector, 8), (I_channel_msi_vector, 8)]"

datatype config_reg = C_identifier | C_reserved_1 | C_msi_enable

definition config_regs :: "(config_reg \<times> nat) list" where
  "config_regs = [(C_identifier, 1), (C_reserved_1, 4), (C_msi_enable, 1)]"

datatype common_reg = G_padding | G_credit_feature_enable

definition sgdma_common_regs :: "(common_reg \<times> nat) list" where
  "sgdma_common_regs = [(G_padding, 9), (G_credit_feature_enable, 1)]"

definition XDMA_OFS_INT_CTRL :: u64 where "XDMA_OFS_INT_CTRL = 0x2000"
definition XDMA_OFS_CONFIG :: u64 where "XDMA_OFS_CONFIG = 0x3000"

text \<open>\<open>&engine->regs->f\<close>, \<open>&engine->sgdma_regs->f\<close> and the fields of the other blocks.\<close>

definition ereg :: "u64 \<Rightarrow> eng_reg \<Rightarrow> u64" where
  "ereg p f = p + of_nat (offsetof engine_regs f)"

definition sreg :: "u64 \<Rightarrow> sgdma_reg \<Rightarrow> u64" where
  "sreg p f = p + of_nat (offsetof engine_sgdma_regs f)"

definition ireg :: "u64 \<Rightarrow> irq_reg \<Rightarrow> u64" where
  "ireg bar f = bar + XDMA_OFS_INT_CTRL + of_nat (offsetof interrupt_regs f)"

definition creg :: "u64 \<Rightarrow> config_reg \<Rightarrow> u64" where
  "creg bar f = bar + XDMA_OFS_CONFIG + of_nat (offsetof config_regs f)"

lemma engine_regs_offsets:
  "map (offsetof engine_regs) [E_identifier, E_control, E_control_w1s, E_control_w1c, E_status,
     E_status_rc, E_completed_desc_count, E_alignments, E_poll_mode_wb_lo, E_poll_mode_wb_hi,
     E_interrupt_enable_mask, E_interrupt_enable_mask_w1s, E_interrupt_enable_mask_w1c,
     E_perf_ctrl, E_perf_cyc_lo, E_perf_cyc_hi, E_perf_dat_lo, E_perf_dat_hi, E_perf_pnd_lo,
     E_perf_pnd_hi]
   = [0, 0x4, 0x8, 0xc, 0x40, 0x44, 0x48, 0x4c, 0x88, 0x8c, 0x90, 0x94, 0x98, 0xc0, 0xc4, 0xc8,
      0xcc, 0xd0, 0xd4, 0xd8]"
  by (simp add: engine_regs_def)

lemma offsetof_less: "(f, n) \<in> set l \<Longrightarrow> 0 < n \<Longrightarrow> offsetof l f < sizeof_regs l"
  by (induction l) (force simp: sizeof_regs_def split: if_splits)+

lemma offsetof_aligned: "offsetof l f mod 4 = 0"
  by (induction l) (auto split: if_splits simp: mod_add_left_eq)

lemma offsetof_inj:
  "offsetof l f = offsetof l g \<Longrightarrow> f \<in> fst ` set l \<Longrightarrow> g \<in> fst ` set l \<Longrightarrow>
   (\<And>h n. (h, n) \<in> set l \<Longrightarrow> 0 < n) \<Longrightarrow> f = g"
proof (induction l)
  case Nil
  then show ?case by simp
next
  case (Cons x l)
  obtain h n where x: "x = (h, n)" by (cases x)
  with Cons.prems(4) have n: "0 < n" by auto
  show ?case
  proof (cases "h = f \<or> h = g")
    case True
    with Cons.prems(1) n x show ?thesis by (auto split: if_splits)
  next
    case False
    with Cons.prems x have "offsetof l f = offsetof l g" "f \<in> fst ` set l" "g \<in> fst ` set l"
      by auto
    then show ?thesis using Cons.prems(4) by (intro Cons.IH) auto
  qed
qed

lemma engine_regs_all: "f \<in> fst ` set engine_regs"
  by (cases f) (simp_all add: engine_regs_def)

lemma engine_regs_pos: "(f, n) \<in> set engine_regs \<Longrightarrow> 0 < n"
  by (auto simp: engine_regs_def)

lemma sgdma_regs_all: "f \<in> fst ` set engine_sgdma_regs"
  by (cases f) (simp_all add: engine_sgdma_regs_def)

lemma sgdma_regs_pos: "(f, n) \<in> set engine_sgdma_regs \<Longrightarrow> 0 < n"
  by (auto simp: engine_sgdma_regs_def)

lemma offsetof_engine_bound: "offsetof engine_regs f < 0xdc"
  by (cases f) (simp_all add: engine_regs_def)

lemma offsetof_sgdma_bound: "offsetof engine_sgdma_regs f < 0x90"
  by (cases f) (simp_all add: engine_sgdma_regs_def)

lemma of_nat_u64_inj: "of_nat m = (of_nat n :: u64) \<Longrightarrow> m < 2 ^ 64 \<Longrightarrow> n < 2 ^ 64 \<Longrightarrow> m = n"
  by (drule arg_cong [where f = unat]) (simp add: unat_of_nat)

lemma ereg_inj [simp]: "ereg p f = ereg p g \<longleftrightarrow> f = g"
proof
  assume "ereg p f = ereg p g"
  then have "of_nat (offsetof engine_regs f) = (of_nat (offsetof engine_regs g) :: u64)"
    by (simp add: ereg_def)
  then have "offsetof engine_regs f = offsetof engine_regs g"
    using offsetof_engine_bound [of f] offsetof_engine_bound [of g] by (auto intro: of_nat_u64_inj)
  then show "f = g"
    by (rule offsetof_inj) (auto intro: engine_regs_all engine_regs_pos)
qed simp

lemma sreg_inj [simp]: "sreg p f = sreg p g \<longleftrightarrow> f = g"
proof
  assume "sreg p f = sreg p g"
  then have "of_nat (offsetof engine_sgdma_regs f) = (of_nat (offsetof engine_sgdma_regs g) :: u64)"
    by (simp add: sreg_def)
  then have "offsetof engine_sgdma_regs f = offsetof engine_sgdma_regs g"
    using offsetof_sgdma_bound [of f] offsetof_sgdma_bound [of g] by (auto intro: of_nat_u64_inj)
  then show "f = g"
    by (rule offsetof_inj) (auto intro: sgdma_regs_all sgdma_regs_pos)
qed simp

section \<open>Words out of halves\<close>

definition build_u32 :: "u32 \<Rightarrow> u32 \<Rightarrow> u32" where
  "build_u32 hi lo = push_bit 16 (hi AND 0xFFFF) OR (lo AND 0xFFFF)"

definition build_u64 :: "u64 \<Rightarrow> u64 \<Rightarrow> u64" where
  "build_u64 hi lo = push_bit 32 (hi AND 0xFFFFFFF) OR (lo AND 0xFFFFFFFF)"

definition PCI_DMA_H :: "u64 \<Rightarrow> u32" where
  "PCI_DMA_H a = ucast (drop_bit 16 (drop_bit 16 a))"

definition PCI_DMA_L :: "u64 \<Rightarrow> u32" where
  "PCI_DMA_L a = ucast (a AND 0xffffffff)"

text \<open>The address two halves of a descriptor field stand for.\<close>

definition addr_of :: "u32 \<Rightarrow> u32 \<Rightarrow> u64" where
  "addr_of hi lo = push_bit 32 (ucast hi) OR ucast lo"

lemma low_half_mask: "(0xffffffff :: 'a::len word) = mask 32"
  by (simp add: mask_eq_exp_minus_1)

lemma addr_of_halves [simp]: "addr_of (PCI_DMA_H a) (PCI_DMA_L a) = a"
  unfolding addr_of_def PCI_DMA_H_def PCI_DMA_L_def low_half_mask
  by (rule bit_word_eqI) (auto simp: bit_simps drop_bit_drop_bit)

lemma addr_of_0 [simp]: "addr_of 0 0 = 0"
  by (simp add: addr_of_def)

lemma halves_inj: "PCI_DMA_H a = PCI_DMA_H b \<Longrightarrow> PCI_DMA_L a = PCI_DMA_L b \<Longrightarrow> a = b"
  by (metis addr_of_halves)

section \<open>Interrupt controller\<close>

definition channel_interrupts_enable :: "u64 \<Rightarrow> u32 \<Rightarrow> bus \<Rightarrow> bus" where
  "channel_interrupts_enable cfg_bar msk b = write_register msk (ireg cfg_bar I_channel_int_enable_w1s) b"

definition channel_interrupts_disable :: "u64 \<Rightarrow> u32 \<Rightarrow> bus \<Rightarrow> bus" where
  "channel_interrupts_disable cfg_bar msk b = write_register msk (ireg cfg_bar I_channel_int_enable_w1c) b"

definition user_interrupts_enable :: "u64 \<Rightarrow> u32 \<Rightarrow> bus \<Rightarrow> bus" where
  "user_interrupts_enable cfg_bar msk b = write_register msk (ireg cfg_bar I_user_int_enable_w1s) b"

definition user_interrupts_disable :: "u64 \<Rightarrow> u32 \<Rightarrow> bus \<Rightarrow> bus" where
  "user_interrupts_disable cfg_bar msk b = write_register msk (ireg cfg_bar I_user_int_enable_w1c) b"

definition read_interrupts :: "u64 \<Rightarrow> bus \<Rightarrow> u32 \<times> bus" where
  "read_interrupts cfg_bar b =
    (let (hi, b) = read_register (ireg cfg_bar I_user_int_request) b;
         (lo, b) = read_register (ireg cfg_bar I_channel_int_request) b
     in (build_u32 hi lo, b))"

end
