(* ===== verification/Desc.thy ===== *)
theory Desc
  imports Mmio
begin

text \<open>
  SG DMA descriptors: \<open>struct xdma_desc\<close> of \<open>include/xdma-core.h\<close> and the \<open>xdma_desc_*\<close>
  functions of \<open>driver/xdma-core.c\<close>. The descriptor's words are little endian in memory; on
  the little-endian hosts the driver supports \<open>cpu_to_le32\<close> is the identity. The last section
  says what the hardware reads: \<open>hw_walk\<close> follows the next pointers through the descriptor
  table until a descriptor has the STOPPED bit.
\<close>

unbundle bit_operations_syntax

record xdma_desc =
  d_control :: u32
  d_bytes :: u32
  d_src_addr_lo :: u32
  d_src_addr_hi :: u32
  d_dst_addr_lo :: u32
  d_dst_addr_hi :: u32
  d_next_lo :: u32
  d_next_hi :: u32

definition sizeof_xdma_desc :: nat where "sizeof_xdma_desc = 32"

definition XDMA_DESC_STOPPED :: u32 where "XDMA_DESC_STOPPED = 0x1"
definition XDMA_DESC_COMPLETED :: u32 where "XDMA_DESC_COMPLETED = 0x2"
definition XDMA_DESC_EOP :: u32 where "XDMA_DESC_EOP = 0x10"
definition LS_BYTE_MASK :: u32 where "LS_BYTE_MASK = 0xFF"
definition DESC_MAGIC :: u32 where "DESC_MAGIC = 0xAD4B0000"
definition MAX_EXTRA_ADJ :: int where "MAX_EXTRA_ADJ = 15"
definition XDMA_DESC_MAX_BYTES :: u32 where "XDMA_DESC_MAX_BYTES = 0x3FFFF"

lemmas desc_consts [bits] = XDMA_DESC_STOPPED_def XDMA_DESC_COMPLETED_def XDMA_DESC_EOP_def
  LS_BYTE_MASK_def DESC_MAGIC_def

section \<open>Operations\<close>

text \<open>
  \<open>xdma_desc_alloc\<close>: \<open>buf\<close> is what \<open>pci_alloc_consistent\<close> returned (the memory as it was and
  its bus address, or nothing). The result \<open>None\<close> is a panic, \<open>Some None\<close> the null pointer.
\<close>

definition clamp_adj :: "int \<Rightarrow> int" where
  "clamp_adj extra_adj = (if extra_adj > MAX_EXTRA_ADJ then MAX_EXTRA_ADJ else extra_adj)"

fun desc_alloc_loop :: "nat \<Rightarrow> nat \<Rightarrow> u64 \<Rightarrow> int \<Rightarrow> xdma_desc list \<Rightarrow> xdma_desc list option" where
  "desc_alloc_loop 0 i desc_bus adj ds =
     set_index i (\<lambda>d. d\<lparr>d_next_lo := 0, d_next_hi := 0, d_bytes := 0, d_control := DESC_MAGIC\<rparr>) ds"
| "desc_alloc_loop (Suc k) i desc_bus adj ds = do {
     let desc_bus = desc_bus + of_nat sizeof_xdma_desc;
     let extra_adj = (if adj > 0 then clamp_adj (adj - 1) else 0);
     let adj' = (if adj > 0 then adj - 1 else adj);
     ds \<leftarrow> set_index i (\<lambda>d. d\<lparr>d_next_lo := PCI_DMA_L desc_bus, d_next_hi := PCI_DMA_H desc_bus,
            d_bytes := 0, d_control := DESC_MAGIC OR push_bit 8 (word_of_int extra_adj)\<rparr>) ds;
     desc_alloc_loop k (Suc i) desc_bus adj' ds
   }"

definition xdma_desc_alloc ::
  "nat \<Rightarrow> (xdma_desc list \<times> u64) option \<Rightarrow> (xdma_desc list \<times> u64) option option" where
  "xdma_desc_alloc number buf = do {
     BUG_ON (number < 1);
     (case buf of
        None \<Rightarrow> Some None
      | Some (mem, desc_bus) \<Rightarrow>
          map_option (\<lambda>ds. Some (ds, desc_bus))
            (desc_alloc_loop (number - 1) 0 desc_bus (int number - 1) mem))
   }"

text \<open>\<open>second\<close> is the bus address of the second descriptor when there is one.\<close>

definition xdma_desc_link :: "xdma_desc \<Rightarrow> u64 option \<Rightarrow> xdma_desc" where
  "xdma_desc_link first second =
    (let control = d_control first AND 0x0000f0ff;
         first = (case second of
             Some second_bus \<Rightarrow> first\<lparr>d_next_lo := PCI_DMA_L second_bus, d_next_hi := PCI_DMA_H second_bus\<rparr>
           | None \<Rightarrow> first\<lparr>d_next_lo := 0, d_next_hi := 0\<rparr>)
     in first\<lparr>d_control := control OR DESC_MAGIC\<rparr>)"

definition xdma_desc_adjacent :: "xdma_desc \<Rightarrow> int \<Rightarrow> xdma_desc" where
  "xdma_desc_adjacent desc next_adjacent =
    (let control = d_control desc AND 0x0000f0ff;
         extra_adj =
           (if next_adjacent > 0 then
              let extra_adj = clamp_adj (next_adjacent - 1);
                  max_adj_4k = (0x1000 - (d_next_lo desc AND 0xFFF)) div 32 - 1 :: u32;
                  extra_adj = (if word_of_int extra_adj > max_adj_4k then sint max_adj_4k else extra_adj)
              in (if extra_adj < 0 then 0 else extra_adj)
            else 0)
     in desc\<lparr>d_control := control OR (0xAD4B0000 OR push_bit 8 (word_of_int extra_adj))\<rparr>)"

definition xdma_desc_control :: "xdma_desc \<Rightarrow> u32 \<Rightarrow> xdma_desc option" where
  "xdma_desc_control first control_field = do {
     let control = d_control first AND NOT LS_BYTE_MASK;
     BUG_ON (control_field AND NOT LS_BYTE_MASK \<noteq> 0);
     Some (first\<lparr>d_control := control OR control_field\<rparr>)
   }"

definition xdma_desc_control_clear :: "xdma_desc \<Rightarrow> u32 \<Rightarrow> xdma_desc option" where
  "xdma_desc_control_clear first clear_mask = do {
     BUG_ON (clear_mask AND NOT LS_BYTE_MASK \<noteq> 0);
     Some (first\<lparr>d_control := d_control first AND NOT clear_mask\<rparr>)
   }"

definition xdma_desc_control_set :: "xdma_desc \<Rightarrow> u32 \<Rightarrow> xdma_desc option" where
  "xdma_desc_control_set first set_mask = do {
     BUG_ON (set_mask AND NOT LS_BYTE_MASK \<noteq> 0);
     Some (first\<lparr>d_control := d_control first OR set_mask\<rparr>)
   }"

definition xdma_desc_set :: "xdma_desc \<Rightarrow> u64 \<Rightarrow> u64 \<Rightarrow> u32 \<Rightarrow> bool \<Rightarrow> xdma_desc" where
  "xdma_desc_set desc rc_bus_addr ep_addr len to_dev =
    (let desc = desc\<lparr>d_bytes := len\<rparr>
     in if to_dev then
          desc\<lparr>d_src_addr_lo := PCI_DMA_L rc_bus_addr, d_src_addr_hi := PCI_DMA_H rc_bus_addr,
               d_dst_addr_lo := PCI_DMA_L ep_addr, d_dst_addr_hi := PCI_DMA_H ep_addr\<rparr>
        else
          desc\<lparr>d_src_addr_lo := PCI_DMA_L ep_addr, d_src_addr_hi := PCI_DMA_H ep_addr,
               d_dst_addr_lo := PCI_DMA_L rc_bus_addr, d_dst_addr_hi := PCI_DMA_H rc_bus_addr\<rparr>)"

definition xdma_desc_set_source :: "xdma_desc \<Rightarrow> u64 \<Rightarrow> xdma_desc" where
  "xdma_desc_set_source desc source =
    desc\<lparr>d_src_addr_lo := PCI_DMA_L source, d_src_addr_hi := PCI_DMA_H source\<rparr>"

section \<open>What the hardware sees of a descriptor\<close>

definition desc_next :: "xdma_desc \<Rightarrow> u64" where
  "desc_next d = addr_of (d_next_hi d) (d_next_lo d)"

definition desc_src :: "xdma_desc \<Rightarrow> u64" where
  "desc_src d = addr_of (d_src_addr_hi d) (d_src_addr_lo d)"

definition desc_dst :: "xdma_desc \<Rightarrow> u64" where
  "desc_dst d = addr_of (d_dst_addr_hi d) (d_dst_addr_lo d)"

definition desc_host :: "bool \<Rightarrow> xdma_desc \<Rightarrow> u64" where
  "desc_host to_dev d = (if to_dev then desc_src d else desc_dst d)"

definition desc_ep :: "bool \<Rightarrow> xdma_desc \<Rightarrow> u64" where
  "desc_ep to_dev d = (if to_dev then desc_dst d else desc_src d)"

definition desc_magic_ok :: "xdma_desc \<Rightarrow> bool" where
  "desc_magic_ok d \<longleftrightarrow> drop_bit 16 (d_control d) = 0xAD4B"

definition desc_extra_adj :: "xdma_desc \<Rightarrow> nat" where
  "desc_extra_adj d = unat (take_bit 4 (drop_bit 8 (d_control d)))"

definition desc_ctl :: "xdma_desc \<Rightarrow> u32" where
  "desc_ctl d = take_bit 8 (d_control d)"

definition desc_stopped :: "xdma_desc \<Rightarrow> bool" where
  "desc_stopped d \<longleftrightarrow> desc_ctl d AND XDMA_DESC_STOPPED \<noteq> 0"

text \<open>Descriptor memory at a bus address, and the walk of the engine over it.\<close>

definition desc_at :: "u64 \<Rightarrow> xdma_desc list \<Rightarrow> u64 \<Rightarrow> xdma_desc option" where
  "desc_at bus_addr ds a =
    (let off = unat (a - bus_addr)
     in if off mod sizeof_xdma_desc = 0 \<and> off div sizeof_xdma_desc < length ds
        then Some (ds ! (off div sizeof_xdma_desc)) else None)"

fun hw_walk :: "nat \<Rightarrow> u64 \<Rightarrow> xdma_desc list \<Rightarrow> u64 \<Rightarrow> xdma_desc list option" where
  "hw_walk 0 b ds a = None"
| "hw_walk (Suc fuel) b ds a = do {
     d \<leftarrow> desc_at b ds a;
     (if desc_stopped d then Some [d] else map_option ((#) d) (hw_walk fuel b ds (desc_next d)))
   }"

section \<open>Addresses\<close>

lemma desc_set_addrs [simp]:
  "desc_host t (xdma_desc_set d host_a ep_a n t) = host_a"
  "desc_ep t (xdma_desc_set d host_a ep_a n t) = ep_a"
  "d_bytes (xdma_desc_set d host_a ep_a n t) = n"
  "d_control (xdma_desc_set d host_a ep_a n t) = d_control d"
  "desc_next (xdma_desc_set d host_a ep_a n t) = desc_next d"
  by (simp_all add: xdma_desc_set_def desc_host_def desc_ep_def desc_src_def desc_dst_def
      desc_next_def Let_def)

lemma desc_link_next [simp]:
  "desc_next (xdma_desc_link d (Some a)) = a"
  "desc_next (xdma_desc_link d None) = 0"
  by (simp_all add: xdma_desc_link_def desc_next_def Let_def)

lemma desc_link_data [simp]:
  "d_bytes (xdma_desc_link d x) = d_bytes d"
  "desc_src (xdma_desc_link d x) = desc_src d"
  "desc_dst (xdma_desc_link d x) = desc_dst d"
  by (simp_all add: xdma_desc_link_def desc_src_def desc_dst_def Let_def split: option.splits)

lemma desc_adjacent_data [simp]:
  "d_bytes (xdma_desc_adjacent d n) = d_bytes d"
  "desc_src (xdma_desc_adjacent d n) = desc_src d"
  "desc_dst (xdma_desc_adjacent d n) = desc_dst d"
  "desc_next (xdma_desc_adjacent d n) = desc_next d"
  by (simp_all add: xdma_desc_adjacent_def desc_src_def desc_dst_def desc_next_def Let_def)

lemma host_ep_cong:
  "desc_src d = desc_src d' \<Longrightarrow> desc_dst d = desc_dst d' \<Longrightarrow>
   desc_host t d = desc_host t d' \<and> desc_ep t d = desc_ep t d'"
  by (simp add: desc_host_def desc_ep_def)

lemma desc_set_source_data [simp]:
  "desc_src (xdma_desc_set_source d a) = a"
  "desc_dst (xdma_desc_set_source d a) = desc_dst d"
  "desc_next (xdma_desc_set_source d a) = desc_next d"
  "d_bytes (xdma_desc_set_source d a) = d_bytes d"
  "d_control (xdma_desc_set_source d a) = d_control d"
  by (simp_all add: xdma_desc_set_source_def desc_src_def desc_dst_def desc_next_def)

section \<open>The control word\<close>

lemma and_ff: "(w :: u32) AND 0xFF = take_bit 8 w"
  by (simp add: take_bit_eq_mask mask_eq_exp_minus_1)

lemma ctl_f0ff: "take_bit 8 ((w :: u32) AND 0xf0ff) = take_bit 8 w"
  by (simp add: take_bit_and and_ff)

lemma desc_link_ctl [simp]: "desc_ctl (xdma_desc_link d x) = desc_ctl d"
  by (simp add: desc_ctl_def xdma_desc_link_def Let_def take_bit_or ctl_f0ff DESC_MAGIC_def and_ff split: option.splits)

lemma desc_link_magic [simp]: "desc_magic_ok (xdma_desc_link d x)"
  by (simp add: desc_magic_ok_def xdma_desc_link_def Let_def drop_bit_or drop_bit_and DESC_MAGIC_def split: option.splits)

definition adj_value :: "u32 \<Rightarrow> int \<Rightarrow> int" where
  "adj_value next_lo n =
    (if n > 0 then
       let extra_adj = clamp_adj (n - 1);
           max_adj_4k = (0x1000 - (next_lo AND 0xFFF)) div 32 - 1 :: u32;
           extra_adj = (if word_of_int extra_adj > max_adj_4k then sint max_adj_4k else extra_adj)
       in (if extra_adj < 0 then 0 else extra_adj)
     else 0)"

lemma desc_adjacent_control:
  "d_control (xdma_desc_adjacent d n) =
   (d_control d AND 0xf0ff) OR (0xAD4B0000 OR push_bit 8 (word_of_int (adj_value (d_next_lo d) n)))"
  by (simp add: xdma_desc_adjacent_def adj_value_def Let_def)

lemma small_int_cases: "0 \<le> (e :: int) \<Longrightarrow> e \<le> 15 \<Longrightarrow> e \<in> set [0..15]"
  by simp

lemma adj_field:
  assumes "0 \<le> e" "e \<le> 15"
  shows "take_bit 8 (push_bit 8 (word_of_int e :: u32)) = 0"
    and "drop_bit 16 (push_bit 8 (word_of_int e :: u32)) = 0"
    and "unat (take_bit 4 (drop_bit 8 (push_bit 8 (word_of_int e :: u32)))) = nat e"
    and "unat (word_of_int e :: u32) = nat e"
  using small_int_cases [OF assms] by (auto simp: upto_rec_numeral upto.simps)

lemma take12: "(w :: u32) AND 0xFFF = take_bit 12 w"
  by (simp add: take_bit_eq_mask mask_eq_exp_minus_1)

lemma max_adj_4k:
  fixes w :: u32
  assumes "unat (take_bit 12 w) \<le> 4064"
  shows "unat ((0x1000 - (w AND 0xFFF)) div 32 - 1) = (4096 - unat (take_bit 12 w)) div 32 - 1"
proof -
  let ?v = "take_bit 12 w"
  from assms have le: "?v \<le> 0x1000" by (simp add: word_le_nat_alt)
  have q: "unat ((0x1000 - ?v) div 32) = (4096 - unat ?v) div 32"
    using le by (simp add: unat_div unat_sub)
  with assms have "1 \<le> (0x1000 - ?v) div 32"
    by (simp add: word_le_nat_alt)
  with q show ?thesis by (simp add: take12 unat_sub)
qed

lemma div_32_room: "m \<le> (4096 - d) div 32 - 1 \<Longrightarrow> d \<le> 4064 \<Longrightarrow> d + 32 * (m + 1) \<le> (4096 :: nat)"
  using div_times_less_eq_dividend [of "4096 - d" 32] div_le_mono [of 32 "4096 - d" 32] by auto

lemma if_min: "(if c > q then q else c) = min (c :: int) q"
  by (simp add: min_def)

lemma adj_value_range:
  assumes "d mod 32 = 0" and d: "d = unat (take_bit 12 w)"
  shows "0 \<le> adj_value w n" and "adj_value w n \<le> 15"
    and "d + 32 * (nat (adj_value w n) + 1) \<le> 4096"
    and "n > 0 \<Longrightarrow> nat (adj_value w n) = min (min (nat n - 1) 15) ((4096 - d) div 32 - 1)"
proof -
  have "d < 4096" using d by (simp add: unsigned_take_bit_eq take_bit_nat_less_exp [of 12, simplified])
  then have "d div 32 \<le> 127" by (simp add: less_mult_imp_div_less)
  with assms(1) have le: "d \<le> 4064" using mult_div_mod_eq [of 32 d] by simp
  let ?m = "(0x1000 - (w AND 0xFFF)) div 32 - 1 :: u32"
  have m: "unat ?m = (4096 - d) div 32 - 1"
    using max_adj_4k [of w] le d by simp
  then have sm: "sint ?m = int ((4096 - d) div 32 - 1)"
    using le by (subst sint_small) auto
  let ?c = "clamp_adj (n - 1)"
  have c: "n > 0 \<Longrightarrow> 0 \<le> ?c \<and> ?c \<le> 15"
    by (simp add: clamp_adj_def MAX_EXTRA_ADJ_def)
  have cw: "n > 0 \<Longrightarrow> unat (word_of_int ?c :: u32) = nat ?c"
    using c adj_field(4) by blast
  have gt: "n > 0 \<Longrightarrow> word_of_int ?c > ?m \<longleftrightarrow> ?c > int ((4096 - d) div 32 - 1)"
    by (simp only: word_less_nat_alt m cw zless_nat_eq_int_zless)
  show "0 \<le> adj_value w n" "adj_value w n \<le> 15"
    using c gt sm by (auto simp: adj_value_def Let_def)
  have "adj_value w n \<le> int ((4096 - d) div 32 - 1)"
    using c gt sm by (auto simp: adj_value_def Let_def not_less)
  then have "nat (adj_value w n) \<le> (4096 - d) div 32 - 1"
    by (simp only: nat_le_iff)
  then show "d + 32 * (nat (adj_value w n) + 1) \<le> 4096"
    using le by (rule div_32_room)
  show "nat (adj_value w n) = min (min (nat n - 1) 15) ((4096 - d) div 32 - 1)" if "n > 0"
  proof -
    have "adj_value w n = (if ?c > int ((4096 - d) div 32 - 1) then int ((4096 - d) div 32 - 1) else ?c)"
      using that c [OF that] sm gt [OF that] by (simp add: adj_value_def Let_def)
    also have "\<dots> = min ?c (int ((4096 - d) div 32 - 1))" by (rule if_min)
    also have "?c = int (min (nat n - 1) 15)"
      using that by (simp add: clamp_adj_def MAX_EXTRA_ADJ_def of_nat_diff)
    finally show ?thesis by (simp only: nat_int flip: of_nat_min)
  qed
qed

lemma adjacent_ctl:
  assumes "0 \<le> adj_value (d_next_lo d) n" "adj_value (d_next_lo d) n \<le> 15"
  shows "desc_ctl (xdma_desc_adjacent d n) = desc_ctl d"
    and "desc_magic_ok (xdma_desc_adjacent d n)"
    and "desc_extra_adj (xdma_desc_adjacent d n) = nat (adj_value (d_next_lo d) n)"
proof -
  show "desc_ctl (xdma_desc_adjacent d n) = desc_ctl d"
    using adj_field(1) [OF assms]
    by (simp add: desc_ctl_def desc_adjacent_control take_bit_or ctl_f0ff and_ff)
  show "desc_magic_ok (xdma_desc_adjacent d n)"
    using adj_field(2) [OF assms]
    by (simp add: desc_magic_ok_def desc_adjacent_control drop_bit_or drop_bit_and)
  show "desc_extra_adj (xdma_desc_adjacent d n) = nat (adj_value (d_next_lo d) n)"
    using adj_field(3) [OF assms]
    by (simp add: desc_extra_adj_def desc_adjacent_control drop_bit_or drop_bit_and take_bit_or
        take_bit_and)
qed

section \<open>Edits of the control field\<close>

text \<open>
  What the three functions that change the low byte of the control word have in common: with a
  mask inside the byte they succeed and leave the magic number, the adjacency and the data
  of the descriptor alone; with any other mask they panic.
\<close>

definition desc_frame :: "xdma_desc \<Rightarrow> xdma_desc \<Rightarrow> bool" where
  "desc_frame d d' \<longleftrightarrow>
     d'\<lparr>d_control := 0\<rparr> = d\<lparr>d_control := 0\<rparr> \<and> drop_bit 8 (d_control d') = drop_bit 8 (d_control d)"

definition ctl_field :: "u32 \<Rightarrow> bool" where
  "ctl_field m \<longleftrightarrow> m AND NOT LS_BYTE_MASK = 0"

lemma desc_frame_refl [simp]: "desc_frame d d"
  by (simp add: desc_frame_def)

lemma desc_frame_trans: "desc_frame a b \<Longrightarrow> desc_frame b c \<Longrightarrow> desc_frame a c"
  by (simp add: desc_frame_def)

lemma desc_frame_data:
  assumes "desc_frame d d'"
  shows "d_bytes d' = d_bytes d" "desc_src d' = desc_src d" "desc_dst d' = desc_dst d"
    "desc_next d' = desc_next d" "desc_magic_ok d' = desc_magic_ok d"
    "desc_extra_adj d' = desc_extra_adj d" "desc_host t d' = desc_host t d" "desc_ep t d' = desc_ep t d"
proof -
  obtain c c' where d: "d' = d\<lparr>d_control := c\<rparr>" "drop_bit 8 c = drop_bit 8 (d_control d)"
    using assms unfolding desc_frame_def by (cases d, cases d') simp
  have "drop_bit 16 c = drop_bit 8 (drop_bit 8 c)" by (simp add: drop_bit_drop_bit)
  also have "\<dots> = drop_bit 16 (d_control d)" by (simp add: d drop_bit_drop_bit)
  finally have "drop_bit 16 c = drop_bit 16 (d_control d)" .
  with d show "d_bytes d' = d_bytes d" "desc_src d' = desc_src d" "desc_dst d' = desc_dst d"
    "desc_next d' = desc_next d" "desc_magic_ok d' = desc_magic_ok d"
    "desc_extra_adj d' = desc_extra_adj d" "desc_host t d' = desc_host t d" "desc_ep t d' = desc_ep t d"
    by (simp_all add: desc_src_def desc_dst_def desc_next_def desc_magic_ok_def desc_extra_adj_def
        desc_host_def desc_ep_def)
qed

lemma field_mask: "LS_BYTE_MASK = mask 8"
  by (simp add: LS_BYTE_MASK_def mask_eq_exp_minus_1)

lemma ctl_field_iff: "ctl_field m \<longleftrightarrow> take_bit 8 m = m"
  unfolding ctl_field_def field_mask by (auto simp: bit_eq_iff bit_simps)

locale ctl_edit =
  fixes edit :: "xdma_desc \<Rightarrow> u32 \<Rightarrow> xdma_desc option"
    and val :: "u32 \<Rightarrow> u32 \<Rightarrow> u32"
  assumes edit_field: "ctl_field m \<Longrightarrow>
      \<exists>d'. edit d m = Some d' \<and> desc_frame d d' \<and> desc_ctl d' = val (desc_ctl d) m"
    and edit_panic: "\<not> ctl_field m \<Longrightarrow> edit d m = None"
begin

lemma edit_total: "(\<exists>d'. edit d m = Some d') \<longleftrightarrow> ctl_field m"
  using edit_field edit_panic by fastforce

lemma edit_frame: "edit d m = Some d' \<Longrightarrow> desc_frame d d'"
  using edit_field edit_panic by (metis option.inject option.distinct(1))

lemma edit_ctl: "edit d m = Some d' \<Longrightarrow> desc_ctl d' = val (desc_ctl d) m"
  using edit_field edit_panic by (metis option.inject option.distinct(1))

lemma edit_keeps_data: "edit d m = Some d' \<Longrightarrow> desc_next d' = desc_next d \<and> d_bytes d' = d_bytes d \<and>
    desc_src d' = desc_src d \<and> desc_dst d' = desc_dst d \<and> desc_magic_ok d' = desc_magic_ok d"
  using desc_frame_data [OF edit_frame] by blast

end

lemma field_bit: "ctl_field m \<Longrightarrow> bit m n \<Longrightarrow> n < 8"
  by (metis ctl_field_iff bit_take_bit_iff)

lemma field_edits:
  assumes "ctl_field m"
  shows "take_bit 8 (c AND NOT LS_BYTE_MASK) = 0"
    and "drop_bit 8 (c AND NOT LS_BYTE_MASK) = drop_bit 8 c"
    and "take_bit 8 (c AND NOT m) = take_bit 8 c AND NOT m"
    and "drop_bit 8 (c AND NOT m) = drop_bit 8 c"
    and "take_bit 8 (c OR m) = take_bit 8 c OR m"
    and "drop_bit 8 (c OR m) = drop_bit 8 c"
  using field_bit [OF assms] unfolding field_mask
  by (auto simp: bit_eq_iff bit_simps dest: field_bit [OF assms] bit_imp_le_length)

interpretation ce_all: ctl_edit xdma_desc_control "\<lambda>_ m. m"
proof
  fix m :: u32 and d
  assume "ctl_field m"
  then show "\<exists>d'. xdma_desc_control d m = Some d' \<and> desc_frame d d' \<and> desc_ctl d' = m"
    by (simp add: xdma_desc_control_def ctl_field_def [symmetric] desc_frame_def desc_ctl_def field_edits
        del: take_bit_or take_bit_and drop_bit_or drop_bit_and)
qed (simp add: xdma_desc_control_def ctl_field_def)

interpretation ce_clear: ctl_edit xdma_desc_control_clear "\<lambda>c m. c AND NOT m"
proof
  fix m :: u32 and d
  assume "ctl_field m"
  then show "\<exists>d'. xdma_desc_control_clear d m = Some d' \<and> desc_frame d d' \<and>
      desc_ctl d' = desc_ctl d AND NOT m"
    by (simp add: xdma_desc_control_clear_def ctl_field_def [symmetric] desc_frame_def desc_ctl_def field_edits
        del: take_bit_or take_bit_and drop_bit_or drop_bit_and)
qed (simp add: xdma_desc_control_clear_def ctl_field_def)

interpretation ce_set: ctl_edit xdma_desc_control_set "\<lambda>c m. c OR m"
proof
  fix m :: u32 and d
  assume "ctl_field m"
  then show "\<exists>d'. xdma_desc_control_set d m = Some d' \<and> desc_frame d d' \<and>
      desc_ctl d' = desc_ctl d OR m"
    by (simp add: xdma_desc_control_set_def ctl_field_def [symmetric] desc_frame_def desc_ctl_def field_edits
        del: take_bit_or take_bit_and drop_bit_or drop_bit_and)
qed (simp add: xdma_desc_control_set_def ctl_field_def)

section \<open>The chain \<open>xdma_desc_alloc\<close> builds\<close>

text \<open>Descriptor \<open>k\<close> of a fresh table of \<open>n\<close> at \<open>b\<close>.\<close>

definition fresh_desc :: "nat \<Rightarrow> u64 \<Rightarrow> nat \<Rightarrow> xdma_desc \<Rightarrow> bool" where
  "fresh_desc n b k d \<longleftrightarrow> d_bytes d = 0 \<and> desc_magic_ok d \<and> desc_ctl d = 0 \<and>
     desc_next d = (if Suc k < n then b + of_nat (32 * Suc k) else 0) \<and>
     desc_extra_adj d = (if Suc k < n then min (n - 2 - k) 15 else 0)"

lemma adj_of_alloc:
  assumes "0 \<le> e" "e \<le> 15"
  shows "desc_magic_ok (d\<lparr>d_control := DESC_MAGIC OR push_bit 8 (word_of_int e)\<rparr>)"
    and "desc_ctl (d\<lparr>d_control := DESC_MAGIC OR push_bit 8 (word_of_int e)\<rparr>) = 0"
    and "desc_extra_adj (d\<lparr>d_control := DESC_MAGIC OR push_bit 8 (word_of_int e)\<rparr>) = nat e"
  using adj_field [OF assms]
  by (simp_all add: desc_magic_ok_def desc_ctl_def desc_extra_adj_def DESC_MAGIC_def drop_bit_or
      take_bit_or)

lemma desc_alloc_loop_spec:
  "i + k < length ds \<Longrightarrow> a = b + of_nat (32 * i) \<Longrightarrow> adj = int k \<Longrightarrow>
   \<exists>ds'. desc_alloc_loop k i a adj ds = Some ds' \<and> length ds' = length ds \<and>
     (\<forall>j. j < i \<or> i + k < j \<longrightarrow> ds' ! j = ds ! j) \<and>
     (\<forall>j. i \<le> j \<longrightarrow> j \<le> i + k \<longrightarrow> fresh_desc (i + k + 1) b j (ds' ! j))"
proof (induction k arbitrary: i a adj ds)
  case 0
  have "fresh_desc (i + 0 + 1) b i ((ds ! i)\<lparr>d_next_lo := 0, d_next_hi := 0, d_bytes := 0, d_control := DESC_MAGIC\<rparr>)"
    by (simp add: fresh_desc_def desc_magic_ok_def desc_ctl_def desc_next_def desc_extra_adj_def DESC_MAGIC_def)
  with 0 show ?case by (auto simp: le_antisym)
next
  case (Suc k)
  let ?a = "a + of_nat sizeof_xdma_desc"
  let ?e = "if adj > 0 then clamp_adj (adj - 1) else 0"
  let ?d = "(ds ! i)\<lparr>d_next_lo := PCI_DMA_L ?a, d_next_hi := PCI_DMA_H ?a, d_bytes := 0,
      d_control := DESC_MAGIC OR push_bit 8 (word_of_int ?e)\<rparr>"
  let ?ds = "ds[i := ?d]"
  have e: "?e = min (int k) 15" using Suc.prems(3) by (simp add: clamp_adj_def MAX_EXTRA_ADJ_def min_def)
  have a: "?a = b + of_nat (32 * Suc i)"
    using Suc.prems(2) by (simp add: sizeof_xdma_desc_def)
  have fresh: "fresh_desc (Suc i + k + 1) b i ?d"
    using adj_of_alloc [of ?e "(ds ! i)\<lparr>d_next_lo := PCI_DMA_L ?a, d_next_hi := PCI_DMA_H ?a, d_bytes := 0\<rparr>"]
    unfolding fresh_desc_def e by (simp add: a desc_next_def)
  obtain ds' where ds': "desc_alloc_loop k (Suc i) ?a (adj - 1) ?ds = Some ds'"
    and len: "length ds' = length ds"
    and out: "\<And>j. j < Suc i \<or> Suc i + k < j \<Longrightarrow> ds' ! j = ?ds ! j"
    and ins: "\<And>j. Suc i \<le> j \<Longrightarrow> j \<le> Suc i + k \<Longrightarrow> fresh_desc (Suc i + k + 1) b j (ds' ! j)"
  proof -
    have "Suc i + k < length ?ds" "adj - 1 = int k" using Suc.prems by simp_all
    from Suc.IH [OF this(1) a this(2)] that show thesis
      by (auto simp only: length_list_update)
  qed
  have run: "desc_alloc_loop (Suc k) i a adj ds = Some ds'"
    using Suc.prems ds' by (simp add: Let_def)
  have "fresh_desc (i + Suc k + 1) b j (ds' ! j)" if "i \<le> j" "j \<le> i + Suc k" for j
  proof (cases "j = i")
    case True
    then have "ds' ! j = ?d" using out [of i] Suc.prems(1) by simp
    with fresh True show ?thesis by simp
  next
    case False
    with that ins [of j] show ?thesis by simp
  qed
  moreover have "ds' ! j = ds ! j" if "j < i \<or> i + Suc k < j" for j
    using out [of j] that by (auto simp: nth_list_update)
  ultimately show ?case using run len by blast
qed

section \<open>The walk over a chain\<close>

text \<open>The first \<open>n\<close> descriptors of the table \<open>ds\<close> at bus address \<open>b\<close> are chained.\<close>

definition desc_chain :: "u64 \<Rightarrow> nat \<Rightarrow> xdma_desc list \<Rightarrow> bool" where
  "desc_chain b n ds \<longleftrightarrow> 32 * length ds < 2 ^ 64 \<and> n \<le> length ds \<and>
     (\<forall>k < n - 1. desc_next (ds ! k) = b + of_nat (32 * Suc k))"

lemma desc_at_index:
  assumes "k < length ds" "32 * length ds < 2 ^ 64"
  shows "desc_at b ds (b + of_nat (32 * k)) = Some (ds ! k)"
proof -
  have "32 * k < 2 ^ 64" using assms by simp
  then have "unat (of_nat (32 * k) :: u64) = 32 * k" by (simp only: unat_of_nat) simp
  with assms(1) show ?thesis by (simp add: desc_at_def Let_def sizeof_xdma_desc_def del: of_nat_mult)
qed

lemma hw_walk_chain:
  assumes "desc_chain b n ds" "k < n"
    and "\<forall>j < n - 1. \<not> desc_stopped (ds ! j)" "desc_stopped (ds ! (n - 1))"
  shows "hw_walk (n - k) b ds (b + of_nat (32 * k)) = Some (drop k (take n ds))"
  using assms(2)
proof (induction "n - k" arbitrary: k)
  case 0
  then show ?case by simp
next
  case (Suc m)
  have len: "length (take n ds) = n" using assms(1) by (simp add: desc_chain_def)
  have at: "desc_at b ds (b + of_nat (32 * k)) = Some (ds ! k)"
    using assms(1) Suc.prems by (intro desc_at_index) (auto simp: desc_chain_def)
  have dk: "drop k (take n ds) = ds ! k # drop (Suc k) (take n ds)"
    using Suc.prems len by (simp add: Cons_nth_drop_Suc [symmetric])
  show ?case
  proof (cases "k = n - 1")
    case True
    then have "drop (Suc k) (take n ds) = []" using Suc.prems len by simp
    with True at dk assms(4) Suc.hyps(2) show ?thesis
      by (simp flip: Suc.hyps(2) del: of_nat_mult)
  next
    case False
    then have k: "Suc k < n" "k < n - 1" using Suc.prems by auto
    have m: "m = n - Suc k" using Suc.hyps(2) by simp
    have "hw_walk m b ds (b + of_nat (32 * Suc k)) = Some (drop (Suc k) (take n ds))"
      using Suc.hyps(1) [OF m k(1)] m by simp
    moreover have "desc_next (ds ! k) = b + of_nat (32 * Suc k)" "\<not> desc_stopped (ds ! k)"
      using assms(1,3) k(2) by (auto simp: desc_chain_def)
    ultimately show ?thesis using at dk
      by (simp flip: Suc.hyps(2) del: of_nat_mult of_nat_Suc mult_Suc_right)
  qed
qed

lemma hw_walk_all:
  assumes "desc_chain b n ds" "0 < n"
    and "\<forall>j < n - 1. \<not> desc_stopped (ds ! j)" "desc_stopped (ds ! (n - 1))"
  shows "hw_walk n b ds b = Some (take n ds)"
  using hw_walk_chain [OF assms(1), of 0] assms by simp

lemma desc_alloc_fresh:
  assumes "0 < number" "length buf = number"
  shows "\<exists>ds. xdma_desc_alloc number (Some (buf, b)) = Some (Some (ds, b)) \<and> length ds = number \<and>
    (\<forall>k < number. fresh_desc number b k (ds ! k))"
proof -
  obtain ds where ds: "desc_alloc_loop (number - 1) 0 b (int number - 1) buf = Some ds"
    "length ds = number" "\<forall>j. j \<le> number - 1 \<longrightarrow> fresh_desc number b j (ds ! j)"
    using desc_alloc_loop_spec [of 0 "number - 1" buf b b "int number - 1"] assms by auto
  then have "fresh_desc number b k (ds ! k)" if "k < number" for k using that by auto
  with ds assms show ?thesis by (simp add: xdma_desc_alloc_def)
qed

section \<open>Properties\<close>

text \<open>
  \<open>xdma_desc_alloc\<close> given memory for \<open>number\<close> descriptors succeeds and leaves a chain: every
  descriptor has the magic number, a zero length and no control bits, points at its successor
  in the table (the last one nowhere), and announces at most 15 and never more adjacent
  descriptors than really follow its successor.
\<close>

theorem desc_alloc_chain:
  assumes "0 < number" "length buf = number"
  shows "\<exists>ds. xdma_desc_alloc number (Some (buf, b)) = Some (Some (ds, b)) \<and> length ds = number \<and>
    (\<forall>k < number. d_bytes (ds ! k) = 0 \<and> desc_magic_ok (ds ! k) \<and> desc_ctl (ds ! k) = 0 \<and>
       desc_next (ds ! k) = (if Suc k < number then b + of_nat (32 * Suc k) else 0) \<and>
       desc_extra_adj (ds ! k) \<le> 15 \<and>
       (Suc k < number \<longrightarrow> Suc k + desc_extra_adj (ds ! k) < number))"
proof -
  obtain ds where "xdma_desc_alloc number (Some (buf, b)) = Some (Some (ds, b))" "length ds = number"
    "\<forall>k < number. fresh_desc number b k (ds ! k)"
    using desc_alloc_fresh [OF assms] by blast
  then show ?thesis by (intro exI [of _ ds]) (auto simp: fresh_desc_def)
qed

theorem desc_alloc_chain_witness:
  "\<exists>ds. xdma_desc_alloc 2 (Some (replicate 2 (xdma_desc.make 0 0 0 0 0 0 0 0), 0x1000))
      = Some (Some (ds, 0x1000)) \<and> desc_next (ds ! 0) = 0x1020 \<and> desc_next (ds ! 1) = 0"
  using desc_alloc_chain [of 2 "replicate 2 (xdma_desc.make 0 0 0 0 0 0 0 0)" "0x1000"] by auto

text \<open>
  \<open>xdma_desc_adjacent\<close> with a next pointer aligned to the descriptor size announces exactly
  the adjacent descriptors it was given, limited to 16 and to the rest of the 4 KiB page the
  next descriptor is in: a prefetch of the block never crosses a 4 KiB boundary. Magic number
  restored, control bits, length, addresses and next pointer unchanged.
\<close>

theorem desc_adjacent_4k:
  fixes d :: xdma_desc and n :: int
  defines "off \<equiv> unat (take_bit 12 (d_next_lo d))" and "d' \<equiv> xdma_desc_adjacent d n"
  assumes "off mod 32 = 0" "0 < n"
  shows "desc_extra_adj d' = min (min (nat n - 1) 15) ((4096 - off) div 32 - 1) \<and>
    off + 32 * (desc_extra_adj d' + 1) \<le> 4096 \<and>
    desc_magic_ok d' \<and> desc_ctl d' = desc_ctl d \<and> d_bytes d' = d_bytes d \<and>
    desc_src d' = desc_src d \<and> desc_dst d' = desc_dst d \<and> desc_next d' = desc_next d"
proof -
  note r = adj_value_range [OF assms(3) off_def [THEN meta_eq_to_obj_eq], of n]
  note a = adjacent_ctl [OF r(1,2)]
  show ?thesis
    unfolding d'_def a(3) r(4) [OF assms(4)] using r(3) a(1,2) desc_adjacent_data
    unfolding r(4) [OF assms(4)] by blast
qed

theorem desc_adjacent_4k_witness:
  "desc_extra_adj (xdma_desc_adjacent (xdma_desc.make 0 0 0 0 0 0 0xFC0 0) 9) = 1"
  using desc_adjacent_4k [of "xdma_desc.make 0 0 0 0 0 0 0xFC0 0" 9]
  by (simp add: xdma_desc.defs take_bit_eq_mask mask_eq_exp_minus_1)

end
