(* ===== verification/Sgm.thy ===== *)
theory Sgm
  imports XPrelude
begin

text \<open>
  Mapping of a user or vmalloc buffer to a scatter list: \<open>driver/xdma-sgm.c\<close> and
  \<open>rvmalloc\<close>/\<open>rvfree\<close> of \<open>driver/xdma-core.c\<close>. The C arrays \<open>pages\<close> and \<open>sgl\<close> are lists of
  their allocated length, an access outside them faults. The kernel's part is in the arguments:
  \<open>get_user_pages_fast\<close> (result and the pages it pinned), \<open>vmalloc_to_page\<close>, \<open>PageHighMem\<close> and
  which of the \<open>kcalloc\<close> calls succeed. \<open>page_world\<close> holds what the driver does to pages:
  references taken and dropped, dirty and reserved marks.
\<close>

unbundle bit_operations_syntax

type_synonym page = nat

record page_world =
  p_refs :: "page \<Rightarrow> int"
  p_dirty :: "page \<Rightarrow> bool"
  p_reserved :: "page \<Rightarrow> bool"

definition get_page :: "page \<Rightarrow> page_world \<Rightarrow> page_world" where
  "get_page p w = w\<lparr>p_refs := (p_refs w)(p := p_refs w p + 1)\<rparr>"

definition put_page :: "page \<Rightarrow> page_world \<Rightarrow> page_world" where
  "put_page p w = w\<lparr>p_refs := (p_refs w)(p := p_refs w p - 1)\<rparr>"

definition SetPageDirty :: "page \<Rightarrow> page_world \<Rightarrow> page_world" where
  "SetPageDirty p w = w\<lparr>p_dirty := (p_dirty w)(p := True)\<rparr>"

definition SetPageReserved :: "page \<Rightarrow> page_world \<Rightarrow> page_world" where
  "SetPageReserved p w = w\<lparr>p_reserved := (p_reserved w)(p := True)\<rparr>"

definition ClearPageReserved :: "page \<Rightarrow> page_world \<Rightarrow> page_world" where
  "ClearPageReserved p w = w\<lparr>p_reserved := (p_reserved w)(p := False)\<rparr>"

record sg_entry =
  sg_page :: "page option"
  sg_offset :: u32
  sg_length :: u32

definition sg_zero :: sg_entry where
  "sg_zero = \<lparr>sg_page = None, sg_offset = 0, sg_length = 0\<rparr>"

definition sg_set_page :: "page option \<Rightarrow> u32 \<Rightarrow> u32 \<Rightarrow> sg_entry \<Rightarrow> sg_entry" where
  "sg_set_page p len off e = e\<lparr>sg_page := p, sg_offset := off, sg_length := len\<rparr>"

record sg_mapping_t =
  sgl :: "sg_entry list"
  pages :: "page option list"
  max_pages :: int
  mapped_pages :: int

text \<open>An \<open>unsigned long\<close> stored in an \<open>int\<close>.\<close>

definition to_int :: "u64 \<Rightarrow> int" where
  "to_int w = sint (ucast w :: u32)"

definition PAGE_MASK :: u64 where "PAGE_MASK = NOT 0xfff"

section \<open>The mapper\<close>

datatype sgm_alloc = A_mapper | A_pages | A_sgl

text \<open>
  \<open>sg_create_mapper\<close> with which of its three allocations succeed; the result is the mapper, or
  nothing for NULL, and the allocations still held when it returns.
\<close>

definition sg_create_mapper ::
  "u64 \<Rightarrow> bool \<Rightarrow> bool \<Rightarrow> bool \<Rightarrow> sg_mapping_t option \<times> sgm_alloc list" where
  "sg_create_mapper max_len ok_sgm ok_pages ok_sgl =
    (if max_len = 0 then (None, [])
     else if \<not> ok_sgm then (None, [])
     else let n = to_int (max_len div of_nat PAGE_SIZE + 2) in
       if \<not> ok_pages then (None, remove1 A_mapper [A_mapper])
       else if \<not> ok_sgl then (None, remove1 A_mapper (remove1 A_pages [A_pages, A_mapper]))
       else (Some \<lparr>sgl = replicate (nat n) sg_zero, pages = replicate (nat n) None,
                   max_pages = n, mapped_pages = 0\<rparr>, [A_sgl, A_pages, A_mapper]))"

definition sg_destroy_mapper :: "sg_mapping_t \<Rightarrow> sgm_alloc list \<Rightarrow> sgm_alloc list option" where
  "sg_destroy_mapper sgm held = do {
     BUG_ON (mapped_pages sgm > 0);
     Some (remove1 A_mapper (remove1 A_pages (remove1 A_sgl held)))
   }"

section \<open>Building the scatter list\<close>

fun sg_middle_loop ::
  "nat \<Rightarrow> nat \<Rightarrow> u64 \<Rightarrow> page option list \<Rightarrow> sg_entry list \<Rightarrow> (nat \<times> u64 \<times> sg_entry list) option" where
  "sg_middle_loop 0 i count ps sg = Some (i, count, sg)"
| "sg_middle_loop (Suc k) i count ps sg = do {
     BUG_ON (count < of_nat PAGE_SIZE);
     BUG_ON (\<not> i < length ps);
     sg \<leftarrow> set_index i (sg_set_page (ps ! i) (of_nat PAGE_SIZE) 0) sg;
     sg_middle_loop k (Suc i) (count - of_nat PAGE_SIZE) ps sg
   }"

definition offset_in_page :: "u64 \<Rightarrow> u32" where
  "offset_in_page start = ucast (start AND NOT PAGE_MASK)"

definition sg_populate ::
  "u64 \<Rightarrow> u64 \<Rightarrow> int \<Rightarrow> page option list \<Rightarrow> sg_entry list \<Rightarrow> sg_entry list option" where
  "sg_populate start count nr_pages ps sg = do {
     BUG_ON (\<not> 0 < length ps);
     sg \<leftarrow> set_index 0 (sg_set_page (ps ! 0) 0 (offset_in_page start)) sg;
     (if nr_pages > 1 then do {
        sg \<leftarrow> set_index 0 (\<lambda>e. e\<lparr>sg_length := of_nat PAGE_SIZE - sg_offset e\<rparr>) sg;
        (i, count, sg) \<leftarrow> sg_middle_loop (nat (nr_pages - 2)) 1 (count - ucast (sg_length (sg ! 0))) ps sg;
        BUG_ON (count > of_nat PAGE_SIZE);
        BUG_ON (\<not> i < length ps);
        set_index i (sg_set_page (ps ! i) (ucast count) 0) sg
      } else set_index 0 (\<lambda>e. e\<lparr>sg_length := ucast count\<rparr>) sg)
   }"

text \<open>\<open>sg_init_table\<close> clears the entries and marks the last one.\<close>

definition sg_init_table :: "int \<Rightarrow> sg_entry list \<Rightarrow> sg_entry list option" where
  "sg_init_table n sg =
    (if 0 < n \<and> n \<le> int (length sg) then Some (replicate (nat n) sg_zero @ drop (nat n) sg) else None)"

definition first_page :: "u64 \<Rightarrow> u64" where
  "first_page start = drop_bit PAGE_SHIFT (start AND PAGE_MASK)"

definition last_page :: "u64 \<Rightarrow> u64 \<Rightarrow> u64" where
  "last_page start count = drop_bit PAGE_SHIFT ((start + count - 1) AND PAGE_MASK)"

definition nr_pages_of :: "u64 \<Rightarrow> u64 \<Rightarrow> int" where
  "nr_pages_of start count = to_int (last_page start count - first_page start + 1)"

fun put_each :: "page option list \<Rightarrow> page_world \<Rightarrow> page_world option" where
  "put_each [] w = Some w"
| "put_each (Some p # ps) w = put_each ps (put_page p w)"
| "put_each (None # ps) w = None"

fun dirty_each :: "page option list \<Rightarrow> page_world \<Rightarrow> page_world option" where
  "dirty_each [] w = Some w"
| "dirty_each (Some p # ps) w = dirty_each ps (SetPageDirty p w)"
| "dirty_each (None # ps) w = None"

text \<open>
  \<open>get_user_pages_fast\<close>: \<open>gup start nr write\<close> is its return value and the pages it pinned; it
  stores them in the page array, from the start, and takes a reference on each.
\<close>

definition store_pages :: "page list \<Rightarrow> page option list \<Rightarrow> page option list" where
  "store_pages ps xs = map Some ps @ drop (length ps) xs"

definition sgm_get_user_pages ::
  "(u64 \<Rightarrow> int \<Rightarrow> bool \<Rightarrow> int \<times> page list) \<Rightarrow> sg_mapping_t \<Rightarrow> u64 \<Rightarrow> u64 \<Rightarrow> bool \<Rightarrow> page_world \<Rightarrow>
   (int \<times> sg_mapping_t \<times> page_world) option" where
  "sgm_get_user_pages gup sgm start count to_user w = do {
     let nr_pages = nr_pages_of start count;
     BUG_ON (mapped_pages sgm > 0);
     (if start + count < start then Some (- EINVAL, sgm, w)
      else if nr_pages > max_pages sgm then Some (- EINVAL, sgm, w)
      else if count = 0 then Some (0, sgm, w)
      else do {
        sg \<leftarrow> sg_init_table nr_pages (sgl sgm);
        let ps = replicate (nat (nr_pages - 1)) None @ drop (nat (nr_pages - 1)) (pages sgm);
        let (rc, got) = gup start nr_pages to_user;
        let ps = store_pages got ps;
        let w = fold get_page got w;
        let sgm = sgm\<lparr>sgl := sg, pages := ps\<rparr>;
        (if rc < nr_pages then do {
           let sgm = (if rc > 0 then sgm\<lparr>mapped_pages := rc\<rparr> else sgm);
           w \<leftarrow> put_each (take (nat (mapped_pages sgm)) ps) w;
           Some (- ENOMEM, sgm\<lparr>mapped_pages := 0\<rparr>, w)
         } else do {
           BUG_ON (rc \<noteq> nr_pages);
           sg \<leftarrow> sg_populate start count nr_pages ps sg;
           Some (nr_pages, sgm\<lparr>sgl := sg, mapped_pages := rc\<rparr>, w)
         })
      })
   }"

definition sgm_dirty_pages :: "sg_mapping_t \<Rightarrow> page_world \<Rightarrow> page_world option" where
  "sgm_dirty_pages sgm w = dirty_each (take (nat (mapped_pages sgm)) (pages sgm)) w"

definition sgm_put_user_pages ::
  "sg_mapping_t \<Rightarrow> bool \<Rightarrow> page_world \<Rightarrow> (int \<times> sg_mapping_t \<times> page_world) option" where
  "sgm_put_user_pages sgm dirtied w = do {
     w \<leftarrow> (if dirtied then sgm_dirty_pages sgm w else Some w);
     w \<leftarrow> put_each (take (nat (mapped_pages sgm)) (pages sgm)) w;
     Some (0, sgm\<lparr>mapped_pages := 0\<rparr>, w)
   }"

text \<open>The pages of a vmalloc area; \<open>None\<close> when one is missing.\<close>

fun vmalloc_pages ::
  "(u64 \<Rightarrow> page option) \<Rightarrow> (page \<Rightarrow> bool) \<Rightarrow> nat \<Rightarrow> nat \<Rightarrow> u64 \<Rightarrow> page option list \<Rightarrow>
   (bool \<times> page option list) option" where
  "vmalloc_pages v2p high 0 i virt ps = Some (True, ps)"
| "vmalloc_pages v2p high (Suc k) i virt ps = do {
     ps \<leftarrow> set_index i (\<lambda>_. v2p virt) ps;
     (case v2p virt of
        None \<Rightarrow> Some (False, ps)
      | Some p \<Rightarrow> do {
          BUG_ON (high p);
          vmalloc_pages v2p high k (Suc i) (virt + of_nat PAGE_SIZE) ps
        })
   }"

definition sgm_kernel_pages ::
  "(u64 \<Rightarrow> page option) \<Rightarrow> (page \<Rightarrow> bool) \<Rightarrow> sg_mapping_t \<Rightarrow> u64 \<Rightarrow> u64 \<Rightarrow> (int \<times> sg_mapping_t) option" where
  "sgm_kernel_pages v2p high sgm start count = do {
     let nr_pages = nr_pages_of start count;
     BUG_ON (mapped_pages sgm > 0);
     (if start + count < start then Some (- EINVAL, sgm)
      else if nr_pages > max_pages sgm then Some (- EINVAL, sgm)
      else if count = 0 then Some (0, sgm)
      else do {
        sg \<leftarrow> sg_init_table nr_pages (sgl sgm);
        (ok, ps) \<leftarrow> vmalloc_pages v2p high (nat nr_pages) 0 start (pages sgm);
        let sgm = sgm\<lparr>sgl := sg, pages := ps\<rparr>;
        (if \<not> ok then Some (- ENOMEM, sgm\<lparr>mapped_pages := 0\<rparr>)
         else do {
           sg \<leftarrow> sg_populate start count nr_pages ps sg;
           Some (nr_pages, sgm\<lparr>sgl := sg, mapped_pages := nr_pages\<rparr>)
         })
      })
   }"

section \<open>Reserved vmalloc memory\<close>

definition PAGE_ALIGN :: "u64 \<Rightarrow> u64" where
  "PAGE_ALIGN n = (n + (of_nat PAGE_SIZE - 1)) AND PAGE_MASK"

text \<open>
  The loop of \<open>rvmalloc\<close>. The size is a multiple of the page size there; for any other size the
  subtraction would wrap around and the loop never end.
\<close>

function reserve_loop :: "(u64 \<Rightarrow> page option) \<Rightarrow> u64 \<Rightarrow> u64 \<Rightarrow> page_world \<Rightarrow> page_world option" where
  "reserve_loop v2p adr sz w =
    (if sz > 0 then
       (if of_nat PAGE_SIZE \<le> sz then do {
          p \<leftarrow> v2p adr;
          reserve_loop v2p (adr + of_nat PAGE_SIZE) (sz - of_nat PAGE_SIZE) (SetPageReserved p w)
        } else None)
     else Some w)"
  by auto

lemma size_step: "of_nat PAGE_SIZE \<le> (n :: u64) \<Longrightarrow> unat (n - of_nat PAGE_SIZE) < unat n"
  by (simp add: PAGE_SIZE_def unat_sub word_le_nat_alt)

termination reserve_loop
  by (relation "measure (\<lambda>(_, _, n, _). unat n)") (auto simp: size_step)

text \<open>\<open>mem\<close> is what \<open>vmalloc_32\<close> returned for the aligned size.\<close>

definition rvmalloc ::
  "(u64 \<Rightarrow> page option) \<Rightarrow> u64 option \<Rightarrow> u64 \<Rightarrow> page_world \<Rightarrow> (u64 option \<times> page_world) option" where
  "rvmalloc v2p mem sz w =
    (case mem of
       None \<Rightarrow> Some (None, w)
     | Some adr \<Rightarrow> map_option (\<lambda>w. (Some adr, w)) (reserve_loop v2p adr (PAGE_ALIGN sz) w))"

function release_loop :: "(u64 \<Rightarrow> page option) \<Rightarrow> u64 \<Rightarrow> u64 \<Rightarrow> page_world \<Rightarrow> page_world option" where
  "release_loop v2p adr sz w =
    (if sint sz > 0 then do {
       p \<leftarrow> v2p adr;
       release_loop v2p (adr + of_nat PAGE_SIZE) (sz - of_nat PAGE_SIZE) (ClearPageReserved p w)
     } else Some w)"
  by auto

lemma sint_size_step: "0 < sint (n :: u64) \<Longrightarrow> sint (n - of_nat PAGE_SIZE) = sint n - 4096"
proof -
  assume n: "0 < sint n"
  have "sint n < 2 ^ 63" using sint_lt [of n] by simp
  with n have "signed_take_bit 63 (sint n - 4096) = sint n - 4096"
    by (simp add: signed_take_bit_int_eq_self_iff)
  then show ?thesis by (simp add: PAGE_SIZE_def sint_word_ariths)
qed

termination release_loop
  by (relation "measure (\<lambda>(_, _, n, _). nat (sint n))") (auto simp: sint_size_step)

definition rvfree :: "(u64 \<Rightarrow> page option) \<Rightarrow> u64 option \<Rightarrow> u64 \<Rightarrow> page_world \<Rightarrow> page_world option" where
  "rvfree v2p mem sz w =
    (case mem of None \<Rightarrow> Some w | Some adr \<Rightarrow> release_loop v2p adr sz w)"

section \<open>Page arithmetic\<close>

text \<open>The part of the buffer \<open>[s, s + c)\<close> that lies in its page number \<open>i\<close>.\<close>

definition slice_lo :: "nat \<Rightarrow> nat \<Rightarrow> nat" where
  "slice_lo s i = max s (4096 * (s div 4096 + i))"

definition slice_hi :: "nat \<Rightarrow> nat \<Rightarrow> nat \<Rightarrow> nat" where
  "slice_hi s c i = min (s + c) (4096 * (s div 4096 + i + 1))"

definition nr_slices :: "nat \<Rightarrow> nat \<Rightarrow> nat" where
  "nr_slices s c = (s + c - 1) div 4096 - s div 4096 + 1"

lemma slices_bound: "nr_slices s c \<le> c div 4096 + 2"
proof -
  have "(s + c - 1) div 4096 \<le> (s + c) div 4096" by (simp add: div_le_mono)
  also have "(s + c) div 4096 \<le> s div 4096 + c div 4096 + 1"
    using div_add1_eq [of s c 4096] by (simp add: div_le_mono [of "s mod 4096 + c mod 4096" 8191 4096, simplified])
  finally show ?thesis by (simp add: nr_slices_def)
qed

lemma slice_within:
  assumes "0 < c" "i < nr_slices s c"
  shows "slice_lo s i < slice_hi s c i" "slice_hi s c i \<le> s + c" "s \<le> slice_lo s i"
    "slice_hi s c i - slice_lo s i \<le> 4096"
    "slice_lo s i div 4096 = s div 4096 + i" "(slice_hi s c i - 1) div 4096 = s div 4096 + i"
    "i = 0 \<Longrightarrow> slice_lo s i = s" "0 < i \<Longrightarrow> slice_lo s i mod 4096 = 0"
proof -
  obtain f r where s: "s = 4096 * f + r" "r < 4096" "s div 4096 = f"
    by (metis mod_less_divisor mult_div_mod_eq zero_less_numeral)
  obtain l q where e: "s + c - 1 = 4096 * l + q" "q < 4096" "(s + c - 1) div 4096 = l"
    by (metis mod_less_divisor mult_div_mod_eq zero_less_numeral)
  have i: "i \<le> l - f" "f \<le> l"
    using assms(2) s(3) e(3) div_le_mono [of s "s + c - 1" 4096] assms(1) by (auto simp: nr_slices_def)
  have eq: "s + c = 4096 * l + q + 1" using e(1) assms(1) by linarith
  show "slice_lo s i < slice_hi s c i" "slice_hi s c i \<le> s + c" "s \<le> slice_lo s i"
    using s eq i assms(1) by (auto simp: slice_lo_def slice_hi_def)
  show "slice_hi s c i - slice_lo s i \<le> 4096"
    by (simp add: slice_lo_def slice_hi_def)
  show "i = 0 \<Longrightarrow> slice_lo s i = s" using s by (simp add: slice_lo_def)
  show "0 < i \<Longrightarrow> slice_lo s i mod 4096 = 0" using s by (auto simp: slice_lo_def max_def)
  have "slice_lo s i = 4096 * (f + i) + (if i = 0 then r else 0)"
    using s by (auto simp: slice_lo_def max_def)
  then show "slice_lo s i div 4096 = s div 4096 + i" using s by simp
  have "slice_hi s c i - 1 = 4096 * (f + i) + (if i = l - f then q else 4095)"
    using s eq i e(2) by (auto simp: slice_hi_def min_def)
  moreover have "(4096 * k + (t :: nat)) div 4096 = k" if "t < 4096" for k t
    using that by simp
  moreover have "(if i = l - f then q else 4095) < 4096" using e(2) by simp
  ultimately show "(slice_hi s c i - 1) div 4096 = s div 4096 + i" unfolding s(3) by metis
qed

lemma slice_adjacent:
  assumes "0 < c" "Suc i < nr_slices s c"
  shows "slice_hi s c i = slice_lo s (Suc i)"
proof -
  have "slice_lo s (Suc i) < s + c" using slice_within [OF assms] by linarith
  then show ?thesis by (auto simp: slice_lo_def slice_hi_def max_def min_def)
qed

lemma slice_ends:
  assumes "0 < c"
  shows "slice_lo s 0 = s" "slice_hi s c (nr_slices s c - 1) = s + c"
proof -
  show "slice_lo s 0 = s" using times_div_less_eq_dividend [of 4096 s] by (auto simp: slice_lo_def max_def)
  have "s + c \<le> 4096 * ((s + c - 1) div 4096 + 1)"
  proof -
    have "e + 1 \<le> 4096 * (e div 4096 + 1)" for e :: nat
    proof -
      have "e mod 4096 < 4096" by simp
      then show ?thesis using mult_div_mod_eq [of 4096 e] unfolding distrib_left by linarith
    qed
    from this [of "s + c - 1"] assms show ?thesis by simp
  qed
  moreover have "s div 4096 \<le> (s + c - 1) div 4096" using assms by (simp add: div_le_mono)
  ultimately show "slice_hi s c (nr_slices s c - 1) = s + c"
    by (simp add: slice_hi_def nr_slices_def)
qed

lemma slices_sum:
  assumes "0 < c" "m < nr_slices s c"
  shows "(\<Sum>i \<le> m. slice_hi s c i - slice_lo s i) = slice_hi s c m - s"
  using assms(2)
proof (induction m)
  case 0
  then show ?case by (simp add: slice_ends [OF assms(1)])
next
  case (Suc m)
  then have a: "slice_hi s c m = slice_lo s (Suc m)" by (intro slice_adjacent assms)
  from Suc have "(\<Sum>i \<le> m. slice_hi s c i - slice_lo s i) = slice_hi s c m - s" by simp
  then show ?case using slice_within [OF assms(1) Suc.prems] a by simp
qed

lemma slices_total:
  assumes "0 < c"
  shows "(\<Sum>i < nr_slices s c. slice_hi s c i - slice_lo s i) = c"
proof -
  have n: "nr_slices s c = Suc (nr_slices s c - 1)" by (simp add: nr_slices_def)
  have "(\<Sum>i < nr_slices s c. slice_hi s c i - slice_lo s i) =
      (\<Sum>i \<le> nr_slices s c - 1. slice_hi s c i - slice_lo s i)"
    by (subst n) (simp only: lessThan_Suc_atMost)
  also have "\<dots> = slice_hi s c (nr_slices s c - 1) - s"
    using n by (intro slices_sum [OF assms]) simp
  also have "\<dots> = c" by (simp only: slice_ends [OF assms] diff_add_inverse)
  finally show ?thesis .
qed

section \<open>What the words compute\<close>

lemma low12_mask: "(0xfff :: u64) = mask 12"
  by (simp add: mask_eq_exp_minus_1)

lemma page_number: "drop_bit PAGE_SHIFT (w AND PAGE_MASK) = drop_bit 12 w"
  unfolding PAGE_SHIFT_def PAGE_MASK_def low12_mask
  by (rule bit_word_eqI) (auto simp: bit_simps dest: bit_imp_le_length)

lemma unat_drop_12: "unat (drop_bit 12 (w :: u64)) = unat w div 4096"
  unfolding unat_drop_bit_eq by (simp add: drop_bit_eq_div)

lemma unat_first_page: "unat (first_page w) = unat w div 4096"
  unfolding first_page_def page_number by (rule unat_drop_12)

lemma unat_last_page:
  assumes "0 < count" "unat start + unat count < 2 ^ 64"
  shows "unat (last_page start count) = (unat start + unat count - 1) div 4096"
proof -
  have "unat (start + count) = unat start + unat count"
    using assms(2) by (simp add: unat_add_lem [where 'a = 64, simplified] )
  moreover have "1 \<le> start + count"
    using assms calculation by (simp add: word_le_nat_alt word_less_nat_alt)
  ultimately have "unat (start + count - 1) = unat start + unat count - 1"
    by (simp add: unat_sub)
  then show ?thesis unfolding last_page_def page_number unat_drop_12 by simp
qed

lemma to_int_small: "unat w < 2 ^ 31 \<Longrightarrow> to_int w = int (unat w)"
proof -
  assume w: "unat w < 2 ^ 31"
  have "unat (ucast w :: u32) = unat w"
    using w by (simp add: unsigned_ucast_eq take_bit_nat_eq_self)
  with w show ?thesis unfolding to_int_def by (simp add: sint_small)
qed

lemma nr_pages_eq:
  assumes "0 < count" "unat start + unat count < 2 ^ 64" "nr_slices (unat start) (unat count) < 2 ^ 31"
  shows "nr_pages_of start count = int (nr_slices (unat start) (unat count))"
proof -
  let ?s = "unat start" and ?c = "unat count"
  have f: "unat (first_page start) = ?s div 4096" by (rule unat_first_page)
  have l: "unat (last_page start count) = (?s + ?c - 1) div 4096" by (rule unat_last_page [OF assms(1,2)])
  have le: "?s div 4096 \<le> (?s + ?c - 1) div 4096"
    using assms(1) by (intro div_le_mono) (simp add: word_less_nat_alt)
  then have d: "unat (last_page start count - first_page start) = (?s + ?c - 1) div 4096 - ?s div 4096"
    by (simp add: unat_sub word_le_nat_alt f l)
  then have "unat (last_page start count - first_page start + 1) = nr_slices ?s ?c"
    using assms(3) by (subst unat_add_lem [THEN iffD1]) (simp_all add: nr_slices_def)
  then show ?thesis using assms(3) unfolding nr_pages_of_def by (simp add: to_int_small)
qed

lemma unat_offset_in_page: "unat (offset_in_page w) = unat w mod 4096"
proof -
  have "w AND NOT PAGE_MASK = take_bit 12 w"
    unfolding PAGE_MASK_def low12_mask by (rule bit_word_eqI) (auto simp: bit_simps)
  then have "unat (offset_in_page w) = take_bit 32 (take_bit 12 (unat w))"
    by (simp add: offset_in_page_def unsigned_ucast_eq unsigned_take_bit_eq)
  then show ?thesis by (simp add: take_bit_eq_mod)
qed

section \<open>The scatter list of a buffer\<close>

lemma sg_middle_spec:
  "unat count = C \<Longrightarrow> 4096 * k \<le> C \<Longrightarrow> i + k \<le> length sg \<Longrightarrow> i + k \<le> length ps \<Longrightarrow>
   \<exists>count' sg'. sg_middle_loop k i count ps sg = Some (i + k, count', sg') \<and>
     unat count' = C - 4096 * k \<and> length sg' = length sg \<and>
     (\<forall>j. j < i \<or> i + k \<le> j \<longrightarrow> sg' ! j = sg ! j) \<and>
     (\<forall>j. i \<le> j \<longrightarrow> j < i + k \<longrightarrow> sg' ! j = sg_set_page (ps ! j) 4096 0 (sg ! j))"
proof (induction k arbitrary: i count C sg)
  case 0
  then show ?case by simp
next
  case (Suc k)
  let ?sg = "sg[i := sg_set_page (ps ! i) 4096 0 (sg ! i)]"
  have le: "4096 \<le> count" using Suc.prems by (simp add: word_le_nat_alt)
  then have c: "unat (count - 4096) = C - 4096" using Suc.prems by (simp add: unat_sub)
  obtain count' sg' where r: "sg_middle_loop k (Suc i) (count - 4096) ps ?sg = Some (Suc i + k, count', sg')"
    "unat count' = C - 4096 - 4096 * k" "length sg' = length sg"
    and out: "\<And>j. j < Suc i \<or> Suc i + k \<le> j \<Longrightarrow> sg' ! j = ?sg ! j"
    and ins: "\<And>j. Suc i \<le> j \<Longrightarrow> j < Suc i + k \<Longrightarrow> sg' ! j = sg_set_page (ps ! j) 4096 0 (?sg ! j)"
  proof -
    have "4096 * k \<le> C - 4096" "Suc i + k \<le> length ?sg" "Suc i + k \<le> length ps"
      using Suc.prems by simp_all
    from Suc.IH [OF c this] that show thesis by (auto simp only: length_list_update)
  qed
  have run: "sg_middle_loop (Suc k) i count ps sg = Some (i + Suc k, count', sg')"
    using r(1) le Suc.prems by (simp add: PAGE_SIZE_def not_less)
  have "sg' ! j = sg_set_page (ps ! j) 4096 0 (sg ! j)" if "i \<le> j" "j < i + Suc k" for j
    using out [of i] ins [of j] that Suc.prems by (cases "j = i") auto
  moreover have "sg' ! j = sg ! j" if "j < i \<or> i + Suc k \<le> j" for j
    using out [of j] that by auto
  ultimately show ?case using run r(2,3) by auto
qed

text \<open>Entry \<open>i\<close> of the list of the buffer at \<open>s\<close> of length \<open>c\<close>.\<close>

definition sg_slice :: "nat \<Rightarrow> nat \<Rightarrow> nat \<Rightarrow> sg_entry \<Rightarrow> bool" where
  "sg_slice s c i e \<longleftrightarrow> unat (sg_offset e) = slice_lo s i mod 4096 \<and>
     unat (sg_length e) = slice_hi s c i - slice_lo s i"

lemma sg_set_page_sel [simp]:
  "sg_page (sg_set_page p n f e) = p" "sg_offset (sg_set_page p n f e) = f"
  "sg_length (sg_set_page p n f e) = n"
  by (simp_all add: sg_set_page_def)

lemma first_rest: "(s :: nat) = 4096 * q + t \<Longrightarrow> 4096 * (q + 1) - s = 4096 - t"
  by simp

lemma sg_populate_spec:
  fixes start count :: u64
  defines "s \<equiv> unat start" and "c \<equiv> unat count"
  assumes c0: "0 < c" and nr: "nr = int (nr_slices s c)"
    and len: "nr_slices s c \<le> length sg" "nr_slices s c \<le> length ps"
  shows "\<exists>sg'. sg_populate start count nr ps sg = Some sg' \<and> length sg' = length sg \<and>
    (\<forall>i < nr_slices s c. sg_page (sg' ! i) = ps ! i \<and> sg_slice s c i (sg' ! i))"
proof (cases "nr_slices s c = 1")
  case True
  have "slice_hi s c 0 = s + c" using slice_ends(2) [OF c0, of s] True by simp
  then have d: "slice_hi s c 0 - slice_lo s 0 = c" using slice_ends(1) [OF c0, of s] by simp
  moreover have "c < 2 ^ 32" using d slice_within(4) [OF c0, of 0 s] True by simp
  moreover have "ps \<noteq> []" "sg \<noteq> []" using len True by auto
  ultimately show ?thesis
    using True len nr by (simp add: sg_populate_def sg_slice_def unat_offset_in_page
        slice_ends(1) [OF c0] unsigned_ucast_eq take_bit_nat_eq_self flip: s_def c_def)
next
  case False
  define n where "n = nr_slices s c"
  have n2: "2 \<le> n" using False by (simp add: n_def nr_slices_def)
  define o1 where "o1 = s mod 4096"
  define sg1 where "sg1 = sg[0 := (sg_set_page (ps ! 0) 0 (offset_in_page start) (sg ! 0))
      \<lparr>sg_length := 4096 - offset_in_page start\<rparr>]"
  have o1: "o1 < 4096" "unat (offset_in_page start) = o1"
    by (simp_all add: o1_def unat_offset_in_page s_def)
  have l0: "unat (4096 - offset_in_page start) = 4096 - o1"
    using o1 by (simp add: unat_sub word_le_nat_alt)
  have s: "s = 4096 * (s div 4096) + o1" by (simp add: o1_def)
  have n0: "n - 1 < n" "Suc (n - 1) = n" using n2 by auto
  have lst: "slice_lo s (n - 1) = 4096 * (s div 4096 + (n - 1))"
    using n2 o1(1) s by (auto simp: slice_lo_def max_def)
  have hi: "slice_hi s c (n - 1) = s + c" using slice_ends(2) [OF c0] by (simp add: n_def)
  note last = slice_within(1,4) [OF c0, of "n - 1" s, folded n_def, OF n0(1), unfolded lst hi]
  have fst: "slice_lo s 0 = s" "slice_hi s c 0 = 4096 * (s div 4096 + 1)"
    using slice_ends(1) [OF c0] last n2 by (auto simp: slice_hi_def min_def)
  have mid: "slice_lo s i mod 4096 = 0 \<and> slice_hi s c i - slice_lo s i = 4096" if "0 < i" "i < n - 1" for i
    using that last o1(1) s by (auto simp: slice_lo_def slice_hi_def max_def min_def)
  define C where "C = c - (4096 - o1)"
  have C: "4096 - o1 \<le> c" "4096 * (n - 2) \<le> C" "C - 4096 * (n - 2) = s + c - slice_lo s (n - 1)"
    using last s n2 o1(1) unfolding lst C_def by (auto simp: diff_mult_distrib2)
  have w: "unat (ucast (4096 - offset_in_page start :: u32) :: u64) = 4096 - o1"
    using o1 by (simp add: unsigned_ucast_eq take_bit_nat_eq_self l0)
  have cw: "unat (count - ucast (4096 - offset_in_page start :: u32)) = C"
    using w C(1) by (simp add: unat_sub word_le_nat_alt C_def c_def)
  have lens: "1 + (n - 2) \<le> length sg1" "1 + (n - 2) \<le> length ps"
    using len n2 by (auto simp: sg1_def n_def)
  obtain cnt sg2 where r: "sg_middle_loop (n - 2) 1 (count - ucast (4096 - offset_in_page start :: u32)) ps sg1
      = Some (1 + (n - 2), cnt, sg2)"
    "unat cnt = C - 4096 * (n - 2)" "length sg2 = length sg1"
    and out: "\<And>j. j < 1 \<or> 1 + (n - 2) \<le> j \<Longrightarrow> sg2 ! j = sg1 ! j"
    and ins: "\<And>j. 1 \<le> j \<Longrightarrow> j < 1 + (n - 2) \<Longrightarrow> sg2 ! j = sg_set_page (ps ! j) 4096 0 (sg1 ! j)"
    using sg_middle_spec [OF cw C(2) lens] by blast
  have i2: "Suc (n - 2) = n - Suc 0" using n2 by simp
  have cl: "unat cnt = s + c - slice_lo s (n - 1)" using r(2) C(3) by (rule trans)
  have cle: "unat cnt \<le> 4096" unfolding cl lst using last(2) .
  then have cuc: "unat (ucast cnt :: u32) = s + c - slice_lo s (n - 1)"
    using cl by (simp add: unsigned_ucast_eq take_bit_nat_eq_self)
  let ?sg = "sg2[n - 1 := sg_set_page (ps ! (n - 1)) (ucast cnt) 0 (sg2 ! (n - 1))]"
  have sg1l: "length sg1 = length sg" by (simp add: sg1_def)
  have b: "ps \<noteq> []" "sg \<noteq> []" "n - 1 < length ps" "n - 1 < length sg" "\<not> cnt > 4096"
    using len n2 cle by (auto simp: n_def word_less_nat_alt)
  have nn: "nat (nr - 2) = n - 2" "nr > 1" using nr n2 by (simp_all add: n_def)
  have sg1e: "sg1 = sg[0 := (sg_set_page (ps ! 0) 0 (offset_in_page start) (sg ! 0))
      \<lparr>sg_length := of_nat PAGE_SIZE - sg_offset (sg_set_page (ps ! 0) 0 (offset_in_page start) (sg ! 0))\<rparr>]"
    by (simp add: sg1_def PAGE_SIZE_def)
  have hd1: "sg_length (sg1 ! 0) = 4096 - offset_in_page start" using b by (simp add: sg1_def)
  have run: "sg_populate start count nr ps sg = Some ?sg"
    using b nn hd1 r(1,3) i2 sg1l by (simp add: sg_populate_def PAGE_SIZE_def flip: sg1_def)
  have ent: "sg_page (?sg ! i) = ps ! i \<and> sg_slice s c i (?sg ! i)" if i: "i < n" for i
  proof -
    consider "i = 0" | "0 < i" "i < n - 1" | "i = n - 1" "0 < i" using i n2 by linarith
    then show ?thesis
    proof cases
      case 1
      then have "?sg ! i = sg1 ! 0" using n2 out [of 0] by simp
      moreover have "slice_hi s c 0 - slice_lo s 0 = 4096 - o1"
        unfolding fst by (rule first_rest [OF s])
      ultimately show ?thesis using 1 b o1 l0 fst(1)
        by (simp add: sg1_def sg_slice_def) (simp add: o1_def)
    next
      case 2
      then have "?sg ! i = sg_set_page (ps ! i) 4096 0 (sg1 ! i)" using ins [of i] by simp
      then show ?thesis using mid [OF 2] by (simp add: sg_slice_def)
    next
      case 3
      then show ?thesis using b r(3) sg1l cuc hi lst by (simp add: sg_slice_def)
    qed
  qed
  show ?thesis using run ent r(3) sg1l unfolding n_def by (intro exI [of _ ?sg]) (simp add: n_def)
qed

section \<open>Page references\<close>

definition sgm_wf :: "sg_mapping_t \<Rightarrow> bool" where
  "sgm_wf m \<longleftrightarrow> int (length (sgl m)) = max_pages m \<and> int (length (pages m)) = max_pages m"

text \<open>
  What \<open>get_user_pages_fast\<close> documents: the number of pages pinned, at most the number asked
  for, or an error and then no page.
\<close>

definition gup_ok :: "(u64 \<Rightarrow> int \<Rightarrow> bool \<Rightarrow> int \<times> page list) \<Rightarrow> bool" where
  "gup_ok gup \<longleftrightarrow> (\<forall>s n w. 0 < n \<longrightarrow> fst (gup s n w) \<le> n \<and> length (snd (gup s n w)) = nat (fst (gup s n w)))"

lemma put_each_fold: "put_each (map Some ps) w = Some (fold put_page ps w)"
  by (induction ps arbitrary: w) simp_all

lemma dirty_each_fold: "dirty_each (map Some ps) w = Some (fold SetPageDirty ps w)"
  by (induction ps arbitrary: w) simp_all

lemma refs_get: "p_refs (fold get_page ps w) q = p_refs w q + int (count_list ps q)"
  by (induction ps arbitrary: w) (auto simp: get_page_def)

lemma refs_put: "p_refs (fold put_page ps w) q = p_refs w q - int (count_list ps q)"
  by (induction ps arbitrary: w) (auto simp: put_page_def)

lemma refs_dirty [simp]: "p_refs (fold SetPageDirty ps w) = p_refs w"
  by (induction ps arbitrary: w) (auto simp: SetPageDirty_def)

lemma refs_put_get: "p_refs (fold put_page ps (fold SetPageDirty qs (fold get_page ps w))) = p_refs w"
  by (rule ext) (simp add: refs_put refs_get)

lemma dirty_put [simp]: "p_dirty (fold put_page ps w) = p_dirty w"
  by (induction ps arbitrary: w) (auto simp: put_page_def)

lemma dirty_fold: "p_dirty (fold SetPageDirty ps w) q \<longleftrightarrow> q \<in> set ps \<or> p_dirty w q"
  by (induction ps arbitrary: w) (auto simp: SetPageDirty_def)

lemma store_pages_take: "length ps \<le> length xs \<Longrightarrow> take (length ps) (store_pages ps xs) = map Some ps"
  by (simp add: store_pages_def)

lemma store_pages_length [simp]: "length ps \<le> length xs \<Longrightarrow> length (store_pages ps xs) = length xs"
  by (simp add: store_pages_def)

text \<open>The outcome of \<open>sgm_get_user_pages\<close> on every path that reaches \<open>get_user_pages_fast\<close>.\<close>

lemma get_pages_cases:
  fixes start count :: u64
  defines "s \<equiv> unat start" and "c \<equiv> unat count"
  assumes "gup_ok gup" "sgm_wf sgm" "mapped_pages sgm \<le> 0" "0 < c" "s + c < 2 ^ 64"
    "int (nr_slices s c) \<le> max_pages sgm" "nr_slices s c < 2 ^ 31"
    and g: "gup start (int (nr_slices s c)) to_user = (rc, got)"
  shows "rc < int (nr_slices s c) \<Longrightarrow> \<exists>sgm'.
      sgm_get_user_pages gup sgm start count to_user w = Some (- ENOMEM, sgm', fold put_page got (fold get_page got w)) \<and>
      mapped_pages sgm' = 0 \<and> sgm_wf sgm' \<and> max_pages sgm' = max_pages sgm"
    and "rc = int (nr_slices s c) \<Longrightarrow> \<exists>sgm'.
      sgm_get_user_pages gup sgm start count to_user w = Some (rc, sgm', fold get_page got w) \<and>
      mapped_pages sgm' = rc \<and> sgm_wf sgm' \<and> max_pages sgm' = max_pages sgm \<and>
      take (nat rc) (pages sgm') = map Some got \<and>
      (\<forall>i < nat rc. sg_page (sgl sgm' ! i) = Some (got ! i) \<and> sg_slice s c i (sgl sgm' ! i))"
proof -
  let ?n = "nr_slices s c"
  have n0: "0 < ?n" by (simp add: nr_slices_def)
  have nr: "nr_pages_of start count = int ?n"
    using assms unfolding s_def c_def by (intro nr_pages_eq) (auto simp: word_less_nat_alt)
  have nowrap: "\<not> start + count < start" "count \<noteq> 0"
    using assms(6,7) unat_add_lem [of start count] by (auto simp: word_less_nat_alt s_def c_def)
  have got: "rc \<le> int ?n" "length got = nat rc"
    using assms(3) g n0 unfolding gup_ok_def by (metis fst_conv of_nat_0_less_iff, metis fst_conv snd_conv of_nat_0_less_iff)
  define ps0 where "ps0 = replicate (nat (int ?n - 1)) None @ drop (nat (int ?n - 1)) (pages sgm)"
  have lp: "length ps0 = length (pages sgm)" using assms(4,8) n0 by (auto simp: ps0_def sgm_wf_def)
  have lg: "length got \<le> length ps0" using got assms(4,8) by (auto simp: lp sgm_wf_def)
  define sg0 where "sg0 = replicate ?n sg_zero @ drop ?n (sgl sgm)"
  have init: "sg_init_table (int ?n) (sgl sgm) = Some sg0"
    using assms(4,8) n0 by (auto simp: sg_init_table_def sg0_def sgm_wf_def)
  have lsg: "length sg0 = length (sgl sgm)" using assms(4,8) by (auto simp: sg0_def sgm_wf_def)
  note unf = sgm_get_user_pages_def Let_def nr init g ps0_def [symmetric]
  show "\<exists>sgm'.
      sgm_get_user_pages gup sgm start count to_user w = Some (- ENOMEM, sgm', fold put_page got (fold get_page got w)) \<and>
      mapped_pages sgm' = 0 \<and> sgm_wf sgm' \<and> max_pages sgm' = max_pages sgm" if "rc < int ?n"
  proof (cases "rc > 0")
    case True
    then have "take (nat rc) (store_pages got ps0) = map Some got"
      using store_pages_take [OF lg] got by simp
    then show ?thesis using True that nowrap assms(4,5,8) lp lsg lg
      by (simp add: unf put_each_fold sgm_wf_def)
  next
    case False
    then have "got = []" using got by simp
    then show ?thesis using False that nowrap assms(4,5,8) lp lsg lg
      by (simp add: unf sgm_wf_def)
  qed
  show "\<exists>sgm'.
      sgm_get_user_pages gup sgm start count to_user w = Some (rc, sgm', fold get_page got w) \<and>
      mapped_pages sgm' = rc \<and> sgm_wf sgm' \<and> max_pages sgm' = max_pages sgm \<and>
      take (nat rc) (pages sgm') = map Some got \<and>
      (\<forall>i < nat rc. sg_page (sgl sgm' ! i) = Some (got ! i) \<and> sg_slice s c i (sgl sgm' ! i))" if rc: "rc = int ?n"
  proof -
    have "?n \<le> length sg0" "?n \<le> length (store_pages got ps0)"
      using assms(4,8) lsg lp lg by (auto simp: sgm_wf_def)
    then obtain sg' where sg': "sg_populate start count (int ?n) (store_pages got ps0) sg0 = Some sg'"
      "length sg' = length sg0"
      "\<forall>i < ?n. sg_page (sg' ! i) = store_pages got ps0 ! i \<and> sg_slice s c i (sg' ! i)"
      using sg_populate_spec [of count "int ?n" start sg0 "store_pages got ps0"] assms(6)
      unfolding s_def c_def by blast
    have "store_pages got ps0 ! i = Some (got ! i)" if "i < ?n" for i
      using that got rc by (simp add: store_pages_def nth_append)
    moreover have "take ?n (store_pages got ps0) = map Some got"
      using store_pages_take [OF lg] got rc by simp
    ultimately show ?thesis using rc nowrap assms(4,5,8) lp lsg lg sg'
      by (simp add: unf sgm_wf_def)
  qed
qed

lemma mapper_shape:
  assumes "sg_create_mapper max_len True True True = (Some sgm, held)" "unat max_len < 2 ^ 42"
  shows "max_pages sgm = int (unat max_len div 4096 + 2)" "sgm_wf sgm" "mapped_pages sgm = 0"
    "held = [A_sgl, A_pages, A_mapper]"
proof -
  have "unat max_len div 4096 < 2 ^ 30" using assms(2) by (simp add: div_less_iff_less_mult)
  then have "unat (max_len div of_nat PAGE_SIZE + 2) = unat max_len div 4096 + 2"
    by (subst unat_add_lem [THEN iffD1]) (simp_all add: PAGE_SIZE_def unat_div)
  with \<open>unat max_len div 4096 < 2 ^ 30\<close>
  have n: "to_int (max_len div of_nat PAGE_SIZE + 2) = int (unat max_len div 4096 + 2)"
    by (simp add: to_int_small)
  show "max_pages sgm = int (unat max_len div 4096 + 2)" "sgm_wf sgm" "mapped_pages sgm = 0"
    "held = [A_sgl, A_pages, A_mapper]"
    using assms(1) unfolding sg_create_mapper_def n by (auto simp: sgm_wf_def Let_def split: if_splits)
qed

lemma mapper_room:
  assumes "sg_create_mapper max_len True True True = (Some sgm, held)" "unat max_len < 2 ^ 42"
    "c \<le> unat max_len"
  shows "int (nr_slices s c) \<le> max_pages sgm" "nr_slices s c < 2 ^ 31"
proof -
  have "nr_slices s c \<le> c div 4096 + 2" by (rule slices_bound)
  also have "\<dots> \<le> unat max_len div 4096 + 2" using assms(3) by (simp add: div_le_mono)
  finally have le: "nr_slices s c \<le> unat max_len div 4096 + 2" .
  then show "int (nr_slices s c) \<le> max_pages sgm" unfolding mapper_shape(1) [OF assms(1,2)] by simp
  have "unat max_len div 4096 < 2 ^ 30" using assms(2) by (simp add: div_less_iff_less_mult)
  with le show "nr_slices s c < 2 ^ 31" by simp
qed

lemma slice_fits:
  assumes "a < b" "a div 4096 = k" "(b - 1) div 4096 = k"
  shows "a mod 4096 + (b - a) \<le> (4096 :: nat)"
proof -
  have "a = 4096 * k + a mod 4096" "b - 1 = 4096 * k + (b - 1) mod 4096"
    using assms(2,3) mult_div_mod_eq [of 4096 a] mult_div_mod_eq [of 4096 "b - 1"] by simp_all
  moreover have "(b - 1) mod 4096 < 4096" by simp
  ultimately show ?thesis using assms(1) by linarith
qed

section \<open>Vmalloc pages\<close>

lemma page_addr_Suc: "(adr :: u64) + of_nat PAGE_SIZE + of_nat (4096 * i) = adr + of_nat (4096 * Suc i)"
  by (simp add: PAGE_SIZE_def)

lemma reserve_loop_spec:
  "unat sz = 4096 * n \<Longrightarrow> (\<And>i. i < n \<Longrightarrow> v2p (adr + of_nat (4096 * i)) = Some (pg i)) \<Longrightarrow>
   reserve_loop v2p adr sz w = Some (fold SetPageReserved (map pg [0..<n]) w)"
proof (induction n arbitrary: adr sz w pg)
  case 0
  then have "sz = 0" by (simp add: unat_eq_0)
  then show ?case by simp
next
  case (Suc n)
  have sz: "0 < sz" "of_nat PAGE_SIZE \<le> sz" "unat (sz - of_nat PAGE_SIZE) = 4096 * n"
    using Suc.prems(1) by (simp_all add: PAGE_SIZE_def word_le_nat_alt word_less_nat_alt unat_sub)
  have "v2p (adr + of_nat PAGE_SIZE + of_nat (4096 * i)) = Some (pg (Suc i))" if "i < n" for i
    using Suc.prems(2) [of "Suc i"] that unfolding page_addr_Suc by simp
  from Suc.IH [OF sz(3) this] have "reserve_loop v2p (adr + of_nat PAGE_SIZE) (sz - of_nat PAGE_SIZE) w'
      = Some (fold SetPageReserved (map (\<lambda>i. pg (Suc i)) [0..<n]) w')" for w' .
  moreover have "v2p adr = Some (pg 0)" using Suc.prems(2) [of 0] by simp
  moreover have "map pg [0..<Suc n] = pg 0 # map (\<lambda>i. pg (Suc i)) [0..<n]"
    by (simp only: map_upt_Suc)
  ultimately show ?case by (subst reserve_loop.simps) (simp add: sz)
qed

lemma release_loop_spec:
  "unat sz = 4096 * n \<Longrightarrow> 4096 * n < 2 ^ 63 \<Longrightarrow>
   (\<And>i. i < n \<Longrightarrow> v2p (adr + of_nat (4096 * i)) = Some (pg i)) \<Longrightarrow>
   release_loop v2p adr sz w = Some (fold ClearPageReserved (map pg [0..<n]) w)"
proof (induction n arbitrary: adr sz w pg)
  case 0
  then have "sz = 0" by (simp add: unat_eq_0)
  then show ?case by simp
next
  case (Suc n)
  have s: "sint sz = int (unat sz)" using Suc.prems(1,2) by (intro sint_small64) simp
  have sz: "0 < sint sz" "unat (sz - of_nat PAGE_SIZE) = 4096 * n" "4096 * n < 2 ^ 63"
    using Suc.prems(1,2) unfolding s by (simp_all add: PAGE_SIZE_def word_le_nat_alt unat_sub)
  have "v2p (adr + of_nat PAGE_SIZE + of_nat (4096 * i)) = Some (pg (Suc i))" if "i < n" for i
    using Suc.prems(3) [of "Suc i"] that unfolding page_addr_Suc by simp
  from Suc.IH [OF sz(2,3) this] have "release_loop v2p (adr + of_nat PAGE_SIZE) (sz - of_nat PAGE_SIZE) w'
      = Some (fold ClearPageReserved (map (\<lambda>i. pg (Suc i)) [0..<n]) w')" for w' .
  moreover have "v2p adr = Some (pg 0)" using Suc.prems(3) [of 0] by simp
  moreover have "map pg [0..<Suc n] = pg 0 # map (\<lambda>i. pg (Suc i)) [0..<n]"
    by (simp only: map_upt_Suc)
  ultimately show ?case by (subst release_loop.simps) (simp add: sz(1))
qed

lemma reserved_fold:
  "p_reserved (fold SetPageReserved ps w) q \<longleftrightarrow> q \<in> set ps \<or> p_reserved w q"
  "p_reserved (fold ClearPageReserved ps w) q \<longleftrightarrow> q \<notin> set ps \<and> p_reserved w q"
  by (induction ps arbitrary: w) (auto simp: SetPageReserved_def ClearPageReserved_def)

lemma page_align_multiple: "unat sz = 4096 * n \<Longrightarrow> PAGE_ALIGN sz = sz"
proof -
  assume n: "unat sz = 4096 * n"
  have d: "2 ^ 12 dvd unat sz" using n by simp
  then have "take_bit 12 (unat sz) = 0" by (simp add: take_bit_eq_mod)
  then have t: "take_bit 12 sz = 0" by (metis unat_eq_0 unsigned_take_bit_eq)
  have b: "\<not> bit sz k" if "k < 12" for k
    using that t by (metis bit_take_bit_iff bit_0_eq bot_apply bot_bool_def)
  have "sz + (of_nat PAGE_SIZE - 1) = sz + mask 12" by (simp add: PAGE_SIZE_def mask_eq_exp_minus_1)
  also have "\<dots> = sz OR mask 12"
    by (rule disjunctive_add) (use b in \<open>auto simp: bit_simps\<close>)
  finally show ?thesis unfolding PAGE_ALIGN_def PAGE_MASK_def low12_mask
    by (auto simp: bit_eq_iff bit_simps b not_less dest: bit_imp_le_length) (metis b not_less)
qed

lemma vmalloc_pages_spec:
  "i + k \<le> length ps \<Longrightarrow> (\<And>j. j < k \<Longrightarrow> v2p (virt + of_nat (4096 * j)) = Some (pg j) \<and> \<not> high (pg j)) \<Longrightarrow>
   \<exists>ps'. vmalloc_pages v2p high k i virt ps = Some (True, ps') \<and> length ps' = length ps \<and>
     (\<forall>j < i. ps' ! j = ps ! j) \<and> (\<forall>j < k. ps' ! (i + j) = Some (pg j))"
proof (induction k arbitrary: i virt ps pg)
  case 0
  then show ?case by simp
next
  case (Suc k)
  have v0: "v2p virt = Some (pg 0)" "\<not> high (pg 0)" using Suc.prems(2) [of 0] by simp_all
  have "v2p (virt + of_nat PAGE_SIZE + of_nat (4096 * j)) = Some (pg (Suc j)) \<and> \<not> high (pg (Suc j))" if "j < k" for j
    using Suc.prems(2) [of "Suc j"] that unfolding page_addr_Suc by simp
  moreover have "Suc i + k \<le> length (ps[i := Some (pg 0)])" using Suc.prems(1) by simp
  ultimately obtain ps' where ps':
    "vmalloc_pages v2p high k (Suc i) (virt + of_nat PAGE_SIZE) (ps[i := Some (pg 0)]) = Some (True, ps')"
    "length ps' = length ps" "\<forall>j < Suc i. ps' ! j = ps[i := Some (pg 0)] ! j"
    "\<forall>j < k. ps' ! (Suc i + j) = Some (pg (Suc j))"
    using Suc.IH [of "Suc i" "ps[i := Some (pg 0)]" "virt + of_nat PAGE_SIZE" "\<lambda>j. pg (Suc j)"]
    by (auto simp only: length_list_update)
  have "ps' ! (i + j) = Some (pg j)" if "j < Suc k" for j
  proof (cases j)
    case 0
    then show ?thesis using ps'(3) Suc.prems(1) by simp
  next
    case (Suc m)
    then show ?thesis using ps'(4) that by simp
  qed
  moreover have "ps' ! j = ps ! j" if "j < i" for j using ps'(3) that by simp
  ultimately show ?case using ps'(1,2) v0 Suc.prems(1) by simp
qed

lemma kernel_pages_spec:
  fixes start count :: u64
  defines "s \<equiv> unat start" and "c \<equiv> unat count"
  assumes "sgm_wf sgm" "mapped_pages sgm \<le> 0" "0 < c" "s + c < 2 ^ 64"
    "int (nr_slices s c) \<le> max_pages sgm" "nr_slices s c < 2 ^ 31"
    "\<And>j. j < nr_slices s c \<Longrightarrow> v2p (start + of_nat (4096 * j)) = Some (pg j) \<and> \<not> high (pg j)"
  shows "\<exists>sgm'. sgm_kernel_pages v2p high sgm start count = Some (int (nr_slices s c), sgm') \<and>
      mapped_pages sgm' = int (nr_slices s c) \<and> sgm_wf sgm' \<and> max_pages sgm' = max_pages sgm \<and>
      (\<forall>i < nr_slices s c. sg_page (sgl sgm' ! i) = Some (pg i) \<and> sg_slice s c i (sgl sgm' ! i))"
proof -
  let ?n = "nr_slices s c"
  have n0: "0 < ?n" by (simp add: nr_slices_def)
  have nr: "nr_pages_of start count = int ?n"
    using assms(5,6,8) unfolding s_def c_def by (intro nr_pages_eq) (auto simp: word_less_nat_alt)
  have nowrap: "\<not> start + count < start" "count \<noteq> 0"
    using assms(5,6) unat_add_lem [of start count] by (auto simp: word_less_nat_alt s_def c_def)
  define sg0 where "sg0 = replicate ?n sg_zero @ drop ?n (sgl sgm)"
  have init: "sg_init_table (int ?n) (sgl sgm) = Some sg0"
    using assms(3,7) n0 by (auto simp: sg_init_table_def sg0_def sgm_wf_def)
  have lsg: "length sg0 = length (sgl sgm)" using assms(3,7) by (auto simp: sg0_def sgm_wf_def)
  have "0 + ?n \<le> length (pages sgm)" using assms(3,7) by (simp add: sgm_wf_def)
  from vmalloc_pages_spec [where pg = pg, OF this assms(9)] obtain ps' where ps':
    "vmalloc_pages v2p high ?n 0 start (pages sgm) = Some (True, ps')" "length ps' = length (pages sgm)"
    "\<forall>j < ?n. ps' ! j = Some (pg j)" by auto
  have "?n \<le> length sg0" "?n \<le> length ps'" using assms(3,7) lsg ps'(2) by (auto simp: sgm_wf_def)
  then obtain sg' where sg': "sg_populate start count (int ?n) ps' sg0 = Some sg'" "length sg' = length sg0"
    "\<forall>i < ?n. sg_page (sg' ! i) = ps' ! i \<and> sg_slice s c i (sg' ! i)"
    using sg_populate_spec [of count "int ?n" start sg0 ps'] assms(5) unfolding s_def c_def by blast
  then show ?thesis using nowrap assms(3,4,7) ps' lsg
    by (simp add: sgm_kernel_pages_def Let_def nr init sgm_wf_def)
qed

section \<open>Properties\<close>

text \<open>
  C8: a mapper created for \<open>max_len\<close> bytes can map every buffer of at most that length that
  does not wrap around the address space, whatever its alignment: \<open>sgm_get_user_pages\<close> neither
  rejects it nor panics, and when all pages can be pinned the scatter list has one entry per page
  of the buffer, each with exactly the bytes of the buffer in that page, together \<open>count\<close> bytes.
\<close>

theorem sgm_map_exact:
  fixes start count max_len :: u64
  defines "s \<equiv> unat start" and "c \<equiv> unat count"
  assumes "gup_ok gup" "sg_create_mapper max_len True True True = (Some sgm, held)"
    "unat max_len < 2 ^ 42" "0 < c" "c \<le> unat max_len" "s + c < 2 ^ 64"
    "gup start (int (nr_slices s c)) to_user = (int (nr_slices s c), got)"
  shows "\<exists>sgm' w'. sgm_get_user_pages gup sgm start count to_user w = Some (int (nr_slices s c), sgm', w') \<and>
    (\<forall>i < nr_slices s c. sg_page (sgl sgm' ! i) = Some (got ! i) \<and>
       unat (sg_offset (sgl sgm' ! i)) = slice_lo s i mod 4096 \<and>
       unat (sg_length (sgl sgm' ! i)) = slice_hi s c i - slice_lo s i \<and>
       0 < sg_length (sgl sgm' ! i) \<and>
       unat (sg_offset (sgl sgm' ! i)) + unat (sg_length (sgl sgm' ! i)) \<le> PAGE_SIZE) \<and>
    (\<Sum>i < nr_slices s c. unat (sg_length (sgl sgm' ! i))) = c"
proof -
  note m = mapper_shape [OF assms(4,5)] mapper_room [OF assms(4,5,7), of s]
  have m0: "mapped_pages sgm \<le> 0" using m(3) by simp
  have ps: "0 < unat count" "unat start + unat count < 2 ^ 64" using assms(6,8) by (simp_all add: s_def c_def)
  obtain sgm' where r: "sgm_get_user_pages gup sgm start count to_user w = Some (int (nr_slices s c), sgm', fold get_page got w)"
    "\<forall>i < nr_slices s c. sg_page (sgl sgm' ! i) = Some (got ! i) \<and> sg_slice s c i (sgl sgm' ! i)"
    using get_pages_cases(2) [OF assms(3) m(2) m0 ps m(5,6) [unfolded s_def c_def] assms(9) [unfolded s_def c_def] refl]
    by (auto simp: s_def c_def)
  have e: "0 < sg_length (sgl sgm' ! i) \<and>
       unat (sg_offset (sgl sgm' ! i)) + unat (sg_length (sgl sgm' ! i)) \<le> PAGE_SIZE" if i: "i < nr_slices s c" for i
  proof -
    note w = slice_within [OF assms(6) i]
    have "slice_lo s i mod 4096 + (slice_hi s c i - slice_lo s i) \<le> 4096"
      using w(1,5,6) by (rule slice_fits)
    then show ?thesis using r(2) i w(1) by (simp add: sg_slice_def PAGE_SIZE_def word_less_nat_alt)
  qed
  have "(\<Sum>i < nr_slices s c. unat (sg_length (sgl sgm' ! i))) =
      (\<Sum>i < nr_slices s c. slice_hi s c i - slice_lo s i)"
    using r(2) by (intro sum.cong) (auto simp: sg_slice_def)
  then have "(\<Sum>i < nr_slices s c. unat (sg_length (sgl sgm' ! i))) = c"
    by (simp add: slices_total [OF assms(6)])
  with r e show ?thesis by (auto simp: sg_slice_def)
qed

definition pin_all :: "u64 \<Rightarrow> int \<Rightarrow> bool \<Rightarrow> int \<times> page list" where
  "pin_all s n w = (n, [0..<nat n])"

lemma pin_all_ok: "gup_ok pin_all"
  by (simp add: gup_ok_def pin_all_def)

theorem sgm_map_exact_witness:
  "\<exists>sgm' w'. sgm_get_user_pages pin_all (the (fst (sg_create_mapper 0x2000 True True True))) 0x1ff0 0x1020 True
      \<lparr>p_refs = \<lambda>_. 0, p_dirty = \<lambda>_. False, p_reserved = \<lambda>_. False\<rparr> = Some (3, sgm', w')"
proof -
  have c: "sg_create_mapper 0x2000 True True True =
      (Some (the (fst (sg_create_mapper 0x2000 True True True))), [A_sgl, A_pages, A_mapper])"
    by (simp add: sg_create_mapper_def Let_def)
  have "nr_slices (unat (0x1ff0 :: u64)) (unat (0x1020 :: u64)) = 3" by (simp add: nr_slices_def)
  then show ?thesis
    using sgm_map_exact [OF pin_all_ok c, of "0x1020" "0x1ff0" True "[0, 1, 2]"
        "\<lparr>p_refs = \<lambda>_. 0, p_dirty = \<lambda>_. False, p_reserved = \<lambda>_. False\<rparr>"]
    by (auto simp: pin_all_def upt_rec)
qed

text \<open>
  Page references are balanced. When not all pages can be pinned, those that were are
  released again, the mapper is left unmapped and \<open>-ENOMEM\<close> is returned; when all are, releasing
  the mapping with \<open>sgm_put_user_pages\<close> drops exactly the references taken, marks exactly the
  pages of the buffer dirty if asked to, and leaves a mapper that can be destroyed.
\<close>

theorem sgm_refs_balanced:
  fixes start count :: u64
  defines "n \<equiv> nr_slices (unat start) (unat count)"
  assumes "gup_ok gup" "sgm_wf sgm" "mapped_pages sgm = 0" "0 < unat count"
    "unat start + unat count < 2 ^ 64" "int n \<le> max_pages sgm" "n < 2 ^ 31"
    "gup start (int n) to_user = (rc, got)"
  shows "\<exists>r sgm' w'. sgm_get_user_pages gup sgm start count to_user w = Some (r, sgm', w') \<and>
    (if rc < int n then r = - ENOMEM \<and> mapped_pages sgm' = 0 \<and> p_refs w' = p_refs w
     else r = int n \<and> (\<forall>d. \<exists>sgm2 w2. sgm_put_user_pages sgm' d w' = Some (0, sgm2, w2) \<and>
       p_refs w2 = p_refs w \<and> sg_destroy_mapper sgm2 [A_sgl, A_pages, A_mapper] = Some [] \<and>
       (\<forall>p. p_dirty w2 p \<longleftrightarrow> p_dirty w' p \<or> d \<and> p \<in> set got)))"
proof -
  have m0: "mapped_pages sgm \<le> 0" using assms(4) by simp
  note gc = get_pages_cases [OF assms(2,3) m0 assms(5,6,7,8,9) [unfolded n_def], of w]
  have "rc \<le> int n" using assms(2,9) unfolding gup_ok_def
    by (metis fst_conv n_def nr_slices_def of_nat_0_less_iff add_gr_0 zero_less_one)
  then consider "rc < int n" | "rc = int n" by linarith
  then show ?thesis
  proof cases
    case 1
    then show ?thesis using gc(1) refs_put_get [of got "[]" w]
      by (fastforce simp: n_def)
  next
    case 2
    then obtain sgm' where r: "sgm_get_user_pages gup sgm start count to_user w = Some (rc, sgm', fold get_page got w)"
      "mapped_pages sgm' = rc" "take (nat rc) (pages sgm') = map Some got"
      using gc(2) by (auto simp: n_def)
    have "\<exists>sgm2 w2. sgm_put_user_pages sgm' d (fold get_page got w) = Some (0, sgm2, w2) \<and>
       p_refs w2 = p_refs w \<and> sg_destroy_mapper sgm2 [A_sgl, A_pages, A_mapper] = Some [] \<and>
       (\<forall>p. p_dirty w2 p \<longleftrightarrow> p_dirty (fold get_page got w) p \<or> d \<and> p \<in> set got)" for d
      using refs_put_get [of got "[]" w] refs_put_get [of got got w]
      by (cases d) (auto simp: sgm_put_user_pages_def sgm_dirty_pages_def r(2,3) put_each_fold
          dirty_each_fold dirty_fold sg_destroy_mapper_def)
    with 2 r show ?thesis by auto
  qed
qed

theorem sgm_refs_balanced_witness:
  "\<exists>r sgm' w'. sgm_get_user_pages (\<lambda>_ n _. (n - 1, replicate (nat (n - 1)) 7))
      \<lparr>sgl = replicate 3 sg_zero, pages = replicate 3 None, max_pages = 3, mapped_pages = 0\<rparr> 0xff0 0x20 True
      \<lparr>p_refs = \<lambda>_. 0, p_dirty = \<lambda>_. False, p_reserved = \<lambda>_. False\<rparr> = Some (r, sgm', w') \<and>
    r = - ENOMEM \<and> p_refs w' 7 = 0"
proof -
  have "gup_ok (\<lambda>_ n _. (n - 1, replicate (nat (n - 1)) 7))" by (simp add: gup_ok_def)
  moreover have n: "nr_slices (unat (0xff0 :: u64)) (unat (0x20 :: u64)) = 2" by (simp add: nr_slices_def)
  ultimately show ?thesis
    using sgm_refs_balanced [of "\<lambda>_ n _. (n - 1, replicate (nat (n - 1)) 7)"
        "\<lparr>sgl = replicate 3 sg_zero, pages = replicate 3 None, max_pages = 3, mapped_pages = 0\<rparr>"
        "0x20" "0xff0" True 1 "[7]" "\<lparr>p_refs = \<lambda>_. 0, p_dirty = \<lambda>_. False, p_reserved = \<lambda>_. False\<rparr>"]
    by (force simp: sgm_wf_def n)
qed

text \<open>
  \<open>sg_create_mapper\<close> leaks nothing: when it returns NULL no allocation is held any more,
  otherwise the mapper has room in both arrays for the pages of the longest buffer it was made
  for, and \<open>sg_destroy_mapper\<close> frees all three allocations.
\<close>

theorem sg_create_mapper_no_leak:
  assumes "sg_create_mapper max_len a b c = (r, held)"
  shows "(r = None \<longrightarrow> held = []) \<and> (\<forall>sgm. r = Some sgm \<longrightarrow>
    length (pages sgm) = length (sgl sgm) \<and> sg_destroy_mapper sgm held = Some [])"
  using assms by (auto simp: sg_create_mapper_def sg_destroy_mapper_def Let_def split: if_splits)

theorem sg_create_mapper_no_leak_witness:
  "\<exists>sgm held. sg_create_mapper 4096 True True True = (Some sgm, held) \<and> sg_destroy_mapper sgm held = Some []"
proof -
  obtain r held where c: "sg_create_mapper 4096 True True True = (r, held)" by (cases "sg_create_mapper 4096 True True True")
  then obtain sgm where "r = Some sgm" by (auto simp: sg_create_mapper_def Let_def)
  with c sg_create_mapper_no_leak [OF c] show ?thesis by auto
qed

text \<open>
  \<open>rvmalloc\<close> marks every page of the area reserved and \<open>rvfree\<close> of the same area and size
  takes exactly these marks away again; both loops end after one round per page.
\<close>

theorem rvmalloc_rvfree:
  assumes "unat sz = 4096 * n" "4096 * n < 2 ^ 63"
    "\<forall>i < n. v2p (adr + of_nat (4096 * i)) \<noteq> None"
    "\<forall>i < n. \<forall>p. v2p (adr + of_nat (4096 * i)) = Some p \<longrightarrow> \<not> p_reserved w p"
  shows "\<exists>w1 w2. rvmalloc v2p (Some adr) sz w = Some (Some adr, w1) \<and>
    rvfree v2p (Some adr) sz w1 = Some w2 \<and>
    (\<forall>q. p_reserved w1 q \<longleftrightarrow> p_reserved w q \<or> (\<exists>i < n. v2p (adr + of_nat (4096 * i)) = Some q)) \<and>
    (\<forall>q. p_reserved w2 q \<longleftrightarrow> p_reserved w q)"
proof -
  define pg where "pg i = the (v2p (adr + of_nat (4096 * i)))" for i
  have v: "\<And>i. i < n \<Longrightarrow> v2p (adr + of_nat (4096 * i)) = Some (pg i)"
    using assms(3) by (force simp: pg_def)
  let ?ps = "map pg [0..<n]"
  have s: "(\<exists>i < n. v2p (adr + of_nat (4096 * i)) = Some q) \<longleftrightarrow> q \<in> set ?ps" for q
    using v by (auto simp: image_iff)
  have u: "q \<in> set ?ps \<Longrightarrow> \<not> p_reserved w q" for q
    using assms(4) v by (auto simp: image_iff)
  have "rvmalloc v2p (Some adr) sz w = Some (Some adr, fold SetPageReserved ?ps w)"
    using reserve_loop_spec [where pg = pg, OF assms(1) v] by (simp add: rvmalloc_def page_align_multiple [OF assms(1)])
  moreover have "rvfree v2p (Some adr) sz w' = Some (fold ClearPageReserved ?ps w')" for w'
    using release_loop_spec [where pg = pg, OF assms(1,2) v] by (simp add: rvfree_def)
  ultimately show ?thesis unfolding s using u by (auto simp: reserved_fold)
qed

theorem rvmalloc_rvfree_witness:
  "\<exists>w1 w2. rvmalloc (\<lambda>a. Some (unat a div 4096)) (Some 0x1000) 0x2000
      \<lparr>p_refs = \<lambda>_. 0, p_dirty = \<lambda>_. False, p_reserved = \<lambda>_. False\<rparr> = Some (Some 0x1000, w1) \<and>
    rvfree (\<lambda>a. Some (unat a div 4096)) (Some 0x1000) 0x2000 w1 = Some w2 \<and>
    p_reserved w1 2 \<and> \<not> p_reserved w2 2"
proof -
  have "\<exists>i < 2. unat (0x1000 + word_of_nat (4096 * i) :: u64) div 4096 = 2"
    by (rule exI [of _ 1]) simp
  then show ?thesis
    using rvmalloc_rvfree [of "0x2000" 2 "\<lambda>a. Some (unat a div 4096)" "0x1000"
        "\<lparr>p_refs = \<lambda>_. 0, p_dirty = \<lambda>_. False, p_reserved = \<lambda>_. False\<rparr>"]
    by auto
qed

end
