(* ===== verification/Xfer.thy ===== *)
theory Xfer
  imports Desc Sgm
begin

text \<open>
  Transfers: \<open>struct xdma_transfer\<close> and the \<open>transfer_*\<close> functions of \<open>driver/xdma-core.c\<close>
  that build the descriptor list of a buffer. \<open>kernel\<close> collects the kernel services they call:
  allocations, page pinning, \<open>pci_map_sg\<close> (the bus address and length of each DMA segment) and
  \<open>pci_alloc_consistent\<close> (uninitialised memory for the descriptor table and its bus address).
\<close>

unbundle bit_operations_syntax

datatype transfer_state = STATE_NEW | STATE_SUBMITTED | STATE_COMPLETED | STATE_FAILED

text \<open>
  \<open>desc_virt\<close> is the descriptor table itself, the null pointer the empty list (a table has at
  least one descriptor). \<open>t_dma\<close> is the DMA side of the scatter list: \<open>sg_dma_address\<close> and
  \<open>sg_dma_len\<close> of its first \<open>sgl_nents\<close> entries.
\<close>

record xdma_transfer =
  desc_virt :: "xdma_desc list"
  desc_bus :: u64
  desc_adjacent :: nat
  desc_num :: nat
  t_dir_to_dev :: bool
  sgl_nents :: nat
  t_sgm :: "sg_mapping_t option"
  t_dma :: "(u64 \<times> u32) list"
  t_userspace :: bool
  t_state :: transfer_state
  t_cyclic :: bool
  last_in_request :: bool
  size_of_request :: int
  t_iocb :: "nat option"

definition transfer_zero :: xdma_transfer where
  "transfer_zero = \<lparr>desc_virt = [], desc_bus = 0, desc_adjacent = 0, desc_num = 0,
     t_dir_to_dev = False, sgl_nents = 0, t_sgm = None, t_dma = [], t_userspace = False,
     t_state = STATE_NEW, t_cyclic = False, last_in_request = False, size_of_request = 0, t_iocb = None\<rparr>"

record kernel =
  k_kzalloc :: bool
  k_sgm_alloc :: "bool \<times> bool \<times> bool"
  k_gup :: "u64 \<Rightarrow> int \<Rightarrow> bool \<Rightarrow> int \<times> page list"
  k_v2p :: "u64 \<Rightarrow> page option"
  k_high :: "page \<Rightarrow> bool"
  k_map_sg :: "sg_entry list \<Rightarrow> (u64 \<times> u32) list"
  k_alloc :: "nat \<Rightarrow> (xdma_desc list \<times> u64) option"

section \<open>Descriptor list operations\<close>

definition xdma_transfer_cyclic :: "xdma_transfer \<Rightarrow> xdma_transfer option" where
  "xdma_transfer_cyclic t = do {
     BUG_ON (desc_num t = 0);
     ds \<leftarrow> set_index (desc_num t - 1) (\<lambda>d. xdma_desc_link d (Some (desc_bus t))) (desc_virt t);
     Some (t\<lparr>desc_virt := ds, t_cyclic := True\<rparr>)
   }"

fun result_loop :: "nat \<Rightarrow> nat \<Rightarrow> u64 \<Rightarrow> xdma_desc list \<Rightarrow> xdma_desc list option" where
  "result_loop 0 i result_bus ds = Some ds"
| "result_loop (Suc k) i result_bus ds = do {
     ds \<leftarrow> set_index i (\<lambda>d. xdma_desc_set_source d result_bus) ds;
     result_loop k (Suc i) (result_bus + 32) ds
   }"

definition transfer_set_result_addresses :: "xdma_transfer \<Rightarrow> u64 \<Rightarrow> xdma_transfer option" where
  "transfer_set_result_addresses t result_bus = do {
     ds \<leftarrow> result_loop (desc_num t) 0 result_bus (desc_virt t);
     Some (t\<lparr>desc_virt := ds\<rparr>)
   }"

fun control_loop :: "nat \<Rightarrow> nat \<Rightarrow> u32 \<Rightarrow> xdma_desc list \<Rightarrow> xdma_desc list option" where
  "control_loop 0 i control ds = Some ds"
| "control_loop (Suc k) i control ds = do {
     ds \<leftarrow> at_index i (\<lambda>d. xdma_desc_control_clear d LS_BYTE_MASK) ds;
     ds \<leftarrow> at_index i (\<lambda>d. xdma_desc_control_set d control) ds;
     control_loop k (Suc i) control ds
   }"

definition transfer_set_all_control :: "xdma_transfer \<Rightarrow> u32 \<Rightarrow> xdma_transfer option" where
  "transfer_set_all_control t control = do {
     ds \<leftarrow> control_loop (desc_num t) 0 control (desc_virt t);
     Some (t\<lparr>desc_virt := ds\<rparr>)
   }"

text \<open>The end of a descriptor list (\<open>XDMA_PERFORMANCE_TEST\<close> is not defined).\<close>

definition transfer_perf :: "xdma_transfer \<Rightarrow> nat \<Rightarrow> xdma_transfer option" where
  "transfer_perf t last_i = do {
     ds \<leftarrow> set_index last_i (\<lambda>d. xdma_desc_link d None) (desc_virt t);
     let control = (XDMA_DESC_STOPPED OR XDMA_DESC_EOP) OR XDMA_DESC_COMPLETED;
     ds \<leftarrow> at_index last_i (\<lambda>d. xdma_desc_control d control) ds;
     Some (t\<lparr>desc_virt := ds\<rparr>)
   }"

section \<open>Filling the descriptors\<close>

text \<open>
  The loop of \<open>transfer_build\<close> with \<open>k\<close> rounds to go. \<open>sg\<close> is the DMA scatter list, the
  other arguments are the variables of the loop.
\<close>

fun build_loop ::
  "bool \<Rightarrow> bool \<Rightarrow> bool \<Rightarrow> bool \<Rightarrow> (u64 \<times> u32) list \<Rightarrow> nat \<Rightarrow> nat \<Rightarrow> nat \<Rightarrow> u64 \<Rightarrow> u64 \<Rightarrow> u32 \<Rightarrow> u64 \<Rightarrow>
   xdma_desc list \<Rightarrow> (nat \<times> nat \<times> u64 \<times> u64 \<times> u32 \<times> u64 \<times> xdma_desc list) option" where
  "build_loop dir non_incr force us sg 0 i j cont_addr addr cont_len ep ds =
     Some (i, j, cont_addr, addr, cont_len, ep, ds)"
| "build_loop dir non_incr force us sg (Suc k) i j cont_addr addr cont_len ep ds = do {
     BUG_ON (\<not> Suc i < length sg);
     let next_a = fst (sg ! Suc i);
     let len = snd (sg ! i);
     let cont_len = cont_len + len;
     let new_desc = (if next_a \<noteq> addr + ucast len then True
                     else (ucast cont_len :: u64) > ucast XDMA_DESC_MAX_BYTES - of_nat PAGE_SIZE);
     let new_desc = (if force \<and> \<not> us then True else new_desc);
     (if new_desc then do {
        ds \<leftarrow> set_index j (\<lambda>d. xdma_desc_set d cont_addr ep cont_len dir) ds;
        let ep = (if us then (if \<not> non_incr then ep + ucast cont_len else ep) else ep + ucast cont_len);
        build_loop dir non_incr force us sg k (Suc i) (Suc j) next_a next_a 0 ep ds
      } else build_loop dir non_incr force us sg k (Suc i) j cont_addr next_a cont_len ep ds)
   }"

definition transfer_build ::
  "xdma_transfer \<Rightarrow> u64 \<Rightarrow> bool \<Rightarrow> bool \<Rightarrow> bool \<Rightarrow> bool \<Rightarrow> (nat \<times> xdma_transfer) option" where
  "transfer_build t ep_addr dir non_incr force us = do {
     let sg = t_dma t;
     BUG_ON (sg = []);
     let a = fst (sg ! 0);
     (i, j, cont_addr, addr, cont_len, ep, ds) \<leftarrow>
        build_loop dir non_incr force us sg (sgl_nents t - 1) 0 0 a a 0 ep_addr (desc_virt t);
     let cont_len = cont_len + snd (sg ! i);
     BUG_ON (j > sgl_nents t);
     ds \<leftarrow> set_index j (\<lambda>d. xdma_desc_set d cont_addr ep cont_len dir) ds;
     Some (j, t\<lparr>desc_virt := ds\<rparr>)
   }"

fun adjacent_loop :: "nat \<Rightarrow> nat \<Rightarrow> nat \<Rightarrow> xdma_desc list \<Rightarrow> xdma_desc list option" where
  "adjacent_loop n 0 i ds = Some ds"
| "adjacent_loop n (Suc k) i ds = do {
     ds \<leftarrow> set_index i (\<lambda>d. xdma_desc_adjacent d (int n - int i - 1)) ds;
     adjacent_loop n k (Suc i) ds
   }"

section \<open>Creation and destruction\<close>

definition transfer_create ::
  "kernel \<Rightarrow> u64 \<Rightarrow> u64 \<Rightarrow> u64 \<Rightarrow> bool \<Rightarrow> bool \<Rightarrow> bool \<Rightarrow> bool \<Rightarrow> page_world \<Rightarrow>
   (xdma_transfer option \<times> page_world) option" where
  "transfer_create K start cnt ep_addr dir non_incr force us w =
    (if \<not> k_kzalloc K then Some (None, w)
     else do {
       let t = transfer_zero\<lparr>t_dir_to_dev := dir\<rparr>;
       let (ok1, ok2, ok3) = k_sgm_alloc K;
       sgm \<leftarrow> fst (sg_create_mapper cnt ok1 ok2 ok3);
       let t = t\<lparr>t_userspace := us\<rparr>;
       (rc, sgm, w) \<leftarrow> (if us then sgm_get_user_pages (k_gup K) sgm start cnt (\<not> dir) w
                      else map_option (\<lambda>(rc, sgm). (rc, sgm, w)) (sgm_kernel_pages (k_v2p K) (k_high K) sgm start cnt));
       BUG_ON (rc < 0);
       BUG_ON (mapped_pages sgm = 0);
       let dma = k_map_sg K (take (nat (mapped_pages sgm)) (sgl sgm));
       let t = t\<lparr>t_sgm := Some sgm, t_dma := dma, sgl_nents := length dma\<rparr>;
       buf \<leftarrow> xdma_desc_alloc (sgl_nents t) (k_alloc K (sgl_nents t));
       let t = (case buf of None \<Rightarrow> t | Some (ds, b) \<Rightarrow> t\<lparr>desc_virt := ds, desc_bus := b\<rparr>);
       (last_i, t) \<leftarrow> transfer_build t ep_addr dir non_incr force us;
       t \<leftarrow> (if us then transfer_perf t last_i
            else do {
              ds \<leftarrow> set_index last_i (\<lambda>d. xdma_desc_link d None) (desc_virt t);
              let control = (XDMA_DESC_STOPPED OR XDMA_DESC_EOP) OR XDMA_DESC_COMPLETED;
              ds \<leftarrow> at_index last_i (\<lambda>d. xdma_desc_control d control) ds;
              Some (t\<lparr>desc_virt := ds\<rparr>)
            });
       let last_i = last_i + 1;
       let t = t\<lparr>desc_num := last_i, desc_adjacent := last_i\<rparr>;
       ds \<leftarrow> adjacent_loop (desc_num t) (desc_num t) 0 (desc_virt t);
       Some (Some (t\<lparr>desc_virt := ds\<rparr>), w)
     })"

text \<open>\<open>None\<close> also when the descriptor table is missing: \<open>xdma_desc_free\<close> panics then.\<close>

definition transfer_destroy :: "xdma_transfer \<Rightarrow> page_world \<Rightarrow> page_world option" where
  "transfer_destroy t w = do {
     w \<leftarrow> (case t_sgm t of
            None \<Rightarrow> Some w
          | Some sgm \<Rightarrow> do {
              (sgm, w) \<leftarrow> (if t_userspace t
                          then map_option snd (sgm_put_user_pages sgm (\<not> t_dir_to_dev t) w)
                          else Some (sgm, w));
              let sgm = sgm\<lparr>mapped_pages := 0\<rparr>;
              _ \<leftarrow> sg_destroy_mapper sgm [A_sgl, A_pages, A_mapper];
              Some w
            });
     BUG_ON (desc_virt t = []);
     Some w
   }"

section \<open>The blocks a scatter list is cut into\<close>

text \<open>The addresses of a block of \<open>n\<close> bytes at \<open>a\<close>, and of the segments of a scatter list.\<close>

definition addr_range :: "u64 \<Rightarrow> nat \<Rightarrow> u64 list" where
  "addr_range a n = map (\<lambda>k. a + of_nat k) [0..<n]"

definition segs_range :: "(u64 \<times> u32) list \<Rightarrow> u64 list" where
  "segs_range sg = concat (map (\<lambda>(a, l). addr_range a (unat l)) sg)"

lemma addr_range_0 [simp]: "addr_range a 0 = []"
  by (simp add: addr_range_def)

lemma addr_range_add: "addr_range a (m + n) = addr_range a m @ addr_range (a + of_nat m) n"
  by (rule nth_equalityI) (auto simp: addr_range_def nth_append)

lemma segs_range_simps [simp]:
  "segs_range [] = []" "segs_range ((a, l) # sg) = addr_range a (unat l) @ segs_range sg"
  "segs_range (sg @ sg') = segs_range sg @ segs_range sg'"
  by (simp_all add: segs_range_def)

text \<open>
  The end point addresses of consecutive blocks: each starts where the one before ended, or all
  at the same address when the address is not incremented (\<open>fixed\<close>).
\<close>

fun ep_seq :: "bool \<Rightarrow> u64 \<Rightarrow> (u64 \<times> u64 \<times> u32) list \<Rightarrow> u64 option" where
  "ep_seq fixed ep [] = Some ep"
| "ep_seq fixed ep ((a, e, l) # bl) =
     (if e = ep then ep_seq fixed (if fixed then ep else ep + ucast l) bl else None)"

lemma ep_seq_append: "ep_seq fixed ep (bl @ bl') = Option.bind (ep_seq fixed ep bl) (\<lambda>e. ep_seq fixed e bl')"
  by (induction fixed ep bl rule: ep_seq.induct) auto

definition set_block :: "bool \<Rightarrow> xdma_desc \<Rightarrow> u64 \<times> u64 \<times> u32 \<Rightarrow> xdma_desc" where
  "set_block dir d b = xdma_desc_set d (fst b) (fst (snd b)) (snd (snd b)) dir"

definition blocks_range :: "(u64 \<times> u64 \<times> u32) list \<Rightarrow> u64 list" where
  "blocks_range bl = concat (map (\<lambda>(a, e, l). addr_range a (unat l)) bl)"

lemma blocks_range_simps [simp]:
  "blocks_range [] = []" "blocks_range ((a, e, l) # bl) = addr_range a (unat l) @ blocks_range bl"
  "blocks_range (bl @ bl') = blocks_range bl @ blocks_range bl'"
  by (simp_all add: blocks_range_def)

lemma len_sum:
  assumes "unat (cl :: u32) \<le> 258047" "unat (len :: u32) \<le> 4096"
  shows "unat (cl + len) = unat cl + unat len" "ucast (cl + len) = (ucast cl + ucast len :: u64)"
    "(ucast (cl + len) :: u64) > ucast XDMA_DESC_MAX_BYTES - of_nat PAGE_SIZE \<longleftrightarrow> unat cl + unat len > 258047"
proof -
  show u: "unat (cl + len) = unat cl + unat len"
    using assms by (subst unat_add_lem [THEN iffD1]) simp_all
  have e: "unat (ucast x :: u64) = unat x" for x :: u32
  proof -
    have "unat x < 2 ^ 32" using unsigned_less [of x] by simp
    then show ?thesis by (simp add: unsigned_ucast_eq take_bit_nat_eq_self)
  qed
  show c: "ucast (cl + len) = (ucast cl + ucast len :: u64)"
  proof -
    have "of_nat (unat (cl + len)) = (of_nat (unat cl + unat len) :: u64)" by (simp only: u)
    then show ?thesis by simp
  qed
  have "(ucast XDMA_DESC_MAX_BYTES - of_nat PAGE_SIZE :: u64) = 258047"
    by (simp add: XDMA_DESC_MAX_BYTES_def PAGE_SIZE_def)
  then show "(ucast (cl + len) :: u64) > ucast XDMA_DESC_MAX_BYTES - of_nat PAGE_SIZE \<longleftrightarrow> unat cl + unat len > 258047"
    by (simp add: word_less_nat_alt e u)
qed

text \<open>The segment a block is.\<close>

definition seg_of :: "u64 \<times> u64 \<times> u32 \<Rightarrow> u64 \<times> u32" where
  "seg_of b = (fst b, snd (snd b))"

lemma build_loop_spec:
  assumes "\<forall>m < length sg. unat (snd (sg ! m)) \<le> 4096" "length sg \<le> length ds0"
  shows "i + k < length sg \<Longrightarrow> j \<le> i \<Longrightarrow> unat cl \<le> 258047 \<Longrightarrow> ca + ucast cl = fst (sg ! i) \<Longrightarrow>
    length ds = length ds0 \<Longrightarrow>
    \<exists>j' ca' cl' ep' ds' bl.
      build_loop dir non_incr force us sg k i j ca (fst (sg ! i)) cl ep ds
        = Some (i + k, j', ca', fst (sg ! (i + k)), cl', ep', ds') \<and>
      ca' + ucast cl' = fst (sg ! (i + k)) \<and> unat cl' \<le> 258047 \<and> j' = j + length bl \<and> length bl \<le> k \<and> length ds' = length ds \<and>
      (\<forall>m. m < j \<or> j' \<le> m \<longrightarrow> ds' ! m = ds ! m) \<and>
      (\<forall>m < length bl. ds' ! (j + m) = set_block dir (ds ! (j + m)) (bl ! m)) \<and>
      ep_seq (us \<and> non_incr) ep bl = Some ep' \<and> (\<forall>b \<in> set bl. unat (snd (snd b)) \<le> 262143) \<and>
      blocks_range bl @ addr_range ca' (unat cl') = addr_range ca (unat cl) @ segs_range (take k (drop i sg)) \<and>
      (force \<and> \<not> us \<and> cl = 0 \<longrightarrow> map seg_of bl = take k (drop i sg) \<and> cl' = 0)"
proof (induction k arbitrary: i j ca cl ep ds)
  case 0
  then show ?case by (intro exI [of _ j] exI [of _ ca] exI [of _ cl] exI [of _ ep] exI [of _ ds] exI [of _ "[]"]) simp
next
  case (Suc k)
  define len where "len = snd (sg ! i)"
  define nx where "nx = fst (sg ! Suc i)"
  have l: "unat len \<le> 4096" using assms(1) Suc.prems(1) by (simp add: len_def)
  note ls = len_sum [OF Suc.prems(3) l]
  have rng: "addr_range ca (unat cl) @ segs_range (take (Suc k) (drop i sg))
      = addr_range ca (unat (cl + len)) @ segs_range (take k (drop (Suc i) sg))"
  proof -
    have "drop i sg = (fst (sg ! i), len) # drop (Suc i) sg"
      using Suc.prems(1) by (simp add: len_def Cons_nth_drop_Suc)
    then show ?thesis using Suc.prems(4) by (simp add: ls(1) addr_range_add)
  qed
  define nd where "nd \<longleftrightarrow> nx \<noteq> fst (sg ! i) + ucast len \<or> unat cl + unat len > 258047 \<or> force \<and> \<not> us"
  have step: "build_loop dir non_incr force us sg (Suc k) i j ca (fst (sg ! i)) cl ep ds =
     (if nd then do {
        ds \<leftarrow> set_index j (\<lambda>d. xdma_desc_set d ca ep (cl + len) dir) ds;
        build_loop dir non_incr force us sg k (Suc i) (Suc j) nx nx 0
          (if us \<and> non_incr then ep else ep + ucast (cl + len)) ds
      } else build_loop dir non_incr force us sg k (Suc i) j ca nx (cl + len) ep ds)"
    using Suc.prems(1) ls(3) by (auto simp: Let_def nd_def len_def nx_def)
  have i': "Suc i + k < length sg" using Suc.prems(1) by simp
  show ?case
  proof (cases nd)
    case False
    then have c: "ca + ucast (cl + len) = fst (sg ! Suc i)" "unat (cl + len) \<le> 258047" "\<not> (force \<and> \<not> us)"
      using Suc.prems(4) ls by (auto simp: nd_def nx_def add.assoc [symmetric])
    have ji: "j \<le> Suc i" using Suc.prems(2) by simp
    obtain j' ca' cl' ep' ds' bl where r:
      "build_loop dir non_incr force us sg k (Suc i) j ca (fst (sg ! Suc i)) (cl + len) ep ds
        = Some (Suc i + k, j', ca', fst (sg ! (Suc i + k)), cl', ep', ds')"
      "ca' + ucast cl' = fst (sg ! (Suc i + k))" "unat cl' \<le> 258047" "j' = j + length bl" "length bl \<le> k" "length ds' = length ds"
      "\<forall>m. m < j \<or> j' \<le> m \<longrightarrow> ds' ! m = ds ! m"
      "\<forall>m < length bl. ds' ! (j + m) = set_block dir (ds ! (j + m)) (bl ! m)"
      "ep_seq (us \<and> non_incr) ep bl = Some ep'" "\<forall>b \<in> set bl. unat (snd (snd b)) \<le> 262143"
      "blocks_range bl @ addr_range ca' (unat cl') =
         addr_range ca (unat (cl + len)) @ segs_range (take k (drop (Suc i) sg))"
      using Suc.IH [OF i' ji c(2,1) Suc.prems(5), of ep] by blast
    have nf: "(force \<and> \<not> us \<and> cl = 0) = False" using c(3) by blast
    show ?thesis unfolding step rng nf
      using False r by (intro exI [of _ j'] exI [of _ ca'] exI [of _ cl'] exI [of _ ep'] exI [of _ ds'] exI [of _ bl])
        (simp add: nx_def)
  next
    case True
    let ?b = "(ca, ep, cl + len)"
    let ?ds = "ds[j := set_block dir (ds ! j) ?b]"
    let ?ep = "if us \<and> non_incr then ep else ep + ucast (cl + len)"
    have jl: "j < length ds" "Suc j \<le> Suc i" using Suc.prems assms(2) by auto
    have z: "unat (0 :: u32) \<le> 258047" "fst (sg ! Suc i) + ucast (0 :: u32) = fst (sg ! Suc i)"
      "length ?ds = length ds0" using Suc.prems(5) by simp_all
    obtain j' ca' cl' ep' ds' bl where r:
      "build_loop dir non_incr force us sg k (Suc i) (Suc j) (fst (sg ! Suc i)) (fst (sg ! Suc i)) 0 ?ep ?ds
        = Some (Suc i + k, j', ca', fst (sg ! (Suc i + k)), cl', ep', ds')"
      "ca' + ucast cl' = fst (sg ! (Suc i + k))" "unat cl' \<le> 258047" "j' = Suc j + length bl" "length bl \<le> k" "length ds' = length ?ds"
      "\<forall>m. m < Suc j \<or> j' \<le> m \<longrightarrow> ds' ! m = ?ds ! m"
      "\<forall>m < length bl. ds' ! (Suc j + m) = set_block dir (?ds ! (Suc j + m)) (bl ! m)"
      "ep_seq (us \<and> non_incr) ?ep bl = Some ep'" "\<forall>b \<in> set bl. unat (snd (snd b)) \<le> 262143"
      "blocks_range bl @ addr_range ca' (unat cl') =
         addr_range (fst (sg ! Suc i)) (unat (0 :: u32)) @ segs_range (take k (drop (Suc i) sg))"
      "force \<and> \<not> us \<and> (0 :: u32) = 0 \<longrightarrow> map seg_of bl = take k (drop (Suc i) sg) \<and> cl' = 0"
      using Suc.IH [OF i' jl(2) z, of ?ep] by blast
    have "build_loop dir non_incr force us sg (Suc k) i j ca (fst (sg ! i)) cl ep ds
        = Some (i + Suc k, j', ca', fst (sg ! (i + Suc k)), cl', ep', ds')"
      unfolding step using True jl r(1) by (simp add: set_block_def nx_def)
    moreover have "ds' ! (j + m) = set_block dir (ds ! (j + m)) ((?b # bl) ! m)" if "m < length (?b # bl)" for m
      using that r(7) [rule_format, of j] r(8) [rule_format, of "m - 1"] jl by (cases m) auto
    moreover have "ep_seq (us \<and> non_incr) ep (?b # bl) = Some ep'" using r(9) by simp
    moreover have "\<forall>b \<in> set (?b # bl). unat (snd (snd b)) \<le> 262143"
      using r(10) ls(1) l Suc.prems(3) by simp
    moreover have "blocks_range (?b # bl) @ addr_range ca' (unat cl')
        = addr_range ca (unat cl) @ segs_range (take (Suc k) (drop i sg))"
      using r(11) by (simp add: rng)
    moreover have "ds' ! m = ds ! m" if "m < j \<or> j' \<le> m" for m
    proof -
      have "m < Suc j \<or> j' \<le> m" "m \<noteq> j" using that r(4) by auto
      then show ?thesis using r(7) [rule_format, of m] by simp
    qed
    moreover have "force \<and> \<not> us \<and> cl = 0 \<longrightarrow> map seg_of (?b # bl) = take (Suc k) (drop i sg) \<and> cl' = 0"
    proof
      assume f: "force \<and> \<not> us \<and> cl = 0"
      then have "drop i sg = seg_of ?b # drop (Suc i) sg"
        using Suc.prems(1,4) by (simp add: seg_of_def len_def Cons_nth_drop_Suc)
      then show "map seg_of (?b # bl) = take (Suc k) (drop i sg) \<and> cl' = 0" using f r(12) by simp
    qed
    ultimately show ?thesis using r
      by (intro exI [of _ j'] exI [of _ ca'] exI [of _ cl'] exI [of _ ep'] exI [of _ ds'] exI [of _ "?b # bl"]) simp
  qed
qed

text \<open>The outcome of \<open>transfer_build\<close> for segments of at most a page each.\<close>

lemma transfer_build_spec:
  assumes "t_dma t \<noteq> []" "sgl_nents t = length (t_dma t)" "length (t_dma t) \<le> length (desc_virt t)"
    and "\<forall>s \<in> set (t_dma t). unat (snd s) \<le> 4096"
  shows "\<exists>bl ds. transfer_build t ep dir non_incr force us = Some (length bl - 1, t\<lparr>desc_virt := ds\<rparr>) \<and>
    bl \<noteq> [] \<and> length bl \<le> sgl_nents t \<and> length ds = length (desc_virt t) \<and>
    (\<forall>m < length bl. ds ! m = set_block dir (desc_virt t ! m) (bl ! m)) \<and>
    (\<forall>m \<ge> length bl. ds ! m = desc_virt t ! m) \<and>
    ep_seq (us \<and> non_incr) ep bl \<noteq> None \<and> (\<forall>b \<in> set bl. unat (snd (snd b)) \<le> 262143) \<and>
    blocks_range bl = segs_range (t_dma t) \<and> (force \<and> \<not> us \<longrightarrow> map seg_of bl = t_dma t)"
proof -
  let ?sg = "t_dma t" and ?n = "length (t_dma t)" and ?a = "fst (t_dma t ! 0)"
  have n: "0 + (?n - 1) < ?n" "Suc (?n - 1) = ?n" using assms(1) by (cases ?sg, simp_all)+
  have sm: "\<forall>m < ?n. unat (snd (?sg ! m)) \<le> 4096" using assms(4) by simp
  have z: "unat (0 :: u32) \<le> 258047" "?a + ucast (0 :: u32) = ?a" by simp_all
  obtain j' ca cl ep' ds' bl where r:
    "build_loop dir non_incr force us ?sg (?n - 1) 0 0 ?a ?a 0 ep (desc_virt t)
      = Some (0 + (?n - 1), j', ca, fst (?sg ! (0 + (?n - 1))), cl, ep', ds')"
    "ca + ucast cl = fst (?sg ! (0 + (?n - 1)))" "unat cl \<le> 258047" "j' = 0 + length bl" "length bl \<le> ?n - 1" "length ds' = length (desc_virt t)"
    "\<forall>m. m < 0 \<or> j' \<le> m \<longrightarrow> ds' ! m = desc_virt t ! m"
    "\<forall>m < length bl. ds' ! (0 + m) = set_block dir (desc_virt t ! (0 + m)) (bl ! m)"
    "ep_seq (us \<and> non_incr) ep bl = Some ep'" "\<forall>b \<in> set bl. unat (snd (snd b)) \<le> 262143"
    "blocks_range bl @ addr_range ca (unat cl) = addr_range ?a (unat (0 :: u32)) @ segs_range (take (?n - 1) (drop 0 ?sg))"
    "force \<and> \<not> us \<and> (0 :: u32) = 0 \<longrightarrow> map seg_of bl = take (?n - 1) (drop 0 ?sg) \<and> cl = 0"
    using build_loop_spec [OF sm assms(3) n(1) le_refl z refl, of dir non_incr force us ep] by blast
  define len where "len = snd (?sg ! (?n - 1))"
  have l: "unat len \<le> 4096" using sm n by (simp add: len_def)
  let ?b = "(ca, ep', cl + len)"
  let ?bl = "bl @ [?b]" and ?ds = "ds'[length bl := set_block dir (ds' ! length bl) ?b]"
  have bl: "length bl < length ds'" "length bl \<le> ?n" "j' = length bl" using r(4,5,6) n assms(3) by auto
  have run: "transfer_build t ep dir non_incr force us = Some (length bl, t\<lparr>desc_virt := ?ds\<rparr>)"
    using assms(1,2) r(1) bl by (simp add: transfer_build_def Let_def set_block_def len_def)
  have rng: "blocks_range ?bl = segs_range ?sg"
  proof -
    have "?sg = take (?n - 1) ?sg @ [?sg ! (?n - 1)]"
      using n by (metis add_0 take_Suc_conv_app_nth take_all_iff le_refl)
    moreover have "?sg ! (?n - 1) = (fst (?sg ! (?n - 1)), len)" by (simp add: len_def)
    ultimately have "segs_range ?sg = segs_range (take (?n - 1) ?sg) @ addr_range (fst (?sg ! (?n - 1))) (unat len)"
      by (metis segs_range_simps(1,2,3) append_Nil2)
    moreover have "ca + of_nat (unat cl) = fst (?sg ! (?n - 1))"
      using r(2) by simp
    ultimately show ?thesis using r(11) len_sum(1) [OF r(3) l] by (simp add: addr_range_add)
  qed
  have "?ds ! m = set_block dir (desc_virt t ! m) (?bl ! m)" if "m < length ?bl" for m
  proof (cases "m = length bl")
    case True
    then show ?thesis using bl r(7) by simp
  next
    case False
    then show ?thesis using that r(8) [rule_format, of m] by (simp add: nth_append)
  qed
  moreover have "?ds ! m = desc_virt t ! m" if "length ?bl \<le> m" for m
    using that r(7) bl by simp
  moreover have "ep_seq (us \<and> non_incr) ep ?bl \<noteq> None" using r(9) by (simp add: ep_seq_append)
  moreover have "\<forall>b \<in> set ?bl. unat (snd (snd b)) \<le> 262143"
    using r(10) len_sum(1) [OF r(3) l] r(3) l by simp
  moreover have "length ?bl \<le> sgl_nents t" using r(5) n assms(2) by auto
  moreover have "force \<and> \<not> us \<longrightarrow> map seg_of ?bl = ?sg"
  proof
    assume "force \<and> \<not> us"
    then have f: "map seg_of bl = take (?n - 1) ?sg" "cl = 0" using r(12) by simp_all
    have "?sg = take (?n - 1) ?sg @ [?sg ! (?n - 1)]"
      using n by (metis add_0 take_Suc_conv_app_nth take_all_iff le_refl)
    moreover have "seg_of ?b = ?sg ! (?n - 1)" using f(2) r(2) by (simp add: seg_of_def len_def)
    ultimately show "map seg_of ?bl = ?sg" using f(1) by simp
  qed
  ultimately show ?thesis using run rng r(6)
    by (intro exI [of _ ?bl] exI [of _ ?ds]) simp
qed

section \<open>The finished descriptor list\<close>

lemma adjacent_loop_spec:
  "i + k \<le> length ds \<Longrightarrow> \<exists>ds'. adjacent_loop n k i ds = Some ds' \<and> length ds' = length ds \<and>
     (\<forall>m. ds' ! m = (if i \<le> m \<and> m < i + k then xdma_desc_adjacent (ds ! m) (int n - int m - 1) else ds ! m))"
proof (induction k arbitrary: i ds)
  case 0
  then show ?case by auto
next
  case (Suc k)
  let ?ds = "ds[i := xdma_desc_adjacent (ds ! i) (int n - int i - 1)]"
  obtain ds' where r: "adjacent_loop n k (Suc i) ?ds = Some ds'" "length ds' = length ds"
    "\<And>m. ds' ! m = (if Suc i \<le> m \<and> m < Suc i + k then xdma_desc_adjacent (?ds ! m) (int n - int m - 1) else ?ds ! m)"
    using Suc.IH [of "Suc i" ?ds] Suc.prems by auto
  have "ds' ! m = (if i \<le> m \<and> m < i + Suc k then xdma_desc_adjacent (ds ! m) (int n - int m - 1) else ds ! m)" for m
    using r(3) [of m] Suc.prems by (cases "m = i") auto
  with r(1,2) Suc.prems show ?case by simp
qed

definition END_CONTROL :: u32 where
  "END_CONTROL = (XDMA_DESC_STOPPED OR XDMA_DESC_EOP) OR XDMA_DESC_COMPLETED"

lemma end_control_field: "ctl_field END_CONTROL"
  by (simp add: ctl_field_def END_CONTROL_def bits)

lemma end_control_stops: "END_CONTROL AND XDMA_DESC_STOPPED \<noteq> 0"
  by (simp add: END_CONTROL_def bits)

lemma terminate_spec:
  assumes "m < length ds"
  shows "\<exists>d. at_index m (\<lambda>d. xdma_desc_control d END_CONTROL) (ds[m := xdma_desc_link (ds ! m) None]) = Some (ds[m := d]) \<and>
     desc_frame (xdma_desc_link (ds ! m) None) d \<and> desc_ctl d = END_CONTROL"
proof -
  obtain d where "xdma_desc_control (xdma_desc_link (ds ! m) None) END_CONTROL = Some d"
    using ce_all.edit_total [of "xdma_desc_link (ds ! m) None" END_CONTROL] end_control_field by auto
  with assms ce_all.edit_frame [OF this] ce_all.edit_ctl [OF this] show ?thesis
    by (intro exI [of _ d]) (simp add: at_index_def)
qed

lemma set_block_sel [simp]:
  "desc_host dir (set_block dir d (a, e, l)) = a" "desc_ep dir (set_block dir d (a, e, l)) = e"
  "d_bytes (set_block dir d b) = snd (snd b)" "d_control (set_block dir d b) = d_control d"
  "desc_next (set_block dir d b) = desc_next d"
  "d_next_lo (set_block dir d b) = d_next_lo d" "d_next_hi (set_block dir d b) = d_next_hi d"
  by (simp_all add: set_block_def) (simp_all add: xdma_desc_set_def Let_def)

lemma set_block_ctl [simp]:
  "desc_ctl (set_block dir d b) = desc_ctl d" "desc_magic_ok (set_block dir d b) = desc_magic_ok d"
  by (simp_all add: desc_ctl_def desc_magic_ok_def)

lemma next_offset: "unat (take_bit 12 (d_next_lo d)) = unat (desc_next d) mod 4096"
proof -
  have "take_bit 12 (desc_next d) = ucast (take_bit 12 (d_next_lo d))"
    unfolding desc_next_def addr_of_def by (rule bit_word_eqI) (auto simp: bit_simps)
  then have "unat (take_bit 12 (desc_next d)) = unat (ucast (take_bit 12 (d_next_lo d)) :: u64)" by simp
  moreover have "unat (ucast x :: u64) = unat x" for x :: u32
  proof -
    have "unat x < 2 ^ 32" using unsigned_less [of x] by simp
    then show ?thesis by (simp add: unsigned_ucast_eq take_bit_nat_eq_self)
  qed
  ultimately have "unat (take_bit 12 (desc_next d)) = unat (take_bit 12 (d_next_lo d))" by simp
  moreover have "unat (take_bit 12 (desc_next d)) = unat (desc_next d) mod 4096"
    unfolding unsigned_take_bit_eq by (simp add: take_bit_eq_mod)
  ultimately show ?thesis by (rule trans [OF sym])
qed

text \<open>
  What the table of a transfer holds once it is complete: descriptor \<open>m\<close> of \<open>n\<close>, from the table
  \<open>ds0\<close> \<open>xdma_desc_alloc\<close> chained and the blocks \<open>bl\<close>.
\<close>

definition final_desc :: "bool \<Rightarrow> u64 \<Rightarrow> nat \<Rightarrow> nat \<Rightarrow> u64 \<times> u64 \<times> u32 \<Rightarrow> xdma_desc \<Rightarrow> bool" where
  "final_desc dir b n m blk d \<longleftrightarrow>
     desc_host dir d = fst blk \<and> desc_ep dir d = fst (snd blk) \<and> d_bytes d = snd (snd blk) \<and>
     desc_magic_ok d \<and>
     desc_ctl d = (if Suc m < n then 0 else END_CONTROL) \<and>
     desc_next d = (if Suc m < n then b + of_nat (32 * Suc m) else 0) \<and>
     desc_extra_adj d \<le> 15 \<and> (Suc m < n \<longrightarrow> Suc m + desc_extra_adj d < n) \<and>
     (Suc m < n \<longrightarrow> unat (desc_next d) mod 4096 + 32 * (desc_extra_adj d + 1) \<le> 4096) \<and>
     (\<not> Suc m < n \<longrightarrow> desc_extra_adj d = 0)"

lemma aligned_next:
  assumes "unat b mod 32 = 0"
  shows "unat ((b :: u64) + of_nat (32 * k)) mod 32 = 0"
proof -
  have d: "(x mod 2 ^ 64) mod 32 = x mod (32 :: nat)" for x
    by (rule mod_mod_cancel) simp
  have "unat (b + of_nat (32 * k)) = (unat b + (32 * k) mod 2 ^ 64) mod 2 ^ 64"
    by (simp only: unat_word_ariths unat_of_nat) simp
  then have "unat (b + of_nat (32 * k)) mod 32 = (unat b + (32 * k) mod 2 ^ 64) mod 32"
    by (simp only: d)
  also have "\<dots> = (unat b mod 32 + ((32 * k) mod 2 ^ 64) mod 32) mod 32" by (rule mod_add_eq [symmetric])
  also have "\<dots> = 0" unfolding d by (simp add: assms)
  finally show ?thesis .
qed

text \<open>
  The tail of \<open>transfer_create\<close>: \<open>transfer_build\<close> on a fresh table, then the end marks and the
  adjacency.
\<close>

lemma branch_perf:
  "(if us then transfer_perf t m
    else do {
      ds \<leftarrow> set_index m (\<lambda>d. xdma_desc_link d None) (desc_virt t);
      let control = (XDMA_DESC_STOPPED OR XDMA_DESC_EOP) OR XDMA_DESC_COMPLETED;
      ds \<leftarrow> at_index m (\<lambda>d. xdma_desc_control d control) ds;
      Some (t\<lparr>desc_virt := ds\<rparr>)
    }) = transfer_perf t m"
  by (simp add: transfer_perf_def)

lemma final_desc_middle:
  assumes "fresh_desc n0 b m d0" "Suc m < n" "n \<le> n0" "unat b mod 32 = 0"
  shows "final_desc dir b n m blk (xdma_desc_adjacent (set_block dir d0 blk) (int n - int m - 1))"
proof -
  obtain a e l where blk: "blk = (a, e, l)" by (cases blk)
  let ?d = "set_block dir d0 blk"
  have nx: "desc_next d0 = b + of_nat (32 * Suc m)" using assms(1,2,3) by (simp add: fresh_desc_def)
  define off where "off = unat (take_bit 12 (d_next_lo ?d))"
  have off: "off = unat (desc_next d0) mod 4096"
    unfolding off_def using next_offset [of "set_block dir d0 blk"] by simp
  have al: "off mod 32 = 0"
  proof -
    have "unat (desc_next d0) mod 4096 mod 32 = unat (desc_next d0) mod 32"
      by (rule mod_mod_cancel) simp
    then show ?thesis unfolding off by (simp only: nx aligned_next [OF assms(4)])
  qed
  have pos: "0 < int n - int m - 1" using assms(2) by simp
  note r = adj_value_range [OF al off_def, of "int n - int m - 1"]
  note a = adjacent_ctl [OF r(1,2)]
  have ex: "desc_extra_adj (xdma_desc_adjacent ?d (int n - int m - 1)) \<le> n - m - 1 - 1"
  proof -
    have "nat (int n - int m - 1) = n - m - 1" by linarith
    then show ?thesis unfolding a(3) r(4) [OF pos] by (simp add: min_le_iff_disj)
  qed
  have ex2: "desc_extra_adj (xdma_desc_adjacent ?d (int n - int m - 1)) \<le> 15"
    "off + 32 * (desc_extra_adj (xdma_desc_adjacent ?d (int n - int m - 1)) + 1) \<le> 4096"
    unfolding a(3) using r(1,2,3) by simp_all
  have he: "desc_host dir (xdma_desc_adjacent ?d k) = a" "desc_ep dir (xdma_desc_adjacent ?d k) = e" for k
    using host_ep_cong [of "xdma_desc_adjacent ?d k" ?d dir] by (simp_all add: blk)
  show ?thesis unfolding final_desc_def
    using he ex ex2 a(1,2) assms(1,2) off nx
    by (auto simp: blk fresh_desc_def simp del: of_nat_mult of_nat_Suc mult_Suc_right)
qed

lemma final_desc_last:
  assumes "fresh_desc n0 b m d0" "\<not> Suc m < n" "m < n"
    and "desc_frame (xdma_desc_link (set_block dir d0 blk) None) d" "desc_ctl d = END_CONTROL"
  shows "final_desc dir b n m blk (xdma_desc_adjacent d (int n - int m - 1))"
proof -
  obtain a e l where blk: "blk = (a, e, l)" by (cases blk)
  have z: "int n - int m - 1 = 0" using assms(2,3) by linarith
  have v: "adj_value (d_next_lo d) 0 = 0" by (simp add: adj_value_def)
  have ac: "desc_ctl (xdma_desc_adjacent d 0) = END_CONTROL" "desc_magic_ok (xdma_desc_adjacent d 0)"
    "desc_extra_adj (xdma_desc_adjacent d 0) = 0"
    using adjacent_ctl [of d 0] by (simp_all add: v assms(5))
  have he: "desc_host dir (xdma_desc_adjacent d 0) = a" "desc_ep dir (xdma_desc_adjacent d 0) = e"
    using desc_frame_data(7,8) [OF assms(4), of dir] host_ep_cong [of "xdma_desc_adjacent d 0" d dir]
      host_ep_cong [of "xdma_desc_link (set_block dir d0 blk) None" "set_block dir d0 blk" dir]
    by (simp_all add: blk)
  show ?thesis unfolding final_desc_def z
    using he ac desc_frame_data(1,4) [OF assms(4)] assms(2) by (simp add: blk)
qed

lemma create_tail:
  assumes "t_dma t \<noteq> []" "sgl_nents t = length (t_dma t)" "length (desc_virt t) = length (t_dma t)"
    and "\<forall>s \<in> set (t_dma t). unat (snd s) \<le> 4096"
    and "\<forall>m < length (t_dma t). fresh_desc (length (t_dma t)) b m (desc_virt t ! m)"
    and "unat b mod 32 = 0"
  shows "\<exists>bl ds t1. transfer_build t ep dir non_incr force us = Some (length bl - 1, t1) \<and>
    do {
      t2 \<leftarrow> transfer_perf t1 (length bl - 1);
      let t2 = t2\<lparr>desc_num := length bl, desc_adjacent := length bl\<rparr>;
      ds \<leftarrow> adjacent_loop (desc_num t2) (desc_num t2) 0 (desc_virt t2);
      Some (t2\<lparr>desc_virt := ds\<rparr>)
    } = Some (t\<lparr>desc_virt := ds, desc_num := length bl, desc_adjacent := length bl\<rparr>) \<and>
    bl \<noteq> [] \<and> length bl \<le> sgl_nents t \<and> length ds = length (desc_virt t) \<and>
    (\<forall>m < length bl. final_desc dir b (length bl) m (bl ! m) (ds ! m)) \<and>
    ep_seq (us \<and> non_incr) ep bl \<noteq> None \<and> (\<forall>b \<in> set bl. unat (snd (snd b)) \<le> 262143) \<and>
    blocks_range bl = segs_range (t_dma t) \<and> (force \<and> \<not> us \<longrightarrow> map seg_of bl = t_dma t)"
proof -
  obtain bl ds1 where b: "transfer_build t ep dir non_incr force us = Some (length bl - 1, t\<lparr>desc_virt := ds1\<rparr>)"
    "bl \<noteq> []" "length bl \<le> sgl_nents t" "length ds1 = length (desc_virt t)"
    "\<And>m. m < length bl \<Longrightarrow> ds1 ! m = set_block dir (desc_virt t ! m) (bl ! m)"
    "ep_seq (us \<and> non_incr) ep bl \<noteq> None" "\<forall>b \<in> set bl. unat (snd (snd b)) \<le> 262143"
    "blocks_range bl = segs_range (t_dma t)" "force \<and> \<not> us \<longrightarrow> map seg_of bl = t_dma t"
    using transfer_build_spec [OF assms(1,2) _ assms(4), of ep dir non_incr force us] assms(3) by auto
  let ?n = "length bl" and ?l = "length bl - 1"
  have n: "0 < ?n" "Suc ?l = ?n" using b(2) by (cases bl, simp_all)+
  have ll: "?l < length ds1" using b(3,4) assms(2,3) n by linarith
  from terminate_spec [OF ll] obtain d where d:
    "at_index ?l (\<lambda>d. xdma_desc_control d END_CONTROL) (ds1[?l := xdma_desc_link (ds1 ! ?l) None]) = Some (ds1[?l := d])"
    "desc_frame (xdma_desc_link (ds1 ! ?l) None) d" "desc_ctl d = END_CONTROL" by blast
  have perf: "transfer_perf (t\<lparr>desc_virt := ds1\<rparr>) ?l = Some (t\<lparr>desc_virt := ds1[?l := d]\<rparr>)"
    using ll d(1) by (simp add: transfer_perf_def Let_def flip: END_CONTROL_def)
  have "0 + ?n \<le> length (ds1[?l := d])" using b(3,4) assms(2,3) by simp
  from adjacent_loop_spec [OF this, of ?n] obtain ds where ds:
    "adjacent_loop ?n ?n 0 (ds1[?l := d]) = Some ds" "length ds = length (ds1[?l := d])"
    "\<forall>m. ds ! m = (if 0 \<le> m \<and> m < 0 + ?n
        then xdma_desc_adjacent (ds1[?l := d] ! m) (int ?n - int m - 1) else ds1[?l := d] ! m)" by blast
  have "final_desc dir b ?n m (bl ! m) (ds ! m)" if m: "m < ?n" for m
  proof -
    have fr: "fresh_desc (length (t_dma t)) b m (desc_virt t ! m)" using m b(3) assms(2,5) by simp
    have e: "ds ! m = xdma_desc_adjacent (ds1[?l := d] ! m) (int ?n - int m - 1)" using ds(3) m by simp
    show ?thesis
    proof (cases "Suc m < ?n")
      case True
      then have "ds1[?l := d] ! m = set_block dir (desc_virt t ! m) (bl ! m)" using b(5) [OF m] n by auto
      then show ?thesis unfolding e using final_desc_middle [OF fr True _ assms(6)] b(3) assms(2) by simp
    next
      case False
      then have ml: "m = ?l" using m n by linarith
      then have "ds1[?l := d] ! m = d" using ll by simp
      then show ?thesis unfolding e
        using final_desc_last [OF fr False m, of dir "bl ! m" d] d(2,3) b(5) [OF m] ml by simp
    qed
  qed
  with b ds perf n show ?thesis
    by (intro exI [of _ bl] exI [of _ ds] exI [of _ "t\<lparr>desc_virt := ds1\<rparr>"]) (simp add: Let_def)
qed

section \<open>Whole transfers\<close>

text \<open>
  What the driver relies on: allocations succeed, \<open>get_user_pages_fast\<close> is as documented,
  \<open>pci_map_sg\<close> returns between one segment and as many as there are entries, none longer than a
  page (no merging of pages by an IOMMU), \<open>pci_alloc_consistent\<close> returns page aligned memory of
  the size asked for.
\<close>

definition kernel_ok :: "kernel \<Rightarrow> bool" where
  "kernel_ok K \<longleftrightarrow> k_kzalloc K \<and> k_sgm_alloc K = (True, True, True) \<and> gup_ok (k_gup K) \<and>
     (\<forall>sg. sg \<noteq> [] \<longrightarrow> k_map_sg K sg \<noteq> [] \<and> length (k_map_sg K sg) \<le> length sg \<and>
        (\<forall>s \<in> set (k_map_sg K sg). unat (snd s) \<le> PAGE_SIZE)) \<and>
     (\<forall>n > 0. \<exists>buf b. k_alloc K n = Some (buf, b) \<and> length buf = n \<and> unat b mod PAGE_SIZE = 0)"

text \<open>All pages of the buffer are there: pinned on request, or present in the vmalloc area.\<close>

definition pages_ok :: "kernel \<Rightarrow> bool \<Rightarrow> bool \<Rightarrow> u64 \<Rightarrow> u64 \<Rightarrow> bool" where
  "pages_ok K dir us start cnt \<longleftrightarrow>
     (let n = nr_slices (unat start) (unat cnt)
      in if us then fst (k_gup K start (int n) (\<not> dir)) = int n
         else \<forall>j < n. \<exists>p. k_v2p K (start + of_nat (4096 * j)) = Some p \<and> \<not> k_high K p)"

text \<open>The page of slice \<open>i\<close> of the buffer: what \<open>get_user_pages_fast\<close> or \<open>vmalloc_to_page\<close> says.\<close>

definition buffer_page :: "kernel \<Rightarrow> bool \<Rightarrow> bool \<Rightarrow> u64 \<Rightarrow> u64 \<Rightarrow> nat \<Rightarrow> page option" where
  "buffer_page K dir us start cnt i =
     (if us then Some (snd (k_gup K start (int (nr_slices (unat start) (unat cnt))) (\<not> dir)) ! i)
      else k_v2p K (start + of_nat (4096 * i)))"

definition buffer_ok :: "u64 \<Rightarrow> u64 \<Rightarrow> bool" where
  "buffer_ok start cnt \<longleftrightarrow> 0 < unat cnt \<and> unat cnt < 2 ^ 42 \<and> unat start + unat cnt < 2 ^ 64"

lemma map_pages_ok:
  assumes "kernel_ok K" "pages_ok K dir us start cnt" "buffer_ok start cnt"
  shows "\<exists>sgm sgm' w' got. fst (sg_create_mapper cnt True True True) = Some sgm \<and>
    (if us then sgm_get_user_pages (k_gup K) sgm start cnt (\<not> dir) w
     else map_option (\<lambda>(rc, sgm). (rc, sgm, w)) (sgm_kernel_pages (k_v2p K) (k_high K) sgm start cnt))
      = Some (mapped_pages sgm', sgm', w') \<and>
    mapped_pages sgm' = int (nr_slices (unat start) (unat cnt)) \<and> 0 < mapped_pages sgm' \<and>
    mapped_pages sgm' < 2 ^ 31 \<and> mapped_pages sgm' \<le> int (length (sgl sgm')) \<and>
    (\<forall>i < nat (mapped_pages sgm'). sg_slice (unat start) (unat cnt) i (sgl sgm' ! i) \<and>
       sg_page (sgl sgm' ! i) = buffer_page K dir us start cnt i) \<and>
    (if us then w' = fold get_page got w \<and> take (nat (mapped_pages sgm')) (pages sgm') = map Some got else w' = w)"
proof -
  let ?n = "nr_slices (unat start) (unat cnt)"
  have b: "0 < unat cnt" "unat cnt < 2 ^ 42" "unat start + unat cnt < 2 ^ 64"
    using assms(3) by (auto simp: buffer_ok_def)
  then have "cnt \<noteq> 0" by auto
  then obtain sgm where c: "sg_create_mapper cnt True True True = (Some sgm, [A_sgl, A_pages, A_mapper])"
    by (simp add: sg_create_mapper_def Let_def)
  note m = mapper_shape [OF c b(2)] mapper_room [OF c b(2) le_refl, of "unat start"]
  have m0: "mapped_pages sgm \<le> 0" using m(3) by simp
  have n0: "0 < ?n" by (simp add: nr_slices_def)
  show ?thesis
  proof (cases us)
    case True
    have g: "gup_ok (k_gup K)" "k_gup K start (int ?n) (\<not> dir) = (int ?n, snd (k_gup K start (int ?n) (\<not> dir)))"
      using assms(1,2) True by (simp_all add: kernel_ok_def pages_ok_def Let_def prod_eq_iff)
    from get_pages_cases(2) [OF g(1) m(2) m0 b(1,3) m(5,6) g(2) refl, of w] obtain sgm' where r:
      "sgm_get_user_pages (k_gup K) sgm start cnt (\<not> dir) w
        = Some (int ?n, sgm', fold get_page (snd (k_gup K start (int ?n) (\<not> dir))) w)"
      "mapped_pages sgm' = int ?n" "sgm_wf sgm'" "max_pages sgm' = max_pages sgm"
      "take (nat (int ?n)) (pages sgm') = map Some (snd (k_gup K start (int ?n) (\<not> dir)))"
      "\<forall>i < nat (int ?n). sg_page (sgl sgm' ! i) = Some (snd (k_gup K start (int ?n) (\<not> dir)) ! i)
         \<and> sg_slice (unat start) (unat cnt) i (sgl sgm' ! i)" by blast
    show ?thesis
      by (rule exI [of _ sgm], rule exI [of _ sgm'], rule exI, rule exI [of _ "snd (k_gup K start (int ?n) (\<not> dir))"])
        (use True c r n0 m(5,6) in \<open>simp add: sgm_wf_def buffer_page_def\<close>)
  next
    case False
    then have "\<forall>j. j < ?n \<longrightarrow> (\<exists>p. k_v2p K (start + of_nat (4096 * j)) = Some p \<and> \<not> k_high K p)"
      using assms(2) by (simp add: pages_ok_def Let_def)
    then obtain pg where pg: "\<And>j. j < ?n \<Longrightarrow> k_v2p K (start + of_nat (4096 * j)) = Some (pg j) \<and> \<not> k_high K (pg j)"
      by metis
    from kernel_pages_spec [where pg = pg, OF m(2) m0 b(1,3) m(5,6) pg] obtain sgm' where r:
      "sgm_kernel_pages (k_v2p K) (k_high K) sgm start cnt = Some (int ?n, sgm')"
      "mapped_pages sgm' = int ?n" "sgm_wf sgm'" "max_pages sgm' = max_pages sgm"
      "\<forall>i < ?n. sg_page (sgl sgm' ! i) = Some (pg i) \<and> sg_slice (unat start) (unat cnt) i (sgl sgm' ! i)" by blast
    show ?thesis
      by (rule exI [of _ sgm], rule exI [of _ sgm'], rule exI [of _ w], rule exI [of _ "[]"])
        (use False c r n0 m(5,6) pg in \<open>simp add: sgm_wf_def buffer_page_def\<close>)
  qed
qed

definition transfer_ok :: "kernel \<Rightarrow> bool \<Rightarrow> bool \<Rightarrow> bool \<Rightarrow> bool \<Rightarrow> u64 \<Rightarrow> u64 \<Rightarrow> u64 \<Rightarrow> xdma_transfer \<Rightarrow> bool" where
  "transfer_ok K dir non_incr force us start cnt ep t \<longleftrightarrow>
     (\<exists>sgm bl. t_sgm t = Some sgm \<and>
       mapped_pages sgm = int (nr_slices (unat start) (unat cnt)) \<and>
       mapped_pages sgm \<le> int (length (sgl sgm)) \<and>
       (\<forall>i < nr_slices (unat start) (unat cnt). sg_slice (unat start) (unat cnt) i (sgl sgm ! i)) \<and>
       (\<forall>i < nr_slices (unat start) (unat cnt). sg_page (sgl sgm ! i) = buffer_page K dir us start cnt i) \<and>
       t_dma t = k_map_sg K (take (nr_slices (unat start) (unat cnt)) (sgl sgm)) \<and>
       sgl_nents t = length (t_dma t) \<and> length (desc_virt t) = sgl_nents t \<and> sgl_nents t < 2 ^ 31 \<and>
       bl \<noteq> [] \<and> length bl \<le> sgl_nents t \<and> desc_num t = length bl \<and> desc_adjacent t = length bl \<and>
       (\<forall>m < length bl. final_desc dir (desc_bus t) (length bl) m (bl ! m) (desc_virt t ! m)) \<and>
       ep_seq (us \<and> non_incr) ep bl \<noteq> None \<and> (\<forall>b \<in> set bl. unat (snd (snd b)) \<le> 262143) \<and>
       blocks_range bl = segs_range (t_dma t) \<and> (force \<and> \<not> us \<longrightarrow> map seg_of bl = t_dma t) \<and>
       t_dir_to_dev t = dir \<and> t_userspace t = us \<and> t_state t = STATE_NEW \<and> \<not> t_cyclic t \<and>
       \<not> last_in_request t \<and> size_of_request t = 0 \<and> t_iocb t = None)"

lemma transfer_create_spec:
  assumes "kernel_ok K" "pages_ok K dir us start cnt" "buffer_ok start cnt"
  shows "\<exists>t w' got sgm. transfer_create K start cnt ep dir non_incr force us w = Some (Some t, w') \<and>
    transfer_ok K dir non_incr force us start cnt ep t \<and> t_sgm t = Some sgm \<and>
    (if us then w' = fold get_page got w \<and> take (nat (mapped_pages sgm)) (pages sgm) = map Some got else w' = w)"
proof -
  let ?n = "nr_slices (unat start) (unat cnt)"
  obtain sgm0 sgm w' got where m: "fst (sg_create_mapper cnt True True True) = Some sgm0"
    "(if us then sgm_get_user_pages (k_gup K) sgm0 start cnt (\<not> dir) w
     else map_option (\<lambda>(rc, sgm). (rc, sgm, w)) (sgm_kernel_pages (k_v2p K) (k_high K) sgm0 start cnt))
      = Some (mapped_pages sgm, sgm, w')"
    "mapped_pages sgm = int ?n" "0 < mapped_pages sgm" "mapped_pages sgm < 2 ^ 31"
    "mapped_pages sgm \<le> int (length (sgl sgm))"
    "\<forall>i < nat (mapped_pages sgm). sg_slice (unat start) (unat cnt) i (sgl sgm ! i) \<and>
       sg_page (sgl sgm ! i) = buffer_page K dir us start cnt i"
    "if us then w' = fold get_page got w \<and> take (nat (mapped_pages sgm)) (pages sgm) = map Some got else w' = w"
    using map_pages_ok [OF assms, of w] by blast
  define dma where "dma = k_map_sg K (take ?n (sgl sgm))"
  have l: "take ?n (sgl sgm) \<noteq> []" "length (take ?n (sgl sgm)) = ?n" using m(3,4,6) by auto
  have d: "dma \<noteq> []" "length dma \<le> ?n" "\<forall>s \<in> set dma. unat (snd s) \<le> 4096"
  proof -
    have "sg \<noteq> [] \<Longrightarrow> k_map_sg K sg \<noteq> [] \<and> length (k_map_sg K sg) \<le> length sg \<and>
        (\<forall>s \<in> set (k_map_sg K sg). unat (snd s) \<le> 4096)" for sg
      using assms(1) by (simp add: kernel_ok_def PAGE_SIZE_def)
    from this [OF l(1), unfolded l(2)]
    show "dma \<noteq> []" "length dma \<le> ?n" "\<forall>s \<in> set dma. unat (snd s) \<le> 4096" unfolding dma_def by blast+
  qed
  obtain buf b where k: "k_alloc K (length dma) = Some (buf, b)" "length buf = length dma" "unat b mod 4096 = 0"
    using assms(1) d(1) unfolding kernel_ok_def PAGE_SIZE_def by (metis length_greater_0_conv)
  obtain ds0 where ds0: "xdma_desc_alloc (length dma) (Some (buf, b)) = Some (Some (ds0, b))" "length ds0 = length dma"
    "\<forall>k < length dma. fresh_desc (length dma) b k (ds0 ! k)"
    using desc_alloc_fresh [OF _ k(2), of b] d(1) by auto
  have al: "unat b mod 32 = 0"
    using k(3) mod_mod_cancel [of 32 4096 "unat b"] by simp
  let ?t = "transfer_zero\<lparr>t_dir_to_dev := dir, t_userspace := us, t_sgm := Some sgm, t_dma := dma,
      sgl_nents := length dma, desc_virt := ds0, desc_bus := b\<rparr>"
  obtain bl ds t1 where t: "transfer_build ?t ep dir non_incr force us = Some (length bl - 1, t1)"
    "do {
      t2 \<leftarrow> transfer_perf t1 (length bl - 1);
      let t2 = t2\<lparr>desc_num := length bl, desc_adjacent := length bl\<rparr>;
      ds \<leftarrow> adjacent_loop (desc_num t2) (desc_num t2) 0 (desc_virt t2);
      Some (t2\<lparr>desc_virt := ds\<rparr>)
    } = Some (?t\<lparr>desc_virt := ds, desc_num := length bl, desc_adjacent := length bl\<rparr>)"
    "bl \<noteq> []" "length bl \<le> length dma" "length ds = length dma"
    "\<forall>m < length bl. final_desc dir b (length bl) m (bl ! m) (ds ! m)"
    "ep_seq (us \<and> non_incr) ep bl \<noteq> None" "\<forall>b \<in> set bl. unat (snd (snd b)) \<le> 262143"
    "blocks_range bl = segs_range dma" "force \<and> \<not> us \<longrightarrow> map seg_of bl = dma"
    using create_tail [of ?t b ep dir non_incr force us] d(1,3) ds0(2,3) al by auto
  have bl1: "Suc (length bl - Suc 0) = length bl" using t(3) by (cases bl) simp_all
  obtain t2 ds' where t2: "transfer_perf t1 (length bl - 1) = Some t2"
    "adjacent_loop (length bl) (length bl) 0 (desc_virt t2) = Some ds'"
    "t2\<lparr>desc_num := length bl, desc_adjacent := length bl, desc_virt := ds'\<rparr> =
       ?t\<lparr>desc_virt := ds, desc_num := length bl, desc_adjacent := length bl\<rparr>"
    using t(2) by (auto simp: Let_def bind_eq_Some_conv)
  have "transfer_create K start cnt ep dir non_incr force us w
      = Some (Some (?t\<lparr>desc_virt := ds, desc_num := length bl, desc_adjacent := length bl\<rparr>), w')"
    using assms(1) m(1,2,3,4) k(1) ds0(1) t(1) t2 bl1
    unfolding transfer_create_def branch_perf
    by (simp add: kernel_ok_def Let_def dma_def del: adjacent_loop.simps)
  moreover have "transfer_ok K dir non_incr force us start cnt ep
      (?t\<lparr>desc_virt := ds, desc_num := length bl, desc_adjacent := length bl\<rparr>)"
    unfolding transfer_ok_def
    by (rule exI [of _ sgm], rule exI [of _ bl])
      (use m d t in \<open>simp add: transfer_zero_def dma_def\<close>)
  ultimately show ?thesis using m(8)
    by (intro exI [of _ "?t\<lparr>desc_virt := ds, desc_num := length bl, desc_adjacent := length bl\<rparr>"]
        exI [of _ w'] exI [of _ got] exI [of _ sgm]) simp
qed

lemma ep_seq_nth:
  "ep_seq fixed ep bl \<noteq> None \<Longrightarrow> m < length bl \<Longrightarrow>
   fst (snd (bl ! m)) = (if fixed then ep else ep + of_nat (\<Sum>i < m. unat (snd (snd (bl ! i)))))"
proof (induction fixed ep bl arbitrary: m rule: ep_seq.induct)
  case (1 fixed ep)
  then show ?case by simp
next
  case (2 fixed ep a e l bl)
  then show ?case
    by (cases m) (auto simp: sum.lessThan_Suc_shift simp del: sum.lessThan_Suc split: if_splits)
qed

lemma final_walk:
  assumes "\<forall>m < n. final_desc dir b n m (bl ! m) (ds ! m)" "0 < n" "n \<le> length ds" "length ds < 2 ^ 31"
  shows "hw_walk n b ds b = Some (take n ds)"
proof (rule hw_walk_all)
  show "desc_chain b n ds" using assms by (auto simp: desc_chain_def final_desc_def)
  show "\<forall>j < n - 1. \<not> desc_stopped (ds ! j)"
    using assms(1) by (auto simp: final_desc_def desc_stopped_def)
  have "final_desc dir b n (n - 1) (bl ! (n - 1)) (ds ! (n - 1))" using assms(1,2) by simp
  then show "desc_stopped (ds ! (n - 1))" using assms(2) end_control_stops
    by (simp add: final_desc_def desc_stopped_def split: if_splits)
qed (use assms in simp)

lemma blocks_of_descs:
  assumes "\<forall>m < length bl. final_desc dir b (length bl) m (bl ! m) (ds ! m)" "length bl \<le> length ds"
  shows "concat (map (\<lambda>d. addr_range (desc_host dir d) (unat (d_bytes d))) (take (length bl) ds)) = blocks_range bl"
proof -
  have "map (\<lambda>d. addr_range (desc_host dir d) (unat (d_bytes d))) (take (length bl) ds)
      = map (\<lambda>(a, e, l). addr_range a (unat l)) bl"
    using assms by (intro nth_equalityI) (auto simp: final_desc_def split_beta)
  then show ?thesis by (simp add: blocks_range_def)
qed

section \<open>Properties\<close>

text \<open>
  C5: \<open>transfer_create\<close>. Given memory, pinned or present pages and a buffer that does not wrap, it
  returns a transfer whose descriptor chain, as the DMA engine reads it from \<open>desc_bus\<close>, is
  \<open>desc_num\<close> descriptors long and stops there; every descriptor is well formed and moves at most
  \<open>XDMA_DESC_MAX_BYTES\<close>; the host addresses of the chain in order are exactly the bytes of the DMA
  segments of the buffer; the end point address advances by the bytes before, or stays when
  user space asked for a non-incremental one; only the last descriptor has control bits (stop, end
  of packet, interrupt).
\<close>

theorem transfer_create_chain:
  assumes "kernel_ok K" "pages_ok K dir us start cnt" "buffer_ok start cnt"
  shows "\<exists>t w' ds. transfer_create K start cnt ep dir non_incr force us w = Some (Some t, w') \<and>
    0 < desc_num t \<and> desc_num t \<le> sgl_nents t \<and>
    hw_walk (desc_num t) (desc_bus t) (desc_virt t) (desc_bus t) = Some ds \<and> length ds = desc_num t \<and>
    (\<forall>d \<in> set ds. desc_magic_ok d \<and> d_bytes d \<le> XDMA_DESC_MAX_BYTES) \<and>
    concat (map (\<lambda>d. addr_range (desc_host dir d) (unat (d_bytes d))) ds) = segs_range (t_dma t) \<and>
    (\<exists>sgm. t_sgm t = Some sgm \<and> t_dma t = k_map_sg K (take (nr_slices (unat start) (unat cnt)) (sgl sgm)) \<and>
       (\<forall>i < nr_slices (unat start) (unat cnt). sg_slice (unat start) (unat cnt) i (sgl sgm ! i))) \<and>
    (\<forall>m < desc_num t. desc_ep dir (ds ! m) =
       (if us \<and> non_incr then ep else ep + of_nat (\<Sum>i < m. unat (d_bytes (ds ! i))))) \<and>
    (\<forall>m < desc_num t. desc_ctl (ds ! m) =
       (if Suc m < desc_num t then 0 else XDMA_DESC_STOPPED OR XDMA_DESC_EOP OR XDMA_DESC_COMPLETED))"
proof -
  obtain t w' where t: "transfer_create K start cnt ep dir non_incr force us w = Some (Some t, w')"
    "transfer_ok K dir non_incr force us start cnt ep t"
    using transfer_create_spec [OF assms] by blast
  then obtain sgm bl where o: "t_sgm t = Some sgm"
    "\<forall>i < nr_slices (unat start) (unat cnt). sg_slice (unat start) (unat cnt) i (sgl sgm ! i)"
    "t_dma t = k_map_sg K (take (nr_slices (unat start) (unat cnt)) (sgl sgm))"
    "length (desc_virt t) = sgl_nents t" "sgl_nents t < 2 ^ 31" "bl \<noteq> []" "length bl \<le> sgl_nents t"
    "desc_num t = length bl"
    "\<forall>m < length bl. final_desc dir (desc_bus t) (length bl) m (bl ! m) (desc_virt t ! m)"
    "ep_seq (us \<and> non_incr) ep bl \<noteq> None" "\<forall>b \<in> set bl. unat (snd (snd b)) \<le> 262143"
    "blocks_range bl = segs_range (t_dma t)" unfolding transfer_ok_def by blast
  let ?ds = "take (desc_num t) (desc_virt t)"
  have w: "hw_walk (desc_num t) (desc_bus t) (desc_virt t) (desc_bus t) = Some ?ds"
    using final_walk [of "length bl" dir "desc_bus t" bl "desc_virt t"] o(4-9) by simp
  have len: "length ?ds = desc_num t" using o(4,7,8) by simp
  have f: "final_desc dir (desc_bus t) (length bl) m (bl ! m) (?ds ! m)" if "m < desc_num t" for m
    using o(8,9) that by simp
  have byt: "d_bytes (?ds ! m) = snd (snd (bl ! m))" if "m < desc_num t" for m
    using f [OF that] by (simp add: final_desc_def)
  have mx: "\<forall>d \<in> set ?ds. desc_magic_ok d \<and> d_bytes d \<le> XDMA_DESC_MAX_BYTES"
    using f o(8,11) len unfolding all_set_conv_all_nth
    by (auto simp: final_desc_def XDMA_DESC_MAX_BYTES_def word_le_nat_alt)
  have ep: "desc_ep dir (?ds ! m) =
      (if us \<and> non_incr then ep else ep + of_nat (\<Sum>i < m. unat (d_bytes (?ds ! i))))" if m: "m < desc_num t" for m
  proof -
    have "(\<Sum>i < m. unat (d_bytes (?ds ! i))) = (\<Sum>i < m. unat (snd (snd (bl ! i))))"
    proof (intro sum.cong refl)
      fix i assume "i \<in> {..<m}"
      then have "i < desc_num t" using m by simp
      then show "unat (d_bytes (?ds ! i)) = unat (snd (snd (bl ! i)))" by (simp only: byt)
    qed
    then show ?thesis using f [OF m] ep_seq_nth [OF o(10), of m] m o(8) by (simp add: final_desc_def)
  qed
  show ?thesis
    by (intro exI [of _ t] exI [of _ w'] exI [of _ ?ds])
      (use t(1) w len mx ep f blocks_of_descs [OF o(9)] o in
        \<open>auto simp: final_desc_def END_CONTROL_def or.assoc\<close>)
qed

text \<open>A kernel that satisfies the assumptions: identity mapping of pages to bus addresses.\<close>

definition demo_kernel :: kernel where
  "demo_kernel = \<lparr>k_kzalloc = True, k_sgm_alloc = (True, True, True), k_gup = pin_all,
     k_v2p = \<lambda>a. Some (unat a div 4096), k_high = \<lambda>_. False,
     k_map_sg = map (\<lambda>e. (of_nat (4096 * the (sg_page e)) + ucast (sg_offset e), min (sg_length e) 4096)),
     k_alloc = \<lambda>n. Some (replicate n (xdma_desc.make 0 0 0 0 0 0 0 0), 0x100000)\<rparr>"

lemma demo_kernel_ok: "kernel_ok demo_kernel"
  by (auto simp: kernel_ok_def demo_kernel_def pin_all_ok PAGE_SIZE_def min_def word_le_nat_alt)

lemma demo_pages_ok: "pages_ok demo_kernel dir us start cnt"
  by (simp add: pages_ok_def demo_kernel_def pin_all_def Let_def)

definition demo_world :: page_world where
  "demo_world = \<lparr>p_refs = \<lambda>_. 0, p_dirty = \<lambda>_. False, p_reserved = \<lambda>_. False\<rparr>"

theorem transfer_create_chain_witness:
  "\<exists>t w' ds. transfer_create demo_kernel 0x1ff0 0x1020 0x100 True False False True demo_world = Some (Some t, w') \<and>
    hw_walk (desc_num t) (desc_bus t) (desc_virt t) (desc_bus t) = Some ds \<and> 0 < desc_num t"
  using transfer_create_chain [OF demo_kernel_ok demo_pages_ok, of "0x1ff0" "0x1020" "0x100" True False False True demo_world]
  by (force simp: buffer_ok_def)

text \<open>
  C14: prefetching along the chain of a created transfer. The adjacent descriptors a descriptor
  announces all exist in the same chain, there are at most 15 extra ones, and the block they form
  with the next descriptor does not cross a 4 KiB boundary of bus memory.
\<close>

theorem transfer_create_prefetch:
  assumes "kernel_ok K" "pages_ok K dir us start cnt" "buffer_ok start cnt"
    and "transfer_create K start cnt ep dir non_incr force us w = Some (Some t, w')"
    and "Suc m < desc_num t"
  shows "desc_next (desc_virt t ! m) = desc_bus t + of_nat (32 * Suc m) \<and>
    desc_extra_adj (desc_virt t ! m) \<le> 15 \<and>
    Suc m + desc_extra_adj (desc_virt t ! m) < desc_num t \<and>
    unat (desc_next (desc_virt t ! m)) mod 4096 + 32 * (desc_extra_adj (desc_virt t ! m) + 1) \<le> 4096"
proof -
  have "transfer_ok K dir non_incr force us start cnt ep t"
    using transfer_create_spec [OF assms(1-3), of ep non_incr force w] assms(4) by auto
  then obtain bl where "desc_num t = length bl"
    "\<forall>m < length bl. final_desc dir (desc_bus t) (length bl) m (bl ! m) (desc_virt t ! m)"
    unfolding transfer_ok_def by blast
  then have "final_desc dir (desc_bus t) (length bl) m (bl ! m) (desc_virt t ! m)" "Suc m < length bl"
    using assms(5) by simp_all
  then show ?thesis unfolding \<open>desc_num t = length bl\<close> by (auto simp only: final_desc_def split: if_splits)
qed

lemma destroy_created:
  assumes "kernel_ok K" "pages_ok K dir us start cnt" "buffer_ok start cnt"
    and "transfer_create K start cnt ep dir non_incr force us w = Some (Some t, w')"
  shows "\<exists>w2 sgm. transfer_destroy t w' = Some w2 \<and> t_sgm t = Some sgm \<and> p_refs w2 = p_refs w \<and>
    (\<forall>p. p_dirty w2 p \<longleftrightarrow> p_dirty w' p \<or>
       us \<and> \<not> dir \<and> Some p \<in> set (take (nr_slices (unat start) (unat cnt)) (pages sgm)))"
proof -
  obtain sgm got where t: "transfer_ok K dir non_incr force us start cnt ep t" "t_sgm t = Some sgm"
    "if us then w' = fold get_page got w \<and> take (nat (mapped_pages sgm)) (pages sgm) = map Some got else w' = w"
    using transfer_create_spec [OF assms(1-3), of ep non_incr force w] assms(4) by auto
  then have o: "desc_virt t \<noteq> []" "mapped_pages sgm = int (nr_slices (unat start) (unat cnt))"
    "t_dir_to_dev t = dir" "t_userspace t = us"
    unfolding transfer_ok_def by auto
  have dst: "sg_destroy_mapper (m\<lparr>mapped_pages := 0\<rparr>) [A_sgl, A_pages, A_mapper] = Some []" for m :: sg_mapping_t
    by (simp add: sg_destroy_mapper_def)
  show ?thesis
  proof (cases us)
    case True
    then show ?thesis
      using t o refs_put_get [of got got w] refs_put_get [of got "[]" w]
      by (cases dir) (auto simp: transfer_destroy_def sgm_put_user_pages_def sgm_dirty_pages_def
          put_each_fold dirty_each_fold dst dirty_fold)
  next
    case False
    then show ?thesis using t o by (auto simp: transfer_destroy_def dst)
  qed
qed

lemma transfer_destroy_cong:
  "t_sgm x = t_sgm y \<Longrightarrow> t_userspace x = t_userspace y \<Longrightarrow> t_dir_to_dev x = t_dir_to_dev y \<Longrightarrow>
   desc_virt x = desc_virt y \<Longrightarrow> transfer_destroy x w = transfer_destroy y w"
  by (cases "t_sgm y") (simp_all add: transfer_destroy_def cong: if_cong)

text \<open>
  C9: what \<open>transfer_create\<close> acquires \<open>transfer_destroy\<close> gives back: it does not panic, every page
  reference taken for a user space buffer is dropped (none was taken for a kernel buffer), and the
  pages of a buffer the device wrote to are marked dirty.
\<close>

theorem transfer_destroy_balanced:
  assumes "kernel_ok K" "pages_ok K dir us start cnt" "buffer_ok start cnt"
    and "transfer_create K start cnt ep dir non_incr force us w = Some (Some t, w')"
  shows "\<exists>w2 sgm. transfer_destroy t w' = Some w2 \<and> t_sgm t = Some sgm \<and> p_refs w2 = p_refs w \<and>
    (\<forall>p. p_dirty w2 p \<longleftrightarrow> p_dirty w' p \<or>
       us \<and> \<not> dir \<and> Some p \<in> set (take (nr_slices (unat start) (unat cnt)) (pages sgm)))"
  by (rule destroy_created [OF assms])

theorem transfer_destroy_balanced_witness:
  "\<exists>t w' w2. transfer_create demo_kernel 0x1ff0 0x1020 0x100 False False False True demo_world = Some (Some t, w') \<and>
    transfer_destroy t w' = Some w2 \<and> p_refs w2 = p_refs demo_world"
proof -
  have b: "buffer_ok 0x1ff0 0x1020" by (simp add: buffer_ok_def)
  obtain t w' where c: "transfer_create demo_kernel 0x1ff0 0x1020 0x100 False False False True demo_world = Some (Some t, w')"
    using transfer_create_spec [where dir = False and us = True, OF demo_kernel_ok demo_pages_ok b, of "0x100" False False demo_world] by blast
  from transfer_destroy_balanced [OF demo_kernel_ok demo_pages_ok b c] c show ?thesis by blast
qed

theorem transfer_create_prefetch_witness:
  "\<exists>t w'. transfer_create demo_kernel 0x1ff0 0x1020 0x100 True False True False demo_world = Some (Some t, w') \<and>
    desc_next (desc_virt t ! 0) = desc_bus t + 32"
proof -
  have b: "buffer_ok 0x1ff0 0x1020" by (simp add: buffer_ok_def)
  have n: "nr_slices (unat (0x1ff0 :: u64)) (unat (0x1020 :: u64)) = 3" by (simp add: nr_slices_def)
  obtain t w' where c: "transfer_create demo_kernel 0x1ff0 0x1020 0x100 True False True False demo_world = Some (Some t, w')"
    and t: "transfer_ok demo_kernel True False True False 0x1ff0 0x1020 0x100 t"
    using transfer_create_spec [where dir = True and us = False, OF demo_kernel_ok demo_pages_ok b, of "0x100" False True demo_world] by blast
  then have "length (t_dma t) = 3"
    unfolding transfer_ok_def n by (auto simp: demo_kernel_def)
  moreover obtain bl where "map seg_of bl = t_dma t" "desc_num t = length bl" using t unfolding transfer_ok_def by auto
  ultimately have "Suc 0 < desc_num t" using map_eq_imp_length_eq [of seg_of bl id "t_dma t"] by simp
  from transfer_create_prefetch [OF demo_kernel_ok demo_pages_ok b c this] c show ?thesis by auto
qed

end
