(* ===== verification/Engine.thy ===== *)
theory Engine
  imports Xfer
begin

text \<open>
  The SG DMA engine: \<open>struct xdma_engine\<close>, the state an operation works on (the engine, the heap
  of transfers, the bus, the pages, who was woken), and the operations that start and stop the
  hardware and queue transfers (\<open>driver/xdma-core.c\<close>).

  Transfers live in a heap of numbered objects; a freed one is gone from the heap, so that a use
  after free is a fault (\<open>None\<close>). \<open>transfer_list\<close> is the queue as the list of their numbers. The
  engine lock is a flag: locking it twice never returns (\<open>None\<close>).
\<close>

unbundle bit_operations_syntax

definition XDMA_CTRL_RUN_STOP :: u32 where "XDMA_CTRL_RUN_STOP = 0x1"
definition XDMA_CTRL_IE_DESC_STOPPED :: u32 where "XDMA_CTRL_IE_DESC_STOPPED = 0x2"
definition XDMA_CTRL_IE_DESC_COMPLETED :: u32 where "XDMA_CTRL_IE_DESC_COMPLETED = 0x4"
definition XDMA_CTRL_IE_DESC_ALIGN_MISMATCH :: u32 where "XDMA_CTRL_IE_DESC_ALIGN_MISMATCH = 0x8"
definition XDMA_CTRL_IE_MAGIC_STOPPED :: u32 where "XDMA_CTRL_IE_MAGIC_STOPPED = 0x10"
definition XDMA_CTRL_IE_IDLE_STOPPED :: u32 where "XDMA_CTRL_IE_IDLE_STOPPED = 0x40"
definition XDMA_CTRL_IE_READ_ERROR :: u32 where "XDMA_CTRL_IE_READ_ERROR = 0x3E00"
definition XDMA_CTRL_IE_DESC_ERROR :: u32 where "XDMA_CTRL_IE_DESC_ERROR = 0xF80000"
definition XDMA_CTRL_NON_INCR_ADDR :: u32 where "XDMA_CTRL_NON_INCR_ADDR = 0x2000000"
definition XDMA_CTRL_POLL_MODE_WB :: u32 where "XDMA_CTRL_POLL_MODE_WB = 0x4000000"

lemmas ctrl_bits [bits] = XDMA_CTRL_RUN_STOP_def XDMA_CTRL_IE_DESC_STOPPED_def
  XDMA_CTRL_IE_DESC_COMPLETED_def XDMA_CTRL_IE_DESC_ALIGN_MISMATCH_def
  XDMA_CTRL_IE_MAGIC_STOPPED_def XDMA_CTRL_IE_IDLE_STOPPED_def XDMA_CTRL_IE_READ_ERROR_def
  XDMA_CTRL_IE_DESC_ERROR_def XDMA_CTRL_NON_INCR_ADDR_def XDMA_CTRL_POLL_MODE_WB_def

definition XDMA_STAT_BUSY :: u32 where "XDMA_STAT_BUSY = 0x1"
definition XDMA_STAT_DESC_STOPPED :: u32 where "XDMA_STAT_DESC_STOPPED = 0x2"
definition XDMA_STAT_DESC_COMPLETED :: u32 where "XDMA_STAT_DESC_COMPLETED = 0x4"
definition XDMA_STAT_ALIGN_MISMATCH :: u32 where "XDMA_STAT_ALIGN_MISMATCH = 0x8"
definition XDMA_STAT_MAGIC_STOPPED :: u32 where "XDMA_STAT_MAGIC_STOPPED = 0x10"
definition XDMA_STAT_READ_ERROR :: u32 where "XDMA_STAT_READ_ERROR = 0x3E00"
definition XDMA_STAT_DESC_ERROR :: u32 where "XDMA_STAT_DESC_ERROR = 0xF80000"

lemmas stat_bits [bits] = XDMA_STAT_BUSY_def XDMA_STAT_DESC_STOPPED_def XDMA_STAT_DESC_COMPLETED_def
  XDMA_STAT_ALIGN_MISMATCH_def XDMA_STAT_MAGIC_STOPPED_def XDMA_STAT_READ_ERROR_def
  XDMA_STAT_DESC_ERROR_def

definition ENGINE_SHUTDOWN_NONE :: u32 where "ENGINE_SHUTDOWN_NONE = 0"
definition ENGINE_SHUTDOWN_REQUEST :: u32 where "ENGINE_SHUTDOWN_REQUEST = 1"
definition ENGINE_SHUTDOWN_IDLE :: u32 where "ENGINE_SHUTDOWN_IDLE = 2"

definition WB_COUNT_MASK :: u32 where "WB_COUNT_MASK = 0xffffff"
definition WB_ERR_MASK :: u32 where "WB_ERR_MASK = 0x80000000"
definition MAGIC_ENGINE :: u32 where "MAGIC_ENGINE = 0xEEEEEEEE"

section \<open>State\<close>

record xdma_performance =
  pf_version :: u32
  pf_transfer_size :: u32
  pf_stopped :: bool
  pf_iterations :: u32
  pf_clock :: u64
  pf_data :: u64
  pf_pending :: u64

record xdma_result =
  r_status :: u32
  r_length :: u32

text \<open>
  \<open>rx_buffer\<close> is the address of the receive ring (absent: the null pointer), \<open>rx_cyclic\<close> the
  transfer that fills it, \<open>rx_result\<close> the result buffer the device writes, \<open>poll_wb\<close> the
  descriptor count the device writes back in poll mode.
\<close>

record xdma_engine =
  e_magic :: u32
  e_regs :: u64
  e_sgdma_regs :: u64
  e_shutdown :: u32
  e_running :: bool
  e_streaming :: bool
  e_non_incr_addr :: bool
  e_dir_to_dev :: bool
  e_addr_align :: u32
  e_len_granularity :: u32
  e_addr_bits :: u32
  e_channel :: nat
  e_number_in_channel :: nat
  e_desc_dequeued :: nat
  e_status :: u32
  e_ie_mask :: u32
  transfer_list :: "nat list"
  rx_tail :: nat
  rx_head :: nat
  rx_overrun :: bool
  rx_buffer :: "u64 option"
  rx_cyclic :: "nat option"
  rx_result :: "xdma_result list option"
  rx_result_bus :: u64
  poll_wb :: u32
  poll_bus :: u64
  e_locked :: bool
  e_irq_bitmask :: u32
  e_perf :: "xdma_performance option"
  eop_found :: bool
  user_buffer_index :: u32

datatype wake = W_transfer nat | W_shutdown | W_perf | W_aio nat int

text \<open>
  The state of the operations of one engine: module parameters and the fields of its device they
  read, the engine, the transfers, the bus, the pages, the wake-ups so far (latest last).
\<close>

record est =
  s_poll_mode :: bool
  s_credit_mp :: u32
  s_msix :: bool
  s_cfg_bar :: u64
  en :: xdma_engine
  heap :: "nat \<Rightarrow> xdma_transfer option"
  s_bus :: bus
  s_pages :: page_world
  wakes :: "wake list"

definition wr :: "u32 \<Rightarrow> u64 \<Rightarrow> est \<Rightarrow> est" where
  "wr v a s = s\<lparr>s_bus := write_register v a (s_bus s)\<rparr>"

definition rd :: "u64 \<Rightarrow> est \<Rightarrow> u32 \<times> est" where
  "rd a s = (let (v, b) = read_register a (s_bus s) in (v, s\<lparr>s_bus := b\<rparr>))"

definition wake_up :: "wake \<Rightarrow> est \<Rightarrow> est" where
  "wake_up w s = s\<lparr>wakes := wakes s @ [w]\<rparr>"

definition set_en :: "(xdma_engine \<Rightarrow> xdma_engine) \<Rightarrow> est \<Rightarrow> est" where
  "set_en f s = s\<lparr>en := f (en s)\<rparr>"

definition put_transfer :: "nat \<Rightarrow> xdma_transfer \<Rightarrow> est \<Rightarrow> est" where
  "put_transfer t x s = s\<lparr>heap := (heap s)(t := Some x)\<rparr>"

definition lock_engine :: "est \<Rightarrow> est option" where
  "lock_engine s = (if e_locked (en s) then None else Some (set_en (\<lambda>e. e\<lparr>e_locked := True\<rparr>) s))"

definition unlock_engine :: "est \<Rightarrow> est" where
  "unlock_engine s = set_en (\<lambda>e. e\<lparr>e_locked := False\<rparr>) s"

text \<open>\<open>list_del(engine->transfer_list.next)\<close>: on an empty list it would unlink the list head itself.\<close>

definition list_del_head :: "est \<Rightarrow> est option" where
  "list_del_head s =
    (case transfer_list (en s) of [] \<Rightarrow> None | _ # q \<Rightarrow> Some (set_en (\<lambda>e. e\<lparr>transfer_list := q\<rparr>) s))"

section \<open>Starting and stopping\<close>

definition engine_status_read :: "bool \<Rightarrow> est \<Rightarrow> u32 \<times> est" where
  "engine_status_read clear s =
    (let (v, s) = rd (ereg (e_regs (en s)) (if clear then E_status_rc else E_status)) s
     in (v, set_en (\<lambda>e. e\<lparr>e_status := v\<rparr>) s))"

definition stop_control :: "bool \<Rightarrow> xdma_engine \<Rightarrow> u32" where
  "stop_control poll e =
    (let w = ((XDMA_CTRL_IE_DESC_ALIGN_MISMATCH OR XDMA_CTRL_IE_MAGIC_STOPPED)
              OR XDMA_CTRL_IE_READ_ERROR) OR XDMA_CTRL_IE_DESC_ERROR
     in if poll then w OR XDMA_CTRL_POLL_MODE_WB
        else let w = (w OR XDMA_CTRL_IE_DESC_STOPPED) OR XDMA_CTRL_IE_DESC_COMPLETED
          in if (e_streaming e \<and> \<not> e_dir_to_dev e) \<or> e_perf e \<noteq> None
             then w OR XDMA_CTRL_IE_IDLE_STOPPED else w)"

definition xdma_engine_stop :: "est \<Rightarrow> est" where
  "xdma_engine_stop s = wr (stop_control (s_poll_mode s) (en s)) (ereg (e_regs (en s)) E_control) s"

text \<open>The result is the transfer stopped, if any; its last descriptor is made to stop the engine.\<close>

definition engine_cyclic_stop :: "est \<Rightarrow> (nat option \<times> est) option" where
  "engine_cyclic_stop s =
    (case transfer_list (en s) of
       [] \<Rightarrow> Some (None, s)
     | t # _ \<Rightarrow> do {
         let s = xdma_engine_stop s;
         x \<leftarrow> heap s t;
         (if t_cyclic x then do {
            let x = x\<lparr>t_cyclic := True\<rparr>;
            BUG_ON (desc_num x = 0);
            ds \<leftarrow> at_index (desc_num x - 1)
                   (\<lambda>d. xdma_desc_control d (XDMA_DESC_COMPLETED OR XDMA_DESC_STOPPED)) (desc_virt x);
            Some (Some t, put_transfer t (x\<lparr>desc_virt := ds\<rparr>) s)
          } else Some (Some t, s))
       })"

definition perf_ie_mask :: u32 where
  "perf_ie_mask = (((((XDMA_CTRL_IE_DESC_STOPPED OR XDMA_CTRL_IE_DESC_COMPLETED)
     OR XDMA_CTRL_IE_DESC_ALIGN_MISMATCH) OR XDMA_CTRL_IE_MAGIC_STOPPED)
     OR XDMA_CTRL_IE_IDLE_STOPPED) OR XDMA_CTRL_IE_READ_ERROR) OR XDMA_CTRL_IE_DESC_ERROR"

definition start_control :: "bool \<Rightarrow> xdma_engine \<Rightarrow> u32" where
  "start_control poll e =
    (let w = (((XDMA_CTRL_RUN_STOP OR XDMA_CTRL_IE_READ_ERROR) OR XDMA_CTRL_IE_DESC_ERROR)
              OR XDMA_CTRL_IE_DESC_ALIGN_MISMATCH) OR XDMA_CTRL_IE_MAGIC_STOPPED
     in if poll then w OR XDMA_CTRL_POLL_MODE_WB
        else let w = (w OR XDMA_CTRL_IE_DESC_STOPPED) OR XDMA_CTRL_IE_DESC_COMPLETED;
                 w = (if e_streaming e \<and> \<not> e_dir_to_dev e then w OR XDMA_CTRL_IE_IDLE_STOPPED else w);
                 w = (if e_perf e \<noteq> None then w OR XDMA_CTRL_IE_IDLE_STOPPED else w)
          in if e_non_incr_addr e then w OR XDMA_CTRL_NON_INCR_ADDR else w)"

definition engine_start_mode_config :: "est \<Rightarrow> est" where
  "engine_start_mode_config s =
    (let s = (if e_perf (en s) \<noteq> None
              then wr perf_ie_mask (ereg (e_regs (en s)) E_interrupt_enable_mask) s else s);
         s = wr (start_control (s_poll_mode s) (en s)) (ereg (e_regs (en s)) E_control) s
     in snd (rd (ereg (e_regs (en s)) E_status) s))"

definition first_extra_adj :: "nat \<Rightarrow> int" where
  "first_extra_adj adj =
    (if adj > 0 then (if int adj - 1 > MAX_EXTRA_ADJ then MAX_EXTRA_ADJ else int adj - 1) else 0)"

definition engine_start :: "est \<Rightarrow> (nat \<times> est) option" where
  "engine_start s = do {
     BUG_ON (e_running (en s));
     (case transfer_list (en s) of
        [] \<Rightarrow> None
      | t # _ \<Rightarrow> do {
          x \<leftarrow> heap s t;
          let s = set_en (\<lambda>e. e\<lparr>e_shutdown := ENGINE_SHUTDOWN_NONE\<rparr>) s;
          let s = set_en (\<lambda>e. e\<lparr>e_desc_dequeued := 0\<rparr>) s;
          let s = wr (PCI_DMA_L (desc_bus x)) (sreg (e_sgdma_regs (en s)) S_first_desc_lo) s;
          let s = wr (PCI_DMA_H (desc_bus x)) (sreg (e_sgdma_regs (en s)) S_first_desc_hi) s;
          let s = wr (word_of_int (first_extra_adj (desc_adjacent x)))
                     (sreg (e_sgdma_regs (en s)) S_first_desc_adjacent) s;
          let s = engine_start_mode_config s;
          Some (t, set_en (\<lambda>e. e\<lparr>e_running := True\<rparr>) s)
        })
   }"

section \<open>Queueing\<close>

definition transfer_queue :: "nat \<Rightarrow> est \<Rightarrow> (int \<times> est) option" where
  "transfer_queue t s = do {
     x \<leftarrow> heap s t;
     BUG_ON (desc_num x = 0);
     s \<leftarrow> lock_engine s;
     (if e_shutdown (en s) AND ENGINE_SHUTDOWN_REQUEST \<noteq> 0 then Some (- 1, unlock_engine s)
      else do {
        let s = put_transfer t (x\<lparr>t_state := STATE_SUBMITTED\<rparr>) s;
        let s = set_en (\<lambda>e. e\<lparr>transfer_list := transfer_list e @ [t]\<rparr>) s;
        s \<leftarrow> (if \<not> e_running (en s) then map_option snd (engine_start s) else Some s);
        Some (0, unlock_engine s)
      })
   }"

section \<open>Alignment requirements\<close>

definition engine_alignments :: "est \<Rightarrow> est" where
  "engine_alignments s =
    (let (w, s) = rd (ereg (e_regs (en s)) E_alignments) s;
         align_bytes = drop_bit 16 (w AND 0x00ff0000);
         granularity_bytes = drop_bit 8 (w AND 0x0000ff00);
         address_bits = w AND 0x000000ff
     in if w \<noteq> 0 then
          set_en (\<lambda>e. e\<lparr>e_addr_align := align_bytes, e_len_granularity := granularity_bytes,
                         e_addr_bits := address_bits\<rparr>) s
        else set_en (\<lambda>e. e\<lparr>e_addr_align := 1, e_len_granularity := 1, e_addr_bits := 64\<rparr>) s)"

section \<open>What the primitive operations leave unchanged\<close>

lemma wr_sel [simp]:
  "en (wr v a s) = en s" "heap (wr v a s) = heap s" "wakes (wr v a s) = wakes s"
  "s_pages (wr v a s) = s_pages s" "s_poll_mode (wr v a s) = s_poll_mode s"
  "s_credit_mp (wr v a s) = s_credit_mp s" "s_msix (wr v a s) = s_msix s" "s_cfg_bar (wr v a s) = s_cfg_bar s"
  "writes (s_bus (wr v a s)) = writes (s_bus s) @ [(a, v)]"
  by (simp_all add: wr_def)

lemma rd_sel [simp]:
  "en (snd (rd a s)) = en s" "heap (snd (rd a s)) = heap s" "wakes (snd (rd a s)) = wakes s"
  "s_pages (snd (rd a s)) = s_pages s" "s_poll_mode (snd (rd a s)) = s_poll_mode s"
  "s_credit_mp (snd (rd a s)) = s_credit_mp s" "s_msix (snd (rd a s)) = s_msix s"
  "s_cfg_bar (snd (rd a s)) = s_cfg_bar s"
  "writes (s_bus (snd (rd a s))) = writes (s_bus s)"
  by (simp_all add: rd_def read_register_def Let_def) (simp add: writes_def)

lemma wake_sel [simp]:
  "en (wake_up x s) = en s" "heap (wake_up x s) = heap s" "wakes (wake_up x s) = wakes s @ [x]"
  "s_pages (wake_up x s) = s_pages s" "s_poll_mode (wake_up x s) = s_poll_mode s"
  "s_credit_mp (wake_up x s) = s_credit_mp s" "s_msix (wake_up x s) = s_msix s"
  "s_cfg_bar (wake_up x s) = s_cfg_bar s" "s_bus (wake_up x s) = s_bus s"
  by (simp_all add: wake_up_def)

lemma set_en_sel [simp]:
  "en (set_en f s) = f (en s)" "heap (set_en f s) = heap s" "wakes (set_en f s) = wakes s"
  "s_pages (set_en f s) = s_pages s" "s_poll_mode (set_en f s) = s_poll_mode s"
  "s_credit_mp (set_en f s) = s_credit_mp s" "s_msix (set_en f s) = s_msix s"
  "s_cfg_bar (set_en f s) = s_cfg_bar s" "s_bus (set_en f s) = s_bus s"
  by (simp_all add: set_en_def)

lemma put_transfer_sel [simp]:
  "en (put_transfer t x s) = en s" "heap (put_transfer t x s) = (heap s)(t := Some x)"
  "wakes (put_transfer t x s) = wakes s" "s_pages (put_transfer t x s) = s_pages s"
  "s_poll_mode (put_transfer t x s) = s_poll_mode s" "s_credit_mp (put_transfer t x s) = s_credit_mp s"
  "s_msix (put_transfer t x s) = s_msix s" "s_cfg_bar (put_transfer t x s) = s_cfg_bar s"
  "s_bus (put_transfer t x s) = s_bus s"
  by (simp_all add: put_transfer_def)

lemma unlock_sel [simp]:
  "en (unlock_engine s) = (en s)\<lparr>e_locked := False\<rparr>" "heap (unlock_engine s) = heap s"
  "wakes (unlock_engine s) = wakes s" "s_bus (unlock_engine s) = s_bus s"
  "s_pages (unlock_engine s) = s_pages s" "s_poll_mode (unlock_engine s) = s_poll_mode s"
  "s_credit_mp (unlock_engine s) = s_credit_mp s" "s_msix (unlock_engine s) = s_msix s"
  "s_cfg_bar (unlock_engine s) = s_cfg_bar s"
  by (simp_all add: unlock_engine_def)

lemma status_read_sel [simp]:
  "en (snd (engine_status_read c s)) =
     (en s)\<lparr>e_status := fst (rd (ereg (e_regs (en s)) (if c then E_status_rc else E_status)) s)\<rparr>"
  "heap (snd (engine_status_read c s)) = heap s" "wakes (snd (engine_status_read c s)) = wakes s"
  "s_pages (snd (engine_status_read c s)) = s_pages s"
  "s_poll_mode (snd (engine_status_read c s)) = s_poll_mode s"
  "s_credit_mp (snd (engine_status_read c s)) = s_credit_mp s" "s_msix (snd (engine_status_read c s)) = s_msix s"
  "s_cfg_bar (snd (engine_status_read c s)) = s_cfg_bar s"
  "writes (s_bus (snd (engine_status_read c s))) = writes (s_bus s)"
  by (simp_all add: engine_status_read_def split_beta)

lemma stop_sel [simp]:
  "en (xdma_engine_stop s) = en s" "heap (xdma_engine_stop s) = heap s"
  "wakes (xdma_engine_stop s) = wakes s" "s_pages (xdma_engine_stop s) = s_pages s"
  "s_poll_mode (xdma_engine_stop s) = s_poll_mode s"
  "s_credit_mp (xdma_engine_stop s) = s_credit_mp s" "s_msix (xdma_engine_stop s) = s_msix s"
  "s_cfg_bar (xdma_engine_stop s) = s_cfg_bar s"
  "writes (s_bus (xdma_engine_stop s)) = writes (s_bus s) @
     [(ereg (e_regs (en s)) E_control, stop_control (s_poll_mode s) (en s))]"
  by (simp_all add: xdma_engine_stop_def)

section \<open>Control words\<close>

lemma stop_control_no_run: "stop_control p e AND XDMA_CTRL_RUN_STOP = 0"
  by (simp add: stop_control_def Let_def bits)

lemma start_control_run: "start_control p e AND XDMA_CTRL_RUN_STOP = XDMA_CTRL_RUN_STOP"
  by (simp add: start_control_def Let_def bits)

lemma start_stop_control:
  "start_control p e = stop_control p e OR XDMA_CTRL_RUN_STOP OR
     (if \<not> p \<and> e_non_incr_addr e then XDMA_CTRL_NON_INCR_ADDR else 0)"
  by (auto simp: start_control_def stop_control_def Let_def bits)

section \<open>Starting the engine\<close>

text \<open>The register writes of a start, in order.\<close>

definition start_writes :: "bool \<Rightarrow> xdma_engine \<Rightarrow> xdma_transfer \<Rightarrow> (u64 \<times> u32) list" where
  "start_writes poll e x =
    [(sreg (e_sgdma_regs e) S_first_desc_lo, PCI_DMA_L (desc_bus x)),
     (sreg (e_sgdma_regs e) S_first_desc_hi, PCI_DMA_H (desc_bus x)),
     (sreg (e_sgdma_regs e) S_first_desc_adjacent, of_nat (min (desc_adjacent x - 1) 15))]
    @ (if e_perf e \<noteq> None then [(ereg (e_regs e) E_interrupt_enable_mask, perf_ie_mask)] else [])
    @ [(ereg (e_regs e) E_control, start_control poll e)]"

lemma first_extra_adj_min: "(word_of_int (first_extra_adj n) :: u32) = of_nat (min (n - 1) 15)"
proof -
  have "first_extra_adj n = int (min (n - 1) 15)"
    by (auto simp: first_extra_adj_def MAX_EXTRA_ADJ_def)
  then show ?thesis by simp
qed

lemma engine_start_spec:
  assumes "\<not> e_running (en s)" "transfer_list (en s) = t # q" "heap s t = Some x"
  shows "\<exists>s'. engine_start s = Some (t, s') \<and>
    en s' = (en s)\<lparr>e_shutdown := 0, e_desc_dequeued := 0, e_running := True\<rparr> \<and>
    heap s' = heap s \<and> wakes s' = wakes s \<and> s_pages s' = s_pages s \<and> s_poll_mode s' = s_poll_mode s \<and>
    writes (s_bus s') = writes (s_bus s) @ start_writes (s_poll_mode s) (en s) x"
proof -
  have c: "start_control p (e\<lparr>e_shutdown := 0, e_desc_dequeued := 0\<rparr>) = start_control p e" for p e
    by (simp add: start_control_def Let_def)
  show ?thesis using assms
    by (simp add: engine_start_def engine_start_mode_config_def Let_def ENGINE_SHUTDOWN_NONE_def
        start_writes_def first_extra_adj_min c)
qed

lemma engine_start_panics:
  "e_running (en s) \<Longrightarrow> engine_start s = None" "transfer_list (en s) = [] \<Longrightarrow> engine_start s = None"
  by (simp_all add: engine_start_def)

lemma start_writes_last:
  "start_writes p e x \<noteq> []" "last (start_writes p e x) = (ereg (e_regs e) E_control, start_control p e)"
  by (simp_all add: start_writes_def)

lemma queue_idle_spec:
  assumes "heap s t = Some x" "0 < desc_num x" "\<not> e_locked (en s)" "e_shutdown (en s) = 0"
    and "\<not> e_running (en s)" "transfer_list (en s) = []"
  shows "\<exists>s'. transfer_queue t s = Some (0, s') \<and>
    en s' = (en s)\<lparr>e_shutdown := 0, e_desc_dequeued := 0, e_running := True, transfer_list := [t], e_locked := False\<rparr> \<and>
    heap s' = (heap s)(t \<mapsto> x\<lparr>t_state := STATE_SUBMITTED\<rparr>) \<and> wakes s' = wakes s \<and>
    s_pages s' = s_pages s \<and> s_poll_mode s' = s_poll_mode s \<and>
    writes (s_bus s') = writes (s_bus s) @ start_writes (s_poll_mode s) (en s) x"
proof -
  let ?s = "set_en (\<lambda>e. e\<lparr>transfer_list := transfer_list e @ [t]\<rparr>)
    (put_transfer t (x\<lparr>t_state := STATE_SUBMITTED\<rparr>) (set_en (\<lambda>e. e\<lparr>e_locked := True\<rparr>) s))"
  have sw: "start_writes p (e\<lparr>e_locked := True, transfer_list := l\<rparr>) (x\<lparr>t_state := st\<rparr>) = start_writes p e x" for p e l st
    by (simp add: start_writes_def start_control_def Let_def)
  obtain s' where "engine_start ?s = Some (t, s')"
    "en s' = (en ?s)\<lparr>e_shutdown := 0, e_desc_dequeued := 0, e_running := True\<rparr>"
    "heap s' = heap ?s" "wakes s' = wakes ?s" "s_pages s' = s_pages ?s" "s_poll_mode s' = s_poll_mode ?s"
    "writes (s_bus s') = writes (s_bus ?s) @ start_writes (s_poll_mode ?s) (en ?s) (x\<lparr>t_state := STATE_SUBMITTED\<rparr>)"
    using engine_start_spec [of ?s t "[]" "x\<lparr>t_state := STATE_SUBMITTED\<rparr>"] assms by auto
  with assms show ?thesis
    by (simp add: transfer_queue_def lock_engine_def sw unlock_engine_def)
qed

lemma queue_busy_spec:
  assumes "heap s t = Some x" "0 < desc_num x" "\<not> e_locked (en s)" "e_shutdown (en s) = 0"
    and "e_running (en s)"
  shows "\<exists>s'. transfer_queue t s = Some (0, s') \<and>
    en s' = (en s)\<lparr>transfer_list := transfer_list (en s) @ [t], e_locked := False\<rparr> \<and>
    heap s' = (heap s)(t \<mapsto> x\<lparr>t_state := STATE_SUBMITTED\<rparr>) \<and> wakes s' = wakes s \<and>
    s_pages s' = s_pages s \<and> s_poll_mode s' = s_poll_mode s \<and> s_bus s' = s_bus s"
  using assms by (simp add: transfer_queue_def lock_engine_def unlock_engine_def Let_def)

section \<open>Properties\<close>

text \<open>
  Starting an idle engine programs the hardware completely before it sets it running: the bus
  address of the first descriptor of the transfer at the head of the queue, the number of
  adjacent descriptors (at most 15), then, last of all writes, the control word with the run bit.
  Nothing else of the engine, the queue or the transfers changes.
\<close>

theorem engine_start_programs:
  assumes "\<not> e_running (en s)" "transfer_list (en s) = t # q" "heap s t = Some x"
  shows "\<exists>s' ws. engine_start s = Some (t, s') \<and> e_running (en s') \<and>
    transfer_list (en s') = t # q \<and> heap s' = heap s \<and> wakes s' = wakes s \<and>
    writes (s_bus s') = writes (s_bus s) @ ws \<and>
    map_of ws (sreg (e_sgdma_regs (en s)) S_first_desc_lo) = Some (PCI_DMA_L (desc_bus x)) \<and>
    addr_of (snd (ws ! 1)) (snd (ws ! 0)) = desc_bus x \<and>
    fst (ws ! 1) = sreg (e_sgdma_regs (en s)) S_first_desc_hi \<and>
    ws ! 2 = (sreg (e_sgdma_regs (en s)) S_first_desc_adjacent, of_nat (min (desc_adjacent x - 1) 15)) \<and>
    fst (last ws) = ereg (e_regs (en s)) E_control \<and>
    snd (last ws) AND XDMA_CTRL_RUN_STOP \<noteq> 0"
proof -
  obtain s' where "engine_start s = Some (t, s')"
    "en s' = (en s)\<lparr>e_shutdown := 0, e_desc_dequeued := 0, e_running := True\<rparr>"
    "heap s' = heap s" "wakes s' = wakes s"
    "writes (s_bus s') = writes (s_bus s) @ start_writes (s_poll_mode s) (en s) x"
    using engine_start_spec [OF assms] by blast
  moreover have "snd (last (start_writes (s_poll_mode s) (en s) x)) AND XDMA_CTRL_RUN_STOP \<noteq> 0"
    unfolding start_writes_last by (simp add: start_control_run) (simp add: bits)
  ultimately show ?thesis using assms(2) start_writes_last(2)
    by (intro exI [of _ s'] exI [of _ "start_writes (s_poll_mode s) (en s) x"])
      (simp, simp add: start_writes_def)
qed

text \<open>An idle engine with one transfer of one descriptor queued, for examples.\<close>

definition demo_engine :: xdma_engine where
  "demo_engine = \<lparr>e_magic = MAGIC_ENGINE, e_regs = 0x1000, e_sgdma_regs = 0x5000, e_shutdown = 0,
     e_running = False, e_streaming = False, e_non_incr_addr = False, e_dir_to_dev = True,
     e_addr_align = 1, e_len_granularity = 1, e_addr_bits = 64, e_channel = 0,
     e_number_in_channel = 0, e_desc_dequeued = 0, e_status = 0, e_ie_mask = 0, transfer_list = [],
     rx_tail = 0, rx_head = 0, rx_overrun = False, rx_buffer = None, rx_cyclic = None,
     rx_result = None, rx_result_bus = 0, poll_wb = 0, poll_bus = 0, e_locked = False,
     e_irq_bitmask = 1, e_perf = None, eop_found = False, user_buffer_index = 0\<rparr>"

definition demo_transfer :: xdma_transfer where
  "demo_transfer = transfer_zero\<lparr>desc_virt := [xdma_desc.make 0 0 0 0 0 0 0 0], desc_bus := 0x100000000,
     desc_adjacent := 1, desc_num := 1, sgl_nents := 1\<rparr>"

definition demo_est :: "(mmio list \<Rightarrow> u64 \<Rightarrow> u32) \<Rightarrow> est" where
  "demo_est r = \<lparr>s_poll_mode = False, s_credit_mp = 0, s_msix = False, s_cfg_bar = 0, en = demo_engine,
     heap = (\<lambda>_. None)(7 \<mapsto> demo_transfer), s_bus = \<lparr>hist = [], resp = r\<rparr>, s_pages = demo_world, wakes = []\<rparr>"

theorem engine_start_programs_witness:
  "\<exists>s'. engine_start (set_en (\<lambda>e. e\<lparr>transfer_list := [7]\<rparr>) (demo_est (\<lambda>_ _. 0))) = Some (7, s') \<and> e_running (en s')"
  using engine_start_programs [of "set_en (\<lambda>e. e\<lparr>transfer_list := [7]\<rparr>) (demo_est (\<lambda>_ _. 0))" 7 "[]" demo_transfer]
  by (auto simp: demo_est_def demo_engine_def)

text \<open>
  The control words of start and stop agree: a stop writes the same interrupt enables without
  the run bit. The non-incremental addressing mode is only ever requested from the hardware when
  the driver does not poll: in poll mode \<open>engine_start_mode_config\<close> loses the setting.
\<close>

theorem start_stop_control_words:
  "stop_control p e AND XDMA_CTRL_RUN_STOP = 0 \<and>
   start_control p e = stop_control p e OR XDMA_CTRL_RUN_STOP OR
     (if \<not> p \<and> e_non_incr_addr e then XDMA_CTRL_NON_INCR_ADDR else 0) \<and>
   (start_control True e) AND XDMA_CTRL_NON_INCR_ADDR = 0"
  using stop_control_no_run start_stop_control by (simp add: start_control_def Let_def bits)

text \<open>
  The alignment requirements an engine reports are taken from the register field by field, and
  a register of zero gives the defaults (no requirement, 64 address bits).
\<close>

theorem engine_alignments_fields:
  defines "w \<equiv> \<lambda>s. fst (rd (ereg (e_regs (en s)) E_alignments) s)"
  shows "e_addr_bits (en (engine_alignments s)) = (if w s = 0 then 64 else take_bit 8 (w s)) \<and>
    e_len_granularity (en (engine_alignments s)) = (if w s = 0 then 1 else take_bit 8 (drop_bit 8 (w s))) \<and>
    e_addr_align (en (engine_alignments s)) = (if w s = 0 then 1 else take_bit 8 (drop_bit 16 (w s)))"
proof -
  have m: "v AND 0xff = take_bit 8 v" for v :: u32 by (rule and_ff)
  have g: "drop_bit 8 (v AND 0xff00) = take_bit 8 (drop_bit 8 v)" for v :: u32
    by (simp add: drop_bit_and m)
  have a: "drop_bit 16 (v AND 0xff0000) = take_bit 8 (drop_bit 16 v)" for v :: u32
    by (simp add: drop_bit_and m)
  show ?thesis unfolding w_def by (simp add: engine_alignments_def Let_def split_beta m g a)
qed

end
