(* ===== verification/Service.thy ===== *)
theory Service
  imports Engine
begin

text \<open>
  Servicing an engine after an interrupt or a writeback: \<open>engine_service\<close> of
  \<open>driver/xdma-core.c\<close> and the functions it is made of. The caller holds the engine lock.
\<close>

unbundle bit_operations_syntax

section \<open>Operations\<close>

definition engine_service_shutdown :: "est \<Rightarrow> est" where
  "engine_service_shutdown s =
    wake_up W_shutdown (set_en (\<lambda>e. e\<lparr>e_running := False\<rparr>) (xdma_engine_stop s))"

text \<open>The result is the null pointer when the transfer was freed (asynchronous I/O).\<close>

definition engine_transfer_completion :: "nat \<Rightarrow> est \<Rightarrow> (nat option \<times> est) option" where
  "engine_transfer_completion t s = do {
     x \<leftarrow> heap s t;
     (case (t_iocb x, last_in_request x) of
        (Some iocb, True) \<Rightarrow> do {
          w \<leftarrow> transfer_destroy x (s_pages s);
          let s = s\<lparr>s_pages := w, heap := (heap s)(t := None)\<rparr>;
          Some (None, wake_up (W_aio iocb (size_of_request x)) s)
        }
      | _ \<Rightarrow> Some (Some t, wake_up (W_transfer t) s))
   }"

lemma completion_list:
  "engine_transfer_completion t s = Some (r, s') \<Longrightarrow> en s' = en s"
  by (auto simp: engine_transfer_completion_def wake_up_def bind_eq_Some_conv Let_def
      split: option.splits bool.splits prod.splits)

lemma list_del_head_len:
  "list_del_head s = Some s' \<Longrightarrow> length (transfer_list (en s)) = Suc (length (transfer_list (en s')))"
  by (auto simp: list_del_head_def set_en_def split: list.splits)

definition list_first :: "est \<Rightarrow> nat option" where
  "list_first s = (case transfer_list (en s) of [] \<Rightarrow> None | t # _ \<Rightarrow> Some t)"

text \<open>The loop of \<open>engine_service_transfer_list\<close>: every round takes one transfer off the queue.\<close>

function service_list_loop :: "nat option \<Rightarrow> u32 \<Rightarrow> est \<Rightarrow> (nat option \<times> u32 \<times> est) option" where
  "service_list_loop tr desc_completed s =
    (case tr of
       None \<Rightarrow> Some (None, desc_completed, s)
     | Some t \<Rightarrow>
         (case heap s t of
            None \<Rightarrow> None
          | Some x \<Rightarrow>
              if \<not> t_cyclic x \<and> desc_completed > of_nat (desc_num x) then
                (case list_del_head s of
                   None \<Rightarrow> None
                 | Some s1 \<Rightarrow>
                     (case engine_transfer_completion t
                        (put_transfer t (x\<lparr>t_state := STATE_COMPLETED\<rparr>)
                          (set_en (\<lambda>e. e\<lparr>e_desc_dequeued := e_desc_dequeued e + desc_num x\<rparr>) s1)) of
                        None \<Rightarrow> None
                      | Some (r, s2) \<Rightarrow>
                          service_list_loop (list_first s2) (desc_completed - of_nat (desc_num x)) s2))
              else Some (Some t, desc_completed, s)))"
  by auto

termination service_list_loop
  by (relation "measure (\<lambda>(_, _, s). length (transfer_list (en s)))")
    (auto dest!: completion_list list_del_head_len simp: put_transfer_def set_en_def)

declare service_list_loop.simps [simp del]

definition engine_service_transfer_list :: "nat option \<Rightarrow> u32 \<Rightarrow> est \<Rightarrow> (nat option \<times> u32 \<times> est) option" where
  "engine_service_transfer_list tr desc_completed s = do {
     BUG_ON (tr = None);
     service_list_loop tr desc_completed s
   }"

definition engine_err_handle :: "nat \<Rightarrow> est \<Rightarrow> est option" where
  "engine_err_handle t s = do {
     let s = (if e_status (en s) AND XDMA_STAT_BUSY \<noteq> 0
              then snd (rd (ereg (e_regs (en s)) E_status) s) else s);
     x \<leftarrow> heap s t;
     let s = put_transfer t (x\<lparr>t_state := STATE_FAILED\<rparr>) s;
     Some (xdma_engine_stop s)
   }"

definition err_flags :: u32 where
  "err_flags = ((XDMA_STAT_MAGIC_STOPPED OR XDMA_STAT_ALIGN_MISMATCH) OR XDMA_STAT_READ_ERROR)
     OR XDMA_STAT_DESC_ERROR"

definition engine_service_final_transfer :: "nat option \<Rightarrow> u32 \<Rightarrow> est \<Rightarrow> (nat option \<times> est) option" where
  "engine_service_final_transfer tr desc_completed s = do {
     BUG_ON (tr = None);
     t \<leftarrow> tr;
     (if e_status (en s) AND err_flags \<noteq> 0 then map_option (\<lambda>s. (Some t, s)) (engine_err_handle t s)
      else do {
        x \<leftarrow> heap s t;
        let st = (if desc_completed < of_nat (desc_num x) then STATE_FAILED else STATE_COMPLETED);
        let s = put_transfer t (x\<lparr>t_state := st\<rparr>) s;
        s \<leftarrow> list_del_head s;
        let s = set_en (\<lambda>e. e\<lparr>e_desc_dequeued := e_desc_dequeued e + desc_num x\<rparr>) s;
        engine_transfer_completion t s
      })
   }"

definition engine_service_perf :: "u32 \<Rightarrow> est \<Rightarrow> est" where
  "engine_service_perf desc_completed s =
    (case e_perf (en s) of
       None \<Rightarrow> s
     | Some p \<Rightarrow>
         let p = (if e_status (en s) AND XDMA_STAT_DESC_COMPLETED \<noteq> 0
                  then p\<lparr>pf_iterations := desc_completed\<rparr> else p);
             stop = e_status (en s) AND XDMA_STAT_DESC_STOPPED \<noteq> 0;
             p = (if stop then p\<lparr>pf_stopped := True\<rparr> else p);
             s = set_en (\<lambda>e. e\<lparr>e_perf := Some p\<rparr>) s
         in if stop then wake_up W_perf s else s)"

definition engine_service_resume :: "est \<Rightarrow> est option" where
  "engine_service_resume s =
    (if \<not> e_running (en s) then
       if e_shutdown (en s) AND ENGINE_SHUTDOWN_REQUEST \<noteq> 0 then
         Some (wake_up W_shutdown (set_en (\<lambda>e. e\<lparr>e_shutdown := e_shutdown e OR ENGINE_SHUTDOWN_IDLE\<rparr>) s))
       else if transfer_list (en s) \<noteq> [] then map_option snd (engine_start s)
       else Some s
     else Some s)"

text \<open>The part of \<open>engine_service\<close> after the descriptor count is known.\<close>

definition engine_service_queue :: "u32 \<Rightarrow> est \<Rightarrow> est option" where
  "engine_service_queue desc_count s = do {
     let transfer = list_first s;
     let s = (if transfer \<noteq> None then engine_service_perf desc_count s else s);
     let desc_count = desc_count - of_nat (e_desc_dequeued (en s));
     (transfer, desc_count, s) \<leftarrow> engine_service_transfer_list transfer desc_count s;
     (transfer, s) \<leftarrow> engine_service_final_transfer transfer desc_count s;
     let s = (if s_poll_mode s then set_en (\<lambda>e. e\<lparr>poll_wb := 0\<rparr>) s else s);
     engine_service_resume s
   }"

definition engine_service :: "u32 \<Rightarrow> est \<Rightarrow> (int \<times> est) option" where
  "engine_service desc_writeback s = do {
     let desc_count = desc_writeback AND WB_COUNT_MASK;
     let err_flag = desc_writeback AND WB_ERR_MASK;
     let rc = (if err_flag \<noteq> 0 then - 1 else 0);
     (if \<not> e_running (en s) then
        Some (0, if desc_writeback = 0 then snd (engine_status_read True s) else s)
      else do {
        let s = (if desc_count = 0 \<or> err_flag \<noteq> 0 then snd (engine_status_read True s) else s);
        let s = (if (e_running (en s) \<and> e_status (en s) AND XDMA_STAT_BUSY = 0) \<or> desc_count \<noteq> 0
                 then engine_service_shutdown s else s);
        let (desc_count, s) = (if desc_count = 0 then rd (ereg (e_regs (en s)) E_completed_desc_count) s
                               else (desc_count, s));
        s \<leftarrow> engine_service_queue desc_count s;
        Some (rc, s)
      })
   }"

section \<open>Waiting for a writeback\<close>

text \<open>
  \<open>engine_service_wb_monitor\<close>. What it sees is an argument: per round the count in the writeback
  buffer and whether \<open>jiffies\<close> has passed the timeout. The end of the list means that the loop is
  still polling. The calls of \<open>schedule\<close> have no effect on the result.
\<close>

fun wb_loop :: "u32 \<Rightarrow> (u32 \<times> bool) list \<Rightarrow> u32 option" where
  "wb_loop expected_wb [] = None"
| "wb_loop expected_wb ((desc_wb, expired) # obs) =
    (if desc_wb AND WB_ERR_MASK \<noteq> 0 then Some desc_wb
     else if desc_wb = expected_wb then Some desc_wb
     else if expired then
       Some (if (desc_wb AND WB_COUNT_MASK) > expected_wb then expected_wb OR WB_ERR_MASK else desc_wb)
     else wb_loop expected_wb obs)"

definition engine_service_wb_monitor :: "u32 \<Rightarrow> (u32 \<times> bool) list \<Rightarrow> u32 option" where
  "engine_service_wb_monitor expected_wb obs = (if expected_wb \<noteq> 0 then wb_loop expected_wb obs else Some 0)"

section \<open>The queue after servicing\<close>

text \<open>
  How many transfers the loop takes off: those whose descriptors are all done and that are not the
  last one with work done. \<open>ns\<close> are the descriptor counts of the queue, \<open>c\<close> the descriptors
  completed.
\<close>

fun done_before :: "nat \<Rightarrow> nat list \<Rightarrow> nat" where
  "done_before c [] = 0"
| "done_before c (n # ns) = (if c > n then Suc (done_before (c - n) ns) else 0)"

lemma done_before_le: "done_before c ns \<le> length ns"
  by (induction c ns rule: done_before.induct) auto

lemma done_before_sum:
  "0 < c \<Longrightarrow> 0 < c - sum_list (take (done_before c ns) ns) \<and> sum_list (take (done_before c ns) ns) < c"
proof (induction c ns rule: done_before.induct)
  case (1 c)
  then show ?case by simp
next
  case (2 c n ns)
  then show ?case by (cases "c > n") auto
qed

lemma done_before_next:
  "done_before c ns < length ns \<Longrightarrow> c - sum_list (take (done_before c ns) ns) \<le> ns ! done_before c ns"
  by (induction c ns rule: done_before.induct) (auto simp: not_less)

lemma done_before_full: "0 < c \<Longrightarrow> c \<le> sum_list ns \<Longrightarrow> done_before c ns < length ns"
  by (induction c ns rule: done_before.induct) auto

text \<open>Transfers of synchronous requests, all there and none cyclic.\<close>

definition plain :: "est \<Rightarrow> nat list \<Rightarrow> bool" where
  "plain s q \<longleftrightarrow> distinct q \<and> (\<forall>t \<in> set q. \<exists>x. heap s t = Some x \<and> \<not> t_cyclic x \<and> t_iocb x = None \<and>
     0 < desc_num x \<and> desc_num x < 2 ^ 31)"

definition num_of :: "est \<Rightarrow> nat \<Rightarrow> nat" where
  "num_of s t = (case heap s t of None \<Rightarrow> 0 | Some x \<Rightarrow> desc_num x)"

definition set_states :: "transfer_state \<Rightarrow> nat list \<Rightarrow> (nat \<Rightarrow> xdma_transfer option) \<Rightarrow> nat \<Rightarrow> xdma_transfer option" where
  "set_states st ts h = (\<lambda>t. if t \<in> set ts then map_option (\<lambda>x. x\<lparr>t_state := st\<rparr>) (h t) else h t)"

lemma set_states_simps [simp]:
  "set_states st [] h = h"
  "t \<notin> set ts \<Longrightarrow> set_states st ts h t = h t"
  "set_states st ts h t = None \<longleftrightarrow> h t = None"
  by (simp_all add: set_states_def)

lemma set_states_Some:
  "set_states st ts h t = Some x \<longleftrightarrow>
     (\<exists>y. h t = Some y \<and> x = (if t \<in> set ts then y\<lparr>t_state := st\<rparr> else y))"
  by (auto simp: set_states_def)

lemma completion_sync:
  "heap s t = Some x \<Longrightarrow> t_iocb x = None \<Longrightarrow> engine_transfer_completion t s = Some (Some t, wake_up (W_transfer t) s)"
  by (simp add: engine_transfer_completion_def)

lemma word_gt_nat: "n < 2 ^ 31 \<Longrightarrow> (w :: u32) > of_nat n \<longleftrightarrow> unat w > n"
  by (simp add: word_less_nat_alt unat_of_nat)

lemma unat_minus_nat: "n < 2 ^ 31 \<Longrightarrow> n \<le> unat (w :: u32) \<Longrightarrow> unat (w - of_nat n) = unat w - n"
  by (subst unat_sub) (simp_all add: word_le_nat_alt unat_of_nat)

lemma service_list_loop_spec:
  "transfer_list (en s) = q \<Longrightarrow> plain s q \<Longrightarrow> unat c32 = c \<Longrightarrow> k = done_before c (map (num_of s) q) \<Longrightarrow>
   \<exists>c' s'. service_list_loop (list_first s) c32 s = Some (list_first s', c', s') \<and>
     unat c' = c - sum_list (take k (map (num_of s) q)) \<and>
     en s' = (en s)\<lparr>transfer_list := drop k q,
       e_desc_dequeued := e_desc_dequeued (en s) + sum_list (take k (map (num_of s) q))\<rparr> \<and>
     heap s' = set_states STATE_COMPLETED (take k q) (heap s) \<and>
     wakes s' = wakes s @ map W_transfer (take k q) \<and>
     s_bus s' = s_bus s \<and> s_pages s' = s_pages s \<and> s_poll_mode s' = s_poll_mode s"
proof (induction q arbitrary: s c32 c k)
  case Nil
  then show ?case by (subst service_list_loop.simps) (simp add: list_first_def)
next
  case (Cons t q)
  obtain x where x: "heap s t = Some x" "\<not> t_cyclic x" "t_iocb x = None" "desc_num x < 2 ^ 31"
    using Cons.prems(2) by (auto simp: plain_def)
  have n: "num_of s t = desc_num x" using x by (simp add: num_of_def)
  have hd: "list_first s = Some t" using Cons.prems(1) by (simp add: list_first_def)
  show ?case
  proof (cases "c > desc_num x")
    case False
    then show ?thesis using Cons.prems x n hd
      by (subst service_list_loop.simps) (simp add: word_gt_nat)
  next
    case True
    let ?s1 = "wake_up (W_transfer t) (put_transfer t (x\<lparr>t_state := STATE_COMPLETED\<rparr>)
        (set_en (\<lambda>e. e\<lparr>e_desc_dequeued := e_desc_dequeued e + desc_num x\<rparr>)
          (set_en (\<lambda>e. e\<lparr>transfer_list := q\<rparr>) s)))"
    have step: "service_list_loop (list_first s) c32 s =
        service_list_loop (list_first ?s1) (c32 - of_nat (desc_num x)) ?s1"
      by (subst service_list_loop.simps)
        (use True Cons.prems x hd in \<open>simp add: word_gt_nat list_del_head_def completion_sync\<close>)
    have nq: "t \<notin> set q" using Cons.prems(2) by (simp add: plain_def)
    have nm: "map (num_of ?s1) q = map (num_of s) q" using nq by (auto simp: num_of_def)
    have pl: "plain ?s1 q" using Cons.prems(2) nq by (auto simp: plain_def)
    have c1: "unat (c32 - of_nat (desc_num x)) = c - desc_num x"
      using True Cons.prems(3) x(4) by (subst unat_minus_nat) simp_all
    have k: "k = Suc (done_before (c - desc_num x) (map (num_of ?s1) q))"
      unfolding nm using True Cons.prems(4) n by simp
    obtain c' s' where r:
      "service_list_loop (list_first ?s1) (c32 - of_nat (desc_num x)) ?s1 = Some (list_first s', c', s')"
      "unat c' = (c - desc_num x) - sum_list (take (k - 1) (map (num_of s) q))"
      "en s' = (en ?s1)\<lparr>transfer_list := drop (k - 1) q,
         e_desc_dequeued := e_desc_dequeued (en ?s1) + sum_list (take (k - 1) (map (num_of s) q))\<rparr>"
      "heap s' = set_states STATE_COMPLETED (take (k - 1) q) (heap ?s1)"
      "wakes s' = wakes ?s1 @ map W_transfer (take (k - 1) q)" "s_bus s' = s_bus ?s1"
      "s_pages s' = s_pages ?s1" "s_poll_mode s' = s_poll_mode ?s1"
      using Cons.IH [OF _ pl c1 k [THEN arg_cong [where f = "\<lambda>n. n - 1"], unfolded diff_Suc_1]]
      unfolding nm by (auto simp del: fun_upd_apply)
    have "heap s' = set_states STATE_COMPLETED (take k (t # q)) (heap s)"
      unfolding r(4) using k nq x(1) by (auto simp: set_states_def fun_eq_iff dest: in_set_takeD)
    with r k n show ?thesis unfolding step by (simp add: add.assoc)
  qed
qed

text \<open>
  The outcome of servicing a queue when the engine has stopped without an error, \<open>c\<close> descriptors
  into the run: \<open>k\<close> transfers are complete before the one the engine stopped on.
\<close>

definition stopped_state :: "est \<Rightarrow> nat list \<Rightarrow> nat \<Rightarrow> transfer_state" where
  "stopped_state s q c =
    (let ns = map (num_of s) q; k = done_before c ns
     in if c - sum_list (take k ns) < ns ! k then STATE_FAILED else STATE_COMPLETED)"

definition serviced :: "est \<Rightarrow> nat list \<Rightarrow> nat \<Rightarrow> est \<Rightarrow> bool" where
  "serviced s q c s' \<longleftrightarrow>
    (let k = done_before c (map (num_of s) q); rest = drop (Suc k) q
     in transfer_list (en s') = rest \<and> (e_running (en s') \<longleftrightarrow> rest \<noteq> []) \<and>
        e_shutdown (en s') = 0 \<and> e_locked (en s') = e_locked (en s) \<and> e_perf (en s') = e_perf (en s) \<and>
        (rest \<noteq> [] \<longrightarrow> e_desc_dequeued (en s') = 0) \<and>
        rx_cyclic (en s') = rx_cyclic (en s) \<and> e_regs (en s') = e_regs (en s) \<and>
        e_sgdma_regs (en s') = e_sgdma_regs (en s) \<and>
        heap s' = set_states (stopped_state s q c) [q ! k] (set_states STATE_COMPLETED (take k q) (heap s)) \<and>
        wakes s' = wakes s @ map W_transfer (take (Suc k) q) \<and> s_pages s' = s_pages s \<and>
        s_poll_mode s' = s_poll_mode s \<and>
        (rest = [] \<longrightarrow> writes (s_bus s') = writes (s_bus s)) \<and>
        (\<forall>t x. rest \<noteq> [] \<and> t = hd rest \<and> heap s' t = Some x \<longrightarrow>
           writes (s_bus s') = writes (s_bus s) @ start_writes (s_poll_mode s) (en s) x))"

lemma engine_service_queue_spec:
  assumes "transfer_list (en s) = q" "plain s q" "e_perf (en s) = None" "\<not> e_running (en s)"
    and "e_shutdown (en s) = 0" "e_status (en s) AND err_flags = 0"
    and "e_desc_dequeued (en s) < 2 ^ 31" "c = unat c32 - e_desc_dequeued (en s)" "0 < c" "c \<le> sum_list (map (num_of s) q)"
  shows "\<exists>s'. engine_service_queue c32 s = Some s' \<and> serviced s q c s'"
proof -
  let ?ns = "map (num_of s) q"
  define k where "k = done_before c ?ns"
  have k: "k < length q" using done_before_full [OF assms(9,10)] by (simp add: k_def)
  then obtain t0 where hd: "list_first s = Some t0" using assms(1) by (cases q) (auto simp: list_first_def)
  have cw: "unat (c32 - of_nat (e_desc_dequeued (en s))) = c"
    using assms(7,8,9) by (subst unat_minus_nat) simp_all
  obtain c' s1 where l:
    "service_list_loop (list_first s) (c32 - of_nat (e_desc_dequeued (en s))) s = Some (list_first s1, c', s1)"
    "unat c' = c - sum_list (take k ?ns)"
    "en s1 = (en s)\<lparr>transfer_list := drop k q, e_desc_dequeued := e_desc_dequeued (en s) + sum_list (take k ?ns)\<rparr>"
    "heap s1 = set_states STATE_COMPLETED (take k q) (heap s)"
    "wakes s1 = wakes s @ map W_transfer (take k q)"
    "s_bus s1 = s_bus s" "s_pages s1 = s_pages s" "s_poll_mode s1 = s_poll_mode s"
    using service_list_loop_spec [OF assms(1,2) cw k_def] by blast
  define f where "f = q ! k"
  have dk: "drop k q = f # drop (Suc k) q" using k by (simp add: f_def Cons_nth_drop_Suc)
  have fk: "f \<notin> set (take k q)" "f \<notin> set (drop (Suc k) q)" "f \<in> set q"
    using assms(2) k dk unfolding plain_def f_def
    by (metis append_take_drop_id disjoint_iff distinct_append list.set_intros(1),
        metis distinct.simps(2) distinct_drop, simp)
  obtain x where x: "heap s f = Some x" "t_iocb x = None" "0 < desc_num x" "desc_num x < 2 ^ 31"
    using assms(2) fk(3) by (auto simp: plain_def)
  have nf: "?ns ! k = desc_num x" using k x by (simp add: f_def num_of_def)
  define st where "st = stopped_state s q c"
  have st: "(if c' < of_nat (desc_num x) then STATE_FAILED else STATE_COMPLETED) = st"
    using x(4) l(2) nf by (simp add: st_def stopped_state_def Let_def word_less_nat_alt unat_of_nat flip: k_def)
  let ?s2 = "wake_up (W_transfer f) (set_en (\<lambda>e. e\<lparr>e_desc_dequeued := e_desc_dequeued e + desc_num x\<rparr>)
      (set_en (\<lambda>e. e\<lparr>transfer_list := drop (Suc k) q\<rparr>) (put_transfer f (x\<lparr>t_state := st\<rparr>) s1)))"
  have fin: "engine_service_final_transfer (list_first s1) c' s1 = Some (Some f, ?s2)"
    using l(3,4) dk fk(1) x assms(6)
    by (simp add: engine_service_final_transfer_def list_first_def st Let_def list_del_head_def completion_sync)
  define s3 where "s3 = (if s_poll_mode ?s2 then set_en (\<lambda>e. e\<lparr>poll_wb := 0\<rparr>) ?s2 else ?s2)"
  have q: "engine_service_queue c32 s = engine_service_resume s3"
    using hd assms(3) l(1) fin
    by (simp add: engine_service_queue_def engine_service_perf_def engine_service_transfer_list_def Let_def s3_def)
  have h3: "heap s3 = set_states st [f] (set_states STATE_COMPLETED (take k q) (heap s))"
    using l(4) fk(1) x(1) by (auto simp: set_states_def fun_eq_iff s3_def)
  have w3: "wakes s3 = wakes s @ map W_transfer (take (Suc k) q)"
    using l(5) k by (simp add: f_def take_Suc_conv_app_nth s3_def)
  have e3: "transfer_list (en s3) = drop (Suc k) q" "e_running (en s3) = e_running (en s)"
    "e_shutdown (en s3) = e_shutdown (en s)" "e_locked (en s3) = e_locked (en s)" "e_perf (en s3) = e_perf (en s)"
    "rx_cyclic (en s3) = rx_cyclic (en s)" "e_regs (en s3) = e_regs (en s)" "e_sgdma_regs (en s3) = e_sgdma_regs (en s)"
    "s_pages s3 = s_pages s" "s_poll_mode s3 = s_poll_mode s" "s_bus s3 = s_bus s"
    "start_writes p (en s3) z = start_writes p (en s) z" for p z
    using l(3,6,7,8) by (simp_all add: s3_def start_writes_def start_control_def Let_def)
  note goal = q serviced_def Let_def k_def [symmetric] f_def [symmetric] st_def [symmetric]
  show ?thesis
  proof (cases "drop (Suc k) q")
    case Nil
    then show ?thesis unfolding goal
      using assms(4,5) e3 h3 w3 by (simp add: engine_service_resume_def ENGINE_SHUTDOWN_REQUEST_def)
  next
    case (Cons t r)
    then have "t \<in> set q" by (metis in_set_dropD list.set_intros(1))
    then obtain y where "heap s t = Some y" using assms(2) by (auto simp: plain_def)
    then have "heap s3 t \<noteq> None" unfolding h3 by simp
    then obtain z where z: "heap s3 t = Some z" by blast
    obtain s' where "engine_start s3 = Some (t, s')"
      "en s' = (en s3)\<lparr>e_shutdown := 0, e_desc_dequeued := 0, e_running := True\<rparr>"
      "heap s' = heap s3" "wakes s' = wakes s3" "s_pages s' = s_pages s3" "s_poll_mode s' = s_poll_mode s3"
      "writes (s_bus s') = writes (s_bus s3) @ start_writes (s_poll_mode s3) (en s3) z"
      using engine_start_spec [of s3 t r z] assms(4) e3 Cons z by auto
    then show ?thesis unfolding goal
      using assms(4,5) e3 h3 w3 Cons z
      by (simp add: engine_service_resume_def ENGINE_SHUTDOWN_REQUEST_def)
  qed
qed

section \<open>Interrupts\<close>

text \<open>What an interrupt service reads from the device: the status, then the descriptor count.\<close>

definition irq_status :: "est \<Rightarrow> u32" where
  "irq_status s = fst (rd (ereg (e_regs (en s)) E_status_rc) s)"

definition irq_count :: "est \<Rightarrow> u32" where
  "irq_count s = fst (rd (ereg (e_regs (en s)) E_completed_desc_count)
     (engine_service_shutdown (snd (engine_status_read True s))))"

lemma shutdown_sel [simp]:
  "en (engine_service_shutdown s) = (en s)\<lparr>e_running := False\<rparr>"
  "heap (engine_service_shutdown s) = heap s" "wakes (engine_service_shutdown s) = wakes s @ [W_shutdown]"
  "s_pages (engine_service_shutdown s) = s_pages s" "s_poll_mode (engine_service_shutdown s) = s_poll_mode s"
  "writes (s_bus (engine_service_shutdown s)) = writes (s_bus s) @
     [(ereg (e_regs (en s)) E_control, stop_control (s_poll_mode s) (en s))]"
  by (simp_all add: engine_service_shutdown_def)

lemma plain_cong: "heap s' = heap s \<Longrightarrow> plain s' q = plain s q"
  by (simp add: plain_def)

lemma num_of_cong: "heap s' = heap s \<Longrightarrow> num_of s' = num_of s"
  by (simp add: num_of_def fun_eq_iff)

definition stop_write :: "est \<Rightarrow> u64 \<times> u32" where
  "stop_write s = (ereg (e_regs (en s)) E_control, stop_control (s_poll_mode s) (en s))"

text \<open>Interrupt service of a running engine that has stopped without an error.\<close>

lemma engine_service_irq:
  assumes "e_running (en s)" "transfer_list (en s) = q" "plain s q" "e_perf (en s) = None"
    and "e_shutdown (en s) = 0" "e_desc_dequeued (en s) = 0"
    and "irq_status s AND (XDMA_STAT_BUSY OR err_flags) = 0"
    and "0 < irq_count s" "unat (irq_count s) \<le> sum_list (map (num_of s) q)"
  shows "\<exists>s0 s'. engine_service 0 s = Some (0, s') \<and> serviced s0 q (unat (irq_count s)) s' \<and>
    heap s0 = heap s \<and> en s0 = (en s)\<lparr>e_status := irq_status s, e_running := False\<rparr> \<and>
    wakes s0 = wakes s @ [W_shutdown] \<and> s_pages s0 = s_pages s \<and> s_poll_mode s0 = s_poll_mode s \<and>
    writes (s_bus s0) = writes (s_bus s) @ [stop_write s]"
proof -
  let ?s1 = "snd (engine_status_read True s)"
  let ?s2 = "engine_service_shutdown ?s1"
  let ?s0 = "snd (rd (ereg (e_regs (en s)) E_completed_desc_count) ?s2)"
  have z: "irq_status s AND XDMA_STAT_BUSY = 0" "irq_status s AND err_flags = 0"
    using assms(7) by (simp_all only: bit.conj_disj_distrib or_eq_0_iff)
  have sw: "stop_control p (e\<lparr>e_status := v\<rparr>) = stop_control p e" for p e v
    by (simp add: stop_control_def Let_def)
  have e0: "heap ?s0 = heap s" "en ?s0 = (en s)\<lparr>e_status := irq_status s, e_running := False\<rparr>"
    "wakes ?s0 = wakes s @ [W_shutdown]" "s_pages ?s0 = s_pages s" "s_poll_mode ?s0 = s_poll_mode s"
    "writes (s_bus ?s0) = writes (s_bus s) @ [stop_write s]"
    by (simp_all add: irq_status_def stop_write_def sw)
  have p: "transfer_list (en ?s0) = q" "plain ?s0 q" "e_perf (en ?s0) = None" "\<not> e_running (en ?s0)"
    "e_shutdown (en ?s0) = 0" "e_status (en ?s0) AND err_flags = 0" "e_desc_dequeued (en ?s0) < 2 ^ 31"
    "unat (irq_count s) = unat (irq_count s) - e_desc_dequeued (en ?s0)" "0 < unat (irq_count s)"
    "unat (irq_count s) \<le> sum_list (map (num_of ?s0) q)"
    unfolding e0(2) plain_cong [OF e0(1)] num_of_cong [OF e0(1)]
    using assms(2-6,8,9) z(2) by (simp_all add: word_less_nat_alt)
  from engine_service_queue_spec [OF p]
  obtain s' where r: "engine_service_queue (irq_count s) ?s0 = Some s'" "serviced ?s0 q (unat (irq_count s)) s'"
    by blast
  have "engine_service 0 s = Some (0, s')"
    using assms(1) z(1) r(1) by (simp add: engine_service_def Let_def split_beta irq_status_def irq_count_def)
  with r(2) e0 show ?thesis by blast
qed

text \<open>The same for a poll that saw the expected count \<open>n\<close> in the writeback buffer.\<close>

lemma engine_service_writeback:
  assumes "e_running (en s)" "transfer_list (en s) = q" "plain s q" "e_perf (en s) = None"
    and "e_shutdown (en s) = 0" "e_desc_dequeued (en s) = 0" "e_status (en s) AND err_flags = 0"
    and "wb AND WB_COUNT_MASK = wb" "0 < wb" "unat wb \<le> sum_list (map (num_of s) q)"
  shows "\<exists>s'. engine_service wb s = Some (0, s') \<and> serviced (engine_service_shutdown s) q (unat wb) s'"
proof -
  have e: "wb AND WB_ERR_MASK = 0"
  proof -
    have "wb AND WB_ERR_MASK = (wb AND WB_COUNT_MASK) AND WB_ERR_MASK" using assms(8) by simp
    also have "\<dots> = wb AND (WB_COUNT_MASK AND WB_ERR_MASK)" by (simp only: and.assoc)
    finally show ?thesis by (simp add: WB_COUNT_MASK_def WB_ERR_MASK_def)
  qed
  let ?s0 = "engine_service_shutdown s"
  have h: "heap ?s0 = heap s" by simp
  have p: "transfer_list (en ?s0) = q" "plain ?s0 q" "e_perf (en ?s0) = None" "\<not> e_running (en ?s0)"
    "e_shutdown (en ?s0) = 0" "e_status (en ?s0) AND err_flags = 0" "e_desc_dequeued (en ?s0) < 2 ^ 31"
    "unat wb = unat wb - e_desc_dequeued (en ?s0)" "0 < unat wb" "unat wb \<le> sum_list (map (num_of ?s0) q)"
    unfolding plain_cong [OF h] num_of_cong [OF h] using assms(2-7,9,10) by (simp_all add: word_less_nat_alt)
  from engine_service_queue_spec [OF p]
  obtain s' where r: "engine_service_queue wb ?s0 = Some s'" "serviced ?s0 q (unat wb) s'" by blast
  have "wb \<noteq> 0" using assms(9) by auto
  then have "engine_service wb s = Some (0, s')"
    using assms(1,8) e r(1) by (simp add: engine_service_def Let_def)
  with r(2) show ?thesis by blast
qed

section \<open>Properties\<close>

text \<open>
  C7: interrupt service of a running engine that stopped without an error, with \<open>count\<close>
  descriptors done. The queue is served in order: the transfers whose descriptors all lie within
  \<open>count\<close> leave the queue completed, the one the engine stopped on leaves it completed exactly if
  its last descriptor is done and failed otherwise, all of them are woken in order, the others keep
  their place and state, and the engine is restarted on the first of them, or stays idle when
  there is none.
\<close>

theorem engine_service_interrupt:
  assumes "e_running (en s)" "transfer_list (en s) = q" "plain s q" "e_perf (en s) = None"
    and "e_shutdown (en s) = 0" "e_desc_dequeued (en s) = 0"
    and "irq_status s AND (XDMA_STAT_BUSY OR err_flags) = 0"
    and "0 < irq_count s" "unat (irq_count s) \<le> sum_list (map (num_of s) q)"
  shows "\<exists>s' k. engine_service 0 s = Some (0, s') \<and> k < length q \<and>
    sum_list (take k (map (num_of s) q)) < unat (irq_count s) \<and>
    unat (irq_count s) \<le> sum_list (take (Suc k) (map (num_of s) q)) \<and>
    transfer_list (en s') = drop (Suc k) q \<and>
    (\<forall>t x. heap s t = Some x \<longrightarrow> heap s' t = Some
       (if t \<in> set (take k q) \<or> t = q ! k \<and> unat (irq_count s) = sum_list (take (Suc k) (map (num_of s) q))
        then x\<lparr>t_state := STATE_COMPLETED\<rparr>
        else if t = q ! k then x\<lparr>t_state := STATE_FAILED\<rparr> else x)) \<and>
    wakes s' = wakes s @ W_shutdown # map W_transfer (take (Suc k) q) \<and>
    (e_running (en s') \<longleftrightarrow> drop (Suc k) q \<noteq> []) \<and>
    writes (s_bus s') = writes (s_bus s) @ stop_write s #
      (case drop (Suc k) q of [] \<Rightarrow> [] | t # _ \<Rightarrow> start_writes (s_poll_mode s) (en s) (the (heap s' t)))"
proof -
  let ?c = "unat (irq_count s)" and ?ns = "map (num_of s) q"
  define k where "k = done_before ?c ?ns"
  obtain s0 s' where r: "engine_service 0 s = Some (0, s')" "serviced s0 q ?c s'"
    "heap s0 = heap s" "en s0 = (en s)\<lparr>e_status := irq_status s, e_running := False\<rparr>"
    "wakes s0 = wakes s @ [W_shutdown]" "s_poll_mode s0 = s_poll_mode s"
    "writes (s_bus s0) = writes (s_bus s) @ [stop_write s]"
    using engine_service_irq [OF assms] by blast
  have c0: "0 < ?c" using assms(8) by (simp add: word_less_nat_alt)
  have k: "k < length q" using done_before_full [OF c0 assms(9)] by (simp add: k_def)
  have lo: "sum_list (take k ?ns) < ?c" using done_before_sum [OF c0, of ?ns] by (simp add: k_def)
  have sk: "sum_list (take (Suc k) ?ns) = sum_list (take k ?ns) + ?ns ! k"
    using k by (simp add: take_Suc_conv_app_nth)
  have up: "?c \<le> sum_list (take (Suc k) ?ns)"
    using done_before_next [of ?c ?ns] k lo unfolding sk by (simp add: k_def)
  have st: "stopped_state s0 q ?c = (if ?c = sum_list (take (Suc k) ?ns) then STATE_COMPLETED else STATE_FAILED)"
    unfolding stopped_state_def num_of_cong [OF r(3)] Let_def k_def [symmetric] using lo up unfolding sk by auto
  have sw: "start_writes p (e\<lparr>e_status := v, e_running := b\<rparr>) x = start_writes p e x" for p e v b x
    by (simp add: start_writes_def start_control_def Let_def)
  note d = r(2) [unfolded serviced_def num_of_cong [OF r(3)] Let_def k_def [symmetric] st]
  have hp: "heap s' t = Some
       (if t \<in> set (take k q) \<or> t = q ! k \<and> ?c = sum_list (take (Suc k) ?ns)
        then x\<lparr>t_state := STATE_COMPLETED\<rparr>
        else if t = q ! k then x\<lparr>t_state := STATE_FAILED\<rparr> else x)" if "heap s t = Some x" for t x
  proof -
    have "q ! k \<notin> set (take k q)"
      using assms(3) k by (auto simp: plain_def in_set_conv_nth nth_eq_iff_index_eq)
    then show ?thesis using d that r(3) by (auto simp: set_states_def)
  qed
  have wr: "writes (s_bus s') = writes (s_bus s) @ stop_write s #
      (case drop (Suc k) q of [] \<Rightarrow> [] | t # _ \<Rightarrow> start_writes (s_poll_mode s) (en s) (the (heap s' t)))"
  proof (cases "drop (Suc k) q")
    case (Cons t l)
    then have "t \<in> set q" by (metis in_set_dropD list.set_intros(1))
    then obtain x where "heap s t = Some x" using assms(3) by (auto simp: plain_def)
    then obtain y where "heap s' t = Some y" using hp by blast
    then show ?thesis using d r(4,6,7) Cons sw by simp
  qed (use d r(7) in simp)
  show ?thesis
    by (intro exI [of _ s'] exI [of _ k]) (use r d k lo up hp wr in auto)
qed

text \<open>A running engine with the demo transfer whose device reports one descriptor done.\<close>

definition demo_running :: "u32 \<Rightarrow> u32 \<Rightarrow> est" where
  "demo_running status count = set_en (\<lambda>e. e\<lparr>e_running := True, transfer_list := [7]\<rparr>)
     (demo_est (\<lambda>_ a. if a = 0x1048 then count else if a = 0x1040 \<or> a = 0x1044 then status else 0))"

lemma demo_running_sel:
  "e_running (en (demo_running st c))" "transfer_list (en (demo_running st c)) = [7]"
  "plain (demo_running st c) [7]" "e_perf (en (demo_running st c)) = None"
  "e_shutdown (en (demo_running st c)) = 0" "e_desc_dequeued (en (demo_running st c)) = 0"
  "irq_status (demo_running st c) = st" "irq_count (demo_running st c) = c"
  "heap (demo_running st c) 7 = Some demo_transfer" "desc_num demo_transfer = 1"
  "num_of (demo_running st c) 7 = 1" "e_regs (en (demo_running st c)) = 0x1000"
  by (simp_all add: demo_running_def demo_est_def demo_engine_def plain_def demo_transfer_def transfer_zero_def
      irq_status_def irq_count_def rd_def read_register_def ereg_def engine_regs_def num_of_def
      engine_service_shutdown_def xdma_engine_stop_def engine_status_read_def wr_def write_register_def
      set_en_def wake_up_def Let_def)

theorem engine_service_interrupt_witness:
  "\<exists>s'. engine_service 0 (demo_running 0 1) = Some (0, s') \<and> transfer_list (en s') = [] \<and> \<not> e_running (en s')"
proof -
  note w = engine_service_interrupt [of "demo_running 0 1" "[7]", unfolded demo_running_sel]
  show ?thesis using w by (auto simp: demo_running_sel)
qed

lemma engine_service_error_spec:
  assumes "e_running (en s)" "transfer_list (en s) = t # r" "heap s t = Some x" "plain s (t # r)"
    and "e_perf (en s) = None" "e_shutdown (en s) = 0" "e_desc_dequeued (en s) = 0"
    and "irq_status s AND XDMA_STAT_BUSY = 0" "irq_status s AND err_flags \<noteq> 0"
    and "unat (irq_count s) \<le> desc_num x"
  shows "\<exists>s'. engine_service 0 s = Some (0, s') \<and> transfer_list (en s') = t # r \<and> e_running (en s') \<and>
    heap s' = (heap s)(t \<mapsto> x\<lparr>t_state := STATE_FAILED\<rparr>) \<and> wakes s' = wakes s @ [W_shutdown] \<and>
    en s' = (en s)\<lparr>e_status := irq_status s, e_shutdown := 0, e_desc_dequeued := 0,
      poll_wb := (if s_poll_mode s then 0 else poll_wb (en s))\<rparr> \<and>
    s_poll_mode s' = s_poll_mode s \<and> s_pages s' = s_pages s \<and>
    (\<exists>ws. writes (s_bus s') = writes (s_bus s) @ ws @ start_writes (s_poll_mode s) (en s) x)"
proof -
  let ?s2 = "engine_service_shutdown (snd (engine_status_read True s))"
  let ?s0 = "snd (rd (ereg (e_regs (en s)) E_completed_desc_count) ?s2)"
  let ?x = "x\<lparr>t_state := STATE_FAILED\<rparr>"
  have e0: "en ?s0 = (en s)\<lparr>e_status := irq_status s, e_running := False\<rparr>" by (simp add: irq_status_def)
  have xn: "\<not> t_cyclic x" "desc_num x < 2 ^ 31" using assms(3,4) by (auto simp: plain_def)
  have loop: "service_list_loop (Some t) (irq_count s) ?s0 = Some (Some t, irq_count s, ?s0)"
    using assms(3,10) xn by (subst service_list_loop.simps) (simp add: word_gt_nat)
  let ?s3 = "xdma_engine_stop (put_transfer t ?x ?s0)"
  define s4 where "s4 = (if s_poll_mode s then set_en (\<lambda>e. e\<lparr>poll_wb := 0\<rparr>) ?s3 else ?s3)"
  have fin: "engine_service_final_transfer (Some t) (irq_count s) ?s0 = Some (Some t, ?s3)"
    using assms(3,8,9) e0 by (simp add: engine_service_final_transfer_def engine_err_handle_def irq_status_def Let_def)
  have q: "engine_service_queue (irq_count s) ?s0 = engine_service_resume s4"
    using assms(2,5,7) e0 loop fin
    by (simp add: engine_service_queue_def list_first_def engine_service_perf_def
        engine_service_transfer_list_def Let_def s4_def)
  have s4': "en s4 = (en s)\<lparr>e_status := irq_status s, e_running := False, poll_wb := (if s_poll_mode s then 0 else poll_wb (en s))\<rparr>"
    "s_pages s4 = s_pages s"
    by (simp_all add: s4_def irq_status_def)
  have s4: "\<not> e_running (en s4)" "e_shutdown (en s4) = 0" "transfer_list (en s4) = t # r" "heap s4 t = Some ?x"
    "heap s4 = (heap s)(t \<mapsto> ?x)" "wakes s4 = wakes s @ [W_shutdown]" "s_poll_mode s4 = s_poll_mode s"
    "start_writes p (en s4) ?x = start_writes p (en s) x" for p
    using assms(2,6) by (simp_all add: s4_def start_writes_def start_control_def Let_def)
  have "\<exists>ws. writes (s_bus s4) = writes (s_bus s) @ ws" by (cases "s_poll_mode s") (simp_all add: s4_def)
  then obtain ws where ws: "writes (s_bus s4) = writes (s_bus s) @ ws" by blast
  obtain s' where st: "engine_start s4 = Some (t, s')"
    "en s' = (en s4)\<lparr>e_shutdown := 0, e_desc_dequeued := 0, e_running := True\<rparr>"
    "heap s' = heap s4" "wakes s' = wakes s4" "s_pages s' = s_pages s4" "s_poll_mode s' = s_poll_mode s4"
    "writes (s_bus s') = writes (s_bus s4) @ start_writes (s_poll_mode s4) (en s4) ?x"
    using engine_start_spec [OF s4(1,3,4)] by blast
  have "engine_service 0 s = Some (0, s')"
    using assms(1,8) q st(1) s4(1,2,3)
    by (simp add: engine_service_def engine_service_resume_def Let_def split_beta irq_status_def irq_count_def)
  then show ?thesis using st s4 s4' ws assms(1) by (intro exI [of _ s']) simp
qed

text \<open>
  C15: a transfer the hardware reports an error for is marked failed but not taken off the queue,
  nobody waiting for it is woken, and the same descriptors are started again at once. (The caller
  of \<open>engine_err_handle\<close> returns before the part that dequeues and completes a transfer.)
\<close>

theorem engine_service_error_restarts:
  assumes "e_running (en s)" "transfer_list (en s) = t # r" "heap s t = Some x" "plain s (t # r)"
    and "e_perf (en s) = None" "e_shutdown (en s) = 0" "e_desc_dequeued (en s) = 0"
    and "irq_status s AND XDMA_STAT_BUSY = 0" "irq_status s AND err_flags \<noteq> 0"
    and "unat (irq_count s) \<le> desc_num x"
  shows "\<exists>s'. engine_service 0 s = Some (0, s') \<and> transfer_list (en s') = t # r \<and> e_running (en s') \<and>
    heap s' = (heap s)(t \<mapsto> x\<lparr>t_state := STATE_FAILED\<rparr>) \<and> wakes s' = wakes s @ [W_shutdown] \<and>
    (\<exists>ws. writes (s_bus s') = writes (s_bus s) @ ws @ start_writes (s_poll_mode s) (en s) x)"
  using engine_service_error_spec [OF assms] by blast

theorem engine_service_error_restarts_witness:
  "\<exists>s'. engine_service 0 (demo_running 0x10 0) = Some (0, s') \<and> transfer_list (en s') = [7] \<and> e_running (en s')"
  using engine_service_error_restarts [of "demo_running 0x10 0" 7 "[]" demo_transfer]
  by (auto simp: demo_running_sel err_flags_def bits)

text \<open>
  C16: an interrupt that finds the engine still busy (the race of older hardware a comment in
  \<open>engine_err_handle\<close> describes) ends in a panic. The single queued transfer is dequeued although
  the engine keeps running; the next service of the running engine finds an empty queue and
  hits \<open>BUG_ON(!transfer)\<close>.
\<close>

theorem engine_service_busy_panics:
  assumes "e_running (en s)" "transfer_list (en s) = [t]" "heap s t = Some x" "plain s [t]"
    and "e_perf (en s) = None" "e_shutdown (en s) = 0" "e_desc_dequeued (en s) = 0"
    and "irq_status s AND XDMA_STAT_BUSY \<noteq> 0" "irq_status s AND err_flags = 0"
    and "unat (fst (rd (ereg (e_regs (en s)) E_completed_desc_count) (snd (engine_status_read True s)))) \<le> desc_num x"
  shows "\<exists>s'. engine_service 0 s = Some (0, s') \<and> e_running (en s') \<and> transfer_list (en s') = [] \<and>
    (\<forall>wb. engine_service wb s' = None)"
proof -
  let ?s1 = "snd (engine_status_read True s)"
  obtain c s0 where cs: "rd (ereg (e_regs (en s)) E_completed_desc_count) ?s1 = (c, s0)"
    by (cases "rd (ereg (e_regs (en s)) E_completed_desc_count) ?s1")
  have fs: "c = fst (rd (ereg (e_regs (en s)) E_completed_desc_count) ?s1)"
    "s0 = snd (rd (ereg (e_regs (en s)) E_completed_desc_count) ?s1)" by (simp_all add: cs)
  have e0: "en s0 = (en s)\<lparr>e_status := irq_status s\<rparr>" "heap s0 = heap s" by (simp_all add: fs(2) irq_status_def)
  have xn: "\<not> t_cyclic x" "desc_num x < 2 ^ 31" "t_iocb x = None" using assms(3,4) by (auto simp: plain_def)
  have loop: "service_list_loop (Some t) c s0 = Some (Some t, c, s0)"
    using assms(3,10) xn e0(2) fs(1) by (subst service_list_loop.simps) (simp add: word_gt_nat)
  obtain s3 where fin: "engine_service_final_transfer (Some t) c s0 = Some (Some t, s3)"
    "transfer_list (en s3) = []" "e_running (en s3)"
    using assms(1,2,3,9) xn(3) e0
    by (simp add: engine_service_final_transfer_def irq_status_def Let_def list_del_head_def completion_sync)
  define s4 where "s4 = (if s_poll_mode s3 then set_en (\<lambda>e. e\<lparr>poll_wb := 0\<rparr>) s3 else s3)"
  have s4: "e_running (en s4)" "transfer_list (en s4) = []" using fin by (simp_all add: s4_def)
  have "engine_service_queue c s0 = Some s4"
    using assms(2,5,7) e0 loop fin s4
    by (simp add: engine_service_queue_def list_first_def engine_service_perf_def
        engine_service_transfer_list_def engine_service_resume_def Let_def flip: s4_def)
  then have run: "engine_service 0 s = Some (0, s4)"
    using assms(1,8) by (simp add: engine_service_def Let_def cs irq_status_def)
  have "engine_service_queue c s' = None" if "transfer_list (en s') = []" for c s'
    using that by (simp add: engine_service_queue_def list_first_def engine_service_transfer_list_def Let_def)
  then have "engine_service wb s4 = None" for wb
    using s4 by (simp add: engine_service_def Let_def split_beta)
  with run s4 show ?thesis by blast
qed

theorem engine_service_busy_panics_witness:
  "\<exists>s'. engine_service 0 (demo_running 1 0) = Some (0, s') \<and> engine_service 0 s' = None"
proof -
  have "fst (rd (ereg (e_regs (en (demo_running 1 0))) E_completed_desc_count)
      (snd (engine_status_read True (demo_running 1 0)))) = 0"
    by (simp add: demo_running_def demo_est_def demo_engine_def rd_def read_register_def ereg_def engine_regs_def
        engine_status_read_def set_en_def Let_def)
  then show ?thesis
    using engine_service_busy_panics [of "demo_running 1 0" 7 demo_transfer]
    by (auto simp: demo_running_sel err_flags_def bits)
qed

text \<open>An observation on which the loop goes on as long as there is time: no error bit, and not the count.\<close>

definition quiet :: "u32 \<Rightarrow> u32 \<Rightarrow> bool" where
  "quiet expected w \<longleftrightarrow> w AND WB_ERR_MASK = 0 \<and> w \<noteq> expected"

lemma wb_loop_append:
  "\<forall>(w, b) \<in> set pre. quiet expected w \<and> \<not> b \<Longrightarrow> wb_loop expected (pre @ obs) = wb_loop expected obs"
  by (induction pre) (auto simp: quiet_def)

lemma wb_loop_None: "wb_loop expected obs = None \<longleftrightarrow> (\<forall>(w, b) \<in> set obs. quiet expected w \<and> \<not> b)"
  by (induction expected obs rule: wb_loop.induct) (auto simp: quiet_def)

text \<open>
  C17: polling for a number of descriptors that is not 0 ends exactly at the first observation that has
  the error bit of the hardware, is the expected count, or is made when the timeout has passed; as long as
  there is none, it goes on. The value it returns is exactly: the observation itself, if it has the error
  bit; the expected count, if that was observed, timeout or not; and, if the timeout passed with
  another count, the expected count with the error bit set when more were counted than expected, but the
  observed count as it is, without any error bit, when fewer were.
\<close>

theorem wb_monitor_result:
  assumes "expected \<noteq> 0" "\<forall>(w, b) \<in> set pre. quiet expected w \<and> \<not> b"
  shows "(engine_service_wb_monitor expected obs = None \<longleftrightarrow> (\<forall>(w, b) \<in> set obs. quiet expected w \<and> \<not> b)) \<and>
    (w AND WB_ERR_MASK \<noteq> 0 \<longrightarrow> engine_service_wb_monitor expected (pre @ (w, b) # rest) = Some w) \<and>
    (expected AND WB_ERR_MASK = 0 \<longrightarrow> engine_service_wb_monitor expected (pre @ (expected, b) # rest) = Some expected) \<and>
    (quiet expected w \<and> (w AND WB_COUNT_MASK) > expected \<longrightarrow>
       engine_service_wb_monitor expected (pre @ (w, True) # rest) = Some (expected OR WB_ERR_MASK)) \<and>
    (quiet expected w \<and> (w AND WB_COUNT_MASK) \<le> expected \<longrightarrow>
       engine_service_wb_monitor expected (pre @ (w, True) # rest) = Some w)"
  by (simp add: engine_service_wb_monitor_def assms(1) wb_loop_append [OF assms(2)] wb_loop_None)
     (auto simp: quiet_def)

theorem wb_monitor_result_witness:
  "engine_service_wb_monitor 3 [(0, False), (2, True)] = Some 2 \<and>
   engine_service_wb_monitor 3 [(0, False), (3, False)] = Some 3 \<and>
   engine_service_wb_monitor 3 [(0, False), (4, True)] = Some (3 OR WB_ERR_MASK) \<and>
   engine_service_wb_monitor 3 [(0, False), (2, False)] = None"
proof -
  have p: "\<forall>(w, b) \<in> set [(0 :: u32, False)]. quiet 3 w \<and> \<not> b" by (simp add: quiet_def)
  note all = wb_monitor_result [OF _ p, where rest = "[]" and obs = "[(0, False), (2, False)]"]
  show ?thesis
    using all [of 2 True] all [of 4 False] by (simp add: quiet_def WB_ERR_MASK_def WB_COUNT_MASK_def)
qed

end
