(* ===== verification/Ring.thy ===== *)
theory Ring
  imports Service
begin

text \<open>
  The receive ring of a streaming C2H engine (\<open>driver/xdma-core.c\<close>): a cyclic transfer fills
  256 blocks of 4 KiB, the device writes a result per block, \<open>engine_ring_process\<close> moves the
  tail over new results, \<open>complete_cyclic\<close> consumes them at the head and copies a packet to user
  space. Loops whose end depends on what the device wrote are partial functions: no result
  (\<open>None\<close>) is a fault or a loop that never ends.
\<close>

unbundle bit_operations_syntax

definition RX_BUF_BLOCK :: nat where "RX_BUF_BLOCK = 4096"
definition RX_BUF_PAGES :: nat where "RX_BUF_PAGES = 256"
definition RX_BUF_SIZE :: nat where "RX_BUF_SIZE = RX_BUF_PAGES * RX_BUF_BLOCK"
definition RX_STATUS_EOP :: u32 where "RX_STATUS_EOP = 1"
definition C2H_WB :: u32 where "C2H_WB = 0x52B4"

section \<open>Servicing the ring\<close>

definition engine_transfer_dequeue :: "est \<Rightarrow> est option" where
  "engine_transfer_dequeue s = do {
     t \<leftarrow> list_first s;
     BUG_ON (rx_cyclic (en s) \<noteq> Some t);
     list_del_head s
   }"

partial_function (option) ring_loop :: "nat \<Rightarrow> est \<Rightarrow> (nat \<times> est) option" where
  "ring_loop eop_count s =
    Option.bind (rx_result (en s)) (\<lambda>res.
      if \<not> rx_tail (en s) < length res then None
      else if r_status (res ! rx_tail (en s)) \<noteq> 0 \<and> \<not> rx_overrun (en s) then
        let eop_count = (if r_status (res ! rx_tail (en s)) AND RX_STATUS_EOP \<noteq> 0 then eop_count + 1 else eop_count);
            s = set_en (\<lambda>e. e\<lparr>rx_tail := (rx_tail e + 1) mod RX_BUF_PAGES\<rparr>) s;
            s = (if rx_tail (en s) = rx_head (en s) then set_en (\<lambda>e. e\<lparr>rx_overrun := True\<rparr>) s else s)
        in ring_loop eop_count s
      else Some (eop_count, s))"

definition engine_ring_process :: "est \<Rightarrow> (nat \<times> est) option" where
  "engine_ring_process s = do {
     BUG_ON (rx_result (en s) = None);
     ring_loop 0 s
   }"

text \<open>
  The polling loop. Per round, \<open>obs\<close> gives what the device has written by then: the writeback
  count and the result buffer. The end of the list means that the loop is still polling.
\<close>

fun cyclic_poll_loop :: "(u32 \<times> xdma_result list) list \<Rightarrow> est \<Rightarrow> (nat \<times> int \<times> est) option" where
  "cyclic_poll_loop [] s = None"
| "cyclic_poll_loop ((wb, res) # obs) s =
    (let s = set_en (\<lambda>e. e\<lparr>poll_wb := wb, rx_result := map_option (\<lambda>_. res) (rx_result e)\<rparr>) s
     in if poll_wb (en s) AND WB_ERR_MASK \<noteq> 0 then Some (0, - 1, s)
        else do {
          (eop_count, s) \<leftarrow> engine_ring_process s;
          (if eop_count = 0 then cyclic_poll_loop obs s else Some (eop_count, 0, s))
        })"

text \<open>The end of both service functions: dequeue and shut down an engine that is no longer busy.\<close>

definition cyclic_idle :: "est \<Rightarrow> est option" where
  "cyclic_idle s =
    (if e_running (en s) \<and> e_status (en s) AND XDMA_STAT_BUSY = 0 then do {
       s \<leftarrow> (if transfer_list (en s) \<noteq> [] then engine_transfer_dequeue s else Some s);
       Some (engine_service_shutdown s)
     } else Some s)"

definition engine_service_cyclic_polled :: "(u32 \<times> xdma_result list) list \<Rightarrow> est \<Rightarrow> (int \<times> est) option" where
  "engine_service_cyclic_polled obs s = do {
     BUG_ON (e_magic (en s) \<noteq> MAGIC_ENGINE);
     (eop_count, rc, s) \<leftarrow> cyclic_poll_loop obs s;
     s \<leftarrow> (if eop_count = 0 then cyclic_idle (snd (engine_status_read True s)) else Some s);
     Some (rc, s)
   }"

definition engine_service_cyclic_interrupt :: "est \<Rightarrow> (int \<times> est) option" where
  "engine_service_cyclic_interrupt s = do {
     BUG_ON (e_magic (en s) \<noteq> MAGIC_ENGINE);
     let s = snd (engine_status_read True s);
     (eop_count, s) \<leftarrow> engine_ring_process s;
     s \<leftarrow> (if s_credit_mp s \<noteq> 0 then do {
             t \<leftarrow> rx_cyclic (en s);
             Some (wake_up (W_transfer t) s)
           } else if eop_count > 0 then do {
             t \<leftarrow> rx_cyclic (en s);
             Some (wake_up (W_transfer t) (set_en (\<lambda>e. e\<lparr>eop_found := True\<rparr>) s))
           } else Some s);
     s \<leftarrow> cyclic_idle s;
     Some (0, s)
   }"

definition engine_service_cyclic :: "(u32 \<times> xdma_result list) list \<Rightarrow> est \<Rightarrow> (int \<times> est) option" where
  "engine_service_cyclic obs s = do {
     BUG_ON (e_magic (en s) \<noteq> MAGIC_ENGINE);
     (if s_poll_mode s then engine_service_cyclic_polled obs s else engine_service_cyclic_interrupt s)
   }"

section \<open>The two callers of the service functions\<close>

definition engine_service_work :: "(u32 \<times> xdma_result list) list \<Rightarrow> est \<Rightarrow> est option" where
  "engine_service_work obs s = do {
     BUG_ON (e_magic (en s) \<noteq> MAGIC_ENGINE);
     s \<leftarrow> lock_engine s;
     s \<leftarrow> map_option snd (if rx_cyclic (en s) \<noteq> None then engine_service_cyclic obs s
                          else engine_service 0 s);
     let s = (if s_msix s then wr (e_ie_mask (en s)) (ereg (e_regs (en s)) E_interrupt_enable_mask_w1s) s
              else s\<lparr>s_bus := channel_interrupts_enable (s_cfg_bar s) (e_irq_bitmask (en s)) (s_bus s)\<rparr>);
     Some (unlock_engine s)
   }"

definition engine_service_poll ::
  "u32 \<Rightarrow> (u32 \<times> bool) list \<Rightarrow> (u32 \<times> xdma_result list) list \<Rightarrow> est \<Rightarrow> (int \<times> est) option" where
  "engine_service_poll expected wb_obs obs s = do {
     BUG_ON (e_magic (en s) \<noteq> MAGIC_ENGINE);
     (if expected AND WB_COUNT_MASK \<noteq> expected then Some (- 1, s)
      else do {
        desc_wb \<leftarrow> engine_service_wb_monitor expected wb_obs;
        s \<leftarrow> lock_engine s;
        (rc, s) \<leftarrow> (if rx_cyclic (en s) \<noteq> None then engine_service_cyclic obs s
                    else engine_service desc_wb s);
        Some (rc, unlock_engine s)
      })
   }"

section \<open>Reading packets\<close>

text \<open>
  \<open>cp off block n\<close> is the result of \<open>copy_to_user\<close>: the number of bytes that could not be copied
  of the \<open>n\<close> bytes at the start of ring block \<open>block\<close> to offset \<open>off\<close> of the user buffer. The
  copies made are returned.
\<close>

type_synonym copy = "u32 \<times> nat \<times> nat"

function copy_loop ::
  "(u32 \<Rightarrow> nat \<Rightarrow> nat \<Rightarrow> int) \<Rightarrow> nat \<Rightarrow> nat \<Rightarrow> copy list \<Rightarrow> est \<Rightarrow> int option \<times> copy list \<times> est" where
  "copy_loop cp remaining head log s =
    (if remaining = 0 then (None, log, s)
     else let copy = (if remaining > RX_BUF_BLOCK then RX_BUF_BLOCK else remaining);
              rc = cp (user_buffer_index (en s)) head copy
          in if rc \<noteq> 0 then (Some rc, log, s)
             else copy_loop cp (remaining - copy) ((head + 1) mod RX_BUF_PAGES)
                    (log @ [(user_buffer_index (en s), head, copy)])
                    (set_en (\<lambda>e. e\<lparr>user_buffer_index := user_buffer_index e + of_nat copy\<rparr>) s))"
  by auto

termination copy_loop
  by (relation "measure (\<lambda>(_, r, _, _, _). r)") (auto simp: RX_BUF_BLOCK_def)

declare copy_loop.simps [simp del]

definition copy_cyclic_to_user ::
  "(u32 \<Rightarrow> nat \<Rightarrow> nat \<Rightarrow> int) \<Rightarrow> nat \<Rightarrow> nat \<Rightarrow> est \<Rightarrow> int \<times> copy list \<times> est" where
  "copy_cyclic_to_user cp pkt_length head s =
    (let (err, log, s) = copy_loop cp pkt_length head [] s
     in (case err of Some rc \<Rightarrow> rc | None \<Rightarrow> int pkt_length, log, s))"

definition result_zero :: xdma_result where "result_zero = \<lparr>r_status = 0, r_length = 0\<rparr>"

text \<open>One result: clear it and advance the head.\<close>

definition ring_pop :: "est \<Rightarrow> est" where
  "ring_pop s = set_en (\<lambda>e. e\<lparr>rx_result := map_option (\<lambda>res. res[rx_head e := result_zero]) (rx_result e),
     rx_head := (rx_head e + 1) mod RX_BUF_PAGES\<rparr>) s"

definition result_fault :: "xdma_result \<Rightarrow> bool" where
  "result_fault r \<longleftrightarrow> drop_bit 16 (r_status r) \<noteq> C2H_WB \<or> r_length r > of_nat RX_BUF_BLOCK \<or> r_length r = 0"

definition result_eop :: "xdma_result \<Rightarrow> bool" where
  "result_eop r \<longleftrightarrow> r_status r AND RX_STATUS_EOP \<noteq> 0"

partial_function (option) complete_loop ::
  "nat \<Rightarrow> nat \<Rightarrow> est \<Rightarrow> (nat \<times> nat \<times> bool \<times> est) option" where
  "complete_loop pkt_length num_credit s =
    (if rx_head (en s) \<noteq> rx_tail (en s) \<or> rx_overrun (en s) then
       Option.bind (rx_result (en s)) (\<lambda>res.
         if \<not> rx_head (en s) < length res then None
         else let r = res ! rx_head (en s) in
           if result_fault r then Some (pkt_length, num_credit, True, ring_pop s)
           else let pkt_length = pkt_length + unat (r_length r);
                    num_credit = num_credit + 1
                in if result_eop r
                   then Some (pkt_length, num_credit, False, ring_pop (set_en (\<lambda>e. e\<lparr>eop_found := True\<rparr>) s))
                   else complete_loop pkt_length num_credit (ring_pop s))
     else Some (pkt_length, num_credit, False, s))"

definition complete_cyclic ::
  "(u32 \<Rightarrow> nat \<Rightarrow> nat \<Rightarrow> int) \<Rightarrow> est \<Rightarrow> (int \<times> copy list \<times> est) option" where
  "complete_cyclic cp s = do {
     BUG_ON (rx_result (en s) = None);
     s \<leftarrow> lock_engine s;
     let head = rx_head (en s);
     (pkt_length, num_credit, fault, s) \<leftarrow> complete_loop 0 0 s;
     let s = unlock_engine s;
     (if fault then Some (- EIO, [], s)
      else do {
        let (rc, log, s) = copy_cyclic_to_user cp pkt_length head s;
        let s = set_en (\<lambda>e. e\<lparr>rx_overrun := False\<rparr>) s;
        let s = (if rc > 0 then wr (of_nat num_credit) (sreg (e_sgdma_regs (en s)) S_credits) s else s);
        Some (rc, log, s)
      })
   }"

text \<open>
  What the environment does while a reader waits: \<open>w_wait c s\<close> is \<open>wait_event_interruptible\<close> for
  condition \<open>c\<close> (its return code and the state when it returns), \<open>w_obs\<close> what a poll observes,
  \<open>w_copy\<close> is \<open>copy_to_user\<close>.
\<close>

record reader_env =
  w_wait :: "(est \<Rightarrow> bool) \<Rightarrow> est \<Rightarrow> int \<times> est"
  w_obs :: "est \<Rightarrow> (u32 \<times> xdma_result list) list"
  w_copy :: "u32 \<Rightarrow> nat \<Rightarrow> nat \<Rightarrow> int"

definition monitor_cyclic_round :: "reader_env \<Rightarrow> est \<Rightarrow> (int \<times> est) option" where
  "monitor_cyclic_round E s =
    (if s_poll_mode s then do {
       (rc, s) \<leftarrow> engine_service_poll 0 [] (w_obs E s) s;
       Some (if rc \<noteq> 0 then - ERESTARTSYS else rc, s)
     } else if s_credit_mp s \<noteq> 0 then
       Some (w_wait E (\<lambda>s. rx_head (en s) \<noteq> rx_tail (en s) \<or> rx_overrun (en s)) s)
     else Some (w_wait E (\<lambda>s. eop_found (en s)) s))"

partial_function (option) monitor_cyclic_loop :: "reader_env \<Rightarrow> int \<Rightarrow> est \<Rightarrow> (int \<times> est) option" where
  "monitor_cyclic_loop E rc s =
    (if rc + 1 = 100 then Some (rc + 1, s)
     else Option.bind (monitor_cyclic_round E s) (\<lambda>(rc, s).
       Option.bind (rx_result (en s)) (\<lambda>res.
         if \<not> rx_head (en s) < length res then None
         else if r_status (res ! rx_head (en s)) = 0 then monitor_cyclic_loop E rc s
         else Some (rc, s))))"

definition transfer_monitor_cyclic :: "reader_env \<Rightarrow> est \<Rightarrow> (int \<times> est) option" where
  "transfer_monitor_cyclic E s = do {
     BUG_ON (rx_result (en s) = None);
     monitor_cyclic_loop E 0 s
   }"

partial_function (option) read_cyclic_loop ::
  "reader_env \<Rightarrow> int \<Rightarrow> copy list \<Rightarrow> est \<Rightarrow> (int \<times> copy list \<times> est) option" where
  "read_cyclic_loop E rc_len log s =
    Option.bind (transfer_monitor_cyclic E s) (\<lambda>(rc, s).
      if rc \<noteq> 0 then Some (rc, log, s)
      else Option.bind (complete_cyclic (w_copy E) s) (\<lambda>(n, log', s).
        if \<not> eop_found (en s) then read_cyclic_loop E (rc_len + n) (log @ log') s
        else Some (rc_len + n, log @ log',
               if s_credit_mp s \<noteq> 0 then set_en (\<lambda>e. e\<lparr>eop_found := False\<rparr>) s else s)))"

definition char_sgdma_read_cyclic :: "reader_env \<Rightarrow> est \<Rightarrow> (int \<times> copy list \<times> est) option" where
  "char_sgdma_read_cyclic E s = do {
     BUG_ON (e_magic (en s) \<noteq> MAGIC_ENGINE);
     BUG_ON (rx_cyclic (en s) = None);
     read_cyclic_loop E 0 [] s
   }"

section \<open>Opening and closing a streaming channel\<close>

text \<open>
  \<open>cyclic_transfer_setup\<close>. \<open>K\<close> are the kernel services, \<open>mem\<close> the result of \<open>vmalloc_32\<close>,
  \<open>rbuf\<close> the result buffer \<open>pci_alloc_consistent\<close> returned, \<open>t\<close> the heap object a new transfer
  gets. The returns inside the locked section are the code's: the lock stays taken.
\<close>

definition cyclic_control :: u32 where
  "cyclic_control = XDMA_DESC_EOP OR XDMA_DESC_COMPLETED"

definition cyclic_transfer_setup ::
  "kernel \<Rightarrow> u64 option \<Rightarrow> (xdma_result list \<times> u64) option \<Rightarrow> nat \<Rightarrow> est \<Rightarrow> (int \<times> est) option" where
  "cyclic_transfer_setup K mem rbuf t s = do {
     s \<leftarrow> lock_engine s;
     let s = set_en (\<lambda>e. e\<lparr>rx_tail := 0, rx_head := 0, rx_overrun := False, eop_found := False,
                            user_buffer_index := 0\<rparr>) s;
     (if rx_buffer (en s) \<noteq> None then Some (- EBUSY, s)
      else do {
        (buf, w) \<leftarrow> rvmalloc (k_v2p K) mem (of_nat RX_BUF_SIZE) (s_pages s);
        let s = set_en (\<lambda>e. e\<lparr>rx_buffer := buf\<rparr>) (s\<lparr>s_pages := w\<rparr>);
        (case rx_buffer (en s) of
           None \<Rightarrow> Some (- ENOMEM, s)
         | Some addr \<Rightarrow> do {
             (x, w) \<leftarrow> transfer_create K addr (of_nat RX_BUF_SIZE) 0 (e_dir_to_dev (en s)) False True False (s_pages s);
             let s = s\<lparr>s_pages := w\<rparr>;
             let s = (case x of None \<Rightarrow> set_en (\<lambda>e. e\<lparr>rx_cyclic := None\<rparr>) s
                      | Some x \<Rightarrow> put_transfer t x (set_en (\<lambda>e. e\<lparr>rx_cyclic := Some t\<rparr>) s));
             let s = set_en (\<lambda>e. e\<lparr>rx_result := map_option fst rbuf,
                       rx_result_bus := (case rbuf of None \<Rightarrow> rx_result_bus e | Some (_, b) \<Rightarrow> b)\<rparr>) s;
             (if rx_result (en s) = None then do {
                t \<leftarrow> rx_cyclic (en s);
                x \<leftarrow> heap s t;
                w \<leftarrow> transfer_destroy x (s_pages s);
                let s = s\<lparr>s_pages := w, heap := (heap s)(t := None)\<rparr>;
                let s = set_en (\<lambda>e. e\<lparr>rx_cyclic := None\<rparr>) s;
                w \<leftarrow> rvfree (k_v2p K) (rx_buffer (en s)) (of_nat RX_BUF_SIZE) (s_pages s);
                let s = set_en (\<lambda>e. e\<lparr>rx_buffer := None\<rparr>) (s\<lparr>s_pages := w\<rparr>);
                Some (- ENOMEM, unlock_engine s)
              } else do {
                t \<leftarrow> rx_cyclic (en s);
                x \<leftarrow> heap s t;
                x \<leftarrow> transfer_set_result_addresses x (rx_result_bus (en s));
                x \<leftarrow> transfer_set_all_control x cyclic_control;
                x \<leftarrow> xdma_transfer_cyclic x;
                let s = unlock_engine (put_transfer t x s);
                let s = (if s_credit_mp s \<noteq> 0 then wr 128 (sreg (e_sgdma_regs (en s)) S_credits) s else s);
                s \<leftarrow> (case rx_cyclic (en s) of None \<Rightarrow> Some s | Some t \<Rightarrow> map_option snd (transfer_queue t s));
                Some (0, s)
              })
           })
      })
   }"

definition char_sgdma_open ::
  "kernel \<Rightarrow> u64 option \<Rightarrow> (xdma_result list \<times> u64) option \<Rightarrow> nat \<Rightarrow> est \<Rightarrow> (int \<times> est) option" where
  "char_sgdma_open K mem rbuf t s = do {
     BUG_ON (e_magic (en s) \<noteq> MAGIC_ENGINE);
     (if e_streaming (en s) \<and> \<not> e_dir_to_dev (en s) then cyclic_transfer_setup K mem rbuf t s
      else Some (0, s))
   }"

partial_function (option) wait_not_busy :: "est \<Rightarrow> est option" where
  "wait_not_busy s =
    (let s = snd (engine_status_read True s)
     in if e_status (en s) AND XDMA_STAT_BUSY \<noteq> 0 then wait_not_busy s else Some s)"

definition cyclic_shutdown_polled :: "est \<Rightarrow> (int \<times> est) option" where
  "cyclic_shutdown_polled s = do {
     s \<leftarrow> lock_engine s;
     s \<leftarrow> wait_not_busy s;
     s \<leftarrow> cyclic_idle s;
     Some (0, unlock_engine s)
   }"

definition cyclic_shutdown_interrupt :: "reader_env \<Rightarrow> est \<Rightarrow> int \<times> est" where
  "cyclic_shutdown_interrupt E s =
    (let (rc, s) = w_wait E (\<lambda>s. \<not> e_running (en s)) s
     in if rc \<noteq> 0 then (rc, s)
        else if e_running (en s) then (- EINVAL, s)
        else (rc, s))"

definition cyclic_transfer_teardown :: "kernel \<Rightarrow> reader_env \<Rightarrow> est \<Rightarrow> (int \<times> est) option" where
  "cyclic_transfer_teardown K E s = do {
     (transfer, s) \<leftarrow> engine_cyclic_stop s;
     s \<leftarrow> lock_engine s;
     let s = unlock_engine s;
     (rc, s) \<leftarrow> (if s_poll_mode s then cyclic_shutdown_polled s else Some (cyclic_shutdown_interrupt E s));
     s \<leftarrow> lock_engine s;
     s \<leftarrow> (case rx_cyclic (en s) of
             None \<Rightarrow> Some s
           | Some t \<Rightarrow> do {
               x \<leftarrow> heap s t;
               w \<leftarrow> transfer_destroy x (s_pages s);
               Some (set_en (\<lambda>e. e\<lparr>rx_cyclic := None\<rparr>) (s\<lparr>s_pages := w, heap := (heap s)(t := None)\<rparr>))
             });
     s \<leftarrow> (if rx_buffer (en s) \<noteq> None then do {
             w \<leftarrow> rvfree (k_v2p K) (rx_buffer (en s)) (of_nat RX_BUF_SIZE) (s_pages s);
             Some (set_en (\<lambda>e. e\<lparr>rx_buffer := None\<rparr>) (s\<lparr>s_pages := w\<rparr>))
           } else Some s);
     let s = (if rx_result (en s) \<noteq> None then set_en (\<lambda>e. e\<lparr>rx_result := None\<rparr>) s else s);
     Some (rc, unlock_engine s)
   }"

definition char_sgdma_close :: "kernel \<Rightarrow> reader_env \<Rightarrow> est \<Rightarrow> (int \<times> est) option" where
  "char_sgdma_close K E s = do {
     BUG_ON (e_magic (en s) \<noteq> MAGIC_ENGINE);
     (if e_streaming (en s) \<and> \<not> e_dir_to_dev (en s) then cyclic_transfer_teardown K E s else Some (0, s))
   }"

section \<open>The ring as a queue of results\<close>

definition ring_ok :: "est \<Rightarrow> bool" where
  "ring_ok s \<longleftrightarrow> (\<exists>res. rx_result (en s) = Some res \<and> length res = 256) \<and>
     rx_head (en s) < 256 \<and> rx_tail (en s) < 256 \<and> \<not> rx_overrun (en s)"

definition results :: "est \<Rightarrow> xdma_result list" where
  "results s = (case rx_result (en s) of None \<Rightarrow> [] | Some res \<Rightarrow> res)"

definition ring_used :: "est \<Rightarrow> nat" where
  "ring_used s = (rx_tail (en s) + (256 - rx_head (en s))) mod 256"

text \<open>The results from the head to the tail, and those the device has written beyond the tail.\<close>

definition ring_view :: "est \<Rightarrow> xdma_result list" where
  "ring_view s = map (\<lambda>i. results s ! ((rx_head (en s) + i) mod 256)) [0..<ring_used s]"

definition ring_fresh :: "est \<Rightarrow> xdma_result list" where
  "ring_fresh s = takeWhile (\<lambda>r. r_status r \<noteq> 0)
     (map (\<lambda>i. results s ! ((rx_tail (en s) + i) mod 256)) [0..<256 - ring_used s])"

definition ring_advance :: "nat \<Rightarrow> est \<Rightarrow> est" where
  "ring_advance n s = set_en (\<lambda>e. e\<lparr>rx_tail := (rx_tail e + n) mod 256, rx_overrun := rx_overrun e \<or> n = 256 - ring_used s\<rparr>) s"

lemma mod256_Suc: "(a mod 256 + 1) mod 256 = (a + 1) mod (256 :: nat)"
  by (rule mod_add_left_eq)

lemma mod256_add: "(a mod 256 + b) mod 256 = (a + b) mod (256 :: nat)"
  by (rule mod_add_left_eq)

lemma mod256_back: "h < 256 \<Longrightarrow> u < 256 \<Longrightarrow> ((h + u) mod 256 + (256 - h)) mod 256 = (u :: nat)"
  unfolding mod256_add by simp

lemma used_mod: "rx_head (en s) < 256 \<Longrightarrow> rx_tail (en s) < 256 \<Longrightarrow> (rx_head (en s) + ring_used s) mod 256 = rx_tail (en s)"
  by (simp add: ring_used_def mod_add_right_eq)

lemma used_less: "ring_used s < 256"
  by (simp add: ring_used_def)

lemma wrap_to_head: "h < 256 \<Longrightarrow> u < 256 \<Longrightarrow> (h + u + 1) mod 256 = (h :: nat) \<longleftrightarrow> u = 255"
proof
  assume a: "h < 256" "u < 256" "(h + u + 1) mod 256 = h"
  show "u = 255"
  proof (rule ccontr)
    assume "u \<noteq> 255"
    with a(2) have "u + 1 < 256" by simp
    then have "((h + (u + 1)) mod 256 + (256 - h)) mod 256 = u + 1" by (rule mod256_back [OF a(1)])
    moreover have "(h + (u + 1)) mod 256 = h" using a(3) by (simp add: add.assoc)
    ultimately show False using a(1) by simp
  qed
qed simp

lemma ring_loop_stop:
  "rx_result (en s) = Some res \<Longrightarrow> rx_tail (en s) < length res \<Longrightarrow>
   r_status (res ! rx_tail (en s)) = 0 \<or> rx_overrun (en s) \<Longrightarrow> ring_loop c s = Some (c, s)"
  by (subst ring_loop.simps) auto

lemma ring_advance_0: "rx_tail (en s) < 256 \<Longrightarrow> ring_used s < 256 \<Longrightarrow> ring_advance 0 s = s"
  by (cases s) (simp add: ring_advance_def set_en_def)

lemma ring_loop_spec:
  "ring_ok s \<Longrightarrow> 256 - ring_used s = k \<Longrightarrow>
   ring_loop c s = Some (c + length (filter result_eop (ring_fresh s)), ring_advance (length (ring_fresh s)) s)"
proof (induction k arbitrary: s c)
  case 0
  then show ?case using used_less [of s] by simp
next
  case (Suc k)
  obtain res where res: "rx_result (en s) = Some res" "length res = 256"
    using Suc.prems(1) by (auto simp: ring_ok_def)
  let ?h = "rx_head (en s)" and ?t = "rx_tail (en s)" and ?u = "ring_used s"
  have b: "?h < 256" "?t < 256" "\<not> rx_overrun (en s)" "?u < 256"
    using Suc.prems(1) used_less [of s] by (simp_all add: ring_ok_def)
  have up: "[0..<Suc k] = 0 # map Suc [0..<k]" by (simp add: upt_conv_Cons map_Suc_upt)
  have r: "results s = res" by (simp add: results_def res)
  have fr: "ring_fresh s = (if r_status (res ! ?t) = 0 then [] else
      res ! ?t # takeWhile (\<lambda>r. r_status r \<noteq> 0) (map (\<lambda>i. res ! ((?t + Suc i) mod 256)) [0..<k]))"
    unfolding ring_fresh_def Suc.prems(2) up r using b(2) by (simp add: o_def)
  show ?case
  proof (cases "r_status (res ! ?t) = 0")
    case True
    then have "ring_loop c s = Some (c, s)" using res b by (intro ring_loop_stop [OF res(1)]) auto
    moreover have "ring_fresh s = []" using fr True by simp
    ultimately show ?thesis using ring_advance_0 [of s] b by simp
  next
    case False
    let ?c = "if result_eop (res ! ?t) then c + 1 else c"
    let ?s1 = "set_en (\<lambda>e. e\<lparr>rx_tail := (rx_tail e + 1) mod 256\<rparr>) s"
    have ht: "(?t + 1) mod 256 = ?h \<longleftrightarrow> k = 0"
    proof -
      have "(?t + 1) mod 256 = (?h + ?u + 1) mod 256"
        unfolding used_mod [OF b(1,2), symmetric] by (rule mod256_Suc)
      then show ?thesis using wrap_to_head [OF b(1,4)] Suc.prems(2) by auto
    qed
    let ?s2 = "if k = 0 then set_en (\<lambda>e. e\<lparr>rx_overrun := True\<rparr>) ?s1 else ?s1"
    have step: "ring_loop c s = ring_loop ?c ?s2"
      using res b False ht by (subst ring_loop.simps) (auto simp: Let_def RX_BUF_PAGES_def result_eop_def)
    show ?thesis
    proof (cases "k = 0")
      case True
      have "ring_loop ?c ?s2 = Some (?c, ?s2)"
        using res True by (intro ring_loop_stop [of ?s2 res]) auto
      moreover have "ring_fresh s = [res ! ?t]" using fr False True by simp
      moreover have "?s2 = ring_advance 1 s"
        using True Suc.prems(2) b by (simp add: ring_advance_def set_en_def)
      ultimately show ?thesis unfolding step by simp
    next
      case k: False
      have u1: "ring_used ?s1 = ?u + 1"
      proof -
        have "ring_used ?s1 = (((?h + ?u) mod 256 + 1) mod 256 + (256 - ?h)) mod 256"
          unfolding used_mod [OF b(1,2)] by (simp add: ring_used_def)
        also have "\<dots> = ((?h + (?u + 1)) mod 256 + (256 - ?h)) mod 256" by (simp only: mod256_Suc add.assoc)
        also have "\<dots> = ?u + 1" using b k Suc.prems(2) by (intro mod256_back) auto
        finally show ?thesis .
      qed
      have ok1: "ring_ok ?s1" using res b by (simp add: ring_ok_def)
      have k1: "256 - ring_used ?s1 = k" using u1 Suc.prems(2) by simp
      have fr1: "ring_fresh ?s1 = takeWhile (\<lambda>r. r_status r \<noteq> 0) (map (\<lambda>i. res ! ((?t + Suc i) mod 256)) [0..<k])"
        unfolding ring_fresh_def k1 by (simp add: results_def res mod256_add)
      have fr2: "ring_fresh s = res ! ?t # ring_fresh ?s1" using fr False fr1 by simp
      have adv: "ring_advance (length (ring_fresh ?s1)) ?s1 = ring_advance (length (ring_fresh s)) s"
        unfolding ring_advance_def k1 using fr2 Suc.prems(2)
        by (simp add: set_en_def mod256_add)
      have "ring_loop c s = Some (?c + length (filter result_eop (ring_fresh ?s1)), ring_advance (length (ring_fresh ?s1)) ?s1)"
        unfolding step using Suc.IH [OF ok1 k1] k by simp
      then show ?thesis unfolding adv using fr2 by simp
    qed
  qed
qed

lemma ring_process_spec:
  "ring_ok s \<Longrightarrow> engine_ring_process s =
     Some (length (filter result_eop (ring_fresh s)), ring_advance (length (ring_fresh s)) s)"
  using ring_loop_spec [of s _ 0] by (auto simp: engine_ring_process_def ring_ok_def)

lemma ring_advance_sel [simp]:
  "rx_result (en (ring_advance n s)) = rx_result (en s)" "rx_head (en (ring_advance n s)) = rx_head (en s)"
  "rx_tail (en (ring_advance n s)) = (rx_tail (en s) + n) mod 256"
  "rx_overrun (en (ring_advance n s)) \<longleftrightarrow> rx_overrun (en s) \<or> n = 256 - ring_used s"
  "heap (ring_advance n s) = heap s" "wakes (ring_advance n s) = wakes s" "s_bus (ring_advance n s) = s_bus s"
  by (simp_all add: ring_advance_def)

lemma ring_used_advance:
  assumes "ring_ok s" "n < 256 - ring_used s"
  shows "ring_used (ring_advance n s) = ring_used s + n"
proof -
  have b: "rx_head (en s) < 256" "rx_tail (en s) < 256" using assms(1) by (simp_all add: ring_ok_def)
  have "ring_used (ring_advance n s) =
      (((rx_head (en s) + ring_used s) mod 256 + n) mod 256 + (256 - rx_head (en s))) mod 256"
    unfolding used_mod [OF b] by (simp add: ring_used_def)
  also have "\<dots> = ((rx_head (en s) + (ring_used s + n)) mod 256 + (256 - rx_head (en s))) mod 256"
    by (simp only: mod256_add add.assoc)
  also have "\<dots> = ring_used s + n" using b assms(2) by (intro mod256_back) auto
  finally show ?thesis .
qed

lemma fresh_nth:
  "i < length (ring_fresh s) \<Longrightarrow> ring_fresh s ! i = results s ! ((rx_tail (en s) + i) mod 256)"
  unfolding ring_fresh_def using length_takeWhile_le [of "\<lambda>r. r_status r \<noteq> 0"
      "map (\<lambda>i. results s ! ((rx_tail (en s) + i) mod 256)) [0..<256 - ring_used s]"]
  by (subst takeWhile_nth) auto

lemma fresh_le: "length (ring_fresh s) \<le> 256 - ring_used s"
  unfolding ring_fresh_def by (rule order_trans [OF length_takeWhile_le]) simp

lemma ring_view_advance:
  assumes "ring_ok s" "length (ring_fresh s) < 256 - ring_used s"
  shows "ring_view (ring_advance (length (ring_fresh s)) s) = ring_view s @ ring_fresh s"
proof (rule nth_equalityI)
  note u = ring_used_advance [OF assms]
  have b: "rx_head (en s) < 256" "rx_tail (en s) < 256" using assms(1) by (simp_all add: ring_ok_def)
  show "length (ring_view (ring_advance (length (ring_fresh s)) s)) = length (ring_view s @ ring_fresh s)"
    by (simp add: ring_view_def u)
  fix i
  assume "i < length (ring_view (ring_advance (length (ring_fresh s)) s))"
  then have i: "i < ring_used s + length (ring_fresh s)" by (simp add: ring_view_def u)
  have res: "results (ring_advance n s) = results s" for n by (simp add: results_def)
  show "ring_view (ring_advance (length (ring_fresh s)) s) ! i = (ring_view s @ ring_fresh s) ! i"
  proof (cases "i < ring_used s")
    case True
    then show ?thesis using i by (simp add: ring_view_def u res nth_append)
  next
    case False
    then have "(rx_tail (en s) + (i - ring_used s)) mod 256 = (rx_head (en s) + i) mod 256"
      unfolding used_mod [OF b, symmetric] mod256_add by simp
    then show ?thesis using i False fresh_nth [of "i - ring_used s" s]
      by (simp add: ring_view_def u res nth_append)
  qed
qed

lemma ring_pop_sel [simp]:
  "rx_head (en (ring_pop s)) = (rx_head (en s) + 1) mod 256" "rx_tail (en (ring_pop s)) = rx_tail (en s)"
  "rx_overrun (en (ring_pop s)) = rx_overrun (en s)" "heap (ring_pop s) = heap s"
  "wakes (ring_pop s) = wakes s" "s_bus (ring_pop s) = s_bus s" "eop_found (en (ring_pop s)) = eop_found (en s)"
  "user_buffer_index (en (ring_pop s)) = user_buffer_index (en s)"
  "s_credit_mp (ring_pop s) = s_credit_mp s"
  "e_sgdma_regs (en (ring_pop s)) = e_sgdma_regs (en s)" "e_locked (en (ring_pop s)) = e_locked (en s)"
  by (simp_all add: ring_pop_def RX_BUF_PAGES_def)

lemma ring_pop_ok: "ring_ok s \<Longrightarrow> ring_ok (ring_pop s)"
  by (auto simp: ring_ok_def) (simp_all add: ring_pop_def)

lemma ring_used_pop:
  assumes "ring_ok s" "0 < ring_used s"
  shows "ring_used (ring_pop s) = ring_used s - 1"
proof -
  have b: "rx_head (en s) < 256" "rx_tail (en s) < 256" using assms(1) by (simp_all add: ring_ok_def)
  let ?h = "rx_head (en s)" and ?h' = "(rx_head (en s) + 1) mod 256"
  have "(?h' + (ring_used s - 1)) mod 256 = (?h + ring_used s) mod 256"
    unfolding mod256_add using assms(2) by simp
  then have "(?h' + (ring_used s - 1)) mod 256 = rx_tail (en s)" unfolding used_mod [OF b] .
  then have "ring_used (ring_pop s) = ((?h' + (ring_used s - 1)) mod 256 + (256 - ?h')) mod 256"
    by (simp add: ring_used_def)
  also have "\<dots> = ring_used s - 1" using used_less [of s] by (intro mod256_back) auto
  finally show ?thesis .
qed

lemma ring_view_pop:
  assumes "ring_ok s" "0 < ring_used s"
  shows "ring_view (ring_pop s) = tl (ring_view s)"
proof (rule nth_equalityI)
  note u = ring_used_pop [OF assms]
  have b: "rx_head (en s) < 256" using assms(1) by (simp add: ring_ok_def)
  obtain res where res: "rx_result (en s) = Some res" "length res = 256" using assms(1) by (auto simp: ring_ok_def)
  show "length (ring_view (ring_pop s)) = length (tl (ring_view s))" by (simp add: ring_view_def u)
  fix i
  assume "i < length (ring_view (ring_pop s))"
  then have i: "Suc i < ring_used s" by (simp add: ring_view_def u)
  have ne: "(rx_head (en s) + Suc i) mod 256 \<noteq> rx_head (en s)"
    using wrap_to_head [OF b, of i] used_less [of s] i by simp
  have r: "results (ring_pop s) = res[rx_head (en s) := result_zero]" "results s = res"
    by (simp_all add: results_def ring_pop_def res)
  have "((rx_head (en s) + 1) mod 256 + i) mod 256 = (rx_head (en s) + Suc i) mod 256"
    unfolding mod256_add by simp
  then show "ring_view (ring_pop s) ! i = tl (ring_view s) ! i"
    using i ne by (simp add: ring_view_def u nth_tl r)
qed

lemma used_pos: "0 < ring_used s \<longleftrightarrow> ring_view s \<noteq> []"
  by (simp add: ring_view_def)

section \<open>First in, first out\<close>

text \<open>
  The interface of a bounded buffer between a producer that appends what has arrived and a consumer
  that takes from the front.
\<close>

locale fifo =
  fixes ok :: "'s \<Rightarrow> bool" and view :: "'s \<Rightarrow> 'a list" and arrived :: "'s \<Rightarrow> 'a list"
    and room :: "'s \<Rightarrow> nat" and fill :: "'s \<Rightarrow> 's" and pop :: "'s \<Rightarrow> 's"
  assumes fill_law: "ok s \<Longrightarrow> length (arrived s) < room s \<Longrightarrow> ok (fill s) \<and> view (fill s) = view s @ arrived s"
    and pop_law: "ok s \<Longrightarrow> view s \<noteq> [] \<Longrightarrow> ok (pop s) \<and> view (pop s) = tl (view s)"
begin

lemma pops: "ok s \<Longrightarrow> n \<le> length (view s) \<Longrightarrow> ok ((pop ^^ n) s) \<and> view ((pop ^^ n) s) = drop n (view s)"
proof (induction n)
  case 0
  then show ?case by simp
next
  case (Suc n)
  then have a: "ok ((pop ^^ n) s)" "view ((pop ^^ n) s) = drop n (view s)" by auto
  then have "view ((pop ^^ n) s) \<noteq> []" using Suc.prems(2) by simp
  from pop_law [OF a(1) this] a(2) show ?case by (simp add: drop_Suc tl_drop)
qed

lemma fill_then_pops:
  assumes "ok s" "length (arrived s) < room s"
  shows "view ((pop ^^ length (view s)) (fill s)) = arrived s"
  using pops [of "fill s" "length (view s)"] fill_law [OF assms] by simp

end

interpretation rx: fifo ring_ok ring_view ring_fresh "\<lambda>s. 256 - ring_used s"
  "\<lambda>s. snd (the (engine_ring_process s))" ring_pop
proof
  fix s
  assume "ring_ok s" "length (ring_fresh s) < 256 - ring_used s"
  then show "ring_ok (snd (the (engine_ring_process s))) \<and>
      ring_view (snd (the (engine_ring_process s))) = ring_view s @ ring_fresh s"
    by (simp add: ring_process_spec ring_view_advance) (simp add: ring_ok_def)
next
  fix s
  assume "ring_ok s" "ring_view s \<noteq> []"
  then show "ring_ok (ring_pop s) \<and> ring_view (ring_pop s) = tl (ring_view s)"
    using ring_pop_ok ring_view_pop used_pos by blast
qed

section \<open>Consuming a packet\<close>

text \<open>A packet: results without a fault, only the last one marked as the end of packet.\<close>

definition packet :: "xdma_result list \<Rightarrow> bool" where
  "packet p \<longleftrightarrow> p \<noteq> [] \<and> (\<forall>r \<in> set p. \<not> result_fault r) \<and> result_eop (last p) \<and>
     (\<forall>r \<in> set (butlast p). \<not> result_eop r)"

lemma head_nonempty:
  assumes "ring_ok s" "ring_view s = r # rest"
  shows "rx_head (en s) \<noteq> rx_tail (en s)" "\<exists>res. rx_result (en s) = Some res \<and> rx_head (en s) < length res \<and> res ! rx_head (en s) = r"
proof -
  have u: "0 < ring_used s" using assms(2) by (simp add: used_pos)
  then have "ring_view s ! 0 = results s ! rx_head (en s)" using assms(1) by (simp add: ring_view_def ring_ok_def)
  with assms show "\<exists>res. rx_result (en s) = Some res \<and> rx_head (en s) < length res \<and> res ! rx_head (en s) = r"
    by (auto simp: ring_ok_def results_def)
  show "rx_head (en s) \<noteq> rx_tail (en s)" using u assms(1) by (auto simp: ring_used_def ring_ok_def)
qed

lemma set_en_eop_view [simp]:
  "ring_view (set_en (\<lambda>e. e\<lparr>eop_found := b\<rparr>) s) = ring_view s" "ring_ok (set_en (\<lambda>e. e\<lparr>eop_found := b\<rparr>) s) = ring_ok s"
  by (simp_all add: ring_view_def results_def ring_used_def ring_ok_def)

lemma complete_loop_packet:
  "ring_ok s \<Longrightarrow> ring_view s = p @ rest \<Longrightarrow> packet p \<Longrightarrow>
   \<exists>s'. complete_loop pl nc s = Some (pl + (\<Sum>r \<leftarrow> p. unat (r_length r)), nc + length p, False, s') \<and>
     ring_ok s' \<and> ring_view s' = rest \<and> eop_found (en s') \<and>
     rx_head (en s') = (rx_head (en s) + length p) mod 256 \<and>
     e_locked (en s') = e_locked (en s) \<and> e_sgdma_regs (en s') = e_sgdma_regs (en s) \<and>
     user_buffer_index (en s') = user_buffer_index (en s) \<and> s_bus s' = s_bus s \<and> heap s' = heap s \<and>
     s_credit_mp s' = s_credit_mp s"
proof (induction p arbitrary: s pl nc)
  case Nil
  then show ?case by (simp add: packet_def)
next
  case (Cons r p)
  obtain res where res: "rx_result (en s) = Some res" "rx_head (en s) < length res" "res ! rx_head (en s) = r"
    and ne: "rx_head (en s) \<noteq> rx_tail (en s)"
    using head_nonempty [of s r "p @ rest"] Cons.prems by auto
  have u: "0 < ring_used s" using Cons.prems(2) by (simp add: used_pos)
  have f: "\<not> result_fault r" using Cons.prems(3) by (simp add: packet_def)
  note pop = ring_pop_ok [OF Cons.prems(1)] ring_view_pop [OF Cons.prems(1) u]
  show ?case
  proof (cases "p = []")
    case True
    then have e: "result_eop r" using Cons.prems(3) by (simp add: packet_def)
    let ?s' = "ring_pop (set_en (\<lambda>e. e\<lparr>eop_found := True\<rparr>) s)"
    have c: "complete_loop pl nc s = Some (pl + unat (r_length r), nc + 1, False, ?s')"
      using res ne f e by (subst complete_loop.simps) (simp add: Let_def)
    have "ring_pop (set_en (\<lambda>e. e\<lparr>eop_found := True\<rparr>) s) = set_en (\<lambda>e. e\<lparr>eop_found := True\<rparr>) (ring_pop s)"
      by (simp add: ring_pop_def set_en_def)
    then show ?thesis using c pop Cons.prems(2) True by simp
  next
    case False
    then have e: "\<not> result_eop r" using Cons.prems(3) by (simp add: packet_def)
    have p: "packet p" using Cons.prems(3) False by (simp add: packet_def)
    have c: "complete_loop pl nc s = complete_loop (pl + unat (r_length r)) (nc + 1) (ring_pop s)"
      using res ne f e by (subst complete_loop.simps) (simp add: Let_def)
    have v: "ring_view (ring_pop s) = p @ rest" using pop(2) Cons.prems(2) by simp
    from Cons.IH [OF pop(1) v p, of "pl + unat (r_length r)" "nc + 1"]
    show ?thesis unfolding c by (auto simp: add.assoc mod256_add)
  qed
qed


text \<open>A fault: the results before it and the faulty one are dropped.\<close>

lemma complete_loop_fault:
  "ring_ok s \<Longrightarrow> ring_view s = q @ f # rest \<Longrightarrow> \<forall>r \<in> set q. \<not> result_fault r \<and> \<not> result_eop r \<Longrightarrow>
   result_fault f \<Longrightarrow>
   \<exists>n c s'. complete_loop pl nc s = Some (n, c, True, s') \<and> ring_ok s' \<and> ring_view s' = rest \<and>
     rx_head (en s') = (rx_head (en s) + length q + 1) mod 256 \<and>
     en s' = (en s)\<lparr>rx_head := rx_head (en s'), rx_result := rx_result (en s')\<rparr> \<and>
     s' = s\<lparr>en := en s'\<rparr>"
proof (induction q arbitrary: s pl nc)
  case Nil
  obtain res where res: "rx_result (en s) = Some res" "rx_head (en s) < length res" "res ! rx_head (en s) = f"
    and ne: "rx_head (en s) \<noteq> rx_tail (en s)"
    using head_nonempty [of s f rest] Nil.prems by auto
  have u: "0 < ring_used s" using Nil.prems(2) by (simp add: used_pos)
  have c: "complete_loop pl nc s = Some (pl, nc, True, ring_pop s)"
    using res ne Nil.prems(4) by (subst complete_loop.simps) (simp add: Let_def)
  show ?case using c ring_pop_ok [OF Nil.prems(1)] ring_view_pop [OF Nil.prems(1) u] Nil.prems(2)
    by (simp add: ring_pop_def set_en_def RX_BUF_PAGES_def)
next
  case (Cons r q)
  obtain res where res: "rx_result (en s) = Some res" "rx_head (en s) < length res" "res ! rx_head (en s) = r"
    and ne: "rx_head (en s) \<noteq> rx_tail (en s)"
    using head_nonempty [of s r "q @ f # rest"] Cons.prems by auto
  have u: "0 < ring_used s" using Cons.prems(2) by (simp add: used_pos)
  have v: "ring_view (ring_pop s) = q @ f # rest" using ring_view_pop [OF Cons.prems(1) u] Cons.prems(2) by simp
  have c: "complete_loop pl nc s = complete_loop (pl + unat (r_length r)) (nc + 1) (ring_pop s)"
    using res ne Cons.prems(3) by (subst complete_loop.simps) (simp add: Let_def)
  obtain n c' s' where s': "complete_loop (pl + unat (r_length r)) (nc + 1) (ring_pop s) = Some (n, c', True, s')"
    "ring_ok s'" "ring_view s' = rest"
    "rx_head (en s') = (rx_head (en (ring_pop s)) + length q + 1) mod 256"
    "en s' = (en (ring_pop s))\<lparr>rx_head := rx_head (en s'), rx_result := rx_result (en s')\<rparr>"
    "s' = (ring_pop s)\<lparr>en := en s'\<rparr>"
    using Cons.IH [OF ring_pop_ok [OF Cons.prems(1)] v, of "pl + unat (r_length r)" "nc + 1"] Cons.prems by auto
  have "en s' = (en s)\<lparr>rx_head := rx_head (en s'), rx_result := rx_result (en s')\<rparr>"
    by (subst s'(5)) (simp add: ring_pop_def)
  moreover have "s' = s\<lparr>en := en s'\<rparr>" by (subst s'(6)) (simp add: ring_pop_def set_en_def)
  moreover have "rx_head (en s') = (rx_head (en s) + length (r # q) + 1) mod 256"
    unfolding s'(4) using mod256_add [of "rx_head (en s) + 1" "length q + 1"] by simp
  ultimately show ?case unfolding c using s'(1-3) by blast
qed

section \<open>Copying a packet\<close>

text \<open>The copies of the results of a packet: to the offset \<open>u\<close> from block \<open>h\<close> on.\<close>

fun packet_copies :: "u32 \<Rightarrow> nat \<Rightarrow> nat list \<Rightarrow> copy list" where
  "packet_copies u h [] = []"
| "packet_copies u h (n # ns) = (u, h, n) # packet_copies (u + of_nat n) ((h + 1) mod 256) ns"

lemma copy_loop_step:
  assumes "cp = (\<lambda>_ _ _. 0)" "r \<noteq> 0" "(if r > RX_BUF_BLOCK then RX_BUF_BLOCK else r) = n"
  shows "copy_loop cp r h log s = copy_loop cp (r - n) ((h + 1) mod 256)
     (log @ [(user_buffer_index (en s), h, n)])
     (set_en (\<lambda>e. e\<lparr>user_buffer_index := user_buffer_index e + of_nat n\<rparr>) s)"
  by (subst copy_loop.simps) (simp only: assms Let_def if_False simp_thms RX_BUF_PAGES_def)

lemma copy_loop_packet:
  assumes "cp = (\<lambda>_ _ _. 0)"
  shows "\<forall>n \<in> set ns. 0 < n \<and> n \<le> 4096 \<Longrightarrow> \<forall>n \<in> set (butlast ns). n = 4096 \<Longrightarrow>
   copy_loop cp (sum_list ns) h log s = (None, log @ packet_copies (user_buffer_index (en s)) h ns,
     set_en (\<lambda>e. e\<lparr>user_buffer_index := user_buffer_index e + of_nat (sum_list ns)\<rparr>) s)"
proof (induction ns arbitrary: h log s)
  case Nil
  show ?case by (subst copy_loop.simps) (simp add: set_en_def)
next
  case (Cons n ns)
  have c: "(if sum_list (n # ns) > RX_BUF_BLOCK then RX_BUF_BLOCK else sum_list (n # ns)) = n"
  proof (cases "ns = []")
    case True
    then show ?thesis using Cons.prems by (simp add: RX_BUF_BLOCK_def)
  next
    case False
    then have "0 < sum_list ns" using Cons.prems(1) by (cases ns) auto
    then show ?thesis using Cons.prems False by (simp add: RX_BUF_BLOCK_def)
  qed
  have IH: "copy_loop cp (sum_list ns) h' log' s' = (None, log' @ packet_copies (user_buffer_index (en s')) h' ns,
     set_en (\<lambda>e. e\<lparr>user_buffer_index := user_buffer_index e + of_nat (sum_list ns)\<rparr>) s')" for h' log' s'
    using Cons.prems by (intro Cons.IH) (auto split: if_splits)
  have nz: "sum_list (n # ns) \<noteq> 0" using Cons.prems by simp
  have "copy_loop cp (sum_list (n # ns)) h log s = copy_loop cp (sum_list (n # ns) - n) ((h + 1) mod 256)
      (log @ [(user_buffer_index (en s), h, n)])
      (set_en (\<lambda>e. e\<lparr>user_buffer_index := user_buffer_index e + of_nat n\<rparr>) s)"
    by (rule copy_loop_step [OF assms nz c])
  then show ?case by (simp add: IH set_en_def add.assoc)
qed

lemma copy_packet:
  assumes "cp = (\<lambda>_ _ _. 0)" "packet p" "\<forall>r \<in> set (butlast p). r_length r = 4096"
  shows "copy_cyclic_to_user cp (\<Sum>r \<leftarrow> p. unat (r_length r)) h s =
     (int (\<Sum>r \<leftarrow> p. unat (r_length r)), packet_copies (user_buffer_index (en s)) h (map (\<lambda>r. unat (r_length r)) p),
      set_en (\<lambda>e. e\<lparr>user_buffer_index := user_buffer_index e + of_nat (\<Sum>r \<leftarrow> p. unat (r_length r))\<rparr>) s)"
proof -
  let ?ns = "map (\<lambda>r. unat (r_length r)) p"
  have "0 < unat (r_length r) \<and> unat (r_length r) \<le> 4096" if "r \<in> set p" for r
  proof -
    have "\<not> result_fault r" using assms(2) that by (simp add: packet_def)
    then have "r_length r \<noteq> 0" "r_length r \<le> 4096"
      by (simp_all add: result_fault_def RX_BUF_BLOCK_def not_less)
    then show ?thesis by (simp add: word_le_nat_alt unat_gt_0)
  qed
  then have a: "\<forall>n \<in> set ?ns. 0 < n \<and> n \<le> 4096" by auto
  have "\<forall>n \<in> set (butlast ?ns). n = 4096" using assms(3) by (simp add: map_butlast [symmetric])
  from copy_loop_packet [OF assms(1) a this, of h "[]" s] show ?thesis
    by (simp add: copy_cyclic_to_user_def)
qed

lemma packet_length_pos:
  assumes "packet p"
  shows "0 < (\<Sum>r \<leftarrow> p. unat (r_length r))"
proof -
  obtain r q where p: "p = r # q" using assms by (cases p) (auto simp: packet_def)
  then have "\<not> result_fault r" using assms by (simp add: packet_def)
  then have "r_length r \<noteq> 0" by (simp add: result_fault_def)
  then show ?thesis using p by (simp add: unat_gt_0)
qed

lemma complete_packet_spec:
  assumes "ring_ok s" "ring_view s = p @ rest" "packet p" "\<forall>r \<in> set (butlast p). r_length r = 4096"
    and "cp = (\<lambda>_ _ _. 0)" "\<not> e_locked (en s)"
  shows "\<exists>s'. complete_cyclic cp s = Some (int (\<Sum>r \<leftarrow> p. unat (r_length r)),
      packet_copies (user_buffer_index (en s)) (rx_head (en s)) (map (\<lambda>r. unat (r_length r)) p), s') \<and>
    s_credit_mp s' = s_credit_mp s \<and> ring_ok s' \<and> ring_view s' = rest \<and> eop_found (en s') \<and> \<not> e_locked (en s') \<and>
    user_buffer_index (en s') = user_buffer_index (en s) + of_nat (\<Sum>r \<leftarrow> p. unat (r_length r)) \<and>
    writes (s_bus s') = writes (s_bus s) @ [(sreg (e_sgdma_regs (en s)) S_credits, of_nat (length p))]"
proof -
  let ?l = "set_en (\<lambda>e. e\<lparr>e_locked := True\<rparr>) s"
  have l: "ring_ok ?l" "ring_view ?l = p @ rest" using assms(1,2)
    by (simp_all add: ring_ok_def ring_view_def results_def ring_used_def)
  obtain s1 where s1: "complete_loop 0 0 ?l = Some (\<Sum>r \<leftarrow> p. unat (r_length r), length p, False, s1)"
    "ring_ok s1" "ring_view s1 = rest" "eop_found (en s1)" "user_buffer_index (en s1) = user_buffer_index (en s)"
    "e_sgdma_regs (en s1) = e_sgdma_regs (en s)" "s_bus s1 = s_bus s"
    "s_credit_mp s1 = s_credit_mp s"
    using complete_loop_packet [OF l assms(3), of 0 0] by auto
  define n where "n = (\<Sum>r \<leftarrow> p. unat (r_length r))"
  have n: "0 < n" unfolding n_def by (rule packet_length_pos [OF assms(3)])
  obtain res where res: "rx_result (en s) = Some res" using assms(1) by (auto simp: ring_ok_def)
  let ?s' = "wr (of_nat (length p)) (sreg (e_sgdma_regs (en s)) S_credits)
    (set_en (\<lambda>e. e\<lparr>rx_overrun := False\<rparr>) (set_en (\<lambda>e. e\<lparr>user_buffer_index := user_buffer_index e + of_nat n\<rparr>)
      (unlock_engine s1)))"
  have "complete_cyclic cp s = Some (int n,
      packet_copies (user_buffer_index (en s)) (rx_head (en s)) (map (\<lambda>r. unat (r_length r)) p), ?s')"
    using s1(1,5,6) n assms(6) res copy_packet [OF assms(5,3,4), of "rx_head (en s)" "unlock_engine s1"]
    unfolding n_def [symmetric] by (simp add: complete_cyclic_def lock_engine_def Let_def)
  moreover have "ring_ok ?s'" "ring_view ?s' = rest" using s1(2,3)
    by (simp_all add: ring_ok_def ring_view_def results_def ring_used_def)
  ultimately show ?thesis unfolding n_def [symmetric] using s1(4-8) by (intro exI [of _ ?s']) simp
qed

section \<open>Properties\<close>

text \<open>A ring of 256 results that starts with those the driver has seen and those it has not.\<close>

definition demo_ring :: "xdma_result list \<Rightarrow> xdma_result list \<Rightarrow> est" where
  "demo_ring p q = set_en (\<lambda>e. e\<lparr>rx_result := Some (p @ q @ replicate (256 - length p - length q) result_zero),
     rx_tail := length p, rx_cyclic := Some 7, e_streaming := True, e_dir_to_dev := False\<rparr>)
     (demo_est (\<lambda>_ _. 0)\<lparr>s_credit_mp := 1\<rparr>)"

definition demo_result :: "u32 \<Rightarrow> u32 \<Rightarrow> xdma_result" where
  "demo_result st len = \<lparr>r_status = st, r_length = len\<rparr>"

lemma demo_ring_sel:
  "rx_head (en (demo_ring p q)) = 0" "rx_tail (en (demo_ring p q)) = length p" "\<not> e_locked (en (demo_ring p q))"
  "user_buffer_index (en (demo_ring p q)) = 0" "\<not> rx_overrun (en (demo_ring p q))"
  "rx_result (en (demo_ring p q)) = Some (p @ q @ replicate (256 - length p - length q) result_zero)"
  "s_credit_mp (demo_ring p q) = 1" "\<not> s_poll_mode (demo_ring p q)" "e_magic (en (demo_ring p q)) = MAGIC_ENGINE"
  "rx_cyclic (en (demo_ring p q)) = Some 7" "\<not> eop_found (en (demo_ring p q))"
  "e_streaming (en (demo_ring p q))" "\<not> e_dir_to_dev (en (demo_ring p q))"
  by (simp_all add: demo_ring_def demo_est_def demo_engine_def)

lemma demo_ring_ok: "length p + length q < 256 \<Longrightarrow> ring_ok (demo_ring p q)"
  by (simp add: ring_ok_def demo_ring_sel)

lemma demo_ring_used: "length p + length q < 256 \<Longrightarrow> ring_used (demo_ring p q) = length p"
  by (simp add: ring_used_def demo_ring_sel)

lemma demo_ring_view: "length p + length q < 256 \<Longrightarrow> ring_view (demo_ring p q) = p"
  by (rule nth_equalityI) (auto simp: ring_view_def demo_ring_used results_def demo_ring_sel nth_append)

lemma demo_ring_fresh:
  assumes "length p + length q < 256" "\<forall>r \<in> set q. r_status r \<noteq> 0"
  shows "ring_fresh (demo_ring p q) = q"
proof -
  have "map (\<lambda>i. results (demo_ring p q) ! ((rx_tail (en (demo_ring p q)) + i) mod 256)) [0..<256 - ring_used (demo_ring p q)] =
      q @ replicate (256 - length p - length q) result_zero"
    using assms(1)
    by (intro nth_equalityI) (auto simp: demo_ring_used demo_ring_sel results_def nth_append)
  moreover have "takeWhile (\<lambda>r. r_status r \<noteq> 0) (replicate (256 - length p - length q) result_zero) = []"
    by (cases "256 - length p - length q") (simp_all add: result_zero_def)
  ultimately show ?thesis using assms(2) by (simp add: ring_fresh_def takeWhile_append2)
qed

text \<open>
  C12: servicing the receive ring ends for every content of the result buffer, and moves the tail
  over exactly the results the device has written since: with room left, the results between head
  and tail grow by those at the end, in the order of the blocks, and consuming the old ones leaves
  the new ones; when the device has filled the whole ring, the overrun flag is set. The head and
  the results are not touched, and the number of ends of packet among the new results is returned.
\<close>

theorem engine_ring_process_fifo:
  assumes "ring_ok s"
  shows "\<exists>s'. engine_ring_process s = Some (length (filter result_eop (ring_fresh s)), s') \<and>
    rx_head (en s') = rx_head (en s) \<and> rx_result (en s') = rx_result (en s) \<and> rx_tail (en s') < 256 \<and>
    (if length (ring_fresh s) < 256 - ring_used s
     then ring_ok s' \<and> ring_view s' = ring_view s @ ring_fresh s \<and>
          ring_view ((ring_pop ^^ length (ring_view s)) s') = ring_fresh s
     else rx_overrun (en s'))"
proof -
  let ?s' = "snd (the (engine_ring_process s))"
  have e: "engine_ring_process s = Some (length (filter result_eop (ring_fresh s)), ?s')"
    "?s' = ring_advance (length (ring_fresh s)) s"
    using ring_process_spec [OF assms] by simp_all
  have "if length (ring_fresh s) < 256 - ring_used s
     then ring_ok ?s' \<and> ring_view ?s' = ring_view s @ ring_fresh s \<and>
          ring_view ((ring_pop ^^ length (ring_view s)) ?s') = ring_fresh s
     else rx_overrun (en ?s')"
    using rx.fill_law [OF assms] rx.fill_then_pops [OF assms] fresh_le [of s] e(2) by auto
  then show ?thesis using e by (intro exI [of _ ?s'] conjI) simp_all
qed

theorem engine_ring_process_fifo_witness:
  "\<exists>s'. engine_ring_process (demo_ring [demo_result 0x52B40000 4096] [demo_result 0x52B40001 64]) = Some (1, s') \<and>
     ring_view s' = [demo_result 0x52B40000 4096, demo_result 0x52B40001 64]"
  using engine_ring_process_fifo [OF demo_ring_ok, of "[demo_result 0x52B40000 4096]" "[demo_result 0x52B40001 64]"]
  by (auto simp: demo_ring_fresh demo_ring_view demo_ring_used result_eop_def demo_result_def RX_STATUS_EOP_def)

text \<open>
  C11: reading a packet off the receive ring. When the results from the head on start with a packet
  (no fault, all blocks but the last one full, the last one marked as the end of packet), it is
  consumed and nothing behind it: its bytes are copied block by block to consecutive offsets of the
  user buffer, its length is returned, and as many credits as it took blocks are given back to the
  device.
\<close>

theorem complete_cyclic_packet:
  assumes "ring_ok s" "ring_view s = p @ rest" "packet p" "\<forall>r \<in> set (butlast p). r_length r = 4096"
    and "cp = (\<lambda>_ _ _. 0)" "\<not> e_locked (en s)"
  shows "\<exists>s'. complete_cyclic cp s = Some (int (\<Sum>r \<leftarrow> p. unat (r_length r)),
      packet_copies (user_buffer_index (en s)) (rx_head (en s)) (map (\<lambda>r. unat (r_length r)) p), s') \<and>
    ring_ok s' \<and> ring_view s' = rest \<and> eop_found (en s') \<and> \<not> e_locked (en s') \<and>
    user_buffer_index (en s') = user_buffer_index (en s) + of_nat (\<Sum>r \<leftarrow> p. unat (r_length r)) \<and>
    writes (s_bus s') = writes (s_bus s) @ [(sreg (e_sgdma_regs (en s)) S_credits, of_nat (length p))]"
  using complete_packet_spec [OF assms] by blast

theorem complete_cyclic_packet_witness:
  "\<exists>s'. complete_cyclic (\<lambda>_ _ _. 0) (demo_ring [demo_result 0x52B40000 4096, demo_result 0x52B40001 64] []) =
     Some (4160, [(0, 0, 4096), (4096, 1, 64)], s') \<and> ring_view s' = []"
proof -
  let ?p = "[demo_result 0x52B40000 4096, demo_result 0x52B40001 64]"
  have "packet ?p"
    by (simp add: packet_def demo_result_def result_fault_def result_eop_def C2H_WB_def RX_BUF_BLOCK_def RX_STATUS_EOP_def)
  from complete_cyclic_packet [OF demo_ring_ok, of ?p "[]" ?p "[]", OF _ _ this] show ?thesis
    by (auto simp: demo_ring_view demo_result_def demo_ring_sel)
qed

text \<open>A reader in credit mode does not wait when there are results.\<close>

definition no_wait :: "reader_env \<Rightarrow> bool" where
  "no_wait E \<longleftrightarrow> (\<forall>c s. c s \<longrightarrow> w_wait E c s = (0, s)) \<and> w_copy E = (\<lambda>_ _ _. 0)"

definition reading :: "est \<Rightarrow> bool" where
  "reading s \<longleftrightarrow> ring_ok s \<and> \<not> s_poll_mode s \<and> s_credit_mp s \<noteq> 0 \<and> \<not> e_locked (en s)"

lemma monitor_ready:
  assumes "no_wait E" "reading s" "ring_view s = r # v" "r_status r \<noteq> 0"
  shows "transfer_monitor_cyclic E s = Some (0, s)"
proof -
  have ok: "ring_ok s" using assms(2) by (simp add: reading_def)
  note h = head_nonempty [OF ok assms(3)]
  have "w_wait E (\<lambda>s. rx_head (en s) \<noteq> rx_tail (en s) \<or> rx_overrun (en s)) s = (0, s)"
    using assms(1) h(1) by (simp add: no_wait_def)
  then have "monitor_cyclic_round E s = Some (0, s)" using assms(2) by (simp add: monitor_cyclic_round_def reading_def)
  then have "monitor_cyclic_loop E 0 s = Some (0, s)" using h(2) assms(4) by (subst monitor_cyclic_loop.simps) auto
  then show ?thesis using h(2) by (auto simp: transfer_monitor_cyclic_def)
qed

lemma packet_status:
  assumes "packet p"
  obtains r v where "p = r # v" "r_status r \<noteq> 0"
proof (cases p)
  case Nil
  then show ?thesis using assms by (simp add: packet_def)
next
  case (Cons r v)
  then have "\<not> result_fault r" using assms by (simp add: packet_def)
  then have "r_status r \<noteq> 0" by (auto simp: result_fault_def C2H_WB_def)
  with Cons that show ?thesis by blast
qed

lemma complete_cyclic_fault:
  assumes "ring_ok s" "ring_view s = q @ f # rest" "\<forall>r \<in> set q. \<not> result_fault r \<and> \<not> result_eop r" "result_fault f"
    and "\<not> e_locked (en s)"
  shows "\<exists>s'. complete_cyclic cp s = Some (- EIO, [], s') \<and> ring_ok s' \<and> ring_view s' = rest \<and>
    rx_head (en s') = (rx_head (en s) + length q + 1) mod 256 \<and>
    en s' = (en s)\<lparr>rx_head := rx_head (en s'), rx_result := rx_result (en s')\<rparr> \<and> s' = s\<lparr>en := en s'\<rparr>"
proof -
  let ?l = "set_en (\<lambda>e. e\<lparr>e_locked := True\<rparr>) s"
  have l: "ring_ok ?l" "ring_view ?l = q @ f # rest" using assms(1,2)
    by (simp_all add: ring_ok_def ring_view_def results_def ring_used_def)
  obtain n c s1 where s1: "complete_loop 0 0 ?l = Some (n, c, True, s1)" "ring_ok s1" "ring_view s1 = rest"
    "rx_head (en s1) = (rx_head (en ?l) + length q + 1) mod 256"
    "en s1 = (en ?l)\<lparr>rx_head := rx_head (en s1), rx_result := rx_result (en s1)\<rparr>" "s1 = ?l\<lparr>en := en s1\<rparr>"
    using complete_loop_fault [OF l assms(3,4), of 0 0] by blast
  obtain res where res: "rx_result (en s) = Some res" using assms(1) by (auto simp: ring_ok_def)
  have "complete_cyclic cp s = Some (- EIO, [], unlock_engine s1)"
    using s1(1) res assms(5) by (simp add: complete_cyclic_def lock_engine_def)
  moreover have "ring_ok (unlock_engine s1)" "ring_view (unlock_engine s1) = rest" using s1(2,3)
    by (simp_all add: ring_ok_def ring_view_def results_def ring_used_def)
  moreover have "en (unlock_engine s1) = (en s)\<lparr>rx_head := rx_head (en (unlock_engine s1)), rx_result := rx_result (en (unlock_engine s1))\<rparr>"
    using assms(5) by (subst unlock_sel(1), subst s1(5)) simp
  moreover have "unlock_engine s1 = s\<lparr>en := en (unlock_engine s1)\<rparr>"
    by (subst s1(6)) (simp add: unlock_engine_def set_en_def)
  moreover have "rx_head (en (unlock_engine s1)) = (rx_head (en s) + length q + 1) mod 256" using s1(4) by simp
  ultimately show ?thesis by blast
qed

text \<open>
  A faulty result is lost to the reader. When the packet in front of the reader is cut by a
  faulty result, \<open>complete_cyclic\<close> drops it and returns \<open>-EIO\<close>; \<open>char_sgdma_read_cyclic\<close> adds that
  error code to the number of bytes read, goes on with the next packet, and returns the length
  of that one less 5, although all its bytes were copied.
\<close>

theorem read_cyclic_fault_swallowed:
  assumes "no_wait E" "reading s" "e_magic (en s) = MAGIC_ENGINE" "rx_cyclic (en s) = Some t" "\<not> eop_found (en s)"
    and "ring_view s = q @ f # p @ rest" "r_status (hd (q @ [f])) \<noteq> 0"
    and "\<forall>r \<in> set q. \<not> result_fault r \<and> \<not> result_eop r" "result_fault f"
    and "packet p" "\<forall>r \<in> set (butlast p). r_length r = 4096"
  shows "\<exists>s'. char_sgdma_read_cyclic E s = Some (int (\<Sum>r \<leftarrow> p. unat (r_length r)) - 5,
      packet_copies (user_buffer_index (en s)) ((rx_head (en s) + length q + 1) mod 256) (map (\<lambda>r. unat (r_length r)) p), s') \<and>
    ring_view s' = rest \<and> \<not> eop_found (en s')"
proof -
  define n where "n = (\<Sum>r \<leftarrow> p. unat (r_length r))"
  have cp: "w_copy E = (\<lambda>_ _ _. 0)" using assms(1) by (simp add: no_wait_def)
  have rd: "ring_ok s" "\<not> e_locked (en s)" using assms(2) by (simp_all add: reading_def)
  have m1: "transfer_monitor_cyclic E s = Some (0, s)"
    using assms(6,7) by (intro monitor_ready [OF assms(1,2), of "hd (q @ [f])" "tl (q @ f # p @ rest)"]) (cases q; simp)+
  obtain s1 where s1: "complete_cyclic (w_copy E) s = Some (- EIO, [], s1)" "ring_ok s1" "ring_view s1 = p @ rest"
    "rx_head (en s1) = (rx_head (en s) + length q + 1) mod 256"
    "en s1 = (en s)\<lparr>rx_head := rx_head (en s1), rx_result := rx_result (en s1)\<rparr>" "s1 = s\<lparr>en := en s1\<rparr>"
    using complete_cyclic_fault [OF rd(1) assms(6,8,9) rd(2)] by blast
  have f: "\<not> eop_found (en s1)" "user_buffer_index (en s1) = user_buffer_index (en s)" "\<not> e_locked (en s1)"
    by (subst s1(5), use assms(5) rd(2) in simp)+
  have c: "s_poll_mode s1 = s_poll_mode s" "s_credit_mp s1 = s_credit_mp s" by (subst s1(6), simp)+
  have rd1: "reading s1" using assms(2) s1(2) f(3) c by (simp add: reading_def)
  obtain r v where pv: "p = r # v" "r_status r \<noteq> 0" by (rule packet_status [OF assms(10)])
  have m2: "transfer_monitor_cyclic E s1 = Some (0, s1)"
    using s1(3) pv by (intro monitor_ready [OF assms(1) rd1, of r "v @ rest"]) simp_all
  obtain s2 where s2: "complete_cyclic (w_copy E) s1 = Some (int n,
      packet_copies (user_buffer_index (en s)) (rx_head (en s1)) (map (\<lambda>r. unat (r_length r)) p), s2)"
    "ring_view s2 = rest" "eop_found (en s2)" "s_credit_mp s2 = s_credit_mp s1"
    using complete_packet_spec [OF s1(2,3) assms(10,11) cp f(3)] f(2) unfolding n_def by auto
  let ?s3 = "set_en (\<lambda>e. e\<lparr>eop_found := False\<rparr>) s2"
  have "s_credit_mp s2 \<noteq> 0" using assms(2) s2(4) c by (simp add: reading_def)
  then have "char_sgdma_read_cyclic E s = Some (int n - 5,
      packet_copies (user_buffer_index (en s)) (rx_head (en s1)) (map (\<lambda>r. unat (r_length r)) p), ?s3)"
    using assms(3,4) m1 s1(1) f(1) m2 s2(1,3)
    by (simp add: char_sgdma_read_cyclic_def) (subst read_cyclic_loop.simps, simp, subst read_cyclic_loop.simps, simp add: EIO_def)
  then show ?thesis unfolding n_def [symmetric] s1(4) using s2(2) by (intro exI [of _ ?s3]) simp
qed

definition demo_reader :: reader_env where
  "demo_reader = \<lparr>w_wait = (\<lambda>c s. if c s then (0, s) else (- ERESTARTSYS, s)), w_obs = (\<lambda>_. []), w_copy = (\<lambda>_ _ _. 0)\<rparr>"

theorem read_cyclic_fault_swallowed_witness:
  "\<exists>s'. char_sgdma_read_cyclic demo_reader (demo_ring [demo_result 1 4096, demo_result 0x52B40001 64] []) =
     Some (59, [(0, 1, 64)], s') \<and> ring_view s' = []"
proof -
  let ?p = "[demo_result 0x52B40001 64]" and ?f = "demo_result 1 4096"
  have p: "packet ?p" "result_fault ?f"
    by (simp_all add: packet_def demo_result_def result_fault_def result_eop_def C2H_WB_def RX_BUF_BLOCK_def RX_STATUS_EOP_def)
  have "no_wait demo_reader" by (simp add: no_wait_def demo_reader_def)
  moreover have "reading (demo_ring [?f, demo_result 0x52B40001 64] [])" by (simp add: reading_def demo_ring_ok demo_ring_sel)
  ultimately show ?thesis
    using read_cyclic_fault_swallowed [of demo_reader "demo_ring [?f, demo_result 0x52B40001 64] []" 7 "[]" ?f ?p "[]", OF _ _ _ _ _ _ _ _ p(2,1)]
    by (auto simp: demo_ring_view demo_result_def demo_ring_sel)
qed

section \<open>The ring of descriptors\<close>

lemma result_loop_spec:
  "i + k \<le> length ds \<Longrightarrow> \<exists>ds'. result_loop k i rb ds = Some ds' \<and> length ds' = length ds \<and>
     (\<forall>m. ds' ! m = (if i \<le> m \<and> m < i + k then xdma_desc_set_source (ds ! m) (rb + of_nat (32 * (m - i))) else ds ! m))"
proof (induction k arbitrary: i rb ds)
  case 0
  then show ?case by (intro exI [of _ ds]) auto
next
  case (Suc k)
  let ?ds = "ds[i := xdma_desc_set_source (ds ! i) rb]"
  have "Suc i + k \<le> length ?ds" using Suc.prems by simp
  from Suc.IH [OF this, of "rb + 32"] obtain ds' where r: "result_loop k (Suc i) (rb + 32) ?ds = Some ds'"
    "length ds' = length ds"
    "\<And>m. ds' ! m = (if Suc i \<le> m \<and> m < Suc i + k
       then xdma_desc_set_source (?ds ! m) (rb + 32 + of_nat (32 * (m - Suc i))) else ?ds ! m)" by auto
  have "ds' ! m = (if i \<le> m \<and> m < i + Suc k then xdma_desc_set_source (ds ! m) (rb + of_nat (32 * (m - i))) else ds ! m)" for m
  proof (cases "Suc i \<le> m \<and> m < Suc i + k")
    case True
    then obtain d where m: "m = Suc i + d" using le_Suc_ex by blast
    then have "rb + 32 + of_nat (32 * (m - Suc i)) = rb + of_nat (32 * (m - i))" by simp
    then show ?thesis using True r(3) [of m] by simp
  next
    case False
    then show ?thesis using r(3) [of m] Suc.prems by (cases "m = i") auto
  qed
  then show ?case using r(1,2) Suc.prems by auto
qed

lemma control_loop_spec:
  assumes "ctl_field c"
  shows "i + k \<le> length ds \<Longrightarrow> \<exists>ds'. control_loop k i c ds = Some ds' \<and> length ds' = length ds \<and>
     (\<forall>m. if i \<le> m \<and> m < i + k then desc_frame (ds ! m) (ds' ! m) \<and> desc_ctl (ds' ! m) = c else ds' ! m = ds ! m)"
proof (induction k arbitrary: i ds)
  case 0
  then show ?case by (intro exI [of _ ds]) auto
next
  case (Suc k)
  have cf: "ctl_field LS_BYTE_MASK" by (simp add: ctl_field_def LS_BYTE_MASK_def)
  obtain d1 where d1: "xdma_desc_control_clear (ds ! i) LS_BYTE_MASK = Some d1" "desc_frame (ds ! i) d1"
    "desc_ctl d1 = desc_ctl (ds ! i) AND NOT LS_BYTE_MASK"
    using ce_clear.edit_field [OF cf] by blast
  obtain d2 where d2: "xdma_desc_control_set d1 c = Some d2" "desc_frame d1 d2" "desc_ctl d2 = desc_ctl d1 OR c"
    using ce_set.edit_field [OF assms] by blast
  have "LS_BYTE_MASK = mask 8" by (simp add: LS_BYTE_MASK_def mask_eq_exp_minus_1)
  then have z: "desc_ctl (ds ! i) AND NOT LS_BYTE_MASK = 0"
    by (simp add: desc_ctl_def bit_eq_iff bit_simps)
  let ?ds = "ds[i := d2]"
  have "Suc i + k \<le> length ?ds" using Suc.prems by simp
  from Suc.IH [OF this] obtain ds' where r: "control_loop k (Suc i) c ?ds = Some ds'" "length ds' = length ds"
    "\<And>m. if Suc i \<le> m \<and> m < Suc i + k then desc_frame (?ds ! m) (ds' ! m) \<and> desc_ctl (ds' ! m) = c else ds' ! m = ?ds ! m"
    by auto
  have "if i \<le> m \<and> m < i + Suc k then desc_frame (ds ! m) (ds' ! m) \<and> desc_ctl (ds' ! m) = c else ds' ! m = ds ! m" for m
    using r(3) [of m] Suc.prems desc_frame_trans [OF d1(2) d2(2)] d2(3) d1(3) z
    by (cases "m = i") (auto split: if_splits)
  moreover have "control_loop (Suc k) i c ds = Some ds'"
    using Suc.prems d1(1) d2(1) r(1) by (simp add: at_index_def)
  ultimately show ?case using r(2) by blast
qed

text \<open>
  A ring of \<open>n\<close> descriptors at \<open>b\<close>: each takes what the device received to a segment, its result
  goes to its entry of the result buffer, and the last one links back to the first.
\<close>

definition desc_ring :: "u64 \<Rightarrow> u64 \<Rightarrow> (u64 \<times> u32) list \<Rightarrow> xdma_desc list \<Rightarrow> bool" where
  "desc_ring b rb sg ds \<longleftrightarrow> length ds = length sg \<and> (\<forall>m < length sg.
     desc_dst (ds ! m) = fst (sg ! m) \<and> d_bytes (ds ! m) = snd (sg ! m) \<and>
     desc_src (ds ! m) = rb + of_nat (32 * m) \<and> desc_ctl (ds ! m) = cyclic_control \<and>
     desc_magic_ok (ds ! m) \<and> desc_next (ds ! m) = (if Suc m < length sg then b + of_nat (32 * Suc m) else b))"

lemma cyclic_control_field: "ctl_field cyclic_control"
  by (simp add: ctl_field_def cyclic_control_def bits)

lemma make_cyclic:
  assumes "transfer_ok K False False True False start cnt 0 x"
  shows "\<exists>x1 x2 x3. transfer_set_result_addresses x rb = Some x1 \<and>
    transfer_set_all_control x1 cyclic_control = Some x2 \<and> xdma_transfer_cyclic x2 = Some x3 \<and>
    x3 = x\<lparr>desc_virt := desc_virt x3, t_cyclic := True\<rparr> \<and> desc_num x = length (t_dma x) \<and>
    desc_ring (desc_bus x) rb (t_dma x) (desc_virt x3)"
proof -
  let ?ds = "desc_virt x" and ?n = "length (t_dma x)" and ?b = "desc_bus x"
  obtain bl where t: "length ?ds = ?n" "bl \<noteq> []" "desc_num x = length bl" "map seg_of bl = t_dma x"
    "\<And>m. m < length bl \<Longrightarrow> final_desc False ?b (length bl) m (bl ! m) (?ds ! m)"
    using assms unfolding transfer_ok_def by auto
  have n: "length bl = ?n" using t(4) by (metis length_map)
  then have n0: "0 < ?n" "desc_num x = ?n" using t(2,3) by auto
  obtain ds1 where r: "result_loop ?n 0 rb ?ds = Some ds1" "length ds1 = ?n"
    "\<And>m. m < ?n \<Longrightarrow> ds1 ! m = xdma_desc_set_source (?ds ! m) (rb + of_nat (32 * m))"
    using result_loop_spec [of 0 ?n ?ds rb] t(1) by auto
  obtain ds2 where c: "control_loop ?n 0 cyclic_control ds1 = Some ds2" "length ds2 = ?n"
    "\<And>m. m < ?n \<Longrightarrow> desc_frame (ds1 ! m) (ds2 ! m) \<and> desc_ctl (ds2 ! m) = cyclic_control"
    using control_loop_spec [OF cyclic_control_field, of 0 ?n ds1] r(2) by fastforce
  let ?ds3 = "ds2[?n - 1 := xdma_desc_link (ds2 ! (?n - 1)) (Some ?b)]"
  let ?x1 = "x\<lparr>desc_virt := ds1\<rparr>" and ?x2 = "x\<lparr>desc_virt := ds2\<rparr>" and ?x3 = "x\<lparr>desc_virt := ?ds3, t_cyclic := True\<rparr>"
  have "transfer_set_result_addresses x rb = Some ?x1" "transfer_set_all_control ?x1 cyclic_control = Some ?x2"
    "xdma_transfer_cyclic ?x2 = Some ?x3"
    using r(1) c(1,2) n0
    by (simp_all add: transfer_set_result_addresses_def transfer_set_all_control_def xdma_transfer_cyclic_def)
  moreover have "desc_ring ?b rb (t_dma x) ?ds3"
  proof -
    have "desc_dst (?ds3 ! m) = fst (t_dma x ! m) \<and> d_bytes (?ds3 ! m) = snd (t_dma x ! m) \<and>
     desc_src (?ds3 ! m) = rb + of_nat (32 * m) \<and> desc_ctl (?ds3 ! m) = cyclic_control \<and>
     desc_magic_ok (?ds3 ! m) \<and> desc_next (?ds3 ! m) = (if Suc m < ?n then ?b + of_nat (32 * Suc m) else ?b)"
      if m: "m < ?n" for m
    proof -
      have f: "desc_dst (?ds ! m) = fst (bl ! m)" "d_bytes (?ds ! m) = snd (snd (bl ! m))" "desc_magic_ok (?ds ! m)"
        "Suc m < ?n \<longrightarrow> desc_next (?ds ! m) = ?b + of_nat (32 * Suc m)"
        using t(5) [of m] m n by (auto simp: final_desc_def desc_host_def)
      have sg: "t_dma x ! m = (fst (bl ! m), snd (snd (bl ! m)))"
        unfolding t(4) [symmetric] using m n by (simp add: seg_of_def)
      have e: "desc_dst (ds2 ! m) = fst (bl ! m)" "d_bytes (ds2 ! m) = snd (snd (bl ! m))"
        "desc_src (ds2 ! m) = rb + of_nat (32 * m)" "desc_magic_ok (ds2 ! m)"
        "desc_next (ds2 ! m) = desc_next (?ds ! m)" "desc_ctl (ds2 ! m) = cyclic_control"
        using desc_frame_data [of "ds1 ! m" "ds2 ! m"] c(3) [OF m] f r(3) [OF m]
        by (auto simp: desc_magic_ok_def)
      show ?thesis using e f(4) sg m c(2)
        by (cases "m = ?n - 1") (simp_all, linarith)
    qed
    then show ?thesis using c(2) by (simp add: desc_ring_def)
  qed
  ultimately show ?thesis using n0(2) by (intro exI [of _ ?x1] exI [of _ ?x2] exI [of _ ?x3]) simp
qed

lemma ring_area:
  assumes "unat (addr :: u64) mod 4096 = 0"
  shows "unat (of_nat RX_BUF_SIZE :: u64) = 4096 * 256"
    and "nr_slices (unat addr) (unat (of_nat RX_BUF_SIZE :: u64)) = 256"
    and "sg_slice (unat addr) (unat (of_nat RX_BUF_SIZE :: u64)) i e \<Longrightarrow> i < 256 \<Longrightarrow>
      unat (sg_offset e) = 0 \<and> unat (sg_length e) = 4096"
proof -
  show c: "unat (of_nat RX_BUF_SIZE :: u64) = 4096 * 256" by (simp add: RX_BUF_SIZE_def RX_BUF_PAGES_def RX_BUF_BLOCK_def)
  obtain q where q: "unat addr = 4096 * q" using assms by (metis dvd_def mod_0_imp_dvd)
  have "4096 * q + 1048575 = 4095 + (q + 255) * (4096 :: nat)" by simp
  then have "(4096 * q + 1048575) div 4096 = q + (255 :: nat)"
    by (simp only: div_mult_self1 [of "4096 :: nat" 4095 "q + 255"])
  then show "nr_slices (unat addr) (unat (of_nat RX_BUF_SIZE :: u64)) = 256"
    unfolding c nr_slices_def q by simp
  show "unat (sg_offset e) = 0 \<and> unat (sg_length e) = 4096"
    if "sg_slice (unat addr) (unat (of_nat RX_BUF_SIZE :: u64)) i e" "i < 256"
    using that unfolding c sg_slice_def q by (auto simp: slice_lo_def slice_hi_def)
qed

lemma ring_transfer:
  assumes "kernel_ok K" "\<forall>sg. length (k_map_sg K sg) = length sg"
    and "unat addr mod 4096 = 0" "unat addr + RX_BUF_SIZE < 2 ^ 64"
    and "\<forall>i < 256. \<exists>p. k_v2p K (addr + of_nat (4096 * i)) = Some p \<and> \<not> k_high K p"
  shows "\<exists>x (sgm :: sg_mapping_t). transfer_create K addr (of_nat RX_BUF_SIZE) 0 False False True False w = Some (Some x, w) \<and>
    transfer_ok K False False True False addr (of_nat RX_BUF_SIZE) 0 x \<and>
    t_sgm x = Some sgm \<and> t_dma x = k_map_sg K (take 256 (sgl sgm)) \<and> length (t_dma x) = 256 \<and>
    (\<forall>i < 256. sg_page (sgl sgm ! i) = k_v2p K (addr + of_nat (4096 * i)) \<and>
       unat (sg_offset (sgl sgm ! i)) = 0 \<and> unat (sg_length (sgl sgm ! i)) = 4096)"
proof -
  note a = ring_area [OF assms(3)]
  have p: "pages_ok K False False addr (of_nat RX_BUF_SIZE)"
    unfolding pages_ok_def a(2) Let_def using assms(5) by simp
  have b: "buffer_ok addr (of_nat RX_BUF_SIZE)"
    using assms(4) a(1) by (simp add: buffer_ok_def RX_BUF_SIZE_def RX_BUF_PAGES_def RX_BUF_BLOCK_def)
  obtain x sgm where x: "transfer_create K addr (of_nat RX_BUF_SIZE) 0 False False True False w = Some (Some x, w)"
    "transfer_ok K False False True False addr (of_nat RX_BUF_SIZE) 0 x"
    using transfer_create_spec [OF assms(1) p b, of 0 False True w] by auto
  obtain sgm :: sg_mapping_t where s: "t_sgm x = Some sgm" "t_dma x = k_map_sg K (take 256 (sgl sgm))"
    "mapped_pages sgm = int 256" "mapped_pages sgm \<le> int (length (sgl sgm))"
    "\<forall>i < 256. sg_slice (unat addr) (unat (of_nat RX_BUF_SIZE :: u64)) i (sgl sgm ! i)"
    "\<forall>i < 256. sg_page (sgl sgm ! i) = buffer_page K False False addr (of_nat RX_BUF_SIZE) i"
    using x(2) unfolding transfer_ok_def a(2) by blast
  then have "length (t_dma x) = 256" using assms(2) by simp
  moreover have "\<forall>i < 256. sg_page (sgl sgm ! i) = k_v2p K (addr + of_nat (4096 * i))"
    using s(6) by (simp add: buffer_page_def)
  ultimately show ?thesis using x s(1,2,5) a(3) by blast
qed

text \<open>
  C13: opening a receive channel sets the ring up and starts it. The receive area of 256 pages at
  \<open>addr\<close> is kept as the engine's receive buffer, and entry \<open>i\<close> of the scatter list of the transfer is the
  whole page that the kernel's page table gives for the \<open>i\<close>-th page of the area. What the DMA mapping makes of that list
  are the destinations of the 256 descriptors, in order, each marked end of packet and completed (the
  device reports every block), each with its own 32 byte entry of the result buffer as source, the
  last one linked back to the first. The engine is started on it, after the initial credits in credit mode.
\<close>

theorem open_builds_ring:
  assumes "kernel_ok K" "\<forall>sg. length (k_map_sg K sg) = length sg"
    and "unat addr mod 4096 = 0" "unat addr + RX_BUF_SIZE < 2 ^ 64"
    and "\<forall>i < 256. \<exists>p. k_v2p K (addr + of_nat (4096 * i)) = Some p \<and> \<not> k_high K p"
    and "e_magic (en s) = MAGIC_ENGINE" "e_streaming (en s)" "\<not> e_dir_to_dev (en s)" "rx_buffer (en s) = None"
    and "\<not> e_locked (en s)" "\<not> e_running (en s)" "transfer_list (en s) = []" "e_shutdown (en s) = 0"
  shows "\<exists>s' x (sgm :: sg_mapping_t). char_sgdma_open K (Some addr) (Some (res, rb)) t s = Some (0, s') \<and>
    rx_cyclic (en s') = Some t \<and> heap s' t = Some x \<and> t_cyclic x \<and> t_state x = STATE_SUBMITTED \<and> desc_num x = 256 \<and>
    t_sgm x = Some sgm \<and> t_dma x = k_map_sg K (take 256 (sgl sgm)) \<and> length (t_dma x) = 256 \<and>
    (\<forall>i < 256. sg_page (sgl sgm ! i) = k_v2p K (addr + of_nat (4096 * i)) \<and>
       unat (sg_offset (sgl sgm ! i)) = 0 \<and> unat (sg_length (sgl sgm ! i)) = 4096) \<and>
    desc_ring (desc_bus x) rb (t_dma x) (desc_virt x) \<and>
    rx_buffer (en s') = Some addr \<and> rx_result (en s') = Some res \<and> rx_head (en s') = 0 \<and> rx_tail (en s') = 0 \<and> \<not> rx_overrun (en s') \<and>
    e_running (en s') \<and> transfer_list (en s') = [t] \<and> \<not> e_locked (en s') \<and>
    writes (s_bus s') = writes (s_bus s) @
      (if s_credit_mp s \<noteq> 0 then [(sreg (e_sgdma_regs (en s)) S_credits, 128)] else []) @
      start_writes (s_poll_mode s) (en s) x"
proof -
  have "\<forall>i. i < 256 \<longrightarrow> (\<exists>p. k_v2p K (addr + of_nat (4096 * i)) = Some p)" using assms(5) by blast
  then obtain pg where pg: "\<And>i. i < 256 \<Longrightarrow> k_v2p K (addr + of_nat (4096 * i)) = Some (pg i)" by metis
  note a = ring_area [OF assms(3)]
  define w where "w = fold SetPageReserved (map pg [0..<256]) (s_pages s)"
  have rv: "rvmalloc (k_v2p K) (Some addr) (of_nat RX_BUF_SIZE) (s_pages s) = Some (Some addr, w)"
    using reserve_loop_spec [where pg = pg, OF a(1) pg]
    by (simp add: rvmalloc_def page_align_multiple [OF a(1)] w_def)
  obtain x and sgm :: sg_mapping_t where x: "transfer_create K addr (of_nat RX_BUF_SIZE) 0 False False True False w = Some (Some x, w)"
    "transfer_ok K False False True False addr (of_nat RX_BUF_SIZE) 0 x"
    "t_dma x = k_map_sg K (take 256 (sgl sgm))" "length (t_dma x) = 256"
    "\<forall>i < 256. sg_page (sgl sgm ! i) = k_v2p K (addr + of_nat (4096 * i)) \<and>
       unat (sg_offset (sgl sgm ! i)) = 0 \<and> unat (sg_length (sgl sgm ! i)) = 4096" "t_sgm x = Some sgm"
    using ring_transfer [OF assms(1-5)] by blast
  obtain x1 x2 x3 where c: "transfer_set_result_addresses x rb = Some x1"
    "transfer_set_all_control x1 cyclic_control = Some x2" "xdma_transfer_cyclic x2 = Some x3"
    "x3 = x\<lparr>desc_virt := desc_virt x3, t_cyclic := True\<rparr>" "desc_num x = 256"
    "desc_ring (desc_bus x) rb (t_dma x) (desc_virt x3)"
    using make_cyclic [OF x(2), of rb] x(4) by auto
  have x3: "desc_num x3 = 256" "t_cyclic x3" "t_dma x3 = t_dma x" "t_sgm x3 = t_sgm x" "desc_bus x3 = desc_bus x" "desc_adjacent x3 = desc_adjacent x"
    by (subst c(4), simp add: c(5))+
  define e where "e = (en s)\<lparr>rx_tail := 0, rx_head := 0, rx_overrun := False, eop_found := False,
    user_buffer_index := 0, rx_buffer := Some addr, rx_cyclic := Some t, rx_result := Some res, rx_result_bus := rb,
    e_locked := False\<rparr>"
  define s5 where "s5 = s\<lparr>s_pages := w, heap := (heap s)(t \<mapsto> x3), en := e\<rparr>"
  define s6 where "s6 = (if s_credit_mp s \<noteq> 0 then wr 128 (sreg (e_sgdma_regs (en s)) S_credits) s5 else s5)"
  have s6: "en s6 = e" "heap s6 t = Some x3" "s_poll_mode s6 = s_poll_mode s"
    "writes (s_bus s6) = writes (s_bus s) @ (if s_credit_mp s \<noteq> 0 then [(sreg (e_sgdma_regs (en s)) S_credits, 128)] else [])"
    by (simp_all add: s6_def s5_def)
  obtain s' where q: "transfer_queue t s6 = Some (0, s')"
    "en s' = (en s6)\<lparr>e_shutdown := 0, e_desc_dequeued := 0, e_running := True, transfer_list := [t], e_locked := False\<rparr>"
    "heap s' = (heap s6)(t \<mapsto> x3\<lparr>t_state := STATE_SUBMITTED\<rparr>)"
    "writes (s_bus s') = writes (s_bus s6) @ start_writes (s_poll_mode s6) (en s6) x3"
    using queue_idle_spec [of s6 t x3] s6(1,2) x3(1) assms(10-13) by (auto simp: e_def)
  have o: "char_sgdma_open K (Some addr) (Some (res, rb)) t s = Some (0, s')"
    using assms(6-10) rv x(1) c(1,2,3) q(1)
    by (simp add: char_sgdma_open_def cyclic_transfer_setup_def lock_engine_def set_en_def unlock_engine_def
        put_transfer_def s6_def s5_def e_def Let_def split: if_splits)
  have "start_writes (s_poll_mode s) e x3 = start_writes (s_poll_mode s) (en s) (x3\<lparr>t_state := STATE_SUBMITTED\<rparr>)"
    by (simp add: start_writes_def start_control_def Let_def e_def)
  then show ?thesis
    using o q s6 x3 x(3,4,5,6) c(6)
    by (intro exI [of _ s'] exI [of _ "x3\<lparr>t_state := STATE_SUBMITTED\<rparr>"] exI [of _ sgm]) (simp add: e_def)
qed

text \<open>A channel and a receive area at \<open>0x100000\<close>.\<close>

definition demo_channel :: est where
  "demo_channel = set_en (\<lambda>e. e\<lparr>e_streaming := True, e_dir_to_dev := False\<rparr>) (demo_est (\<lambda>_ _. 0)\<lparr>s_credit_mp := 1\<rparr>)"

theorem open_builds_ring_witness:
  "\<exists>s' x (sgm :: sg_mapping_t). char_sgdma_open demo_kernel (Some 0x100000) (Some ([], 0x2000)) 9 demo_channel = Some (0, s') \<and>
    heap s' 9 = Some x \<and> desc_num x = 256 \<and> t_sgm x = Some sgm \<and> sg_page (sgl sgm ! 255) = Some 511 \<and>
    writes (s_bus s') ! 0 = (0x508C, 128)"
  using open_builds_ring [OF demo_kernel_ok, of "0x100000" demo_channel "[]" "0x2000" 9]
  by (auto simp: demo_kernel_def demo_channel_def demo_est_def demo_engine_def RX_BUF_SIZE_def RX_BUF_PAGES_def
      RX_BUF_BLOCK_def sreg_def engine_sgdma_regs_def writes_def)

text \<open>
  A second open of a receive channel. The call is refused with \<open>-EBUSY\<close>, but it has reset the
  positions of the ring that is in use, and it returns with the engine lock held: from then on no
  transfer can be queued, no packet be read, no interrupt be served and the channel not be closed
  without blocking for ever.
\<close>

theorem second_open_deadlocks:
  assumes "e_magic (en s) = MAGIC_ENGINE" "e_streaming (en s)" "\<not> e_dir_to_dev (en s)" "\<not> e_locked (en s)"
    and "rx_buffer (en s) = Some a"
  shows "\<exists>s'. char_sgdma_open K mem rbuf t s = Some (- EBUSY, s') \<and> e_locked (en s') \<and>
    rx_head (en s') = 0 \<and> rx_tail (en s') = 0 \<and> user_buffer_index (en s') = 0 \<and>
    (\<forall>u. transfer_queue u s' = None) \<and> (\<forall>cp. complete_cyclic cp s' = None) \<and>
    (\<forall>obs. engine_service_work obs s' = None) \<and> (\<forall>E. char_sgdma_close K E s' = None)"
proof -
  let ?s' = "set_en (\<lambda>e. e\<lparr>rx_tail := 0, rx_head := 0, rx_overrun := False, eop_found := False, user_buffer_index := 0\<rparr>)
    (set_en (\<lambda>e. e\<lparr>e_locked := True\<rparr>) s)"
  have l: "lock_engine x = None" if "e_locked (en x)" for x using that by (simp add: lock_engine_def)
  have "char_sgdma_open K mem rbuf t s = Some (- EBUSY, ?s')"
    using assms by (simp add: char_sgdma_open_def cyclic_transfer_setup_def lock_engine_def)
  moreover have "transfer_queue u ?s' = None" for u
    by (cases "heap s u") (simp_all add: transfer_queue_def l)
  moreover have "complete_cyclic cp ?s' = None" for cp by (simp add: complete_cyclic_def l)
  moreover have "engine_service_work obs ?s' = None" for obs by (simp add: engine_service_work_def l)
  moreover have "char_sgdma_close K E ?s' = None" for E
  proof -
    have "e_locked (en y)" if "engine_cyclic_stop ?s' = Some (x, y)" for x y
      using that by (auto simp: engine_cyclic_stop_def bind_eq_Some_conv Let_def split: list.splits if_splits)
    then have "cyclic_transfer_teardown K E ?s' = None"
      by (cases "engine_cyclic_stop ?s'") (auto simp: cyclic_transfer_teardown_def l)
    then show ?thesis using assms(2,3) by (simp add: char_sgdma_close_def)
  qed
  ultimately show ?thesis by (intro exI [of _ ?s']) simp
qed

theorem second_open_deadlocks_witness:
  "\<exists>s'. char_sgdma_open demo_kernel None None 9 (set_en (\<lambda>e. e\<lparr>rx_buffer := Some 0x100000\<rparr>) demo_channel) = Some (- EBUSY, s') \<and>
     e_locked (en s')"
  using second_open_deadlocks [of "set_en (\<lambda>e. e\<lparr>rx_buffer := Some 0x100000\<rparr>) demo_channel" "0x100000" demo_kernel None None 9]
  by (auto simp: demo_channel_def demo_est_def demo_engine_def)

end
