(* ===== verification/SgdmaChar.thy ===== *)
theory SgdmaChar
  imports Ring
begin

text \<open>
  The file operations of an SG DMA channel (\<open>driver/xdma-core.c\<close>): synchronous and asynchronous
  reads and writes cut into transfers of at most 8 MiB, seeking, and the ioctls, with the
  performance measurement they start. Transfers created one after the other are the heap objects
  \<open>t\<close>, \<open>t + 1\<close>, and so on.
\<close>

unbundle bit_operations_syntax

definition XDMA_TRANSFER_MAX_BYTES :: nat where "XDMA_TRANSFER_MAX_BYTES = 2048 * 4096"

section \<open>Alignment of a request\<close>

definition check_transfer_align :: "xdma_engine \<Rightarrow> u64 \<Rightarrow> u64 \<Rightarrow> u64 \<Rightarrow> bool \<Rightarrow> int" where
  "check_transfer_align e buf count pos sync =
    (if e_streaming e \<or> e_non_incr_addr e then
       let buf_lsb = ucast buf AND (e_addr_align e - 1);
           len_lsb = count AND (scast (e_len_granularity e) - 1);
           pos_lsb = ucast pos AND (e_addr_align e - 1)
       in if buf_lsb \<noteq> 0 then - EINVAL
          else if \<not> e_streaming e \<and> pos_lsb \<noteq> 0 \<and> sync then - EINVAL
          else if len_lsb \<noteq> 0 then - EINVAL
          else 0
     else
       let buf_lsb = ucast buf AND (e_addr_align e - 1);
           pos_lsb = ucast pos AND (e_addr_align e - 1)
       in if buf_lsb \<noteq> pos_lsb then - EINVAL else 0)"

section \<open>Asynchronous requests\<close>

text \<open>
  The inner loop of \<open>sg_aio_read_write\<close> over one segment; the result also has the number of the
  next transfer and the bytes queued.
\<close>

function aio_segment ::
  "kernel \<Rightarrow> nat \<Rightarrow> bool \<Rightarrow> u64 \<Rightarrow> nat \<Rightarrow> u64 \<Rightarrow> nat \<Rightarrow> nat \<Rightarrow> est \<Rightarrow> (nat \<times> nat \<times> est) option" where
  "aio_segment K iocb dir pos t addr remaining done s =
    (if remaining = 0 then Some (t, done, s)
     else let transfer_len = (if remaining > XDMA_TRANSFER_MAX_BYTES then XDMA_TRANSFER_MAX_BYTES else remaining)
       in do {
         (x, w) \<leftarrow> transfer_create K addr (of_nat transfer_len) pos dir False False True (s_pages s);
         let s = s\<lparr>s_pages := w\<rparr>;
         BUG_ON (x = None);
         x \<leftarrow> x;
         let x = x\<lparr>t_iocb := Some iocb\<rparr>;
         let x = (if transfer_len \<ge> remaining
                  then x\<lparr>last_in_request := True, size_of_request := int (done + transfer_len)\<rparr> else x);
         (_, s) \<leftarrow> transfer_queue t (put_transfer t x s);
         aio_segment K iocb dir pos (Suc t) (addr + of_nat transfer_len) (remaining - transfer_len)
           (done + transfer_len) s
       })"
  by auto

termination aio_segment
  by (relation "measure (\<lambda>(_, _, _, _, _, _, r, _, _). r)") (auto simp: XDMA_TRANSFER_MAX_BYTES_def)

declare aio_segment.simps [simp del]

text \<open>All segments of the vector; every one starts at the same device position \<open>pos\<close>.\<close>

fun aio_segments :: "kernel \<Rightarrow> nat \<Rightarrow> bool \<Rightarrow> u64 \<Rightarrow> nat \<Rightarrow> (u64 \<times> u64) list \<Rightarrow> est \<Rightarrow> (int \<times> est) option" where
  "aio_segments K iocb dir pos t [] s = Some (- EIOCBQUEUED, s)"
| "aio_segments K iocb dir pos t ((buf, count) # iov) s =
    (let rc = check_transfer_align (en s) buf count pos False
     in if rc \<noteq> 0 then Some (rc, s)
        else do {
          (t, _, s) \<leftarrow> aio_segment K iocb dir pos t buf (unat count) 0 s;
          aio_segments K iocb dir pos t iov s
        })"

definition sg_aio_read_write ::
  "kernel \<Rightarrow> nat \<Rightarrow> (u64 \<times> u64) list \<Rightarrow> u64 \<Rightarrow> bool \<Rightarrow> nat \<Rightarrow> est \<Rightarrow> (int \<times> est) option" where
  "sg_aio_read_write K iocb iov pos dir_to_dev t s = do {
     BUG_ON (e_magic (en s) \<noteq> MAGIC_ENGINE);
     aio_segments K iocb dir_to_dev pos t iov s
   }"

definition sg_aio_read :: "kernel \<Rightarrow> nat \<Rightarrow> (u64 \<times> u64) list \<Rightarrow> u64 \<Rightarrow> nat \<Rightarrow> est \<Rightarrow> (int \<times> est) option" where
  "sg_aio_read K iocb iov pos t s = sg_aio_read_write K iocb iov pos False t s"

definition sg_aio_write :: "kernel \<Rightarrow> nat \<Rightarrow> (u64 \<times> u64) list \<Rightarrow> u64 \<Rightarrow> nat \<Rightarrow> est \<Rightarrow> (int \<times> est) option" where
  "sg_aio_write K iocb iov pos t s = sg_aio_read_write K iocb iov pos True t s"

section \<open>Seeking\<close>

text \<open>Result and new file position. Offsets are 64-bit two's complement.\<close>

definition char_sgdma_llseek :: "u64 \<Rightarrow> u64 \<Rightarrow> int \<Rightarrow> int \<times> u64" where
  "char_sgdma_llseek f_pos off whence =
    (let newpos = (if whence = 0 then Some off
                   else if whence = 1 then Some (f_pos + off)
                   else if whence = 2 then Some (0xFFFFFFFF + off)
                   else None)
     in case newpos of
          None \<Rightarrow> (- EINVAL, f_pos)
        | Some newpos \<Rightarrow> if sint newpos < 0 then (- EINVAL, f_pos) else (sint newpos, newpos))"

section \<open>Synchronous requests\<close>

text \<open>\<open>w_wb\<close> is what a poll for a writeback observes (see \<open>wb_loop\<close>).\<close>

record sgdma_env = reader_env +
  w_wb :: "est \<Rightarrow> (u32 \<times> bool) list"

definition transfer_monitor :: "sgdma_env \<Rightarrow> nat \<Rightarrow> est \<Rightarrow> (int \<times> est) option" where
  "transfer_monitor E t s =
    (if s_poll_mode s then do {
       s \<leftarrow> lock_engine s;
       x \<leftarrow> heap s t;
       let desc_count = desc_num x;
       let s = unlock_engine s;
       engine_service_poll (of_nat desc_count) (w_wb E s) (w_obs E s) s
     } else Some (w_wait E (\<lambda>s. map_option t_state (heap s t) \<noteq> Some STATE_SUBMITTED) s))"

text \<open>
  The loop of \<open>transfer_data\<close>, entered with \<open>res = 0\<close>: the result is the error, the bytes done, the
  file position and the state.
\<close>

function transfer_data_loop ::
  "kernel \<Rightarrow> sgdma_env \<Rightarrow> nat \<Rightarrow> u64 \<Rightarrow> int \<Rightarrow> int \<Rightarrow> u64 \<Rightarrow> est \<Rightarrow> (int \<times> int \<times> u64 \<times> est) option" where
  "transfer_data_loop K E t addr remaining done pos s =
    (if \<not> remaining > 0 then Some (0, done, pos, s)
     else let transfer_len = (if remaining > int XDMA_TRANSFER_MAX_BYTES then int XDMA_TRANSFER_MAX_BYTES else remaining)
       in do {
         (x, w) \<leftarrow> transfer_create K addr (word_of_int transfer_len) pos (e_dir_to_dev (en s))
                    (e_non_incr_addr (en s)) False True (s_pages s);
         let s = s\<lparr>s_pages := w\<rparr>;
         (case x of
            None \<Rightarrow> Some (- EIO, done, pos, s)
          | Some x \<Rightarrow> do {
              let x = (if transfer_len \<ge> remaining
                       then x\<lparr>last_in_request := True, size_of_request := done + transfer_len\<rparr> else x);
              (_, s) \<leftarrow> transfer_queue t (put_transfer t x s);
              (rc, s) \<leftarrow> transfer_monitor E t s;
              x \<leftarrow> heap s t;
              (res, s) \<leftarrow>
                (if t_state x \<noteq> STATE_SUBMITTED then do {
                   let res = (if t_state x \<noteq> STATE_COMPLETED then - EIO else 0);
                   w \<leftarrow> transfer_destroy x (s_pages s);
                   Some (res, s\<lparr>s_pages := w, heap := (heap s)(t := None)\<rparr>)
                 } else if rc \<noteq> 0 then do {
                   let s = snd (engine_status_read False s);
                   Some (- ERESTARTSYS, s\<lparr>s_bus := snd (read_interrupts (s_cfg_bar s) (s_bus s))\<rparr>)
                 } else Some (0, s));
              (if res \<noteq> 0 then Some (res, done, pos, s)
               else transfer_data_loop K E (Suc t) (addr + word_of_int transfer_len) (remaining - transfer_len)
                      (done + transfer_len) (pos + word_of_int transfer_len) s)
            })
       })"
  by auto

termination transfer_data_loop
  by (relation "measure (\<lambda>(_, _, _, _, r, _, _, _). nat r)") (auto simp: XDMA_TRANSFER_MAX_BYTES_def)

declare transfer_data_loop.simps [simp del]

definition transfer_data ::
  "kernel \<Rightarrow> sgdma_env \<Rightarrow> nat \<Rightarrow> u64 \<Rightarrow> int \<Rightarrow> u64 \<Rightarrow> est \<Rightarrow> (int \<times> u64 \<times> est) option" where
  "transfer_data K E t addr remaining pos s = do {
     (res, done, pos, s) \<leftarrow> transfer_data_loop K E t addr remaining 0 pos s;
     Some (if res \<noteq> 0 then res else done, pos, s)
   }"

definition char_sgdma_read_write ::
  "kernel \<Rightarrow> sgdma_env \<Rightarrow> nat \<Rightarrow> u64 \<Rightarrow> u64 \<Rightarrow> u64 \<Rightarrow> bool \<Rightarrow> est \<Rightarrow> (int \<times> u64 \<times> est) option" where
  "char_sgdma_read_write K E t buf count pos dir_to_dev s = do {
     BUG_ON (e_magic (en s) \<noteq> MAGIC_ENGINE);
     (if dir_to_dev \<noteq> e_dir_to_dev (en s) then Some (- EINVAL, pos, s)
      else let rc = check_transfer_align (en s) buf count pos True
        in if rc \<noteq> 0 then Some (rc, pos, s)
           else transfer_data K E t buf (sint count) pos s)
   }"

definition char_sgdma_write ::
  "kernel \<Rightarrow> sgdma_env \<Rightarrow> nat \<Rightarrow> u64 \<Rightarrow> u64 \<Rightarrow> u64 \<Rightarrow> est \<Rightarrow> (int \<times> u64 \<times> est) option" where
  "char_sgdma_write K E t buf count pos s = char_sgdma_read_write K E t buf count pos True s"

text \<open>A read of a receive ring copies packets and leaves the position alone.\<close>

definition char_sgdma_read ::
  "kernel \<Rightarrow> sgdma_env \<Rightarrow> nat \<Rightarrow> u64 \<Rightarrow> u64 \<Rightarrow> u64 \<Rightarrow> est \<Rightarrow> (int \<times> u64 \<times> copy list \<times> est) option" where
  "char_sgdma_read K E t buf count pos s = do {
     BUG_ON (e_magic (en s) \<noteq> MAGIC_ENGINE);
     (if \<not> e_dir_to_dev (en s) \<and> rx_buffer (en s) \<noteq> None \<and> rx_cyclic (en s) \<noteq> None
      then map_option (\<lambda>(n, log, s). (n, pos, log, s)) (char_sgdma_read_cyclic (reader_env.truncate E) s)
      else map_option (\<lambda>(n, pos, s). (n, pos, [], s)) (char_sgdma_read_write K E t buf count pos False s))
   }"


section \<open>Alignment checks\<close>

lemma and_pow2_minus_1: "(w :: 'a::len word) AND (2 ^ a - 1) = take_bit a w"
  by (simp add: take_bit_eq_mask mask_eq_exp_minus_1)

lemma unat_low_bits: "a \<le> 32 \<Longrightarrow> unat (take_bit a (ucast (w :: u64) :: u32)) = unat w mod 2 ^ a"
  by (simp add: unsigned_take_bit_eq unsigned_ucast_eq take_bit_eq_mod [symmetric])

lemma low_bits_0: "a \<le> 32 \<Longrightarrow> take_bit a (ucast (w :: u64) :: u32) = 0 \<longleftrightarrow> 2 ^ a dvd unat w"
  using unat_low_bits [of a w] by (metis dvd_eq_mod_eq_0 unat_eq_0)

lemma low_bits_eq:
  "a \<le> 32 \<Longrightarrow> take_bit a (ucast (v :: u64) :: u32) = take_bit a (ucast (w :: u64)) \<longleftrightarrow> unat v mod 2 ^ a = unat w mod 2 ^ a"
  using unat_low_bits [of a v] unat_low_bits [of a w] by (metis word_unat_eq_iff)

lemma scast_pow2: "g < 31 \<Longrightarrow> scast (2 ^ g :: u32) = (2 ^ g :: u64)"
proof -
  assume g: "g < 31"
  then have l: "(2 :: nat) ^ g < 2 ^ 31" by (rule power_strict_increasing) simp
  then have l2: "(2 :: nat) ^ g < 2 ^ 32" by simp
  have "unat (of_nat (2 ^ g) :: u32) = 2 ^ g"
    using l2 g by (simp add: unsigned_of_nat take_bit_nat_eq_self del: of_nat_power)
  then have u: "unat (2 ^ g :: u32) = 2 ^ g" by simp
  have "sint (2 ^ g :: u32) = int (2 ^ g)" using u l by (subst sint_small) simp_all
  then have "of_int (sint (2 ^ g :: u32)) = (of_int (int (2 ^ g)) :: u64)" by (rule arg_cong)
  then show ?thesis by simp
qed

text \<open>
  The alignment check, for the powers of two an engine reports. A streaming engine and one with
  a fixed device address take requests whose buffer is aligned and whose length is a multiple of
  the granularity, the latter engine in a synchronous request only at an aligned device address;
  any other engine takes requests whose buffer and device address lie at the same place relative
  to the alignment. Everything else is refused with \<open>-EINVAL\<close>.
\<close>

theorem check_transfer_align_spec:
  assumes "e_addr_align e = 2 ^ a" "a < 32" "e_len_granularity e = 2 ^ g" "g < 31"
  shows "check_transfer_align e buf count pos sync =
    (if (if e_streaming e \<or> e_non_incr_addr e
         then 2 ^ a dvd unat buf \<and> 2 ^ g dvd unat count \<and> (\<not> e_streaming e \<and> sync \<longrightarrow> 2 ^ a dvd unat pos)
         else unat buf mod 2 ^ a = unat pos mod 2 ^ a)
     then 0 else - EINVAL)"
proof -
  have c: "take_bit g count = 0 \<longleftrightarrow> 2 ^ g dvd unat count"
    by (metis dvd_eq_mod_eq_0 take_bit_eq_mod unat_eq_0 unsigned_take_bit_eq)
  have i: "ucast w AND (e_addr_align e - 1) = take_bit a (ucast (w :: u64) :: u32)" for w
    unfolding assms(1) by (rule and_pow2_minus_1)
  have l: "count AND (scast (e_len_granularity e) - 1) = take_bit g count"
    unfolding assms(3) scast_pow2 [OF assms(4)] by (rule and_pow2_minus_1)
  show ?thesis using assms(2)
    by (simp add: check_transfer_align_def i l c low_bits_0 low_bits_eq)
qed

theorem check_transfer_align_spec_witness:
  "check_transfer_align (demo_engine\<lparr>e_streaming := True, e_addr_align := 64, e_len_granularity := 4\<rparr>) 0x1040 0x1004 7 True = 0 \<and>
   check_transfer_align (demo_engine\<lparr>e_streaming := True, e_addr_align := 64, e_len_granularity := 4\<rparr>) 0x1041 0x1004 7 True = - EINVAL"
  using check_transfer_align_spec [of "demo_engine\<lparr>e_streaming := True, e_addr_align := 64, e_len_granularity := 4\<rparr>" 6 2 "0x1040" "0x1004" 7 True]
    check_transfer_align_spec [of "demo_engine\<lparr>e_streaming := True, e_addr_align := 64, e_len_granularity := 4\<rparr>" 6 2 "0x1041" "0x1004" 7 True]
  by (simp add: dvd_eq_mod_eq_0)

section \<open>Seeking\<close>

text \<open>
  Seeking within the 63 bits of a file position. The new position is the offset, the old
  position plus the offset, or \<open>UINT_MAX\<close> plus the offset (not the end of the device); it is
  returned and stored, unless it would be negative or the origin is unknown: then the position
  stays and the result is \<open>-EINVAL\<close>.
\<close>

theorem llseek_spec:
  assumes "0 \<le> sint f_pos" "sint f_pos + sint off < 2 ^ 63" "0xFFFFFFFF + sint off < 2 ^ 63"
    and target: "target = (if whence = 0 then Some (sint off) else if whence = 1 then Some (sint f_pos + sint off)
      else if whence = 2 then Some (0xFFFFFFFF + sint off) else None)"
  shows "char_sgdma_llseek f_pos off whence =
    (case target of
       None \<Rightarrow> (- EINVAL, f_pos)
     | Some p \<Rightarrow> if p < 0 then (- EINVAL, f_pos) else (p, word_of_int p))"
proof -
  have b: "- (2 ^ 63) \<le> sint off" using sint_ge [of off] by simp
  have a: "sint (f_pos + off) = sint f_pos + sint off"
    using assms(1,2) b by (simp add: sint_word_ariths signed_take_bit_int_eq_self_iff)
  have e: "sint (0xFFFFFFFF + off) = 0xFFFFFFFF + sint off"
    using assms(3) b by (simp add: sint_word_ariths signed_take_bit_int_eq_self_iff)
  have w: "word_of_int (sint f_pos + sint off) = f_pos + off" "word_of_int (0xFFFFFFFF + sint off) = 0xFFFFFFFF + off"
    by simp_all
  show ?thesis unfolding target by (simp add: char_sgdma_llseek_def a e w)
qed

theorem llseek_spec_witness:
  "char_sgdma_llseek 0x1000 (- 0x800) 1 = (0x800, 0x800) \<and> char_sgdma_llseek 0x1000 (- 0x2000) 1 = (- EINVAL, 0x1000)"
  using llseek_spec [of "0x1000" "- 0x800" "Some 0x800" 1] llseek_spec [of "0x1000" "- 0x2000" "Some (- 0x1000)" 1] by simp

section \<open>An environment that completes what is queued\<close>

text \<open>
  The device answers while the caller waits: it has stopped without an error after all descriptors
  of the transfer at the head of the queue, and its interrupt is served by the driver. A wait whose
  condition still fails is ended by a signal.
\<close>

definition done_resp :: "xdma_engine \<Rightarrow> nat \<Rightarrow> mmio list \<Rightarrow> u64 \<Rightarrow> u32" where
  "done_resp e n = (\<lambda>_ a. if a = ereg (e_regs e) E_completed_desc_count then of_nat n else 0)"

definition isr_wait :: "(est \<Rightarrow> bool) \<Rightarrow> est \<Rightarrow> int \<times> est" where
  "isr_wait c s =
    (if c s then (0, s)
     else case transfer_list (en s) of
       [] \<Rightarrow> (- ERESTARTSYS, s)
     | t # _ \<Rightarrow>
         (case engine_service_work [] (s\<lparr>s_bus := (s_bus s)\<lparr>resp := done_resp (en s) (num_of s t)\<rparr>\<rparr>) of
            None \<Rightarrow> (- ERESTARTSYS, s)
          | Some s' \<Rightarrow> if c s' then (0, s') else (- ERESTARTSYS, s')))"

definition isr_env :: sgdma_env where
  "isr_env = \<lparr>w_wait = isr_wait, w_obs = (\<lambda>_. []), w_copy = (\<lambda>_ _ _. 0), w_wb = (\<lambda>_. [])\<rparr>"

text \<open>An engine with nothing to do, in interrupt mode.\<close>

definition idle :: "est \<Rightarrow> bool" where
  "idle s \<longleftrightarrow> e_magic (en s) = MAGIC_ENGINE \<and> \<not> e_locked (en s) \<and> \<not> e_running (en s) \<and> transfer_list (en s) = [] \<and>
     e_shutdown (en s) = 0 \<and> e_perf (en s) = None \<and> rx_cyclic (en s) = None \<and> \<not> s_poll_mode s"

lemma rd_resp [simp]: "resp (s_bus (snd (rd a s))) = resp (s_bus s)"
  by (simp add: rd_def split_beta)

lemma wr_resp [simp]: "resp (s_bus (wr v a s)) = resp (s_bus s)"
  by (simp add: wr_def)

lemma rd_value: "fst (rd a s) = resp (s_bus s) (hist (s_bus s)) a"
  by (simp add: rd_def read_register_def Let_def)

lemma single_service:
  assumes "e_running (en s)" "transfer_list (en s) = [t]" "heap s t = Some x" "\<not> t_cyclic x" "t_iocb x = None"
    and "desc_num x < 2 ^ 31" "e_perf (en s) = None" "e_shutdown (en s) = 0" "e_desc_dequeued (en s) = 0"
    and "\<not> s_poll_mode s" "resp (s_bus s) = done_resp (en s) (desc_num x)"
  shows "\<exists>s'. engine_service 0 s = Some (0, s') \<and>
    en s' = (en s)\<lparr>e_status := 0, e_running := False, transfer_list := [], e_desc_dequeued := desc_num x\<rparr> \<and>
    heap s' = (heap s)(t \<mapsto> x\<lparr>t_state := STATE_COMPLETED\<rparr>) \<and> s_pages s' = s_pages s \<and> \<not> s_poll_mode s' \<and>
    s_msix s' = s_msix s \<and> s_cfg_bar s' = s_cfg_bar s"
proof -
  let ?s1 = "engine_service_shutdown (snd (engine_status_read True s))"
  define s0 where "s0 = snd (rd (ereg (e_regs (en s)) E_completed_desc_count) ?s1)"
  have st: "fst (rd (ereg (e_regs (en s)) E_status_rc) s) = 0"
    by (simp add: rd_value assms(11) done_resp_def)
  have cnt: "fst (rd (ereg (e_regs (en s)) E_completed_desc_count) ?s1) = of_nat (desc_num x)"
    by (simp add: rd_value engine_service_shutdown_def xdma_engine_stop_def engine_status_read_def split_beta
        wake_up_def set_en_def assms(11) done_resp_def)
  have e0: "heap s0 = heap s" "en s0 = (en s)\<lparr>e_status := 0, e_running := False\<rparr>"
    "s_pages s0 = s_pages s" "\<not> s_poll_mode s0" "s_msix s0 = s_msix s" "s_cfg_bar s0 = s_cfg_bar s"
    using st assms(10) by (simp_all add: s0_def engine_service_shutdown_def)
  let ?s' = "wake_up (W_transfer t) (set_en (\<lambda>e. e\<lparr>e_desc_dequeued := e_desc_dequeued e + desc_num x\<rparr>)
    (set_en (\<lambda>e. e\<lparr>transfer_list := []\<rparr>) (put_transfer t (x\<lparr>t_state := STATE_COMPLETED\<rparr>) s0)))"
  have l: "list_first s0 = Some t" using assms(2) e0(2) by (simp add: list_first_def)
  have "service_list_loop (Some t) (of_nat (desc_num x)) s0 = Some (Some t, of_nat (desc_num x), s0)"
    using e0(1) assms(3) by (subst service_list_loop.simps) simp
  moreover have "engine_service_final_transfer (Some t) (of_nat (desc_num x)) s0 = Some (Some t, ?s')"
    using assms(2,3,5) e0
    by (simp add: engine_service_final_transfer_def list_del_head_def engine_transfer_completion_def)
  ultimately have "engine_service_queue (of_nat (desc_num x)) s0 = Some ?s'"
    using l assms(7-9) e0
    by (simp add: engine_service_queue_def engine_service_perf_def engine_service_transfer_list_def engine_service_resume_def)
  then have "engine_service 0 s = Some (0, ?s')"
    using assms(1) st cnt by (simp add: engine_service_def Let_def split_beta s0_def)
  then show ?thesis using e0 assms(9) by (intro exI [of _ ?s']) simp
qed

lemma isr_wait_completes:
  assumes "e_magic (en s) = MAGIC_ENGINE" "\<not> e_locked (en s)" "e_running (en s)" "transfer_list (en s) = [t]"
    and "heap s t = Some x" "\<not> t_cyclic x" "t_iocb x = None" "desc_num x < 2 ^ 31" "t_state x = STATE_SUBMITTED"
    and "e_perf (en s) = None" "e_shutdown (en s) = 0" "e_desc_dequeued (en s) = 0" "rx_cyclic (en s) = None"
    and "\<not> s_poll_mode s"
  shows "\<exists>s'. isr_wait (\<lambda>s. map_option t_state (heap s t) \<noteq> Some STATE_SUBMITTED) s = (0, s') \<and>
    en s' = (en s)\<lparr>e_status := 0, e_running := False, transfer_list := [], e_desc_dequeued := desc_num x\<rparr> \<and>
    heap s' = (heap s)(t \<mapsto> x\<lparr>t_state := STATE_COMPLETED\<rparr>) \<and> s_pages s' = s_pages s \<and> \<not> s_poll_mode s'"
proof -
  let ?r = "s\<lparr>s_bus := (s_bus s)\<lparr>resp := done_resp (en s) (num_of s t)\<rparr>\<rparr>"
  let ?l = "set_en (\<lambda>e. e\<lparr>e_locked := True\<rparr>) ?r"
  have d: "done_resp (en s) (num_of s t) = done_resp (en ?l) (desc_num x)"
    using assms(5) by (simp add: done_resp_def num_of_def)
  obtain s1 where s1: "engine_service 0 ?l = Some (0, s1)"
    "en s1 = (en ?l)\<lparr>e_status := 0, e_running := False, transfer_list := [], e_desc_dequeued := desc_num x\<rparr>"
    "heap s1 = (heap ?l)(t \<mapsto> x\<lparr>t_state := STATE_COMPLETED\<rparr>)" "s_pages s1 = s_pages ?l" "\<not> s_poll_mode s1"
    using single_service [of ?l t x] assms(3-14) d by auto
  define s2 where "s2 = (if s_msix s1 then wr (e_ie_mask (en s1)) (ereg (e_regs (en s1)) E_interrupt_enable_mask_w1s) s1
     else s1\<lparr>s_bus := channel_interrupts_enable (s_cfg_bar s1) (e_irq_bitmask (en s1)) (s_bus s1)\<rparr>)"
  have s2: "en s2 = en s1" "heap s2 = heap s1" "s_pages s2 = s_pages s1" "s_poll_mode s2 = s_poll_mode s1"
    by (simp_all add: s2_def)
  have l: "lock_engine ?r = Some ?l" "rx_cyclic (en ?l) = None" using assms(2,13) by (simp_all add: lock_engine_def)
  have "engine_service_work [] ?r = Some (unlock_engine s2)"
    unfolding engine_service_work_def s2_def using assms(1) l s1(1) by simp
  moreover have "en (unlock_engine s2) =
      (en s)\<lparr>e_status := 0, e_running := False, transfer_list := [], e_desc_dequeued := desc_num x\<rparr>"
    using assms(2) s1(2) s2 by simp
  moreover have "heap (unlock_engine s2) = (heap s)(t \<mapsto> x\<lparr>t_state := STATE_COMPLETED\<rparr>)"
    "s_pages (unlock_engine s2) = s_pages s" "\<not> s_poll_mode (unlock_engine s2)"
    using s1(3-5) s2 by simp_all
  moreover have "transfer_list (en s) = t # []" "heap s t = Some x" "t_state x = STATE_SUBMITTED"
    using assms(4,5,9) by simp_all
  ultimately show ?thesis
    by (intro exI [of _ "unlock_engine s2"]) (simp add: isr_wait_def)
qed

section \<open>A synchronous request from end to end\<close>

definition pins_all :: "kernel \<Rightarrow> bool" where
  "pins_all K \<longleftrightarrow> (\<forall>start n wr. fst (k_gup K start n wr) = n)"

lemma created:
  assumes "kernel_ok K" "pins_all K" "buffer_ok start cnt"
  obtains x w w2 where "transfer_create K start cnt ep dir non_incr False True w0 = Some (Some x, w)"
    "transfer_destroy x w = Some w2" "p_refs w2 = p_refs w0"
    "0 < desc_num x" "desc_num x < 2 ^ 31" "\<not> t_cyclic x" "t_iocb x = None"
proof -
  have p: "pages_ok K dir True start cnt" using assms(2) by (simp add: pages_ok_def pins_all_def Let_def)
  obtain x w where c: "transfer_create K start cnt ep dir non_incr False True w0 = Some (Some x, w)"
    "transfer_ok K dir non_incr False True start cnt ep x"
    using transfer_create_spec [OF assms(1) p assms(3), of ep non_incr False w0] by auto
  obtain w2 where d: "transfer_destroy x w = Some w2" "p_refs w2 = p_refs w0"
    using destroy_created [OF assms(1) p assms(3) c(1)] by blast
  have "0 < desc_num x" "desc_num x < 2 ^ 31" "\<not> t_cyclic x" "t_iocb x = None"
    using c(2) unfolding transfer_ok_def by auto
  with that [OF c(1) d] show thesis by blast
qed

text \<open>What no transfer changes in an engine.\<close>

definition engine_config :: "xdma_engine \<Rightarrow> (u64 \<times> u64) \<times> (bool \<times> bool \<times> bool) \<times> u32 \<times> u32" where
  "engine_config e = ((e_regs e, e_sgdma_regs e), (e_dir_to_dev e, e_non_incr_addr e, e_streaming e),
     e_addr_align e, e_len_granularity e)"

text \<open>\<open>s1\<close> is \<open>s\<close> with the transfer \<open>x\<close> queued as \<open>t\<close> and the idle engine started on it.\<close>

definition started :: "est \<Rightarrow> nat \<Rightarrow> xdma_transfer \<Rightarrow> est \<Rightarrow> bool" where
  "started s t x s1 \<longleftrightarrow> transfer_list (en s1) = [t] \<and> heap s1 t = Some (x\<lparr>t_state := STATE_SUBMITTED\<rparr>) \<and>
     engine_config (en s1) = engine_config (en s) \<and>
     writes (s_bus s1) = writes (s_bus s) @ start_writes (s_poll_mode s) (en s) x"

lemma transfer_round:
  assumes "idle s" "0 < desc_num x" "desc_num x < 2 ^ 31" "\<not> t_cyclic x" "t_iocb x = None"
  shows "\<exists>s1 s2. transfer_queue t (put_transfer t x s) = Some (0, s1) \<and> transfer_monitor isr_env t s1 = Some (0, s2) \<and>
    heap s2 = (heap s)(t \<mapsto> x\<lparr>t_state := STATE_COMPLETED\<rparr>) \<and> s_pages s2 = s_pages s \<and>
    idle s2 \<and> engine_config (en s2) = engine_config (en s) \<and> started s t x s1"
proof -
  let ?p = "put_transfer t x s"
  have i: "e_magic (en s) = MAGIC_ENGINE" "\<not> e_locked (en s)" "\<not> e_running (en s)" "transfer_list (en s) = []"
    "e_shutdown (en s) = 0" "e_perf (en s) = None" "rx_cyclic (en s) = None" "\<not> s_poll_mode s"
    using assms(1) by (simp_all add: idle_def)
  obtain s1 where s1: "transfer_queue t ?p = Some (0, s1)"
    "en s1 = (en ?p)\<lparr>e_shutdown := 0, e_desc_dequeued := 0, e_running := True, transfer_list := [t], e_locked := False\<rparr>"
    "heap s1 = (heap ?p)(t \<mapsto> x\<lparr>t_state := STATE_SUBMITTED\<rparr>)" "s_pages s1 = s_pages ?p" "s_poll_mode s1 = s_poll_mode ?p"
    "writes (s_bus s1) = writes (s_bus ?p) @ start_writes (s_poll_mode ?p) (en ?p) x"
    using queue_idle_spec [of ?p t x] assms(2) i by auto
  obtain s2 where s2: "isr_wait (\<lambda>s. map_option t_state (heap s t) \<noteq> Some STATE_SUBMITTED) s1 = (0, s2)"
    "en s2 = (en s1)\<lparr>e_status := 0, e_running := False, transfer_list := [], e_desc_dequeued := desc_num x\<rparr>"
    "heap s2 = (heap s1)(t \<mapsto> x\<lparr>t_state := STATE_COMPLETED\<rparr>)" "s_pages s2 = s_pages s1" "\<not> s_poll_mode s2"
    using isr_wait_completes [of s1 t "x\<lparr>t_state := STATE_SUBMITTED\<rparr>"] s1 i assms(2-5) by auto
  have "transfer_monitor isr_env t s1 = Some (0, s2)"
    using s1(5) s2(1) i(8) by (simp add: transfer_monitor_def isr_env_def)
  with s1 s2 i show ?thesis by (intro exI [of _ s1] exI [of _ s2]) (simp add: idle_def started_def engine_config_def)
qed

text \<open>One round of the loop of \<open>transfer_data\<close>.\<close>

lemma transfer_data_step:
  assumes "idle s" "kernel_ok K" "pins_all K" "0 < n" "n \<le> r" "r \<le> XDMA_TRANSFER_MAX_BYTES \<longrightarrow> n = r"
    and "XDMA_TRANSFER_MAX_BYTES < r \<longrightarrow> n = XDMA_TRANSFER_MAX_BYTES" "buffer_ok addr (of_nat n)"
  shows "\<exists>s'. transfer_data_loop K isr_env t addr (int r) done pos s =
      transfer_data_loop K isr_env (Suc t) (addr + of_nat n) (int (r - n)) (done + int n) (pos + of_nat n) s' \<and>
    idle s' \<and> p_refs (s_pages s') = p_refs (s_pages s) \<and> heap s' = (heap s)(t := None)"
proof -
  obtain x w w2 where x: "transfer_create K addr (of_nat n) pos (e_dir_to_dev (en s)) (e_non_incr_addr (en s)) False True (s_pages s) = Some (Some x, w)"
    "transfer_destroy x w = Some w2" "p_refs w2 = p_refs (s_pages s)"
    "0 < desc_num x" "desc_num x < 2 ^ 31" "\<not> t_cyclic x" "t_iocb x = None"
    by (rule created [OF assms(2,3,8)])
  define y where "y = (if int n \<ge> int r then x\<lparr>last_in_request := True, size_of_request := done + int n\<rparr> else x)"
  have y: "0 < desc_num y" "desc_num y < 2 ^ 31" "\<not> t_cyclic y" "t_iocb y = None"
    using x(4-7) by (simp_all add: y_def)
  have yd: "transfer_destroy (y\<lparr>t_state := STATE_COMPLETED\<rparr>) w = Some w2"
    unfolding x(2) [symmetric] by (rule transfer_destroy_cong) (simp_all add: y_def)
  have idl: "idle (s\<lparr>s_pages := w\<rparr>)" using assms(1) by (simp add: idle_def)
  obtain s1 s2 where s: "transfer_queue t (put_transfer t y (s\<lparr>s_pages := w\<rparr>)) = Some (0, s1)"
    "transfer_monitor isr_env t s1 = Some (0, s2)" "heap s2 = (heap s)(t \<mapsto> y\<lparr>t_state := STATE_COMPLETED\<rparr>)"
    "s_pages s2 = w" "idle s2"
    using transfer_round [OF idl y(1-4), of t] by auto
  let ?s' = "s2\<lparr>s_pages := w2, heap := (heap s2)(t := None)\<rparr>"
  have len: "(if int r > int XDMA_TRANSFER_MAX_BYTES then int XDMA_TRANSFER_MAX_BYTES else int r) = int n"
    using assms(6,7) by auto
  have nz: "\<not> \<not> 0 < int r" using assms(4,5) by simp
  have "transfer_data_loop K isr_env t addr (int r) done pos s =
      transfer_data_loop K isr_env (Suc t) (addr + of_nat n) (int r - int n) (done + int n) (pos + of_nat n) ?s'"
    by (subst transfer_data_loop.simps, unfold len if_not_P [OF nz])
      (use x(1) s(1-4) yd in \<open>cases "r \<le> n"; simp add: y_def Let_def\<close>)
  moreover have "idle ?s'" using s(5) by (simp add: idle_def)
  ultimately show ?thesis using assms(5) x(3) s(3) by (intro exI [of _ ?s']) (simp add: of_nat_diff)
qed

lemma transfer_data_loop_complete:
  assumes "kernel_ok K" "pins_all K"
  shows "idle s \<Longrightarrow> unat addr + r < 2 ^ 64 \<Longrightarrow>
    \<exists>s'. transfer_data_loop K isr_env t addr (int r) done pos s = Some (0, done + int r, pos + of_nat r, s') \<and>
      idle s' \<and> p_refs (s_pages s') = p_refs (s_pages s) \<and>
      (\<forall>u. heap s' u = (if t \<le> u \<and> u < t + (r + XDMA_TRANSFER_MAX_BYTES - 1) div XDMA_TRANSFER_MAX_BYTES then None else heap s u))"
proof (induction r arbitrary: t addr "done" pos s rule: less_induct)
  case (less r)
  define M where "M = XDMA_TRANSFER_MAX_BYTES"
  have M: "0 < M" "M < 2 ^ 42" by (simp_all add: M_def XDMA_TRANSFER_MAX_BYTES_def)
  show ?case
  proof (cases "r = 0")
    case True
    moreover have "(M - 1) div M = 0" using M(1) by simp
    ultimately show ?thesis using less.prems(1) by (subst transfer_data_loop.simps) (auto simp: M_def [symmetric])
  next
    case False
    define n where "n = min r M"
    have n: "0 < n" "n \<le> r" "r \<le> M \<longrightarrow> n = r" "M < r \<longrightarrow> n = M" using False M(1) by (auto simp: n_def)
    have un: "unat (of_nat n :: u64) = n" using n(2) less.prems(2) by (simp add: unsigned_of_nat take_bit_nat_eq_self)
    have b: "buffer_ok addr (of_nat n)" unfolding buffer_ok_def un using n less.prems(2) M(2) by (auto simp: n_def)
    obtain s1 where s1: "transfer_data_loop K isr_env t addr (int r) done pos s =
      transfer_data_loop K isr_env (Suc t) (addr + of_nat n) (int (r - n)) (done + int n) (pos + of_nat n) s1"
      "idle s1" "p_refs (s_pages s1) = p_refs (s_pages s)" "heap s1 = (heap s)(t := None)"
      using transfer_data_step [OF less.prems(1) assms n(1,2) n(3,4) [unfolded M_def] b] by blast
    have lt: "r - n < r" using n(1,2) by simp
    have ua: "unat (addr + of_nat n) + (r - n) < 2 ^ 64"
    proof -
      have "unat (addr + of_nat n) = unat addr + n"
        using less.prems(2) n(2) un by (subst unat_add_lem [THEN iffD1]) simp_all
      then show ?thesis using less.prems(2) n(2) by simp
    qed
    obtain s' where s': "transfer_data_loop K isr_env (Suc t) (addr + of_nat n) (int (r - n)) (done + int n) (pos + of_nat n) s1
        = Some (0, done + int n + int (r - n), pos + of_nat n + of_nat (r - n), s')" "idle s'"
      "p_refs (s_pages s') = p_refs (s_pages s1)"
      "\<forall>u. heap s' u = (if Suc t \<le> u \<and> u < Suc t + (r - n + M - 1) div M then None else heap s1 u)"
      using less.IH [OF lt s1(2) ua] unfolding M_def by blast
    have k: "Suc ((r - n + M - 1) div M) = (r + M - 1) div M"
    proof (cases "r \<le> M")
      case True
      then have "(r + M - 1) div M = 1" using False M(1) by (intro div_nat_eqI) simp_all
      moreover have "(M - 1) div M = 0" using M(1) by simp
      ultimately show ?thesis using True n(3) by simp
    next
      case False
      then have "r + M - 1 = (r - n + M - 1) + M" using n(4) by simp
      then have "(r + M - 1) div M = ((r - n + M - 1) + M) div M" by (rule arg_cong)
      also have "\<dots> = Suc ((r - n + M - 1) div M)" using M(1) by (subst div_add_self2) simp_all
      finally show ?thesis by (rule sym)
    qed
    have "done + int n + int (r - n) = done + int r" "of_nat n + of_nat (r - n) = (of_nat r :: u64)"
      using n(2) by (simp_all flip: of_nat_add)
    then have "transfer_data_loop K isr_env t addr (int r) done pos s = Some (0, done + int r, pos + of_nat r, s')"
      using s1(1) s'(1) by (simp add: add.assoc)
    moreover have "heap s' u = (if t \<le> u \<and> u < t + (r + M - 1) div M then None else heap s u)" for u
      unfolding k [symmetric] using s'(4) s1(4) by (cases "u = t") auto
    ultimately show ?thesis using s'(2,3) s1(3) unfolding M_def by auto
  qed
qed

text \<open>
  C6: a synchronous request from end to end. On an idle engine, with a kernel that behaves as
  documented and an environment in which the device completes every transfer and the driver's own
  interrupt service is run, a read or write of any size that passes the checks transfers all its
  bytes in transfers of at most 8 MiB: it returns the number of bytes asked for, advances the file
  position by it, and leaves the engine idle, every transfer freed and no page reference behind.
\<close>

theorem read_write_complete:
  assumes "kernel_ok K" "pins_all K" "idle s" "unat buf + unat count < 2 ^ 64" "unat count < 2 ^ 63"
    and "dir = e_dir_to_dev (en s)" "check_transfer_align (en s) buf count pos True = 0" "\<forall>u \<ge> t. heap s u = None"
  shows "\<exists>s'. char_sgdma_read_write K isr_env t buf count pos dir s = Some (int (unat count), pos + count, s') \<and>
    idle s' \<and> heap s' = heap s \<and> p_refs (s_pages s') = p_refs (s_pages s)"
proof -
  obtain s' where "transfer_data_loop K isr_env t buf (int (unat count)) 0 pos s =
      Some (0, 0 + int (unat count), pos + of_nat (unat count), s')"
    "idle s'" "p_refs (s_pages s') = p_refs (s_pages s)"
    "\<forall>u. heap s' u = (if t \<le> u \<and> u < t + (unat count + XDMA_TRANSFER_MAX_BYTES - 1) div XDMA_TRANSFER_MAX_BYTES
       then None else heap s u)"
    using transfer_data_loop_complete [OF assms(1-4)] by blast
  moreover from this have "heap s' = heap s" using assms(8) by auto
  moreover have "sint count = int (unat count)" by (rule sint_small64 [OF assms(5)])
  ultimately show ?thesis using assms(3,6,7)
    by (intro exI [of _ s']) (simp add: char_sgdma_read_write_def transfer_data_def idle_def)
qed

lemma demo_kernel_pins: "pins_all demo_kernel"
  by (simp add: pins_all_def demo_kernel_def pin_all_def)

lemma demo_est_idle: "idle (demo_est r)"
  by (simp add: idle_def demo_est_def demo_engine_def)

theorem read_write_complete_witness:
  "\<exists>s'. char_sgdma_read_write demo_kernel isr_env 9 0x1ff0 0x1000000 0x40000000 True (demo_est (\<lambda>_ _. 0)) =
     Some (0x1000000, 0x41000000, s') \<and> idle s'"
  using read_write_complete [OF demo_kernel_ok demo_kernel_pins demo_est_idle, of "0x1ff0" "0x1000000" True "\<lambda>_ _. 0" "0x40000000" 9]
  by (auto simp: demo_est_def demo_engine_def check_transfer_align_def)

section \<open>A failing transfer\<close>

text \<open>
  The device stops with a read error on the first descriptor, the driver's interrupt service is run,
  then a signal ends the wait (nothing else would: a failed transfer is not woken).
\<close>

definition err_wait :: "(est \<Rightarrow> bool) \<Rightarrow> est \<Rightarrow> int \<times> est" where
  "err_wait c s =
    (case engine_service_work [] (s\<lparr>s_bus := (s_bus s)\<lparr>resp :=
        (\<lambda>_ a. if a = ereg (e_regs (en s)) E_status_rc then 0x200 else 0)\<rparr>\<rparr>) of
       None \<Rightarrow> (- ERESTARTSYS, s)
     | Some s' \<Rightarrow> (- ERESTARTSYS, s'))"

definition err_env :: sgdma_env where
  "err_env = isr_env\<lparr>w_wait := err_wait\<rparr>"

lemma err_wait_fails:
  assumes "e_magic (en s) = MAGIC_ENGINE" "\<not> e_locked (en s)" "e_running (en s)" "transfer_list (en s) = [t]"
    and "heap s t = Some x" "\<not> t_cyclic x" "t_iocb x = None" "0 < desc_num x" "desc_num x < 2 ^ 31"
    and "e_perf (en s) = None" "e_shutdown (en s) = 0" "e_desc_dequeued (en s) = 0" "rx_cyclic (en s) = None"
    and "\<not> s_poll_mode s"
  shows "\<exists>s'. err_wait c s = (- ERESTARTSYS, s') \<and> heap s' = (heap s)(t \<mapsto> x\<lparr>t_state := STATE_FAILED\<rparr>) \<and>
    transfer_list (en s') = [t] \<and> e_running (en s') \<and> e_perf (en s') = None \<and> \<not> e_locked (en s') \<and>
    e_magic (en s') = MAGIC_ENGINE \<and> rx_cyclic (en s') = None \<and> s_pages s' = s_pages s"
proof -
  let ?r = "s\<lparr>s_bus := (s_bus s)\<lparr>resp := (\<lambda>_ a. if a = ereg (e_regs (en s)) E_status_rc then 0x200 else 0)\<rparr>\<rparr>"
  let ?l = "set_en (\<lambda>e. e\<lparr>e_locked := True\<rparr>) ?r"
  have st: "irq_status ?l = 0x200" by (simp add: irq_status_def rd_value)
  have cnt: "irq_count ?l = 0"
    by (simp add: irq_count_def rd_value engine_service_shutdown_def xdma_engine_stop_def engine_status_read_def
        split_beta wake_up_def set_en_def)
  have pl: "plain ?l [t]" using assms(5-9) by (simp add: plain_def)
  have f: "irq_status ?l AND XDMA_STAT_BUSY = 0" "irq_status ?l AND err_flags \<noteq> 0" "unat (irq_count ?l) \<le> desc_num x"
    unfolding st cnt by (simp_all add: err_flags_def bits)
  obtain s1 where s1: "engine_service 0 ?l = Some (0, s1)" "transfer_list (en s1) = [t]" "e_running (en s1)"
    "heap s1 = (heap ?l)(t \<mapsto> x\<lparr>t_state := STATE_FAILED\<rparr>)" "s_pages s1 = s_pages ?l"
    "en s1 = (en ?l)\<lparr>e_status := irq_status ?l, e_shutdown := 0, e_desc_dequeued := 0,
      poll_wb := (if s_poll_mode ?l then 0 else poll_wb (en ?l))\<rparr>"
    using engine_service_error_spec [of ?l t "[]" x, OF _ _ _ pl _ _ _ f] assms(3,4,5,10-12) by auto
  have lk: "lock_engine ?r = Some ?l" "rx_cyclic (en ?l) = None" using assms(2,13) by (simp_all add: lock_engine_def)
  define s2 where "s2 = (if s_msix s1 then wr (e_ie_mask (en s1)) (ereg (e_regs (en s1)) E_interrupt_enable_mask_w1s) s1
     else s1\<lparr>s_bus := channel_interrupts_enable (s_cfg_bar s1) (e_irq_bitmask (en s1)) (s_bus s1)\<rparr>)"
  have s2: "en s2 = en s1" "heap s2 = heap s1" "s_pages s2 = s_pages s1" by (simp_all add: s2_def)
  have "engine_service_work [] ?r = Some (unlock_engine s2)"
    unfolding engine_service_work_def s2_def using assms(1) lk s1(1) by simp
  then have "err_wait c s = (- ERESTARTSYS, unlock_engine s2)" by (simp add: err_wait_def)
  moreover have "e_perf (en s1) = None" "e_magic (en s1) = MAGIC_ENGINE" "rx_cyclic (en s1) = None"
    by (subst s1(6), use assms(1,10,13) in simp)+
  ultimately show ?thesis using s1(2-5) s2 by (intro exI [of _ "unlock_engine s2"]) simp
qed

lemma service_freed_head:
  assumes "e_running (en s)" "transfer_list (en s) = t # q" "heap s t = None"
  shows "engine_service wb s = None"
proof -
  have h: "heap (engine_service_perf c s) = heap s" for c and s :: est
    by (simp add: engine_service_perf_def Let_def split: option.splits)
  have "engine_service_queue c s0 = None" if "transfer_list (en s0) = t # q" "heap s0 t = None" for c s0
    using that h by (simp add: engine_service_queue_def list_first_def engine_service_transfer_list_def service_list_loop.simps)
  then show ?thesis using assms
    by (simp add: engine_service_def Let_def split_beta engine_service_shutdown_def)
qed

text \<open>
  C18: a failed transfer is freed while the engine still has it. When the device reports an error
  for a synchronous transfer and the caller leaves its wait, \<open>transfer_data\<close> returns \<open>-EIO\<close> and
  frees the transfer, but the transfer is still at the head of the queue of the restarted engine: the
  next interrupt service works on freed memory.
\<close>

theorem failed_transfer_use_after_free:
  assumes "kernel_ok K" "pins_all K" "idle s" "0 < r" "r \<le> XDMA_TRANSFER_MAX_BYTES" "unat addr + r < 2 ^ 64"
  shows "\<exists>s'. transfer_data K err_env t addr (int r) pos s = Some (- EIO, pos, s') \<and>
    heap s' t = None \<and> transfer_list (en s') = [t] \<and> e_running (en s') \<and> engine_service_work obs s' = None"
proof -
  have un: "unat (of_nat r :: u64) = r" using assms(6) by (simp add: unsigned_of_nat take_bit_nat_eq_self)
  have b: "buffer_ok addr (of_nat r)"
    unfolding buffer_ok_def un using assms(4-6) by (auto simp: XDMA_TRANSFER_MAX_BYTES_def)
  obtain x w w2 where x: "transfer_create K addr (of_nat r) pos (e_dir_to_dev (en s)) (e_non_incr_addr (en s)) False True (s_pages s) = Some (Some x, w)"
    "transfer_destroy x w = Some w2" "0 < desc_num x" "desc_num x < 2 ^ 31" "\<not> t_cyclic x" "t_iocb x = None"
    by (rule created [OF assms(1,2) b])
  let ?y = "x\<lparr>last_in_request := True, size_of_request := int r\<rparr>"
  have yd: "transfer_destroy (?y\<lparr>t_state := STATE_FAILED\<rparr>) w = Some w2"
    unfolding x(2) [symmetric] by (rule transfer_destroy_cong) simp_all
  let ?p = "put_transfer t ?y (s\<lparr>s_pages := w\<rparr>)"
  have i: "e_magic (en s) = MAGIC_ENGINE" "\<not> e_locked (en s)" "\<not> e_running (en s)" "transfer_list (en s) = []"
    "e_shutdown (en s) = 0" "e_perf (en s) = None" "rx_cyclic (en s) = None" "\<not> s_poll_mode s"
    using assms(3) by (simp_all add: idle_def)
  obtain s1 where s1: "transfer_queue t ?p = Some (0, s1)"
    "en s1 = (en ?p)\<lparr>e_shutdown := 0, e_desc_dequeued := 0, e_running := True, transfer_list := [t], e_locked := False\<rparr>"
    "heap s1 = (heap ?p)(t \<mapsto> ?y\<lparr>t_state := STATE_SUBMITTED\<rparr>)" "s_pages s1 = s_pages ?p" "s_poll_mode s1 = s_poll_mode ?p"
    using queue_idle_spec [of ?p t ?y] x(3) i by auto
  let ?c = "\<lambda>s. map_option t_state (heap s t) \<noteq> Some STATE_SUBMITTED"
  obtain s2 where s2: "err_wait ?c s1 = (- ERESTARTSYS, s2)"
    "heap s2 = (heap s1)(t \<mapsto> ?y\<lparr>t_state := STATE_FAILED\<rparr>)" "transfer_list (en s2) = [t]" "e_running (en s2)"
    "e_perf (en s2) = None" "\<not> e_locked (en s2)" "e_magic (en s2) = MAGIC_ENGINE" "rx_cyclic (en s2) = None"
    "s_pages s2 = s_pages s1"
    using err_wait_fails [of s1 t "?y\<lparr>t_state := STATE_SUBMITTED\<rparr>" ?c] s1 i x(3-6) by auto
  have m: "transfer_monitor err_env t s1 = Some (- ERESTARTSYS, s2)"
    using s1(5) s2(1) i(8) by (simp add: transfer_monitor_def err_env_def)
  let ?s' = "s2\<lparr>s_pages := w2, heap := (heap s2)(t := None)\<rparr>"
  have len: "(if int r > int XDMA_TRANSFER_MAX_BYTES then int XDMA_TRANSFER_MAX_BYTES else int r) = int r"
    using assms(5) by simp
  have nz: "\<not> \<not> 0 < int r" using assms(4) by simp
  have "transfer_data_loop K err_env t addr (int r) 0 pos s = Some (- EIO, 0, pos, ?s')"
    by (subst transfer_data_loop.simps, unfold len if_not_P [OF nz])
      (use x(1) s1(1,4) m s2(2,9) yd in \<open>simp add: Let_def EIO_def\<close>)
  then have "transfer_data K err_env t addr (int r) pos s = Some (- EIO, pos, ?s')"
    by (simp add: transfer_data_def EIO_def)
  moreover have "engine_service_work obs ?s' = None"
    using s2(3,4,6,7,8)
    by (simp add: engine_service_work_def lock_engine_def service_freed_head [where t = t and q = "[]"])
  ultimately show ?thesis using s2(3,4) by (intro exI [of _ ?s']) simp
qed

theorem failed_transfer_use_after_free_witness:
  "\<exists>s'. transfer_data demo_kernel err_env 9 0x1ff0 0x2000 0 (demo_est (\<lambda>_ _. 0)) = Some (- EIO, 0, s') \<and>
     transfer_list (en s') = [9] \<and> heap s' 9 = None"
  using failed_transfer_use_after_free [OF demo_kernel_ok demo_kernel_pins demo_est_idle, of "0x2000" "0x1ff0" 9 0 "\<lambda>_ _. 0" "[]"]
  by (auto simp: XDMA_TRANSFER_MAX_BYTES_def)

section \<open>Asynchronous requests\<close>

lemma created_aio:
  assumes "kernel_ok K" "pins_all K" "buffer_ok start cnt"
  obtains x w where "transfer_create K start cnt pos dir False False True w0 = Some (Some x, w)"
    "transfer_ok K dir False False True start cnt pos x"
proof -
  have p: "pages_ok K dir True start cnt" using assms(2) by (simp add: pages_ok_def pins_all_def Let_def)
  show thesis using transfer_create_spec [OF assms(1) p assms(3), of pos False False w0] that by auto
qed

lemma created_first:
  assumes "transfer_ok K dir False False True start cnt pos x"
  shows "0 < desc_num x \<and> desc_ep dir (desc_virt x ! 0) = pos \<and> \<not> last_in_request x"
proof -
  obtain bl where bl: "bl \<noteq> []" "desc_num x = length bl" "\<not> last_in_request x"
    "\<forall>m < length bl. final_desc dir (desc_bus x) (length bl) m (bl ! m) (desc_virt x ! m)"
    "ep_seq (True \<and> False) pos bl \<noteq> None"
    using assms unfolding transfer_ok_def by blast
  then have "desc_ep dir (desc_virt x ! 0) = fst (snd (bl ! 0))" by (simp add: final_desc_def)
  also have "\<dots> = pos" using ep_seq_nth [OF bl(5), of 0] bl(1) by simp
  finally show ?thesis using bl(1-3) by auto
qed

text \<open>The number of transfers a segment of \<open>n\<close> bytes is cut into, and transfer \<open>j\<close> of them.\<close>

definition pieces :: "nat \<Rightarrow> nat" where
  "pieces n = (n + XDMA_TRANSFER_MAX_BYTES - 1) div XDMA_TRANSFER_MAX_BYTES"

lemma pieces_0: "pieces 0 = 0"
  by (simp add: pieces_def XDMA_TRANSFER_MAX_BYTES_def)

lemma pieces_Suc:
  assumes "0 < n"
  shows "pieces n = Suc (pieces (n - min n XDMA_TRANSFER_MAX_BYTES))"
proof (cases "n \<le> XDMA_TRANSFER_MAX_BYTES")
  case True
  have "(n + XDMA_TRANSFER_MAX_BYTES - 1) div XDMA_TRANSFER_MAX_BYTES = Suc ((n - 1) div XDMA_TRANSFER_MAX_BYTES)"
    using assms div_add_self2 [of XDMA_TRANSFER_MAX_BYTES "n - 1"] by (simp add: XDMA_TRANSFER_MAX_BYTES_def)
  moreover have "(n - 1) div XDMA_TRANSFER_MAX_BYTES = 0" using True assms by simp
  ultimately show ?thesis using True by (simp add: pieces_def XDMA_TRANSFER_MAX_BYTES_def)
next
  case False
  define m where "m = n - XDMA_TRANSFER_MAX_BYTES"
  have "n + XDMA_TRANSFER_MAX_BYTES - 1 = (m + XDMA_TRANSFER_MAX_BYTES - 1) + XDMA_TRANSFER_MAX_BYTES"
    using False by (simp add: m_def XDMA_TRANSFER_MAX_BYTES_def)
  then have "pieces n = Suc (pieces m)"
    unfolding pieces_def by (simp only: div_add_self2) (simp add: XDMA_TRANSFER_MAX_BYTES_def)
  then show ?thesis using False by (simp add: m_def min_def)
qed

definition aio_piece :: "kernel \<Rightarrow> nat \<Rightarrow> bool \<Rightarrow> u64 \<Rightarrow> u64 \<Rightarrow> nat \<Rightarrow> bool \<Rightarrow> int \<Rightarrow> xdma_transfer \<Rightarrow> bool" where
  "aio_piece K iocb dir pos start len fin size_req x \<longleftrightarrow> (\<exists>x0. transfer_ok K dir False False True start (of_nat len) pos x0 \<and>
     x = x0\<lparr>t_iocb := Some iocb, last_in_request := fin, size_of_request := (if fin then size_req else 0), t_state := STATE_SUBMITTED\<rparr>)"

definition aio_queued :: "kernel \<Rightarrow> nat \<Rightarrow> bool \<Rightarrow> u64 \<Rightarrow> nat \<Rightarrow> u64 \<Rightarrow> nat \<Rightarrow> int \<Rightarrow> est \<Rightarrow> bool" where
  "aio_queued K iocb dir pos t addr n size_req s \<longleftrightarrow> (\<forall>j < pieces n. \<exists>x. heap s (t + j) = Some x \<and>
     aio_piece K iocb dir pos (addr + of_nat (j * XDMA_TRANSFER_MAX_BYTES))
       (min XDMA_TRANSFER_MAX_BYTES (n - j * XDMA_TRANSFER_MAX_BYTES)) (Suc j = pieces n) size_req x)"

lemma aio_queued_Suc:
  assumes "0 < n" "l = min n XDMA_TRANSFER_MAX_BYTES"
    and "heap s t = Some x" "aio_piece K iocb dir pos addr l (l = n) size_req x"
    and "aio_queued K iocb dir pos (Suc t) (addr + of_nat l) (n - l) size_req s"
  shows "aio_queued K iocb dir pos t addr n size_req s"
  unfolding aio_queued_def
proof (intro allI impI)
  let ?M = XDMA_TRANSFER_MAX_BYTES
  note p = pieces_Suc [OF assms(1), folded assms(2)]
  fix j assume j: "j < pieces n"
  show "\<exists>x. heap s (t + j) = Some x \<and> aio_piece K iocb dir pos (addr + of_nat (j * ?M)) (min ?M (n - j * ?M)) (Suc j = pieces n) size_req x"
  proof (cases j)
    case 0
    have "(Suc 0 = pieces n) = (l = n)"
    proof -
      have "pieces (n - l) = 0 \<longleftrightarrow> n - l = 0" using pieces_0 pieces_Suc [of "n - l"] by (cases "n - l") auto
      then show ?thesis using p assms(2) by auto
    qed
    then show ?thesis using 0 assms(2-4) by (auto simp: min.commute)
  next
    case (Suc i)
    then have i: "i < pieces (n - l)" using j p by simp
    then have "n - l \<noteq> 0" using pieces_0 by (cases "n - l") auto
    then have l: "l = ?M" using assms(2) by auto
    obtain y where y: "heap s (Suc t + i) = Some y" "aio_piece K iocb dir pos (addr + of_nat l + of_nat (i * ?M))
       (min ?M (n - l - i * ?M)) (Suc i = pieces (n - l)) size_req y"
      using assms(5) i unfolding aio_queued_def by blast
    then show ?thesis using Suc p by (auto simp: l algebra_simps)
  qed
qed

text \<open>One round of the loop: a transfer is created and queued, on an engine that runs or is idle.\<close>

lemma aio_round:
  assumes "kernel_ok K" "pins_all K" "0 < n" "l = min n XDMA_TRANSFER_MAX_BYTES" "unat addr + n < 2 ^ 64" "n < 2 ^ 63"
    and "\<not> e_locked (en s)" "e_shutdown (en s) = 0" "e_running (en s) \<or> transfer_list (en s) = []"
  shows "\<exists>s1 x. aio_segment K iocb dir pos t addr n done s =
      aio_segment K iocb dir pos (Suc t) (addr + of_nat l) (n - l) (done + l) s1 \<and>
    transfer_list (en s1) = transfer_list (en s) @ [t] \<and> heap s1 = (heap s)(t \<mapsto> x) \<and>
    aio_piece K iocb dir pos addr l (l = n) (int (done + n)) x \<and>
    e_running (en s1) \<and> \<not> e_locked (en s1) \<and> e_shutdown (en s1) = 0"
proof -
  have u: "unat (of_nat l :: u64) = l" using assms(4,6) by (simp add: unsigned_of_nat take_bit_nat_eq_self)
  have l: "0 < l" "l \<le> n" "l < 2 ^ 41" using assms(3,4) by (simp_all add: XDMA_TRANSFER_MAX_BYTES_def)
  then have b: "buffer_ok addr (of_nat l)" unfolding buffer_ok_def u using assms(5) by simp
  obtain x w where x: "transfer_create K addr (of_nat l) pos dir False False True (s_pages s) = Some (Some x, w)"
    "transfer_ok K dir False False True addr (of_nat l) pos x" by (rule created_aio [OF assms(1,2) b])
  have sz: "\<not> last_in_request x" "size_of_request x = 0" using x(2) by (auto simp: transfer_ok_def)
  let ?x = "x\<lparr>t_iocb := Some iocb, last_in_request := (l = n), size_of_request := (if l = n then int (done + n) else 0)\<rparr>"
  let ?p = "put_transfer t ?x (s\<lparr>s_pages := w\<rparr>)"
  have n0: "0 < desc_num ?x" using created_first [OF x(2)] by simp
  obtain s1 where s1: "transfer_queue t ?p = Some (0, s1)" "transfer_list (en s1) = transfer_list (en s) @ [t]"
    "heap s1 = (heap s)(t \<mapsto> ?x\<lparr>t_state := STATE_SUBMITTED\<rparr>)" "e_running (en s1)" "\<not> e_locked (en s1)" "e_shutdown (en s1) = 0"
  proof (cases "e_running (en s)")
    case True
    then show thesis using that queue_busy_spec [of ?p t ?x] n0 assms(7,8) by auto
  next
    case False
    then show thesis using that queue_idle_spec [of ?p t ?x] n0 assms(7-9) by auto
  qed
  have c: "transfer_len \<ge> n \<longleftrightarrow> transfer_len = n" if "transfer_len = l" for transfer_len using that l(2) by auto
  have xx: "(if n \<le> l then x\<lparr>t_iocb := Some iocb, last_in_request := True, size_of_request := int (done + l)\<rparr>
      else x\<lparr>t_iocb := Some iocb\<rparr>) = ?x" using l(2) sz by (cases x) auto
  have len: "(if XDMA_TRANSFER_MAX_BYTES < n then XDMA_TRANSFER_MAX_BYTES else n) = l" using assms(4) by auto
  have "aio_segment K iocb dir pos t addr n done s =
      aio_segment K iocb dir pos (Suc t) (addr + of_nat l) (n - l) (done + l) s1"
    using assms(3) x(1) s1(1) xx by (subst aio_segment.simps) (simp add: Let_def len cong: if_cong)
  moreover have "aio_piece K iocb dir pos addr l (l = n) (int (done + n)) (?x\<lparr>t_state := STATE_SUBMITTED\<rparr>)"
    unfolding aio_piece_def using x(2) by (intro exI [of _ x]) simp
  ultimately show ?thesis using s1(2-6) by blast
qed

lemma aio_segment_queue:
  assumes "kernel_ok K" "pins_all K"
  shows "unat addr + n < 2 ^ 64 \<Longrightarrow> n < 2 ^ 63 \<Longrightarrow> \<not> e_locked (en s) \<Longrightarrow> e_shutdown (en s) = 0 \<Longrightarrow>
    e_running (en s) \<or> transfer_list (en s) = [] \<Longrightarrow>
    \<exists>s'. aio_segment K iocb dir pos t addr n done s = Some (t + pieces n, done + n, s') \<and>
      transfer_list (en s') = transfer_list (en s) @ [t ..< t + pieces n] \<and> (\<forall>u < t. heap s' u = heap s u) \<and>
      aio_queued K iocb dir pos t addr n (int (done + n)) s'"
proof (induction n arbitrary: t addr \<open>done\<close> s rule: less_induct)
  case (less n)
  show ?case
  proof (cases "n = 0")
    case True
    then show ?thesis by (subst aio_segment.simps) (simp add: pieces_0 aio_queued_def)
  next
    case False
    define l where "l = min n XDMA_TRANSFER_MAX_BYTES"
    have l: "0 < l" "l \<le> n" using False by (simp_all add: l_def XDMA_TRANSFER_MAX_BYTES_def)
    have n: "0 < n" using False by simp
    obtain s1 x where r: "aio_segment K iocb dir pos t addr n done s =
        aio_segment K iocb dir pos (Suc t) (addr + of_nat l) (n - l) (done + l) s1"
      "transfer_list (en s1) = transfer_list (en s) @ [t]" "heap s1 = (heap s)(t \<mapsto> x)"
      "aio_piece K iocb dir pos addr l (l = n) (int (done + n)) x"
      "e_running (en s1)" "\<not> e_locked (en s1)" "e_shutdown (en s1) = 0"
      using aio_round [OF assms n l_def less.prems] by blast
    have "unat (of_nat l :: u64) = l" using l(2) less.prems(2) by (simp add: unsigned_of_nat take_bit_nat_eq_self)
    then have "unat (addr + of_nat l) = unat addr + l" using l less.prems(1) by (subst unat_add_lem [THEN iffD1]) simp_all
    then have a: "unat (addr + of_nat l) + (n - l) < 2 ^ 64" "n - l < 2 ^ 63" "n - l < n"
      using l less.prems(1,2) by simp_all
    obtain s' where s': "aio_segment K iocb dir pos (Suc t) (addr + of_nat l) (n - l) (done + l) s1 =
        Some (Suc t + pieces (n - l), done + l + (n - l), s')"
      "transfer_list (en s') = transfer_list (en s1) @ [Suc t ..< Suc t + pieces (n - l)]"
      "\<forall>u < Suc t. heap s' u = heap s1 u"
      "aio_queued K iocb dir pos (Suc t) (addr + of_nat l) (n - l) (int (done + l + (n - l))) s'"
      using less.IH [OF a(3,1,2) r(6,7)] r(5) by blast
    have p: "pieces n = Suc (pieces (n - l))" using pieces_Suc [OF n] by (simp add: l_def)
    have "heap s' t = Some x" using s'(3) r(3) by simp
    then have "aio_queued K iocb dir pos t addr n (int (done + n)) s'"
      using aio_queued_Suc [OF n l_def _ r(4)] s'(4) l(2) by simp
    moreover have "t # [Suc t ..< Suc t + pieces (n - l)] = [t ..< t + pieces n]" by (simp add: p upt_conv_Cons)
    moreover have "\<forall>u < t. heap s' u = heap s u" using s'(3) r(3) by simp
    ultimately show ?thesis using r(1,2) s'(1,2) l(2) p by simp
  qed
qed

text \<open>
  C19: an asynchronous request of more than 8 MiB. It is cut into one transfer for every 8 MiB begun,
  all queued in order behind each other under the same request. Transfer \<open>j\<close> covers the bytes of the buffer
  from \<open>j\<close> times 8 MiB on, at most 8 MiB of them, but all are programmed for the same device address,
  that of the start of the request. Only the last one is marked as such, with the size of the request.
  Whenever another one of them is completed, whatever became of the state of the engine by then, the
  completion only wakes the wait queue of the transfer, on which nobody waits: it does not report to the
  request, and the transfer stays allocated.
\<close>

theorem aio_split_request:
  assumes "kernel_ok K" "pins_all K" "idle s" "check_transfer_align (en s) buf count pos False = 0"
    and "XDMA_TRANSFER_MAX_BYTES < unat count" "unat count < 2 ^ 63" "unat buf + unat count < 2 ^ 64"
  shows "\<exists>s' n. n = (unat count + XDMA_TRANSFER_MAX_BYTES - 1) div XDMA_TRANSFER_MAX_BYTES \<and> 2 \<le> n \<and>
    sg_aio_read_write K iocb [(buf, count)] pos dir t s = Some (- EIOCBQUEUED, s') \<and>
    transfer_list (en s') = [t ..< t + n] \<and>
    (\<forall>j < n. \<exists>x. heap s' (t + j) = Some x \<and>
       aio_piece K iocb dir pos (buf + of_nat (j * XDMA_TRANSFER_MAX_BYTES))
         (min XDMA_TRANSFER_MAX_BYTES (unat count - j * XDMA_TRANSFER_MAX_BYTES)) (Suc j = n) (int (unat count)) x \<and>
       desc_ep dir (desc_virt x ! 0) = pos \<and> t_iocb x = Some iocb \<and> (last_in_request x \<longleftrightarrow> Suc j = n) \<and>
       (Suc j < n \<longrightarrow> (\<forall>st s''. heap s'' (t + j) = Some (x\<lparr>t_state := st\<rparr>) \<longrightarrow>
          engine_transfer_completion (t + j) s'' = Some (Some (t + j), wake_up (W_transfer (t + j)) s''))))"
proof -
  have i: "e_magic (en s) = MAGIC_ENGINE" "\<not> e_locked (en s)" "transfer_list (en s) = []" "e_shutdown (en s) = 0"
    using assms(3) by (simp_all add: idle_def)
  obtain s' where s': "aio_segment K iocb dir pos t buf (unat count) 0 s = Some (t + pieces (unat count), 0 + unat count, s')"
    "transfer_list (en s') = transfer_list (en s) @ [t ..< t + pieces (unat count)]"
    "aio_queued K iocb dir pos t buf (unat count) (int (0 + unat count)) s'"
    using aio_segment_queue [OF assms(1,2,7,6) i(2,4)] i(3) by blast
  have "2 \<le> pieces (unat count)"
    using pieces_Suc [of "unat count"] pieces_Suc [of "unat count - XDMA_TRANSFER_MAX_BYTES"] assms(5) by simp
  moreover have "sg_aio_read_write K iocb [(buf, count)] pos dir t s = Some (- EIOCBQUEUED, s')"
    using i(1) assms(4) s'(1) by (simp add: sg_aio_read_write_def)
  moreover have "desc_ep dir (desc_virt x ! 0) = pos \<and> t_iocb x = Some iocb \<and> (last_in_request x \<longleftrightarrow> fin) \<and>
      (\<not> fin \<longrightarrow> (\<forall>st s''. heap s'' u = Some (x\<lparr>t_state := st\<rparr>) \<longrightarrow>
          engine_transfer_completion u s'' = Some (Some u, wake_up (W_transfer u) s'')))"
    if "aio_piece K iocb dir pos start len fin size_req x" for start len fin size_req x u
  proof -
    obtain x0 where x0: "transfer_ok K dir False False True start (of_nat len) pos x0"
      "x = x0\<lparr>t_iocb := Some iocb, last_in_request := fin, size_of_request := (if fin then size_req else 0), t_state := STATE_SUBMITTED\<rparr>"
      using \<open>aio_piece K iocb dir pos start len fin size_req x\<close> by (auto simp: aio_piece_def)
    then show ?thesis using created_first [OF x0(1)] by (simp add: engine_transfer_completion_def)
  qed
  ultimately show ?thesis
    using s'(2,3) i(3) unfolding aio_queued_def by (intro exI [of _ s'] exI [of _ "pieces (unat count)"]) (fastforce simp: pieces_def)
qed

theorem aio_split_request_witness:
  "\<exists>s'. sg_aio_read_write demo_kernel 3 [(0x1000, 0x1800000)] 0x40000000 True 9 (demo_est (\<lambda>_ _. 0)) = Some (- EIOCBQUEUED, s') \<and>
     transfer_list (en s') = [9, 10, 11]"
  using aio_split_request [OF demo_kernel_ok demo_kernel_pins demo_est_idle, of "\<lambda>_ _. 0" "0x1000" "0x1800000" "0x40000000" 3 True 9]
  by (auto simp: XDMA_TRANSFER_MAX_BYTES_def demo_est_def demo_engine_def check_transfer_align_def upt_rec)

end
