(* ===== verification/Machine.thy ===== *)
theory Machine
  imports SgdmaChar
begin

text \<open>
  The engine as a state machine: submissions and interrupts in any order. Its invariant ties the
  queue, the running flag and the registers together; the contracts of \<open>XPrelude\<close> are interpreted
  on it, and whole runs refine a queue that is served first in, first out.
\<close>

unbundle bit_operations_syntax

section \<open>What no operation changes\<close>

definition consts_of :: "est \<Rightarrow> bool \<times> u32 \<times> bool \<times> u64 \<times> u32 \<times> u64 \<times> u64" where
  "consts_of s = (s_poll_mode s, s_credit_mp s, s_msix s, s_cfg_bar s, e_magic (en s), e_regs (en s), e_sgdma_regs (en s))"

lemma consts_prim [frames]:
  "consts_of (wr v a s) = consts_of s" "consts_of (snd (rd a s)) = consts_of s" "consts_of (wake_up u s) = consts_of s"
  "consts_of (put_transfer t x s) = consts_of s" "consts_of (unlock_engine s) = consts_of s"
  "consts_of (snd (engine_status_read c s)) = consts_of s" "consts_of (xdma_engine_stop s) = consts_of s"
  "consts_of (s\<lparr>s_pages := w\<rparr>) = consts_of s" "consts_of (s\<lparr>heap := h\<rparr>) = consts_of s" "consts_of (s\<lparr>s_bus := b\<rparr>) = consts_of s"
  by (simp_all add: consts_of_def)

lemma consts_set_en [frames]:
  "consts_of (set_en (\<lambda>e. e\<lparr>e_running := b\<rparr>) s) = consts_of s" "consts_of (set_en (\<lambda>e. e\<lparr>transfer_list := q e\<rparr>) s) = consts_of s"
  "consts_of (set_en (\<lambda>e. e\<lparr>e_desc_dequeued := f e\<rparr>) s) = consts_of s" "consts_of (set_en (\<lambda>e. e\<lparr>e_shutdown := g e\<rparr>) s) = consts_of s"
  "consts_of (set_en (\<lambda>e. e\<lparr>e_perf := p\<rparr>) s) = consts_of s" "consts_of (set_en (\<lambda>e. e\<lparr>poll_wb := v\<rparr>) s) = consts_of s"
  "consts_of (set_en (\<lambda>e. e\<lparr>e_locked := l\<rparr>) s) = consts_of s"
  by (simp_all add: consts_of_def)

lemma consts_shutdown [frames]: "consts_of (engine_service_shutdown s) = consts_of s"
  by (simp add: engine_service_shutdown_def frames)

lemma consts_completion: "engine_transfer_completion t s = Some (r, s') \<Longrightarrow> consts_of s' = consts_of s"
  by (auto simp: engine_transfer_completion_def bind_eq_Some_conv Let_def frames consts_of_def
      split: option.splits bool.splits)

lemma consts_del_head: "list_del_head s = Some s' \<Longrightarrow> consts_of s' = consts_of s"
  by (auto simp: list_del_head_def frames split: list.splits)

lemma consts_list_loop: "service_list_loop tr c s = Some (r, c', s') \<Longrightarrow> consts_of s' = consts_of s"
proof (induction tr c s rule: service_list_loop.induct)
  case (1 tr c s)
  show ?case
  proof (cases "\<exists>t x. tr = Some t \<and> heap s t = Some x \<and> \<not> t_cyclic x \<and> c > of_nat (desc_num x)")
    case False
    then show ?thesis using "1.prems"
      by (subst (asm) service_list_loop.simps) (auto split: option.splits if_splits)
  next
    case True
    then obtain t x where t: "tr = Some t" "heap s t = Some x" "\<not> t_cyclic x \<and> c > of_nat (desc_num x)" by blast
    let ?put = "\<lambda>s1. put_transfer t (x\<lparr>t_state := STATE_COMPLETED\<rparr>)
        (set_en (\<lambda>e. e\<lparr>e_desc_dequeued := e_desc_dequeued e + desc_num x\<rparr>) s1)"
    obtain s1 r2 s2 where l: "list_del_head s = Some s1" "engine_transfer_completion t (?put s1) = Some (r2, s2)"
      "service_list_loop (list_first s2) (c - of_nat (desc_num x)) s2 = Some (r, c', s')"
      using "1.prems" t by (subst (asm) service_list_loop.simps) (auto split: option.splits if_splits)
    have "consts_of s' = consts_of s2" by (rule "1.IH" [OF t l(1,2) refl l(3)])
    then show ?thesis using consts_completion [OF l(2)] consts_del_head [OF l(1)] by (simp add: frames)
  qed
qed

lemma consts_final: "engine_service_final_transfer tr c s = Some (r, s') \<Longrightarrow> consts_of s' = consts_of s"
  by (auto simp: engine_service_final_transfer_def engine_err_handle_def bind_eq_Some_conv Let_def frames
      dest!: consts_completion consts_del_head split: if_splits)

lemma consts_perf [frames]: "consts_of (engine_service_perf c s) = consts_of s"
  by (simp add: engine_service_perf_def Let_def frames split: option.splits)

lemma consts_start: "engine_start s = Some (t, s') \<Longrightarrow> consts_of s' = consts_of s"
  by (auto simp: engine_start_def bind_eq_Some_conv Let_def frames engine_start_mode_config_def split: list.splits if_splits)

lemma consts_resume: "engine_service_resume s = Some s' \<Longrightarrow> consts_of s' = consts_of s"
  by (auto simp: engine_service_resume_def frames dest!: consts_start split: if_splits)

lemma consts_queue: "engine_service_queue c s = Some s' \<Longrightarrow> consts_of s' = consts_of s"
  by (auto simp: engine_service_queue_def engine_service_transfer_list_def bind_eq_Some_conv Let_def frames
      dest!: consts_resume consts_final consts_list_loop split: if_splits)

lemma consts_service: "engine_service wb s = Some (rc, s') \<Longrightarrow> consts_of s' = consts_of s"
  by (auto simp: engine_service_def bind_eq_Some_conv Let_def split_beta frames dest!: consts_queue split: if_splits)

lemma consts_work: "engine_service_work [] s = Some s' \<Longrightarrow> rx_cyclic (en s) = None \<Longrightarrow> consts_of s' = consts_of s"
  by (auto simp: engine_service_work_def lock_engine_def bind_eq_Some_conv Let_def frames dest!: consts_service split: if_splits)

lemma consts_submit: "transfer_queue t s = Some (r, s') \<Longrightarrow> consts_of s' = consts_of s"
  by (auto simp: transfer_queue_def lock_engine_def bind_eq_Some_conv Let_def frames dest!: consts_start split: if_splits)

section \<open>The machine\<close>

text \<open>
  An interrupt comes with the answers of the device from then on. Not every answer is one the driver
  copes with: a status that still says busy makes it panic (\<open>engine_service_busy_panics\<close>), and so
  may a descriptor count outside what is queued. \<open>fair_device\<close> says that the answers are none of
  these; it is a hypothesis of the theorems on runs, not a part of the steps.
\<close>

definition fair_device :: "est \<Rightarrow> bool" where
  "fair_device s \<longleftrightarrow> irq_status s AND XDMA_STAT_BUSY = 0 \<and>
     (if irq_status s AND err_flags \<noteq> 0 then unat (irq_count s) \<le> num_of s (hd (transfer_list (en s)))
      else 0 < irq_count s \<and> unat (irq_count s) \<le> sum_list (map (num_of s) (transfer_list (en s))))"

datatype eng_op = Submit nat xdma_transfer | Interrupt "mmio list \<Rightarrow> u64 \<Rightarrow> u32"

definition submittable :: "est \<Rightarrow> nat \<Rightarrow> xdma_transfer \<Rightarrow> bool" where
  "submittable s t x \<longleftrightarrow> heap s t = None \<and> 0 < desc_num x \<and> desc_num x < 2 ^ 31 \<and> \<not> t_cyclic x \<and> t_iocb x = None"

text \<open>What makes an interrupt advance the queue, and how.\<close>

definition progress :: "est \<Rightarrow> bool" where
  "progress s \<longleftrightarrow> e_running (en s) \<and> irq_status s AND err_flags = 0"

definition shorter :: "est \<Rightarrow> est \<Rightarrow> bool" where
  "shorter s' s \<longleftrightarrow> length (transfer_list (en s')) < length (transfer_list (en s))"

definition lock_of :: "est \<Rightarrow> est" where
  "lock_of s = set_en (\<lambda>e. e\<lparr>e_locked := True\<rparr>) s"

definition with_device :: "(mmio list \<Rightarrow> u64 \<Rightarrow> u32) \<Rightarrow> est \<Rightarrow> est" where
  "with_device r s = s\<lparr>s_bus := (s_bus s)\<lparr>resp := r\<rparr>\<rparr>"

text \<open>The second component is the list of the transfers submitted so far.\<close>

fun eng_step :: "est \<times> nat list \<Rightarrow> eng_op \<Rightarrow> (est \<times> nat list) option" where
  "eng_step (s, sub) (Submit t x) = map_option (\<lambda>(_, s). (s, sub @ [t])) (transfer_queue t (put_transfer t x s))"
| "eng_step (s, sub) (Interrupt r) = map_option (\<lambda>s. (s, sub)) (engine_service_work [] (with_device r s))"

text \<open>
  The operations whose effect the invariant covers: the submission of a transfer that is new and has
  descriptors, and an interrupt that meets a stopped engine or a fair device.
\<close>

fun op_ok :: "est \<times> nat list \<Rightarrow> eng_op \<Rightarrow> bool" where
  "op_ok (s, sub) (Submit t x) \<longleftrightarrow> submittable s t x"
| "op_ok (s, sub) (Interrupt r) \<longleftrightarrow> (e_running (en s) \<longrightarrow> fair_device (lock_of (with_device r s)))"

text \<open>The transfers whose waiters have been woken, in order.\<close>

definition completed :: "wake list \<Rightarrow> nat list" where
  "completed ws = concat (map (\<lambda>w. case w of W_transfer t \<Rightarrow> [t] | _ \<Rightarrow> []) ws)"

lemma completed_simps [simp]:
  "completed [] = []" "completed (xs @ ys) = completed xs @ completed ys" "completed [W_transfer t] = [t]"
  "completed (W_shutdown # xs) = completed xs" "completed (map W_transfer ts) = ts"
  by (induction ts) (simp_all add: completed_def)

definition disjoint_regs :: "est \<Rightarrow> bool" where
  "disjoint_regs s \<longleftrightarrow> (\<forall>f g. sreg (e_sgdma_regs (en s)) f \<noteq> ereg (e_regs (en s)) g) \<and>
     (\<forall>f g. ireg (s_cfg_bar s) f \<noteq> sreg (e_sgdma_regs (en s)) g) \<and> (\<forall>f g. ireg (s_cfg_bar s) f \<noteq> ereg (e_regs (en s)) g)"

text \<open>The registers of a running engine: the first descriptors of the transfer, and the run bit.\<close>

definition programmed :: "est \<Rightarrow> xdma_transfer \<Rightarrow> bool" where
  "programmed s x \<longleftrightarrow>
     last_write (s_bus s) (sreg (e_sgdma_regs (en s)) S_first_desc_lo) = Some (PCI_DMA_L (desc_bus x)) \<and>
     last_write (s_bus s) (sreg (e_sgdma_regs (en s)) S_first_desc_hi) = Some (PCI_DMA_H (desc_bus x)) \<and>
     last_write (s_bus s) (sreg (e_sgdma_regs (en s)) S_first_desc_adjacent) = Some (of_nat (min (desc_adjacent x - 1) 15)) \<and>
     (\<exists>w. last_write (s_bus s) (ereg (e_regs (en s)) E_control) = Some w \<and> w AND XDMA_CTRL_RUN_STOP \<noteq> 0)"

definition core :: "est \<Rightarrow> nat list \<Rightarrow> bool" where
  "core s sub \<longleftrightarrow> e_magic (en s) = MAGIC_ENGINE \<and> e_shutdown (en s) = 0 \<and> e_perf (en s) = None \<and>
     rx_cyclic (en s) = None \<and> \<not> s_poll_mode s \<and> disjoint_regs s \<and> plain s (transfer_list (en s)) \<and>
     (e_running (en s) \<longleftrightarrow> transfer_list (en s) \<noteq> []) \<and> (e_running (en s) \<longrightarrow> e_desc_dequeued (en s) = 0) \<and>
     (\<forall>t q x. transfer_list (en s) = t # q \<and> heap s t = Some x \<longrightarrow> programmed s x) \<and>
     sub = completed (wakes s) @ transfer_list (en s)"

definition eng_inv :: "est \<times> nat list \<Rightarrow> bool" where
  "eng_inv p \<longleftrightarrow> core (fst p) (snd p) \<and> \<not> e_locked (en (fst p))"

section \<open>Registers\<close>

lemma last_write_snoc: "writes b' = writes b @ [(a, v)] \<Longrightarrow> c \<noteq> a \<Longrightarrow> last_write b' c = last_write b c"
  by (auto simp: last_write_def)

lemma programmed_start:
  assumes "writes (s_bus s) = ws @ start_writes p e x" "e_perf e = None" "e_regs (en s) = e_regs e"
    "e_sgdma_regs (en s) = e_sgdma_regs e" "disjoint_regs s"
  shows "programmed s x"
  using assms(2-5) start_control_run [of p e]
  by (auto simp: programmed_def last_write_def assms(1) start_writes_def disjoint_regs_def bits)

lemma programmed_state [simp]: "programmed s (x\<lparr>t_state := st\<rparr>) = programmed s x"
  by (simp add: programmed_def)

lemma programmed_cong:
  assumes "\<And>f. last_write (s_bus s') (sreg (e_sgdma_regs (en s)) f) = last_write (s_bus s) (sreg (e_sgdma_regs (en s)) f)"
    "last_write (s_bus s') (ereg (e_regs (en s)) E_control) = last_write (s_bus s) (ereg (e_regs (en s)) E_control)"
    "e_sgdma_regs (en s') = e_sgdma_regs (en s)" "e_regs (en s') = e_regs (en s)"
  shows "programmed s' x = programmed s x"
  unfolding programmed_def assms ..

lemma plain_states:
  assumes "plain s q" "heap s' = set_states st A (set_states st' B (heap s))"
  shows "plain s' (drop n q)"
proof -
  have "\<exists>x. heap s' t = Some x \<and> \<not> t_cyclic x \<and> t_iocb x = None \<and> 0 < desc_num x \<and> desc_num x < 2 ^ 31"
    if t: "t \<in> set q" for t
  proof -
    obtain x where "heap s t = Some x" "\<not> t_cyclic x" "t_iocb x = None" "0 < desc_num x" "desc_num x < 2 ^ 31"
      using assms(1) t unfolding plain_def by blast
    then show ?thesis unfolding assms(2)
      by (cases "t \<in> set A"; cases "t \<in> set B") (simp_all add: set_states_def)
  qed
  then show ?thesis using assms(1) unfolding plain_def by (auto dest: in_set_dropD)
qed

section \<open>Interrupts keep the invariant\<close>

lemma core_cong:
  assumes "e_magic (en s') = e_magic (en s)" "e_shutdown (en s') = e_shutdown (en s)" "e_perf (en s') = e_perf (en s)"
    "rx_cyclic (en s') = rx_cyclic (en s)" "s_poll_mode s' = s_poll_mode s" "s_cfg_bar s' = s_cfg_bar s"
    "e_regs (en s') = e_regs (en s)" "e_sgdma_regs (en s') = e_sgdma_regs (en s)" "transfer_list (en s') = transfer_list (en s)"
    "e_running (en s') = e_running (en s)" "e_desc_dequeued (en s') = e_desc_dequeued (en s)" "heap s' = heap s"
    "wakes s' = wakes s" "writes (s_bus s') = writes (s_bus s)"
  shows "core s' sub = core s sub"
proof -
  have "last_write (s_bus s') a = last_write (s_bus s) a" for a by (simp add: last_write_def assms(14))
  then have "programmed s' x = programmed s x" for x by (intro programmed_cong) (simp_all add: assms)
  then show ?thesis by (simp add: core_def disjoint_regs_def plain_def assms)
qed

lemma core_lock: "core s sub \<Longrightarrow> core (lock_of s) sub"
  by (subst core_cong [of _ s]) (simp_all add: lock_of_def)

lemma core_device: "core s sub \<Longrightarrow> core (with_device r s) sub"
  by (subst core_cong [of _ s]) (simp_all add: with_device_def writes_def)

lemma core_unlock: "core s sub \<Longrightarrow> core (unlock_engine s) sub"
  by (subst core_cong [of _ s]) simp_all

lemma core_write:
  assumes "core s sub" "\<And>f. a \<noteq> sreg (e_sgdma_regs (en s)) f" "a \<noteq> ereg (e_regs (en s)) E_control"
  shows "core (wr v a s) sub"
proof -
  have "programmed (wr v a s) x = programmed s x" for x
    by (rule programmed_cong) (use assms(2,3) in \<open>auto intro!: last_write_snoc [of _ _ a v] dest: sym\<close>)
  then show ?thesis using assms(1) by (auto simp: core_def disjoint_regs_def plain_def)
qed

lemma core_irq_enable:
  assumes "core s sub"
  shows "core (s\<lparr>s_bus := channel_interrupts_enable (s_cfg_bar s) m (s_bus s)\<rparr>) sub"
proof -
  have "core (wr m (ireg (s_cfg_bar s) I_channel_int_enable_w1s) s) sub"
    using assms by (intro core_write) (auto simp: core_def disjoint_regs_def)
  then show ?thesis by (simp add: wr_def channel_interrupts_enable_def)
qed

lemma wakes_status: "wakes (snd (engine_status_read c s)) = wakes s" by simp

text \<open>The service itself, on a locked engine.\<close>

lemma core_service:
  assumes "core s sub" "e_running (en s) \<longrightarrow> fair_device s"
  shows "\<exists>s'. engine_service 0 s = Some (0, s') \<and> core s' sub \<and> (progress s \<longrightarrow> shorter s' s)"
proof (cases "e_running (en s)")
  case False
  let ?s' = "snd (engine_status_read True s)"
  have "core ?s' sub" using assms(1)
    by (subst core_cong [of _ s]) simp_all
  then show ?thesis using False by (simp add: engine_service_def Let_def progress_def)
next
  case True
  define q where "q = transfer_list (en s)"
  have c: "e_magic (en s) = MAGIC_ENGINE" "e_shutdown (en s) = 0" "e_perf (en s) = None" "rx_cyclic (en s) = None"
    "\<not> s_poll_mode s" "disjoint_regs s" "plain s q" "q \<noteq> []" "e_desc_dequeued (en s) = 0" "sub = completed (wakes s) @ q"
    using assms(1) True by (auto simp: core_def q_def)
  have f: "irq_status s AND XDMA_STAT_BUSY = 0"
    "if irq_status s AND err_flags \<noteq> 0 then unat (irq_count s) \<le> num_of s (hd q)
      else 0 < irq_count s \<and> unat (irq_count s) \<le> sum_list (map (num_of s) q)"
    using assms(2) True by (auto simp: fair_device_def q_def)
  have frame: "disjoint_regs s'" "\<not> s_poll_mode s'" "e_magic (en s') = MAGIC_ENGINE" if "engine_service 0 s = Some (0, s')" for s'
    using consts_service [OF that] c(1,5,6) by (simp_all add: consts_of_def disjoint_regs_def)
  show ?thesis
  proof (cases "irq_status s AND err_flags \<noteq> 0")
    case err: True
    obtain t r where q: "q = t # r" using c(8) by (cases q) auto
    obtain x where x: "heap s t = Some x" using c(7) q by (auto simp: plain_def)
    have n: "unat (irq_count s) \<le> desc_num x" using f(2) err q x by (simp add: num_of_def)
    obtain s' where r: "engine_service 0 s = Some (0, s')" "transfer_list (en s') = t # r"
      "heap s' = (heap s)(t \<mapsto> x\<lparr>t_state := STATE_FAILED\<rparr>)" "wakes s' = wakes s @ [W_shutdown]"
      "en s' = (en s)\<lparr>e_status := irq_status s, e_shutdown := 0, e_desc_dequeued := 0, poll_wb := poll_wb (en s)\<rparr>"
      "\<exists>ws. writes (s_bus s') = writes (s_bus s) @ ws @ start_writes (s_poll_mode s) (en s) x"
      using engine_service_error_spec [OF True q [unfolded q_def] x c(7) [unfolded q] c(3,2,9) f(1) err n] c(5) by auto
    obtain ws where ws: "writes (s_bus s') = (writes (s_bus s) @ ws) @ start_writes (s_poll_mode s) (en s) x"
      using r(6) by auto
    have "programmed s' x"
      by (rule programmed_start [OF ws c(3)]) (use r(5) frame(1) [OF r(1)] in simp_all)
    moreover have "plain s' q" using c(7) x unfolding plain_def r(3) by auto
    ultimately have "core s' sub"
      using c r(2-5) frame [OF r(1)] q True by (auto simp: core_def)
    then show ?thesis using r(1) err by (auto simp: progress_def)
  next
    case False
    have z: "irq_status s AND (XDMA_STAT_BUSY OR err_flags) = 0"
      using f(1) False by (simp only: bit.conj_disj_distrib or_eq_0_iff) simp
    have n: "0 < irq_count s" "unat (irq_count s) \<le> sum_list (map (num_of s) q)" using f(2) False by simp_all
    obtain s0 s' where r: "engine_service 0 s = Some (0, s')" "serviced s0 q (unat (irq_count s)) s'"
      "heap s0 = heap s" "en s0 = (en s)\<lparr>e_status := irq_status s, e_running := False\<rparr>"
      "wakes s0 = wakes s @ [W_shutdown]" "writes (s_bus s0) = writes (s_bus s) @ [stop_write s]"
      using engine_service_irq [OF True q_def [symmetric] c(7,3,2,9) z n] by blast
    define k where "k = done_before (unat (irq_count s)) (map (num_of s0) q)"
    define rest where "rest = drop (Suc k) q"
    have sv: "transfer_list (en s') = rest" "e_running (en s') \<longleftrightarrow> rest \<noteq> []" "e_shutdown (en s') = 0"
      "e_perf (en s') = None" "rest \<noteq> [] \<longrightarrow> e_desc_dequeued (en s') = 0" "rx_cyclic (en s') = None"
      "e_regs (en s') = e_regs (en s0)" "e_sgdma_regs (en s') = e_sgdma_regs (en s0)"
      "heap s' = set_states (stopped_state s0 q (unat (irq_count s))) [q ! k] (set_states STATE_COMPLETED (take k q) (heap s0))"
      "wakes s' = wakes s0 @ map W_transfer (take (Suc k) q)"
      "\<forall>t x. rest \<noteq> [] \<and> t = hd rest \<and> heap s' t = Some x \<longrightarrow>
           writes (s_bus s') = writes (s_bus s0) @ start_writes (s_poll_mode s0) (en s0) x"
      using r(2) c(3,4) unfolding serviced_def Let_def k_def [symmetric] rest_def [symmetric] r(4) by auto
    have pl: "plain s' rest" unfolding rest_def by (rule plain_states [OF c(7)]) (use sv(9) r(3) in simp)
    have pr: "programmed s' x" if "rest = t # p" "heap s' t = Some x" for t p x
    proof (rule programmed_start)
      show "writes (s_bus s') = writes (s_bus s0) @ start_writes (s_poll_mode s0) (en s0) x" using sv(11) that by auto
    qed (use c(3) r(4) sv(7,8) frame(1) [OF r(1)] in simp_all)
    have "completed (wakes s') @ rest = completed (wakes s) @ q"
      unfolding sv(10) r(5) rest_def by simp
    then have "core s' sub" using sv(1-6) pl pr c(10) frame [OF r(1)] by (auto simp: core_def)
    moreover have "shorter s' s" using sv(1) c(8) by (simp add: shorter_def rest_def q_def [symmetric])
    ultimately show ?thesis using r(1) by blast
  qed
qed

lemma interrupt_inv:
  assumes "eng_inv (s, sub)" "e_running (en s) \<longrightarrow> fair_device (lock_of (with_device r s))"
  shows "\<exists>s'. engine_service_work [] (with_device r s) = Some s' \<and> eng_inv (s', sub) \<and>
    (progress (lock_of (with_device r s)) \<longrightarrow> shorter s' s)"
proof -
  let ?d = "with_device r s"
  have i: "core s sub" "\<not> e_locked (en s)" using assms(1) by (simp_all add: eng_inv_def)
  have l: "lock_engine ?d = Some (lock_of ?d)" using i(2) by (simp add: lock_engine_def lock_of_def with_device_def)
  have c: "core (lock_of ?d) sub" by (rule core_lock [OF core_device [OF i(1)]])
  obtain s1 where s1: "engine_service 0 (lock_of ?d) = Some (0, s1)" "core s1 sub"
    and p: "progress (lock_of ?d) \<longrightarrow> shorter s1 (lock_of ?d)"
    using core_service [OF c] assms(2) by (auto simp: lock_of_def with_device_def)
  let ?s2 = "if s_msix s1 then wr (e_ie_mask (en s1)) (ereg (e_regs (en s1)) E_interrupt_enable_mask_w1s) s1
    else s1\<lparr>s_bus := channel_interrupts_enable (s_cfg_bar s1) (e_irq_bitmask (en s1)) (s_bus s1)\<rparr>"
  have dj: "disjoint_regs s1" using s1(2) by (simp add: core_def)
  have "core (wr (e_ie_mask (en s1)) (ereg (e_regs (en s1)) E_interrupt_enable_mask_w1s) s1) sub"
  proof (rule core_write [OF s1(2)])
    show "ereg (e_regs (en s1)) E_interrupt_enable_mask_w1s \<noteq> sreg (e_sgdma_regs (en s1)) f" for f
      using dj unfolding disjoint_regs_def by metis
  qed simp
  then have "core ?s2 sub" using core_irq_enable [OF s1(2)] by (cases "s_msix s1") simp_all
  then have "eng_inv (unlock_engine ?s2, sub)" using core_unlock by (auto simp: eng_inv_def)
  moreover have "rx_cyclic (en (lock_of ?d)) = None" "e_magic (en ?d) = MAGIC_ENGINE"
    using i(1) c by (simp_all add: core_def with_device_def)
  moreover have "progress (lock_of ?d) \<longrightarrow> shorter (unlock_engine ?s2) s"
    using p by (auto simp: shorter_def lock_of_def with_device_def)
  ultimately show ?thesis using l s1(1) unfolding engine_service_work_def by (intro exI [of _ "unlock_engine ?s2"]) simp
qed

section \<open>Submissions keep the invariant\<close>

lemma plain_submit:
  assumes "plain s q" "submittable s t x" "heap s' = (heap s)(t \<mapsto> x\<lparr>t_state := st\<rparr>)"
  shows "plain s' (q @ [t])"
  using assms by (auto simp: plain_def submittable_def)

lemma submit_inv:
  assumes "eng_inv (s, sub)" "submittable s t x"
  shows "\<exists>s'. transfer_queue t (put_transfer t x s) = Some (0, s') \<and> eng_inv (s', sub @ [t])"
proof -
  let ?s = "put_transfer t x s"
  have c: "e_magic (en s) = MAGIC_ENGINE" "e_shutdown (en s) = 0" "e_perf (en s) = None" "rx_cyclic (en s) = None"
    "\<not> s_poll_mode s" "disjoint_regs s" "plain s (transfer_list (en s))" "e_running (en s) \<longleftrightarrow> transfer_list (en s) \<noteq> []"
    "e_running (en s) \<longrightarrow> e_desc_dequeued (en s) = 0"
    "\<forall>t q x. transfer_list (en s) = t # q \<and> heap s t = Some x \<longrightarrow> programmed s x"
    "sub = completed (wakes s) @ transfer_list (en s)" and l: "\<not> e_locked (en s)"
    using assms(1) unfolding eng_inv_def core_def fst_conv snd_conv by blast+
  have h: "heap ?s t = Some x" "0 < desc_num x" "heap s t = None" using assms(2) by (simp_all add: submittable_def)
  have frame: "disjoint_regs s'" "\<not> s_poll_mode s'" if "transfer_queue t ?s = Some (0, s')" for s'
    using consts_submit [OF that] c(5,6) by (simp_all add: consts_of_def disjoint_regs_def)
  show ?thesis
  proof (cases "e_running (en s)")
    case False
    obtain s' where r: "transfer_queue t ?s = Some (0, s')"
      "en s' = (en s)\<lparr>e_shutdown := 0, e_desc_dequeued := 0, e_running := True, transfer_list := [t], e_locked := False\<rparr>"
      "heap s' = (heap s)(t \<mapsto> x\<lparr>t_state := STATE_SUBMITTED\<rparr>)" "wakes s' = wakes s" "s_poll_mode s' = s_poll_mode s"
      "writes (s_bus s') = writes (s_bus s) @ start_writes (s_poll_mode s) (en s) x"
      using queue_idle_spec [OF h(1,2)] l c(2,8) False by auto
    have pr: "programmed s' x" by (rule programmed_start [OF r(6) c(3)]) (use r(2) frame(1) [OF r(1)] in simp_all)
    have "plain s' ([] @ [t])" by (rule plain_submit [OF _ assms(2) r(3)]) (simp add: plain_def)
    then have "core s' (sub @ [t])"
      using r(2-5) c frame [OF r(1)] pr False by (auto simp: core_def)
    then show ?thesis using r(1,2) by (simp add: eng_inv_def)
  next
    case True
    obtain s' where r: "transfer_queue t ?s = Some (0, s')"
      "en s' = (en s)\<lparr>transfer_list := transfer_list (en s) @ [t], e_locked := False\<rparr>"
      "heap s' = (heap s)(t \<mapsto> x\<lparr>t_state := STATE_SUBMITTED\<rparr>)" "wakes s' = wakes s" "s_poll_mode s' = s_poll_mode s"
      "s_bus s' = s_bus s"
      using queue_busy_spec [OF h(1,2)] l c(2) True by auto
    have "programmed s' y = programmed s y" for y
      by (rule programmed_cong) (use r(2,6) in \<open>simp_all\<close>)
    moreover have "plain s' (transfer_list (en s) @ [t])" by (rule plain_submit [OF c(7) assms(2) r(3)])
    moreover obtain a p where a: "transfer_list (en s) = a # p" using c(8) True by (cases "transfer_list (en s)") auto
    moreover have "a \<noteq> t" using c(7) a h(3) by (auto simp: plain_def)
    ultimately have "core s' (sub @ [t])"
      using r(2-5) c frame [OF r(1)] True by (auto simp: core_def)
    then show ?thesis using r(1,2) by (simp add: eng_inv_def)
  qed
qed

section \<open>The contracts on the machine\<close>

interpretation eng: guarded_contract eng_step eng_inv op_ok
proof
  fix p x assume i: "eng_inv p" and ok: "op_ok p x"
  obtain s sub where p: "p = (s, sub)" by (cases p)
  show "\<exists>p'. eng_step p x = Some p' \<and> eng_inv p'"
  proof (cases x)
    case (Submit t y)
    then show ?thesis using submit_inv [of s sub t y] i ok by (auto simp: p)
  next
    case (Interrupt r)
    then show ?thesis using interrupt_inv [of s sub r] i ok by (auto simp: p)
  qed
qed

definition fresh :: "est \<Rightarrow> bool" where
  "fresh s \<longleftrightarrow> e_magic (en s) = MAGIC_ENGINE \<and> e_shutdown (en s) = 0 \<and> e_perf (en s) = None \<and>
     rx_cyclic (en s) = None \<and> \<not> s_poll_mode s \<and> disjoint_regs s \<and> transfer_list (en s) = [] \<and>
     \<not> e_running (en s) \<and> \<not> e_locked (en s) \<and> wakes s = []"

lemma fresh_inv: "fresh s \<Longrightarrow> eng_inv (s, [])"
  by (simp add: fresh_def eng_inv_def core_def plain_def)

section \<open>Interrupts only\<close>

text \<open>An interrupt that reports finished descriptors and no error, served while the engine runs.\<close>

inductive irq_step :: "est \<times> nat list \<Rightarrow> est \<times> nat list \<Rightarrow> bool" where
  irq: "e_running (en s) \<Longrightarrow> fair_device (lock_of (with_device r s)) \<Longrightarrow> progress (lock_of (with_device r s)) \<Longrightarrow>
    eng_step (s, sub) (Interrupt r) = Some p \<Longrightarrow> irq_step (s, sub) p"

inductive_cases irq_stepE: "irq_step (s, sub) p"

lemma irq_step_shorter:
  assumes "irq_step p p'" "eng_inv p"
  shows "eng_inv p' \<and> snd p' = snd p \<and> length (transfer_list (en (fst p'))) < length (transfer_list (en (fst p)))"
proof (cases p)
  case (Pair s sub)
  from assms(1) [unfolded Pair] obtain r s' where r: "fair_device (lock_of (with_device r s))"
    "progress (lock_of (with_device r s))" "engine_service_work [] (with_device r s) = Some s'" "(s', sub) = p'"
    by (elim irq_stepE)
  obtain s'' where "engine_service_work [] (with_device r s) = Some s''" "eng_inv (s'', sub)" "shorter s'' s"
    using interrupt_inv [OF assms(2) [unfolded Pair]] r(1,2) by blast
  then show ?thesis using r(3,4) by (auto simp: Pair shorter_def)
qed

lemma irq_steps:
  "(irq_step ^^ n) p p' \<Longrightarrow> eng_inv p \<Longrightarrow>
   eng_inv p' \<and> snd p' = snd p \<and> length (transfer_list (en (fst p'))) + n \<le> length (transfer_list (en (fst p)))"
proof (induction n arbitrary: p')
  case (Suc n)
  from Suc.prems(1) obtain q where q: "(irq_step ^^ n) p q" "irq_step q p'" by (rule relpowp_Suc_E)
  show ?case using Suc.IH [OF q(1) Suc.prems(2)] irq_step_shorter [OF q(2)] by auto
qed simp

text \<open>There is always such an interrupt: the device reports that one descriptor is done.\<close>

definition one_done :: "u64 \<Rightarrow> mmio list \<Rightarrow> u64 \<Rightarrow> u32" where
  "one_done regs = (\<lambda>_ a. if a = ereg regs E_completed_desc_count then 1 else 0)"

lemma one_done_fair:
  assumes "eng_inv (s, sub)" "transfer_list (en s) \<noteq> []" "e_regs (en s) = regs"
  shows "fair_device (lock_of (with_device (one_done regs) s)) \<and> progress (lock_of (with_device (one_done regs) s))"
proof -
  define l where "l = lock_of (with_device (one_done regs) s)"
  have l: "en l = (en s)\<lparr>e_locked := True\<rparr>" "heap l = heap s" "resp (s_bus l) = one_done regs"
    by (simp_all add: l_def lock_of_def with_device_def)
  have run: "e_running (en s)" using assms by (simp add: eng_inv_def core_def)
  have st: "irq_status l = 0" by (simp add: irq_status_def rd_def read_register_def l one_done_def assms(3))
  have ct: "irq_count l = 1"
    by (simp add: irq_count_def rd_def read_register_def l engine_status_read_def engine_service_shutdown_def
        xdma_engine_stop_def wr_def write_register_def wake_up_def Let_def split_beta one_done_def assms(3))
  obtain t q where q: "transfer_list (en s) = t # q" using assms(2) by (cases "transfer_list (en s)") auto
  moreover have "0 < num_of s t" using assms(1) q by (auto simp: eng_inv_def core_def plain_def num_of_def)
  moreover have "num_of l = num_of s" by (simp add: fun_eq_iff num_of_def l)
  ultimately have "fair_device l" "progress l" using run by (simp_all add: fair_device_def progress_def st ct l)
  then show ?thesis by (simp add: l_def)
qed

lemma irq_step_one_done:
  assumes "eng_inv (s, sub)" "transfer_list (en s) \<noteq> []" "e_regs (en s) = regs"
  shows "\<exists>s'. eng_step (s, sub) (Interrupt (one_done regs)) = Some (s', sub) \<and> irq_step (s, sub) (s', sub)"
proof -
  have run: "e_running (en s)" using assms by (simp add: eng_inv_def core_def)
  note f = conjunct1 [OF one_done_fair [OF assms]] conjunct2 [OF one_done_fair [OF assms]]
  obtain s' where "engine_service_work [] (with_device (one_done regs) s) = Some s'"
    using interrupt_inv [OF assms(1)] f(1) by blast
  then have "eng_step (s, sub) (Interrupt (one_done regs)) = Some (s', sub)" by simp
  with irq [OF run f this] show ?thesis by blast
qed

lemma irq_step_exists: "eng_inv (s, sub) \<Longrightarrow> transfer_list (en s) \<noteq> [] \<Longrightarrow> \<exists>p. irq_step (s, sub) p"
  using irq_step_one_done by blast

section \<open>Properties\<close>

text \<open>A concrete engine: registers at \<open>0x1000\<close>, the descriptor block at \<open>0x5000\<close>, interrupts at \<open>0x2000\<close>.\<close>

lemma disjoint_at:
  assumes "n < 2 ^ 64" "m < 2 ^ 64" "n < m \<or> m < n"
  shows "(of_nat n :: u64) \<noteq> of_nat m"
  using of_nat_u64_inj [OF _ assms(1,2)] assms(3) by auto

lemma demo_fresh: "fresh (demo_est r)"
proof -
  have e: "ereg 0x1000 g = of_nat (0x1000 + offsetof engine_regs g)" for g by (simp add: ereg_def)
  have f: "sreg 0x5000 g = of_nat (0x5000 + offsetof engine_sgdma_regs g)" for g by (simp add: sreg_def)
  have i: "ireg 0 g = of_nat (0x2000 + offsetof interrupt_regs g)" for g by (simp add: ireg_def XDMA_OFS_INT_CTRL_def)
  have b: "offsetof interrupt_regs g < 0x3000" for g by (cases g) (simp_all add: interrupt_regs_def)
  have "sreg 0x5000 g \<noteq> ereg 0x1000 h" for g h unfolding e f
    by (rule disjoint_at) (use offsetof_engine_bound [of h] offsetof_sgdma_bound [of g] in simp_all)
  moreover have "ireg 0 g \<noteq> sreg 0x5000 h" for g h unfolding i f
    by (rule disjoint_at) (use b [of g] offsetof_sgdma_bound [of h] in simp_all)
  moreover have "ireg 0 g \<noteq> ereg 0x1000 h" for g h unfolding i e
    by (rule disjoint_at) (use b [of g] offsetof_engine_bound [of h] in simp_all)
  ultimately show ?thesis by (simp add: fresh_def demo_est_def demo_engine_def disjoint_regs_def)
qed

text \<open>A submission to the concrete engine, and the interrupt of its only descriptor.\<close>

lemma demo_submit:
  "\<exists>s'. eng_step (demo_est r, []) (Submit 3 demo_transfer) = Some (s', [3]) \<and> eng_inv (s', [3]) \<and>
     e_regs (en s') = 0x1000 \<and> transfer_list (en s') = [3]"
proof -
  let ?s = "demo_est r"
  have ok: "submittable ?s 3 demo_transfer" by (simp add: submittable_def demo_est_def demo_transfer_def transfer_zero_def)
  obtain s' where s': "transfer_queue 3 (put_transfer 3 demo_transfer ?s) = Some (0, s')" "eng_inv (s', [] @ [3])"
    using submit_inv [OF fresh_inv [OF demo_fresh] ok] by blast
  have c: "consts_of s' = consts_of (put_transfer 3 demo_transfer ?s)" by (rule consts_submit [OF s'(1)])
  then have "e_regs (en s') = 0x1000" by (simp add: consts_of_def demo_est_def demo_engine_def)
  moreover have "transfer_list (en s') = [3]"
    using queue_idle_spec [of "put_transfer 3 demo_transfer ?s" 3 demo_transfer] s'(1)
    by (auto simp: demo_est_def demo_engine_def demo_transfer_def)
  ultimately show ?thesis using s' by auto
qed

text \<open>
  C2: submissions and interrupts never stop an engine that started idle, in any order and any number,
  as long as each operation is admissible in the state it meets: a submitted transfer is new and has
  descriptors, and an interrupt that finds the engine running does not report it busy and reports a
  number of descriptors that fits the queue (C16 is about the others, on which the driver panics).
  Every such run returns. At its end the submitted transfers are the ones whose waiters were
  woken, in the order of submission, followed by the queue; the engine runs if and only if the
  queue is not empty, and then the last values written to its registers are the bus address of
  the first descriptor of the transfer at the head of the queue, its number of adjacent
  descriptors, and a control word with the run bit.
\<close>

theorem engine_runs_fifo:
  assumes "fresh s" "admissible op_ok eng_step (s, []) ops"
  shows "\<exists>s' sub. run_ops eng_step (s, []) ops = Some (s', sub) \<and>
    sub = completed (wakes s') @ transfer_list (en s') \<and> distinct (transfer_list (en s')) \<and>
    (e_running (en s') \<longleftrightarrow> transfer_list (en s') \<noteq> []) \<and> \<not> e_locked (en s') \<and>
    (\<forall>t q x. transfer_list (en s') = t # q \<and> heap s' t = Some x \<longrightarrow> programmed s' x)"
proof -
  obtain s' sub where r: "run_ops eng_step (s, []) ops = Some (s', sub)" "eng_inv (s', sub)"
    using eng.run_guarded [OF fresh_inv [OF assms(1)] assms(2)] by fastforce
  then show ?thesis unfolding eng_inv_def core_def plain_def fst_conv snd_conv by blast
qed

theorem engine_runs_fifo_witness:
  "\<exists>s' sub. admissible op_ok eng_step (demo_est (\<lambda>_ _. 0), []) [Submit 3 demo_transfer, Interrupt (one_done 0x1000)] \<and>
     run_ops eng_step (demo_est (\<lambda>_ _. 0), []) [Submit 3 demo_transfer, Interrupt (one_done 0x1000)] = Some (s', sub) \<and>
     sub = completed (wakes s') @ transfer_list (en s') \<and> (e_running (en s') \<longleftrightarrow> transfer_list (en s') \<noteq> [])"
proof -
  let ?s = "demo_est (\<lambda>_ _. 0)"
  have ok: "submittable ?s 3 demo_transfer" by (simp add: submittable_def demo_est_def demo_transfer_def transfer_zero_def)
  obtain s' where s': "eng_step (?s, []) (Submit 3 demo_transfer) = Some (s', [3])" "eng_inv (s', [3])"
    "e_regs (en s') = 0x1000" "transfer_list (en s') = [3]" using demo_submit by blast
  have "fair_device (lock_of (with_device (one_done 0x1000) s'))" using one_done_fair [OF s'(2) _ s'(3)] s'(4) by simp
  then have a: "admissible op_ok eng_step (?s, []) [Submit 3 demo_transfer, Interrupt (one_done 0x1000)]"
    using ok s'(1) by (simp del: eng_step.simps split: option.split)
  from engine_runs_fifo [OF demo_fresh a] a show ?thesis by (elim exE conjE) (intro exI conjI)
qed

text \<open>
  C10: every submitted transfer completes. After any admissible run of submissions and interrupts, at
  most as many progress interrupts can follow as transfers are queued, and when no further one is
  possible the queue is empty, the engine stopped, and all submitted transfers have been completed, in
  the order they were submitted.
\<close>

theorem submitted_transfers_complete:
  assumes "fresh s" "admissible op_ok eng_step (s, []) ops" "run_ops eng_step (s, []) ops = Some p"
  shows "(\<forall>n p'. (irq_step ^^ n) p p' \<longrightarrow> n \<le> length (transfer_list (en (fst p)))) \<and>
    (\<forall>n p'. (irq_step ^^ n) p p' \<and> (\<nexists>p''. irq_step p' p'') \<longrightarrow>
       transfer_list (en (fst p')) = [] \<and> \<not> e_running (en (fst p')) \<and> completed (wakes (fst p')) = snd p)"
proof -
  have i: "eng_inv p" by (rule eng.run_inv [OF fresh_inv [OF assms(1)] assms(2,3)])
  have "transfer_list (en (fst p')) = [] \<and> \<not> e_running (en (fst p')) \<and> completed (wakes (fst p')) = snd p"
    if "(irq_step ^^ n) p p'" "\<nexists>p''. irq_step p' p''" for n p'
  proof -
    have "eng_inv p'" "snd p' = snd p" using irq_steps [OF that(1) i] by simp_all
    moreover from this have "transfer_list (en (fst p')) = []"
      using irq_step_exists [of "fst p'" "snd p'"] that(2) unfolding prod.collapse by blast
    ultimately show ?thesis by (simp add: eng_inv_def core_def)
  qed
  then show ?thesis using irq_steps [OF _ i] by fastforce
qed

theorem submitted_transfers_complete_witness:
  "\<exists>p p'. run_ops eng_step (demo_est (\<lambda>_ _. 0), []) [Submit 3 demo_transfer] = Some p \<and> irq_step p p' \<and>
     transfer_list (en (fst p')) = [] \<and> \<not> e_running (en (fst p')) \<and> completed (wakes (fst p')) = [3]"
proof -
  let ?s = "demo_est (\<lambda>_ _. 0)"
  have ok: "submittable ?s 3 demo_transfer" by (simp add: submittable_def demo_est_def demo_transfer_def transfer_zero_def)
  obtain s' where s': "eng_step (?s, []) (Submit 3 demo_transfer) = Some (s', [3])" "eng_inv (s', [3])"
    "e_regs (en s') = 0x1000" "transfer_list (en s') = [3]" using demo_submit by blast
  have run: "run_ops eng_step (?s, []) [Submit 3 demo_transfer] = Some (s', [3])" using s'(1) by (simp del: eng_step.simps)
  have a: "admissible op_ok eng_step (?s, []) [Submit 3 demo_transfer]" using ok s'(1) by (simp del: eng_step.simps)
  obtain s2 where q: "irq_step (s', [3]) (s2, [3])" using irq_step_one_done [OF s'(2) _ s'(3)] s'(4) by auto
  then have q1: "(irq_step ^^ 1) (s', [3]) (s2, [3])" by auto
  note all = submitted_transfers_complete [OF demo_fresh a run]
  have "\<nexists>p''. irq_step (s2, [3]) p''"
  proof
    assume "\<exists>p''. irq_step (s2, [3]) p''"
    then obtain p'' where "irq_step (s2, [3]) p''" by blast
    with q have "(irq_step ^^ Suc 1) (s', [3]) p''" using q1 by (intro relpowp_Suc_I)
    then have "Suc 1 \<le> length (transfer_list (en (fst (s', [3 :: nat]))))" using all by blast
    then show False using s'(4) by simp
  qed
  with all q1 have "transfer_list (en (fst (s2, [3 :: nat]))) = [] \<and> \<not> e_running (en (fst (s2, [3 :: nat]))) \<and>
    completed (wakes (fst (s2, [3 :: nat]))) = snd (s', [3])" by blast
  with run q show ?thesis by (intro exI [of _ "(s', [3])"] exI [of _ "(s2, [3])"]) simp
qed

end
