(* ===== verification/Dma.thy ===== *)
theory Dma
  imports Machine
begin

text \<open>
  What a request does to memory. The device is taken to do what its manual says: when the driver sets
  the run bit, it fetches the descriptors from the address in its registers and copies, for each, its
  bytes from the source to the destination, one after the other. Bytes lie in pages of the host or on
  the card; \<open>io\<close> says which byte a bus address of the host reaches, and \<open>pt\<close> is the page table of the
  process. The loop of \<open>transfer_data\<close> is repeated here with that memory beside its state; apart from
  the memory it is the same loop (\<open>dma_loop_erases\<close>).
\<close>

unbundle bit_operations_syntax

section \<open>Memory\<close>

datatype loc = Host page nat | Card u64

type_synonym bytes = "loc \<Rightarrow> u8"

text \<open>Copying byte by byte.\<close>

definition copy_bytes :: "loc list \<Rightarrow> loc list \<Rightarrow> bytes \<Rightarrow> bytes" where
  "copy_bytes srcs dsts m = fold (\<lambda>(a, b) m. m(b := m a)) (zip srcs dsts) m"

text \<open>\<open>n\<close> bytes on the card at \<open>a\<close>, and \<open>n\<close> bytes of the process at \<open>a\<close>.\<close>

definition card_locs :: "u64 \<Rightarrow> nat \<Rightarrow> loc list" where
  "card_locs a n = map Card (addr_range a n)"

definition user_loc :: "(nat \<Rightarrow> page) \<Rightarrow> nat \<Rightarrow> loc" where
  "user_loc pt a = Host (pt (a div PAGE_SIZE)) (a mod PAGE_SIZE)"

definition user_locs :: "(nat \<Rightarrow> page) \<Rightarrow> nat \<Rightarrow> nat \<Rightarrow> loc list" where
  "user_locs pt a n = map (user_loc pt) [a ..< a + n]"

text \<open>A request moves bytes one way or the other.\<close>

definition move_bytes :: "bool \<Rightarrow> loc list \<Rightarrow> loc list \<Rightarrow> bytes \<Rightarrow> bytes" where
  "move_bytes dir host crd m = (if dir then copy_bytes host crd m else copy_bytes crd host m)"

lemma copy_bytes_append:
  "length a = length c \<Longrightarrow> copy_bytes (a @ b) (c @ d) m = copy_bytes b d (copy_bytes a c m)"
  by (simp add: copy_bytes_def)

lemma move_bytes_append:
  "length a = length c \<Longrightarrow> move_bytes dir (a @ b) (c @ d) m = move_bytes dir b d (move_bytes dir a c m)"
  by (simp add: move_bytes_def copy_bytes_append)

lemma move_bytes_Nil [simp]: "move_bytes dir [] [] m = m"
  by (simp add: move_bytes_def copy_bytes_def)

lemma length_addr_range [simp]: "length (addr_range a n) = n"
  by (simp add: addr_range_def)

lemma length_locs [simp]: "length (card_locs a n) = n" "length (user_locs pt b n) = n"
  by (simp_all add: card_locs_def user_locs_def)

lemma card_locs_add: "card_locs a (m + n) = card_locs a m @ card_locs (a + of_nat m) n"
  by (simp add: card_locs_def addr_range_add)

lemma user_locs_add: "user_locs pt a (m + n) = user_locs pt a m @ user_locs pt (a + m) n"
proof -
  have "[a ..< a + (m + n)] = [a ..< a + m] @ [a + m ..< a + m + n]"
    using upt_add_eq_append [of a "a + m" n] by (simp add: add.assoc)
  then show ?thesis by (simp add: user_locs_def)
qed

text \<open>What copying to different places that are not copied from does.\<close>

lemma copy_bytes_same: "l \<notin> set dsts \<Longrightarrow> copy_bytes srcs dsts m l = m l"
proof (induction srcs arbitrary: dsts m)
  case (Cons a srcs)
  then show ?case by (cases dsts) (auto simp: copy_bytes_def)
qed (simp add: copy_bytes_def)

lemma copy_bytes_copied:
  "length srcs = length dsts \<Longrightarrow> distinct dsts \<Longrightarrow> set srcs \<inter> set dsts = {} \<Longrightarrow>
   map (copy_bytes srcs dsts m) dsts = map m srcs"
proof (induction srcs dsts arbitrary: m rule: list_induct2)
  case (Cons a srcs b dsts)
  have step: "copy_bytes (a # srcs) (b # dsts) m = copy_bytes srcs dsts (m(b := m a))"
    by (simp add: copy_bytes_def)
  have "map (copy_bytes srcs dsts (m(b := m a))) dsts = map (m(b := m a)) srcs" using Cons by auto
  moreover have "map (m(b := m a)) srcs = map m srcs" using Cons.prems(2) by auto
  moreover have "copy_bytes srcs dsts (m(b := m a)) b = m a" using Cons.prems(1) by (simp add: copy_bytes_same)
  ultimately show ?case unfolding step by simp
qed simp

section \<open>The device\<close>

definition exec_desc :: "(u64 \<Rightarrow> loc) \<Rightarrow> bool \<Rightarrow> xdma_desc \<Rightarrow> bytes \<Rightarrow> bytes" where
  "exec_desc io dir d =
     move_bytes dir (map io (addr_range (desc_host dir d) (unat (d_bytes d)))) (card_locs (desc_ep dir d) (unat (d_bytes d)))"

text \<open>The descriptors the engine fetches once it is started, from the table of transfer \<open>t\<close>.\<close>

definition fetched :: "nat \<Rightarrow> est \<Rightarrow> xdma_desc list option" where
  "fetched t s = do {
     x \<leftarrow> heap s t;
     lo \<leftarrow> last_write (s_bus s) (sreg (e_sgdma_regs (en s)) S_first_desc_lo);
     hi \<leftarrow> last_write (s_bus s) (sreg (e_sgdma_regs (en s)) S_first_desc_hi);
     c \<leftarrow> last_write (s_bus s) (ereg (e_regs (en s)) E_control);
     if c AND XDMA_CTRL_RUN_STOP = 0 then None
     else hw_walk (length (desc_virt x)) (desc_bus x) (desc_virt x) (addr_of hi lo)
   }"

definition device_runs :: "(u64 \<Rightarrow> loc) \<Rightarrow> nat \<Rightarrow> est \<Rightarrow> bytes \<Rightarrow> bytes" where
  "device_runs io t s m =
     (case fetched t s of None \<Rightarrow> m | Some ds \<Rightarrow> fold (exec_desc io (e_dir_to_dev (en s))) ds m)"

lemma exec_descs:
  "fold (exec_desc io dir) ds m =
     move_bytes dir (map io (concat (map (\<lambda>d. addr_range (desc_host dir d) (unat (d_bytes d))) ds)))
       (map Card (concat (map (\<lambda>d. addr_range (desc_ep dir d) (unat (d_bytes d))) ds))) m"
  by (induction ds arbitrary: m) (simp_all add: exec_desc_def card_locs_def move_bytes_append)

section \<open>The loop of \<open>transfer_data\<close> with memory\<close>

function dma_loop ::
  "(u64 \<Rightarrow> loc) \<Rightarrow> kernel \<Rightarrow> sgdma_env \<Rightarrow> nat \<Rightarrow> u64 \<Rightarrow> int \<Rightarrow> int \<Rightarrow> u64 \<Rightarrow> est \<Rightarrow> bytes \<Rightarrow>
   ((int \<times> int \<times> u64 \<times> est) \<times> bytes) option" where
  "dma_loop io K E t addr remaining done pos s m =
    (if \<not> remaining > 0 then Some ((0, done, pos, s), m)
     else let transfer_len = (if remaining > int XDMA_TRANSFER_MAX_BYTES then int XDMA_TRANSFER_MAX_BYTES else remaining)
       in do {
         (x, w) \<leftarrow> transfer_create K addr (word_of_int transfer_len) pos (e_dir_to_dev (en s))
                    (e_non_incr_addr (en s)) False True (s_pages s);
         let s = s\<lparr>s_pages := w\<rparr>;
         (case x of
            None \<Rightarrow> Some ((- EIO, done, pos, s), m)
          | Some x \<Rightarrow> do {
              let x = (if transfer_len \<ge> remaining
                       then x\<lparr>last_in_request := True, size_of_request := done + transfer_len\<rparr> else x);
              (_, s) \<leftarrow> transfer_queue t (put_transfer t x s);
              let m = device_runs io t s m;
              (rc, s) \<leftarrow> transfer_monitor E t s;
              x \<leftarrow> heap s t;
              (res, s) \<leftarrow>
                (if t_state x \<noteq> STATE_SUBMITTED then do {
                   let res = (if t_state x \<noteq> STATE_COMPLETED then - EIO else 0);
                   w \<leftarrow> transfer_destroy x (s_pages s);
                   Some (res, s\<lparr>s_pages := w, heap := (heap s)(t := None)\<rparr>)
                 } else if rc \<noteq> 0 then do {
                   let s = snd (engine_status_read False s);
                   Some (- ERESTARTSYS, s\<lparr>s_bus := snd (read_interrupts (s_cfg_bar s) (s_bus s))\<rparr>)
                 } else Some (0, s));
              (if res \<noteq> 0 then Some ((res, done, pos, s), m)
               else dma_loop io K E (Suc t) (addr + word_of_int transfer_len) (remaining - transfer_len)
                      (done + transfer_len) (pos + word_of_int transfer_len) s m)
            })
       })"
  by auto

termination dma_loop
  by (relation "measure (\<lambda>(_, _, _, _, _, r, _, _, _, _). nat r)") (auto simp: XDMA_TRANSFER_MAX_BYTES_def)

declare dma_loop.simps [simp del]

text \<open>It is the loop of the driver.\<close>

lemma erase_bind: "(\<And>x. v = Some x \<Longrightarrow> map_option fst (f x) = g x) \<Longrightarrow> map_option fst (Option.bind v f) = Option.bind v g"
  by (cases v) auto

lemma dma_loop_erases:
  "map_option fst (dma_loop io K E t addr remaining done pos s m) = transfer_data_loop K E t addr remaining done pos s"
proof (induction "nat remaining" arbitrary: t addr remaining "done" pos s m rule: less_induct)
  case less
  show ?case
  proof (cases "remaining > 0")
    case False
    then show ?thesis by (subst dma_loop.simps, subst transfer_data_loop.simps) simp
  next
    case True
    then have nn: "\<not> \<not> remaining > 0" by simp
    define len where "len = (if remaining > int XDMA_TRANSFER_MAX_BYTES then int XDMA_TRANSFER_MAX_BYTES else remaining)"
    have "nat (remaining - len) < nat remaining" using True by (simp add: len_def XDMA_TRANSFER_MAX_BYTES_def)
    note IH = less [OF this]
    note unf = dma_loop.simps [of io K E t addr remaining] transfer_data_loop.simps [of K E t addr remaining]
    show ?thesis unfolding unf if_not_P [OF nn] len_def [symmetric] Let_def
      by (rule erase_bind, clarsimp split: option.split) (auto simp: IH intro!: erase_bind)
  qed
qed

section \<open>One transfer\<close>

text \<open>
  What the kernel's answers mean: \<open>get_user_pages_fast\<close> returns the pages of the process, and the bus
  addresses of \<open>pci_map_sg\<close> reach the bytes of the entries, in order, for the pages of the process.
\<close>

definition user_pages :: "kernel \<Rightarrow> (nat \<Rightarrow> page) \<Rightarrow> bool" where
  "user_pages K pt \<longleftrightarrow>
     (\<forall>start n wr. k_gup K start n wr = (n, map pt [unat start div PAGE_SIZE ..< unat start div PAGE_SIZE + nat n]))"

definition entry_locs :: "sg_entry \<Rightarrow> loc list" where
  "entry_locs e = map (\<lambda>j. Host (the (sg_page e)) (unat (sg_offset e) + j)) [0..<unat (sg_length e)]"

definition bus_ok :: "kernel \<Rightarrow> (u64 \<Rightarrow> loc) \<Rightarrow> (nat \<Rightarrow> page) \<Rightarrow> bool" where
  "bus_ok K io pt \<longleftrightarrow>
     (\<forall>es. (\<forall>e \<in> set es. sg_page e \<in> Some ` range pt \<and> unat (sg_offset e) + unat (sg_length e) \<le> PAGE_SIZE) \<longrightarrow>
        map io (segs_range (k_map_sg K es)) = concat (map entry_locs es))"

lemma slice_locs:
  assumes "0 < c" "i < nr_slices s c" "sg_slice s c i e" "sg_page e = Some (pt (s div 4096 + i))"
  shows "entry_locs e = user_locs pt (slice_lo s i) (slice_hi s c i - slice_lo s i)"
    "unat (sg_offset e) + unat (sg_length e) \<le> 4096"
proof -
  let ?lo = "slice_lo s i" and ?hi = "slice_hi s c i"
  note w = slice_within [OF assms(1,2)]
  have lo: "?lo = 4096 * (s div 4096 + i) + ?lo mod 4096" using w(5) by (metis mult_div_mod_eq)
  have hi: "?hi - 1 = 4096 * (s div 4096 + i) + (?hi - 1) mod 4096" using w(6) by (metis mult_div_mod_eq)
  have m: "(?hi - 1) mod 4096 < 4096" by simp
  have in_page: "?lo mod 4096 + j < 4096" if "j < ?hi - ?lo" for j using lo hi m that by linarith
  have loc: "Host (pt (s div 4096 + i)) (?lo mod 4096 + j) = user_loc pt (?lo + j)" if "j < ?hi - ?lo" for j
  proof -
    have "(4096 * k + r) div 4096 = k \<and> (4096 * k + r) mod 4096 = r" if "r < 4096" for k r :: nat using that by simp
    from this [OF in_page [OF that], of "s div 4096 + i"] lo
    have "(?lo + j) div 4096 = s div 4096 + i" "(?lo + j) mod 4096 = ?lo mod 4096 + j" by (metis add.assoc)+
    then show ?thesis by (simp add: user_loc_def PAGE_SIZE_def)
  qed
  show "entry_locs e = user_locs pt ?lo (?hi - ?lo)"
    using assms(3,4) loc by (intro nth_equalityI) (simp_all add: entry_locs_def user_locs_def sg_slice_def)
  show "unat (sg_offset e) + unat (sg_length e) \<le> 4096"
  proof -
    have "?lo mod 4096 + (?hi - ?lo - 1) < 4096" by (rule in_page) (use w(1) in linarith)
    then have "?lo mod 4096 + (?hi - ?lo) \<le> 4096" by linarith
    then show ?thesis using assms(3) by (simp add: sg_slice_def)
  qed
qed

lemma slices_locs:
  assumes "0 < c" "length es = nr_slices s c"
    and "\<forall>i < nr_slices s c. sg_slice s c i (es ! i) \<and> sg_page (es ! i) = Some (pt (s div 4096 + i))"
  shows "concat (map entry_locs es) = user_locs pt s c"
proof -
  have "concat (map entry_locs (take (Suc m) es)) = user_locs pt s (slice_hi s c m - s)" if "m < nr_slices s c" for m
    using that
  proof (induction m)
    case 0
    then show ?case using assms(2,3) slice_locs(1) [OF assms(1) 0] slice_ends(1) [OF assms(1), of s]
      by (simp add: take_Suc_conv_app_nth)
  next
    case (Suc m)
    note w = slice_within [OF assms(1) Suc.prems]
    have e: "entry_locs (es ! Suc m) = user_locs pt (slice_lo s (Suc m)) (slice_hi s c (Suc m) - slice_lo s (Suc m))"
      using slice_locs(1) [OF assms(1) Suc.prems] assms(3) Suc.prems by simp
    have "slice_hi s c (Suc m) - s = (slice_lo s (Suc m) - s) + (slice_hi s c (Suc m) - slice_lo s (Suc m))"
      using w(1,3) by simp
    then show ?case
      using Suc assms(2) e w(3) slice_adjacent [OF assms(1), of m s] user_locs_add [of pt s "slice_lo s (Suc m) - s"]
      by (simp add: take_Suc_conv_app_nth [of "Suc m"])
  qed
  from this [of "nr_slices s c - 1"] show ?thesis
    using assms(2) slice_ends(2) [OF assms(1), of s] by (simp add: nr_slices_def)
qed

lemma ep_locs:
  "ep_seq False ep bl \<noteq> None \<Longrightarrow>
   concat (map (\<lambda>(a, e, l). addr_range e (unat l)) bl) = addr_range ep (length (blocks_range bl))"
proof (induction bl arbitrary: ep)
  case (Cons b bl)
  obtain a e l where b: "b = (a, e, l)" by (cases b)
  have l: "of_nat (unat l) = (ucast l :: u64)" by simp
  show ?case using Cons by (simp add: b addr_range_add l split: if_splits)
qed simp

lemma hw_walk_more: "hw_walk n b ds a = Some r \<Longrightarrow> n \<le> k \<Longrightarrow> hw_walk k b ds a = Some r"
proof (induction n arbitrary: k a r)
  case (Suc n)
  then obtain k' where k: "k = Suc k'" "n \<le> k'" by (cases k) auto
  obtain d where d: "desc_at b ds a = Some d" using Suc.prems(1) by (auto simp: bind_eq_Some_conv)
  then show ?case using Suc.prems(1) Suc.IH [OF _ k(2)] k(1) by (auto split: if_splits)
qed simp

lemma created_moves:
  assumes "kernel_ok K" "user_pages K pt" "bus_ok K io pt" "buffer_ok start cnt"
    and "transfer_ok K dir False False True start cnt ep x"
  shows "\<exists>ds. hw_walk (length (desc_virt x)) (desc_bus x) (desc_virt x) (desc_bus x) = Some ds \<and>
    fold (exec_desc io dir) ds m = move_bytes dir (user_locs pt (unat start) (unat cnt)) (card_locs ep (unat cnt)) m"
proof -
  let ?n = "nr_slices (unat start) (unat cnt)"
  have c0: "0 < unat cnt" using assms(4) by (simp add: buffer_ok_def)
  obtain sgm :: sg_mapping_t and bl where t: "mapped_pages sgm = int ?n" "mapped_pages sgm \<le> int (length (sgl sgm))"
    "\<forall>i < ?n. sg_slice (unat start) (unat cnt) i (sgl sgm ! i)"
    "\<forall>i < ?n. sg_page (sgl sgm ! i) = buffer_page K dir True start cnt i"
    "t_dma x = k_map_sg K (take ?n (sgl sgm))" "length (desc_virt x) = sgl_nents x" "sgl_nents x < 2 ^ 31"
    "bl \<noteq> []" "length bl \<le> sgl_nents x"
    "\<forall>m < length bl. final_desc dir (desc_bus x) (length bl) m (bl ! m) (desc_virt x ! m)"
    "ep_seq (True \<and> False) ep bl \<noteq> None" "blocks_range bl = segs_range (t_dma x)"
    using assms(5) unfolding transfer_ok_def by blast
  from t(11) have ep: "ep_seq False ep bl \<noteq> None" by simp
  define es where "es = take ?n (sgl sgm)"
  have es: "length es = ?n" using t(1,2) by (simp add: es_def)
  have page: "buffer_page K dir True start cnt i = Some (pt (unat start div 4096 + i))" if "i < ?n" for i
    using assms(2) that by (simp add: buffer_page_def user_pages_def PAGE_SIZE_def)
  have ents: "\<forall>i < ?n. sg_slice (unat start) (unat cnt) i (es ! i) \<and> sg_page (es ! i) = Some (pt (unat start div 4096 + i))"
    using t(3,4) page by (simp add: es_def)
  have "\<forall>e \<in> set es. sg_page e \<in> Some ` range pt \<and> unat (sg_offset e) + unat (sg_length e) \<le> PAGE_SIZE"
    using ents slice_locs(2) [OF c0, of _ "unat start" _ pt] es by (auto simp: in_set_conv_nth PAGE_SIZE_def)
  then have dma: "map io (segs_range (t_dma x)) = user_locs pt (unat start) (unat cnt)"
    using assms(3) slices_locs [OF c0 es ents] unfolding bus_ok_def t(5) es_def [symmetric] by auto
  then have len: "length (segs_range (t_dma x)) = unat cnt" by (metis length_map length_locs(2))
  let ?ds = "take (length bl) (desc_virt x)"
  have "hw_walk (length bl) (desc_bus x) (desc_virt x) (desc_bus x) = Some ?ds"
    by (rule final_walk [OF t(10)]) (use t(6-9) in simp_all)
  then have w: "hw_walk (length (desc_virt x)) (desc_bus x) (desc_virt x) (desc_bus x) = Some ?ds"
    by (rule hw_walk_more) (use t(6,9) in simp)
  have l: "length bl \<le> length (desc_virt x)" using t(6,9) by simp
  have "map (\<lambda>d. addr_range (desc_ep dir d) (unat (d_bytes d))) ?ds = map (\<lambda>(a, e, l). addr_range e (unat l)) bl"
    using t(10) l by (intro nth_equalityI) (auto simp: final_desc_def split_beta)
  then have "concat (map (\<lambda>d. addr_range (desc_ep dir d) (unat (d_bytes d))) ?ds) = addr_range ep (unat cnt)"
    using ep_locs [OF ep] t(12) len by simp
  then have "fold (exec_desc io dir) ?ds m = move_bytes dir (user_locs pt (unat start) (unat cnt)) (card_locs ep (unat cnt)) m"
    unfolding exec_descs blocks_of_descs [OF t(10) l] t(12) dma by (simp add: card_locs_def)
  with w show ?thesis by blast
qed

text \<open>The registers tell the device where the chain of the transfer begins.\<close>

definition own_regs :: "xdma_engine \<Rightarrow> bool" where
  "own_regs e \<longleftrightarrow> (\<forall>f g. sreg (e_sgdma_regs e) f \<noteq> ereg (e_regs e) g)"

lemma started_fetches:
  assumes "started s t x s1" "own_regs (en s)" "e_perf (en s) = None"
  shows "fetched t s1 = hw_walk (length (desc_virt x)) (desc_bus x) (desc_virt x) (desc_bus x)"
  using assms start_control_run [of "s_poll_mode s" "en s"]
  by (auto simp: fetched_def started_def engine_config_def last_write_def start_writes_def own_regs_def bits)

section \<open>A whole request\<close>

text \<open>\<open>char_sgdma_read_write\<close> over the loop with memory; it is the same function.\<close>

definition dma_request ::
  "(u64 \<Rightarrow> loc) \<Rightarrow> kernel \<Rightarrow> sgdma_env \<Rightarrow> nat \<Rightarrow> u64 \<Rightarrow> u64 \<Rightarrow> u64 \<Rightarrow> bool \<Rightarrow> est \<Rightarrow> bytes \<Rightarrow>
   ((int \<times> u64 \<times> est) \<times> bytes) option" where
  "dma_request io K E t buf count pos dir_to_dev s m = do {
     BUG_ON (e_magic (en s) \<noteq> MAGIC_ENGINE);
     (if dir_to_dev \<noteq> e_dir_to_dev (en s) then Some ((- EINVAL, pos, s), m)
      else let rc = check_transfer_align (en s) buf count pos True
        in if rc \<noteq> 0 then Some ((rc, pos, s), m)
           else do {
             ((res, done, pos, s), m) \<leftarrow> dma_loop io K E t buf (sint count) 0 pos s m;
             Some ((if res \<noteq> 0 then res else done, pos, s), m)
           })
   }"

lemma dma_request_erases:
  "map_option fst (dma_request io K E t buf count pos dir s m) = char_sgdma_read_write K E t buf count pos dir s"
proof -
  have "map_option fst (Option.bind v (\<lambda>((res, d, p, s), m). Some ((if res \<noteq> 0 then res else d, p, s), m)))
      = Option.bind (map_option fst v) (\<lambda>(res, d, p, s). Some (if res \<noteq> 0 then res else d, p, s))"
    for v :: "((int \<times> int \<times> u64 \<times> est) \<times> bytes) option"
    by (cases v) auto
  then show ?thesis
    by (simp add: dma_request_def char_sgdma_read_write_def transfer_data_def dma_loop_erases Let_def)
qed

text \<open>What stays the same from round to round.\<close>

definition dma_ready :: "bool \<Rightarrow> est \<Rightarrow> bool" where
  "dma_ready dir s \<longleftrightarrow> idle s \<and> own_regs (en s) \<and> e_dir_to_dev (en s) = dir \<and> \<not> e_non_incr_addr (en s)"

lemma user_pages_pins: "user_pages K pt \<Longrightarrow> pins_all K"
  by (simp add: user_pages_def pins_all_def)

lemma dma_step:
  assumes "dma_ready dir s" "kernel_ok K" "user_pages K pt" "bus_ok K io pt"
    and "0 < n" "n \<le> r" "r \<le> XDMA_TRANSFER_MAX_BYTES \<longrightarrow> n = r"
    and "XDMA_TRANSFER_MAX_BYTES < r \<longrightarrow> n = XDMA_TRANSFER_MAX_BYTES" "buffer_ok addr (of_nat n)" "unat (of_nat n :: u64) = n"
  shows "\<exists>s'. dma_loop io K isr_env t addr (int r) done pos s m =
      dma_loop io K isr_env (Suc t) (addr + of_nat n) (int (r - n)) (done + int n) (pos + of_nat n) s'
        (move_bytes dir (user_locs pt (unat addr) n) (card_locs pos n) m) \<and> dma_ready dir s' \<and>
    engine_config (en s') = engine_config (en s)"
proof -
  have d: "idle s" "own_regs (en s)" "e_dir_to_dev (en s) = dir" "e_non_incr_addr (en s) = False"
    using assms(1) by (simp_all add: dma_ready_def)
  note pins = user_pages_pins [OF assms(3)]
  obtain x w w2 where x: "transfer_create K addr (of_nat n) pos dir False False True (s_pages s) = Some (Some x, w)"
    "transfer_destroy x w = Some w2" "p_refs w2 = p_refs (s_pages s)"
    "0 < desc_num x" "desc_num x < 2 ^ 31" "\<not> t_cyclic x" "t_iocb x = None"
    by (rule created [OF assms(2) pins assms(9)])
  have "pages_ok K dir True addr (of_nat n)" using pins by (simp add: pages_ok_def pins_all_def Let_def)
  from transfer_create_spec [OF assms(2) this assms(9), of pos False False "s_pages s"] x(1)
  have ok: "transfer_ok K dir False False True addr (of_nat n) pos x" by auto
  define y where "y = (if int n \<ge> int r then x\<lparr>last_in_request := True, size_of_request := done + int n\<rparr> else x)"
  have y: "0 < desc_num y" "desc_num y < 2 ^ 31" "\<not> t_cyclic y" "t_iocb y = None"
    "desc_virt y = desc_virt x" "desc_bus y = desc_bus x"
    using x(4-7) by (simp_all add: y_def)
  have yd: "transfer_destroy (y\<lparr>t_state := STATE_COMPLETED\<rparr>) w = Some w2"
    unfolding x(2) [symmetric] by (rule transfer_destroy_cong) (simp_all add: y_def)
  let ?w = "s\<lparr>s_pages := w\<rparr>"
  have idl: "idle ?w" using d(1) by (simp add: idle_def)
  obtain s1 s2 where s: "transfer_queue t (put_transfer t y ?w) = Some (0, s1)"
    "transfer_monitor isr_env t s1 = Some (0, s2)" "heap s2 = (heap s)(t \<mapsto> y\<lparr>t_state := STATE_COMPLETED\<rparr>)"
    "s_pages s2 = w" "idle s2" "engine_config (en s2) = engine_config (en s)" "started ?w t y s1"
    using transfer_round [OF idl y(1-4), of t] by auto
  obtain ds where ds: "hw_walk (length (desc_virt x)) (desc_bus x) (desc_virt x) (desc_bus x) = Some ds"
    "fold (exec_desc io dir) ds m = move_bytes dir (user_locs pt (unat addr) n) (card_locs pos n) m"
    using created_moves [OF assms(2-4,9) ok, of m] assms(10) by auto
  have "fetched t s1 = Some ds"
    using started_fetches [OF s(7)] d(1,2) ds(1) y(5,6) by (simp add: idle_def)
  then have run: "device_runs io t s1 m = move_bytes dir (user_locs pt (unat addr) n) (card_locs pos n) m"
    using ds(2) s(7) d(3) by (simp add: device_runs_def started_def engine_config_def)
  let ?s' = "s2\<lparr>s_pages := w2, heap := (heap s2)(t := None)\<rparr>"
  have len: "(if int r > int XDMA_TRANSFER_MAX_BYTES then int XDMA_TRANSFER_MAX_BYTES else int r) = int n"
    using assms(7,8) by auto
  have nz: "\<not> \<not> 0 < int r" using assms(5,6) by simp
  have "dma_loop io K isr_env t addr (int r) done pos s m =
      dma_loop io K isr_env (Suc t) (addr + of_nat n) (int r - int n) (done + int n) (pos + of_nat n) ?s'
        (move_bytes dir (user_locs pt (unat addr) n) (card_locs pos n) m)"
    by (subst dma_loop.simps, unfold len if_not_P [OF nz] d(3,4))
      (use x(1) s(1-4) yd run in \<open>cases "r \<le> n"; simp add: y_def Let_def\<close>)
  moreover have "dma_ready dir ?s'" "engine_config (en ?s') = engine_config (en s)"
    using s(5,6) d by (simp_all add: idle_def dma_ready_def own_regs_def engine_config_def)
  ultimately show ?thesis using assms(6) by (intro exI [of _ ?s']) (simp add: of_nat_diff)
qed

lemma dma_loop_moves:
  assumes "kernel_ok K" "user_pages K pt" "bus_ok K io pt"
  shows "dma_ready dir s \<Longrightarrow> unat addr + r < 2 ^ 64 \<Longrightarrow>
    \<exists>R s'. dma_loop io K isr_env t addr (int r) done pos s m
        = Some ((0, R, pos + of_nat r, s'), move_bytes dir (user_locs pt (unat addr) r) (card_locs pos r) m) \<and>
      R = done + int r \<and> dma_ready dir s' \<and> engine_config (en s') = engine_config (en s)"
proof (induction r arbitrary: t addr "done" pos s m rule: less_induct)
  case (less r)
  define M where "M = XDMA_TRANSFER_MAX_BYTES"
  have M: "0 < M" "M < 2 ^ 42" by (simp_all add: M_def XDMA_TRANSFER_MAX_BYTES_def)
  show ?case
  proof (cases "r = 0")
    case True
    then show ?thesis using less.prems(1) by (subst dma_loop.simps) (simp add: user_locs_def card_locs_def)
  next
    case False
    define n where "n = min r M"
    have n: "0 < n" "n \<le> r" "r \<le> M \<longrightarrow> n = r" "M < r \<longrightarrow> n = M" using False M(1) by (auto simp: n_def)
    have un: "unat (of_nat n :: u64) = n" using n(2) less.prems(2) by (simp add: unsigned_of_nat take_bit_nat_eq_self)
    have b: "buffer_ok addr (of_nat n)" unfolding buffer_ok_def un using n less.prems(2) M(2) by (auto simp: n_def)
    let ?m = "move_bytes dir (user_locs pt (unat addr) n) (card_locs pos n) m"
    obtain s1 where s1: "dma_loop io K isr_env t addr (int r) done pos s m =
      dma_loop io K isr_env (Suc t) (addr + of_nat n) (int (r - n)) (done + int n) (pos + of_nat n) s1 ?m" "dma_ready dir s1"
      "engine_config (en s1) = engine_config (en s)"
      using dma_step [OF less.prems(1) assms n(1,2) n(3,4) [unfolded M_def] b un] by blast
    have ua: "unat (addr + of_nat n) = unat addr + n"
      using less.prems(2) n(2) un by (subst unat_add_lem [THEN iffD1]) simp_all
    have lt: "r - n < r" and ub: "unat (addr + of_nat n) + (r - n) < 2 ^ 64"
      using n(1,2) less.prems(2) ua by simp_all
    obtain R s' where s': "dma_loop io K isr_env (Suc t) (addr + of_nat n) (int (r - n)) (done + int n) (pos + of_nat n) s1 ?m
        = Some ((0, R, pos + of_nat n + of_nat (r - n), s'),
            move_bytes dir (user_locs pt (unat addr + n) (r - n)) (card_locs (pos + of_nat n) (r - n)) ?m)"
      "R = done + int n + int (r - n)" "dma_ready dir s'" "engine_config (en s') = engine_config (en s1)"
      using less.IH [OF lt s1(2) ub, of "Suc t" "done + int n" "pos + of_nat n" ?m] unfolding ua by blast
    moreover have "pos + of_nat n + of_nat (r - n) = pos + (of_nat r :: u64)" "done + int n + int (r - n) = done + int r"
      using n(2) by (simp_all add: add.assoc flip: of_nat_add)
    moreover have "user_locs pt (unat addr) r = user_locs pt (unat addr) n @ user_locs pt (unat addr + n) (r - n)"
      "card_locs pos r = card_locs pos n @ card_locs (pos + of_nat n) (r - n)"
      using user_locs_add [of pt "unat addr" n "r - n"] card_locs_add [of pos n "r - n"] n(2) by simp_all
    ultimately show ?thesis using s1(1,3) by (simp add: move_bytes_append)
  qed
qed

lemma request_moves:
  assumes "kernel_ok K" "user_pages K pt" "bus_ok K io pt" "dma_ready dir s"
    and "unat buf + unat count < 2 ^ 64" "unat count < 2 ^ 63" "check_transfer_align (en s) buf count pos True = 0"
  shows "\<exists>s'. dma_request io K isr_env t buf count pos dir s m =
      Some ((int (unat count), pos + count, s'), move_bytes dir (user_locs pt (unat buf) (unat count)) (card_locs pos (unat count)) m) \<and>
    dma_ready dir s' \<and> engine_config (en s') = engine_config (en s)"
proof -
  have "sint count = int (unat count)" by (rule sint_small64 [OF assms(6)])
  moreover obtain s' where "dma_loop io K isr_env t buf (int (unat count)) 0 pos s m = Some ((0, int (unat count), pos + count, s'),
      move_bytes dir (user_locs pt (unat buf) (unat count)) (card_locs pos (unat count)) m)"
    "dma_ready dir s'" "engine_config (en s') = engine_config (en s)"
    using dma_loop_moves [OF assms(1-5), of t 0 pos m] by auto
  ultimately show ?thesis using assms(4,7) by (simp add: dma_request_def dma_ready_def idle_def)
qed

text \<open>Different places: addresses do not wrap, and the process has mapped each page of the buffer once.\<close>

lemma distinct_card_locs: "n < 2 ^ 64 \<Longrightarrow> distinct (card_locs a n)"
proof -
  assume n: "n < 2 ^ 64"
  have "j = k" if "j < n" "k < n" "a + of_nat j = a + of_nat k" for j k
  proof (rule of_nat_u64_inj)
    show "of_nat j = (of_nat k :: u64)" by (rule add_left_imp_eq [OF that(3)])
    show "j < 2 ^ 64" "k < 2 ^ 64" by (rule less_trans [OF that(1) n], rule less_trans [OF that(2) n])
  qed
  then have "inj_on (\<lambda>k. Card (a + of_nat k)) (set [0..<n])" by (intro inj_onI) (simp only: loc.inject set_upt atLeastLessThan_iff)
  then show ?thesis by (simp add: card_locs_def addr_range_def distinct_map comp_def)
qed

lemma distinct_user_locs:
  "inj_on pt ((\<lambda>a. a div PAGE_SIZE) ` {a ..< a + n}) \<Longrightarrow> distinct (user_locs pt a n)"
proof -
  assume i: "inj_on pt ((\<lambda>a. a div PAGE_SIZE) ` {a ..< a + n})"
  have "x = y" if "x \<in> {a ..< a + n}" "y \<in> {a ..< a + n}" "user_loc pt x = user_loc pt y" for x y
  proof -
    have "pt (x div PAGE_SIZE) = pt (y div PAGE_SIZE)" and m: "x mod PAGE_SIZE = y mod PAGE_SIZE"
      using that(3) by (simp_all add: user_loc_def)
    from inj_onD [OF i this(1) imageI [OF that(1)] imageI [OF that(2)]] m show ?thesis by (metis mult_div_mod_eq)
  qed
  then have "inj_on (user_loc pt) (set [a ..< a + n])" by (intro inj_onI) (simp only: set_upt)
  then show ?thesis by (simp add: user_locs_def distinct_map)
qed

lemma card_user_disjoint:
  "set (card_locs a n) \<inter> set (user_locs pt b k) = {}" "set (user_locs pt b k) \<inter> set (card_locs a n) = {}"
  by (auto simp: card_locs_def user_locs_def user_loc_def)

section \<open>Properties\<close>

text \<open>
  C1: the effect of a synchronous request. On an idle engine that increments the device address, a
  read or write of any size that passes the checks returns the number of bytes asked for, and when
  the device has executed the descriptors of all its transfers, fetched from the addresses the driver
  wrote to its registers, memory is as if the bytes of the buffer and the bytes of the card from the
  file position on had been copied one by one; no other byte has changed. Page boundaries, segments,
  descriptors and the cut into transfers of 8 MiB leave no trace.
\<close>

theorem request_moves_bytes:
  assumes "kernel_ok K" "user_pages K pt" "bus_ok K io pt" "dma_ready dir s"
    and "unat buf + unat count < 2 ^ 64" "unat count < 2 ^ 63" "check_transfer_align (en s) buf count pos True = 0"
  shows "\<exists>s' m'. char_sgdma_read_write K isr_env t buf count pos dir s = Some (int (unat count), pos + count, s') \<and>
    dma_request io K isr_env t buf count pos dir s m = Some ((int (unat count), pos + count, s'), m') \<and>
    m' = (if dir then copy_bytes (user_locs pt (unat buf) (unat count)) (card_locs pos (unat count)) m
          else copy_bytes (card_locs pos (unat count)) (user_locs pt (unat buf) (unat count)) m)"
proof -
  obtain s' where "dma_request io K isr_env t buf count pos dir s m =
      Some ((int (unat count), pos + count, s'), move_bytes dir (user_locs pt (unat buf) (unat count)) (card_locs pos (unat count)) m)"
    using request_moves [OF assms] by blast
  moreover from this have "char_sgdma_read_write K isr_env t buf count pos dir s = Some (int (unat count), pos + count, s')"
    using dma_request_erases [of io K isr_env t buf count pos dir s m] by simp
  ultimately show ?thesis by (simp add: move_bytes_def)
qed

text \<open>
  C3: data written to the card are read back. A write of a buffer to the channel to the device,
  followed by a read of as many bytes at the same position from the channel from the device into a
  buffer whose pages are mapped once, leaves the bytes of the first buffer in the second; apart from
  those and the bytes of the card at that position nothing has changed, in the process or on the card.
\<close>

theorem write_then_read:
  assumes "kernel_ok K" "user_pages K pt" "bus_ok K io pt" "dma_ready True s" "dma_ready False r"
    and "unat a + unat count < 2 ^ 64" "unat b + unat count < 2 ^ 64" "unat count < 2 ^ 63"
    and "check_transfer_align (en s) a count pos True = 0" "check_transfer_align (en r) b count pos True = 0"
    and "inj_on pt ((\<lambda>a. a div PAGE_SIZE) ` {unat b ..< unat b + unat count})"
  shows "\<exists>s' r' m1 m2. dma_request io K isr_env t a count pos True s m = Some ((int (unat count), pos + count, s'), m1) \<and>
    dma_request io K isr_env u b count pos False r m1 = Some ((int (unat count), pos + count, r'), m2) \<and>
    map m2 (user_locs pt (unat b) (unat count)) = map m (user_locs pt (unat a) (unat count)) \<and>
    (\<forall>l. l \<notin> set (user_locs pt (unat b) (unat count)) \<and> l \<notin> set (card_locs pos (unat count)) \<longrightarrow> m2 l = m l)"
proof -
  let ?A = "user_locs pt (unat a) (unat count)" and ?B = "user_locs pt (unat b) (unat count)"
    and ?C = "card_locs pos (unat count)"
  let ?m1 = "copy_bytes ?A ?C m"
  let ?m2 = "copy_bytes ?C ?B ?m1"
  obtain s' where s: "dma_request io K isr_env t a count pos True s m = Some ((int (unat count), pos + count, s'), ?m1)"
    using request_moves [OF assms(1-4,6,8,9)] by (auto simp: move_bytes_def)
  obtain r' where r: "dma_request io K isr_env u b count pos False r ?m1 = Some ((int (unat count), pos + count, r'), ?m2)"
    using request_moves [OF assms(1-3,5,7,8,10)] by (auto simp: move_bytes_def)
  have "map ?m2 ?B = map ?m1 ?C"
    using distinct_user_locs [OF assms(11)] card_user_disjoint by (intro copy_bytes_copied) auto
  also have "\<dots> = map m ?A"
    using distinct_card_locs [of "unat count" pos] assms(8) card_user_disjoint by (intro copy_bytes_copied) auto
  finally have "map ?m2 ?B = map m ?A" .
  moreover have "?m2 l = m l" if "l \<notin> set ?B" "l \<notin> set ?C" for l using that by (simp add: copy_bytes_same)
  ultimately show ?thesis using s r by blast
qed

section \<open>Examples\<close>

text \<open>Physical memory of \<open>2 ^ 64\<close> bytes, mapped one to one, and a bus that reaches it without translation.\<close>

definition demo_pt :: "nat \<Rightarrow> page" where "demo_pt p = p mod 2 ^ 52"

definition demo_io :: "u64 \<Rightarrow> loc" where "demo_io a = Host (unat a div PAGE_SIZE) (unat a mod PAGE_SIZE)"

definition user_kernel :: kernel where
  "user_kernel = demo_kernel\<lparr>k_gup := \<lambda>s n wr. (n, map demo_pt [unat s div PAGE_SIZE ..< unat s div PAGE_SIZE + nat n])\<rparr>"

lemma user_kernel_ok: "kernel_ok user_kernel" "user_pages user_kernel demo_pt"
proof -
  have "gup_ok (k_gup user_kernel)" by (simp add: gup_ok_def user_kernel_def)
  then show "kernel_ok user_kernel" using demo_kernel_ok by (simp add: kernel_ok_def user_kernel_def)
  show "user_pages user_kernel demo_pt" by (simp add: user_pages_def user_kernel_def)
qed

lemma demo_bus: "bus_ok user_kernel demo_io demo_pt"
proof -
  have one: "map demo_io (addr_range (of_nat (4096 * p) + ucast (f :: u32)) n) = map (\<lambda>j. Host p (unat f + j)) [0..<n]"
    if "p < 2 ^ 52" "unat f + n \<le> 4096" for p f n
  proof -
    have "demo_io (of_nat (4096 * p) + ucast f + of_nat j) = Host p (unat f + j)" if j: "j < n" for j
    proof -
      have "(of_nat (4096 * p) + ucast f + of_nat j :: u64) = of_nat (4096 * p + (unat f + j))" by simp
      moreover have "4096 * p + (unat f + j) < 2 ^ 64" using \<open>p < 2 ^ 52\<close> \<open>unat f + n \<le> 4096\<close> j by simp
      ultimately have "unat (of_nat (4096 * p) + ucast f + of_nat j :: u64) = 4096 * p + (unat f + j)"
        by (simp del: of_nat_add of_nat_mult add: unsigned_of_nat take_bit_nat_eq_self)
      then show ?thesis using \<open>unat f + n \<le> 4096\<close> j by (simp add: demo_io_def PAGE_SIZE_def)
    qed
    then show ?thesis by (simp add: addr_range_def)
  qed
  have "map demo_io (segs_range (k_map_sg user_kernel es)) = concat (map entry_locs es)"
    if "\<forall>e \<in> set es. sg_page e \<in> Some ` range demo_pt \<and> unat (sg_offset e) + unat (sg_length e) \<le> PAGE_SIZE" for es
    using that
  proof (induction es)
    case (Cons e es)
    obtain p where p: "sg_page e = Some (demo_pt p)" using Cons.prems by auto
    have l: "unat (sg_offset e) + unat (sg_length e) \<le> 4096" using Cons.prems by (simp add: PAGE_SIZE_def)
    then have "min (sg_length e) 4096 = sg_length e" by (simp add: min_def word_le_nat_alt)
    then show ?case using Cons one [of "demo_pt p" "sg_offset e" "unat (sg_length e)"] p l
      by (simp add: user_kernel_def demo_kernel_def entry_locs_def demo_pt_def)
  qed (simp add: user_kernel_def demo_kernel_def)
  then show ?thesis by (simp add: bus_ok_def)
qed

definition demo_read_engine :: est where
  "demo_read_engine = (demo_est (\<lambda>_ _. 0))\<lparr>en := demo_engine\<lparr>e_dir_to_dev := False\<rparr>\<rparr>"

definition demo_bytes :: bytes where
  "demo_bytes l = (case l of Host p k \<Rightarrow> of_nat (p + k) | Card a \<Rightarrow> 0)"

lemma demo_dma_ready: "dma_ready True (demo_est (\<lambda>_ _. 0))" "dma_ready False demo_read_engine"
proof -
  have "disjoint_regs (demo_est (\<lambda>_ _. 0))" using demo_fresh [of "\<lambda>_ _. 0"] by (simp add: fresh_def)
  then show "dma_ready True (demo_est (\<lambda>_ _. 0))" "dma_ready False demo_read_engine"
    by (auto simp: dma_ready_def own_regs_def disjoint_regs_def idle_def demo_read_engine_def demo_est_def demo_engine_def)
qed

theorem request_moves_bytes_witness:
  "\<exists>s' m'. char_sgdma_read_write user_kernel isr_env 9 0x1ff0 0x1000000 0x40000000 True (demo_est (\<lambda>_ _. 0)) =
     Some (0x1000000, 0x41000000, s') \<and>
   dma_request demo_io user_kernel isr_env 9 0x1ff0 0x1000000 0x40000000 True (demo_est (\<lambda>_ _. 0)) demo_bytes =
     Some ((0x1000000, 0x41000000, s'), m')"
  using request_moves_bytes [OF user_kernel_ok demo_bus demo_dma_ready(1), of "0x1ff0" "0x1000000" "0x40000000" 9 demo_bytes]
  by (auto simp: demo_est_def demo_engine_def check_transfer_align_def)

theorem write_then_read_witness:
  "\<exists>s' r' m1 m2. dma_request demo_io user_kernel isr_env 9 0x1ff0 0x1800 0x40 True (demo_est (\<lambda>_ _. 0)) demo_bytes = Some ((0x1800, 0x1840, s'), m1) \<and>
     dma_request demo_io user_kernel isr_env 9 0x9230 0x1800 0x40 False demo_read_engine m1 = Some ((0x1800, 0x1840, r'), m2) \<and>
     map m2 (user_locs demo_pt 0x9230 0x1800) = map demo_bytes (user_locs demo_pt 0x1ff0 0x1800)"
proof -
  have "x div PAGE_SIZE mod 2 ^ 52 = x div PAGE_SIZE" if "x < 0x9230 + 0x1800" for x :: nat
    using that by (simp add: PAGE_SIZE_def)
  then have "inj_on demo_pt ((\<lambda>a. a div PAGE_SIZE) ` {unat (0x9230 :: u64) ..< unat (0x9230 :: u64) + unat (0x1800 :: u64)})"
    by (auto simp: inj_on_def demo_pt_def)
  from write_then_read [OF user_kernel_ok demo_bus demo_dma_ready _ _ _ _ _ this, of "0x1ff0" "0x40" 9 demo_bytes 9]
  show ?thesis by (auto simp: demo_read_engine_def demo_est_def demo_engine_def check_transfer_align_def)
qed

end
