(* ===== verification/Programs.thy ===== *)
theory Programs
  imports Dma
begin

text \<open>
  The programs that come with the driver to move files to and from the card: \<open>test_dma\<close> of
  \<open>tests/dma_to_device.c\<close> and of \<open>tests/dma_from_device.c\<close>. What they rely on is the contract of a
  channel's file, \<open>channel_file\<close>, which the driver's model provides. A failing \<open>assert\<close> ends the program;
  it is \<open>None\<close>. The measurement of the time is left out.
\<close>

section \<open>The contract of a channel's file\<close>

type_synonym 's file_op = "u64 \<Rightarrow> u64 \<Rightarrow> u64 \<Rightarrow> 's \<Rightarrow> bytes \<Rightarrow> ((int \<times> u64 \<times> 's) \<times> bytes) option"

text \<open>
  \<open>file_op buf n pos\<close> is \<open>write\<close> or \<open>read\<close> at the position \<open>pos\<close> of the file; \<open>pt\<close> is the page table of
  the process.
\<close>

locale channel_file =
  fixes pt :: "nat \<Rightarrow> page" and dir :: bool and file_op :: "'s file_op" and ready :: "'s \<Rightarrow> bool"
  assumes moves: "ready s \<Longrightarrow> unat buf + unat n < 2 ^ 64 \<Longrightarrow> unat n < 2 ^ 63 \<Longrightarrow>
    \<exists>s'. file_op buf n pos s m =
      Some ((int (unat n), pos + n, s'), move_bytes dir (user_locs pt (unat buf) (unat n)) (card_locs pos (unat n)) m) \<and> ready s'"

text \<open>
  A file of a memory-mapped channel that has no alignment requirement, on a kernel and a bus that do
  what they are documented to do.
\<close>

definition channel_ready :: "kernel \<Rightarrow> (u64 \<Rightarrow> loc) \<Rightarrow> (nat \<Rightarrow> page) \<Rightarrow> bool \<Rightarrow> est \<Rightarrow> bool" where
  "channel_ready K io pt dir s \<longleftrightarrow> kernel_ok K \<and> user_pages K pt \<and> bus_ok K io pt \<and> dma_ready dir s \<and>
     e_addr_align (en s) = 1 \<and> \<not> e_streaming (en s)"

lemma check_unaligned:
  "e_addr_align e = 1 \<Longrightarrow> \<not> e_streaming e \<Longrightarrow> \<not> e_non_incr_addr e \<Longrightarrow> check_transfer_align e buf n pos sync = 0"
  by (simp add: check_transfer_align_def)

interpretation chan: channel_file pt dir "\<lambda>buf n pos s m. dma_request io K isr_env t buf n pos dir s m" "channel_ready K io pt dir"
  for pt :: "nat \<Rightarrow> page" and dir io K t
proof
  fix s and buf n pos :: u64 and m
  assume r: "channel_ready K io pt dir s" and b: "unat buf + unat n < 2 ^ 64" "unat n < 2 ^ 63"
  then have "check_transfer_align (en s) buf n pos True = 0"
    by (intro check_unaligned) (simp_all add: channel_ready_def dma_ready_def)
  with request_moves [of K pt io dir s buf n pos t m] r b obtain s' where
    "dma_request io K isr_env t buf n pos dir s m =
       Some ((int (unat n), pos + n, s'), move_bytes dir (user_locs pt (unat buf) (unat n)) (card_locs pos (unat n)) m)"
    "dma_ready dir s'" "engine_config (en s') = engine_config (en s)"
    unfolding channel_ready_def by blast
  with r show "\<exists>s'. dma_request io K isr_env t buf n pos dir s m =
      Some ((int (unat n), pos + n, s'), move_bytes dir (user_locs pt (unat buf) (unat n)) (card_locs pos (unat n)) m) \<and>
      channel_ready K io pt dir s'"
    by (auto simp: channel_ready_def engine_config_def)
qed

section \<open>The programs\<close>

text \<open>Bytes that \<open>read\<close> of an ordinary file puts into a buffer.\<close>

definition store_bytes :: "loc list \<Rightarrow> u8 list \<Rightarrow> bytes \<Rightarrow> bytes" where
  "store_bytes ls bs m = fold (\<lambda>(l, b) m. m(l := b)) (zip ls bs) m"

text \<open>
  \<open>dma_to_device\<close>: the file, if there is one, fills the buffer, and the buffer is written \<open>count\<close> times.
  The position is set once, so it advances. \<open>alloc\<close> is what \<open>posix_memalign\<close> returns for the size it is
  given, a sum of 32 bits.
\<close>

fun write_loop :: "'s file_op \<Rightarrow> nat \<Rightarrow> u64 \<Rightarrow> u32 \<Rightarrow> u64 \<Rightarrow> 's \<Rightarrow> bytes \<Rightarrow> ('s \<times> bytes) option" where
  "write_loop wrt 0 buffer sz pos s m = Some (s, m)"
| "write_loop wrt (Suc count) buffer sz pos s m = do {
     ((rc, pos, s), m) \<leftarrow> wrt buffer (ucast sz) pos s m;
     if word_of_int rc = sz then write_loop wrt count buffer sz pos s m else None
   }"

definition to_device ::
  "(nat \<Rightarrow> page) \<Rightarrow> 's file_op \<Rightarrow> (u32 \<Rightarrow> u64 option) \<Rightarrow> u32 \<Rightarrow> u32 \<Rightarrow> u32 \<Rightarrow> u32 \<Rightarrow> u8 list option \<Rightarrow> 's \<Rightarrow> bytes \<Rightarrow>
   ('s \<times> bytes) option" where
  "to_device pt wrt alloc addr sz offset count file s m = do {
     allocated \<leftarrow> alloc (sz + 4096);
     let buffer = allocated + ucast offset;
     m \<leftarrow> (case file of
            None \<Rightarrow> Some m
          | Some bs \<Rightarrow>
              (if length bs < unat sz then None
               else Some (store_bytes (user_locs pt (unat buffer) (unat sz)) (take (unat sz) bs) m)));
     let (_, pos) = char_sgdma_llseek 0 (ucast addr) 0;
     write_loop wrt (unat count) buffer sz pos s m
   }"

text \<open>
  \<open>dma_from_device\<close>: the position is set before every read, whose result is not checked, and the whole
  buffer is appended to the file, if there is one and writing is not switched off. \<open>room\<close> is how many
  bytes the file can take.
\<close>

fun read_loop ::
  "(nat \<Rightarrow> page) \<Rightarrow> 's file_op \<Rightarrow> nat option \<Rightarrow> nat \<Rightarrow> u64 \<Rightarrow> u32 \<Rightarrow> u32 \<Rightarrow> u64 \<Rightarrow> 's \<Rightarrow> bytes \<Rightarrow> u8 list \<Rightarrow>
   ('s \<times> bytes \<times> u8 list) option" where
  "read_loop pt rdf room 0 buffer addr sz pos s m out = Some (s, m, out)"
| "read_loop pt rdf room (Suc count) buffer addr sz pos s m out = do {
     let (_, pos) = char_sgdma_llseek pos (ucast addr) 0;
     ((_, pos, s), m) \<leftarrow> rdf buffer (ucast sz) pos s m;
     out \<leftarrow> (case room of
              None \<Rightarrow> Some out
            | Some n \<Rightarrow> if length out + unat sz \<le> n then Some (out @ map m (user_locs pt (unat buffer) (unat sz))) else None);
     read_loop pt rdf room count buffer addr sz pos s m out
   }"

definition from_device ::
  "(nat \<Rightarrow> page) \<Rightarrow> 's file_op \<Rightarrow> (u32 \<Rightarrow> u64 option) \<Rightarrow> u32 \<Rightarrow> u32 \<Rightarrow> u32 \<Rightarrow> u32 \<Rightarrow> nat option \<Rightarrow> 's \<Rightarrow> bytes \<Rightarrow>
   ('s \<times> bytes \<times> u8 list) option" where
  "from_device pt rdf alloc addr sz offset count room s m = do {
     allocated \<leftarrow> alloc (sz + 4096);
     let buffer = allocated + ucast offset;
     read_loop pt rdf room (unat count) buffer addr sz 0 s m []
   }"

section \<open>What they do\<close>

lemma seek_set: "snd (char_sgdma_llseek p (ucast (a :: u32)) 0) = ucast a"
proof -
  have "unat (ucast a :: u64) < 2 ^ 63"
    using unsigned_less [of a, where 'a = nat] by (simp add: unsigned_ucast_eq take_bit_nat_eq_self)
  then have "\<not> sint (ucast a :: u64) < 0" by (simp add: sint_small64)
  then show ?thesis by (simp add: char_sgdma_llseek_def)
qed

lemma unat_up64: "unat (ucast (a :: u32) :: u64) = unat a"
  using unsigned_less [of a, where 'a = nat] by (simp add: unsigned_ucast_eq take_bit_nat_eq_self)

lemma store_bytes_same: "l \<notin> set ls \<Longrightarrow> store_bytes ls bs m l = m l"
proof (induction ls arbitrary: bs m)
  case (Cons a ls)
  then show ?case by (cases bs) (auto simp: store_bytes_def)
qed (simp add: store_bytes_def)

lemma store_bytes_stored: "length ls = length bs \<Longrightarrow> distinct ls \<Longrightarrow> map (store_bytes ls bs m) ls = bs"
proof (induction ls bs arbitrary: m rule: list_induct2)
  case (Cons a ls b bs)
  have "store_bytes (a # ls) (b # bs) m = store_bytes ls bs (m(a := b))" by (simp add: store_bytes_def)
  then show ?case using Cons store_bytes_same [of a ls bs "m(a := b)"] by simp
qed simp

lemma card_blocks_disjoint:
  "n + k < 2 ^ 64 \<Longrightarrow> set (card_locs a n) \<inter> set (card_locs (a + of_nat n) k) = {}"
  using distinct_card_locs [of "n + k" a] by (simp add: card_locs_add)

lemma word_of_rc: "word_of_int (int (unat (ucast (sz :: u32) :: u64))) = sz"
  by (simp add: unat_up64)

context channel_file begin

lemma write_loop_fills:
  assumes dir
  shows "ready s \<Longrightarrow> unat buf + unat sz < 2 ^ 64 \<Longrightarrow> count * unat sz < 2 ^ 64 \<Longrightarrow>
    \<exists>s' m'. write_loop file_op count buf sz pos s m = Some (s', m') \<and> ready s' \<and>
      (\<forall>l. l \<notin> set (card_locs pos (count * unat sz)) \<longrightarrow> m' l = m l) \<and>
      (0 < count \<longrightarrow> map m' (card_locs pos (unat sz)) = map m (user_locs pt (unat buf) (unat sz)))"
proof (induction count arbitrary: pos s m)
  case (Suc count)
  let ?n = "unat sz"
  let ?U = "user_locs pt (unat buf) ?n" and ?C = "card_locs pos ?n" and ?R = "card_locs (pos + of_nat ?n) (count * ?n)"
  let ?m = "copy_bytes ?U ?C m"
  have n: "?n < 2 ^ 63" using unsigned_less [of sz, where 'a = nat] by simp
  obtain s1 where s1: "file_op buf (ucast sz) pos s m = Some ((int ?n, pos + of_nat ?n, s1), ?m)" "ready s1"
    using moves [of s buf "ucast sz" pos m, unfolded unat_up64] Suc.prems(1,2) n assms by (auto simp: move_bytes_def)
  have c: "count * ?n < 2 ^ 64" "?n + count * ?n < 2 ^ 64" using Suc.prems(3) by simp_all
  obtain s' m' where r: "write_loop file_op count buf sz (pos + of_nat ?n) s1 ?m = Some (s', m')" "ready s'"
    "\<forall>l. l \<notin> set ?R \<longrightarrow> m' l = ?m l"
    using Suc.IH [OF s1(2) Suc.prems(2) c(1), of "pos + of_nat ?n" ?m] by blast
  have w: "write_loop file_op (Suc count) buf sz pos s m = Some (s', m')" using s1(1) r(1) by simp
  have split: "card_locs pos (Suc count * ?n) = ?C @ ?R" using card_locs_add [of pos ?n "count * ?n"] by simp
  have "set ?C \<inter> set ?R = {}" by (rule card_blocks_disjoint [OF c(2)])
  then have "map m' ?C = map ?m ?C" using r(3) by auto
  also have "\<dots> = map m ?U"
    using n distinct_card_locs [of ?n pos] card_user_disjoint by (intro copy_bytes_copied) auto
  finally have "map m' ?C = map m ?U" .
  moreover have "m' l = m l" if "l \<notin> set (?C @ ?R)" for l
    using that r(3) copy_bytes_same [of l ?C ?U m] by auto
  ultimately show ?case using w r(2) unfolding split by blast
qed auto

lemma read_loop_appends:
  assumes "\<not> dir" "distinct (user_locs pt (unat buf) (unat sz))"
  shows "ready s \<Longrightarrow> unat buf + unat sz < 2 ^ 64 \<Longrightarrow> map m (card_locs (ucast addr) (unat sz)) = bs \<Longrightarrow>
    length out + count * unat sz \<le> room \<Longrightarrow>
    \<exists>s' m'. read_loop pt file_op (Some room) count buf addr sz pos s m out = Some (s', m', out @ concat (replicate count bs)) \<and>
      ready s' \<and> (\<forall>l. l \<notin> set (user_locs pt (unat buf) (unat sz)) \<longrightarrow> m' l = m l)"
proof (induction count arbitrary: pos s m out)
  case (Suc count)
  let ?n = "unat sz"
  let ?U = "user_locs pt (unat buf) ?n" and ?C = "card_locs (ucast addr) ?n"
  let ?m = "copy_bytes ?C ?U m"
  have n: "?n < 2 ^ 63" using unsigned_less [of sz, where 'a = nat] by simp
  obtain s1 where s1: "file_op buf (ucast sz) (ucast addr) s m = Some ((int ?n, ucast addr + ucast sz, s1), ?m)" "ready s1"
    using moves [of s buf "ucast sz" "ucast addr" m, unfolded unat_up64] Suc.prems(1,2) n assms(1) by (auto simp: move_bytes_def)
  have b: "map ?m ?U = bs"
    using copy_bytes_copied [of ?C ?U m] assms(2) card_user_disjoint(1) Suc.prems(3) by simp
  have c: "map ?m ?C = bs"
  proof -
    have "map ?m ?C = map m ?C"
      using card_user_disjoint(1) [of "ucast addr" ?n pt "unat buf" ?n] by (intro map_cong refl copy_bytes_same) auto
    then show ?thesis using Suc.prems(3) by simp
  qed
  have l: "length bs = ?n" using Suc.prems(3) by (metis length_locs(1) length_map)
  have "length (out @ bs) + count * ?n \<le> room" using Suc.prems(4) l by simp
  from Suc.IH [OF s1(2) Suc.prems(2) c this, of "ucast addr + ucast sz"] obtain s' m' where r:
    "read_loop pt file_op (Some room) count buf addr sz (ucast addr + ucast sz) s1 ?m (out @ bs)
       = Some (s', m', (out @ bs) @ concat (replicate count bs))" "ready s'" "\<forall>l. l \<notin> set ?U \<longrightarrow> m' l = ?m l" by blast
  have "read_loop pt file_op (Some room) (Suc count) buf addr sz pos s m out = Some (s', m', out @ concat (replicate (Suc count) bs))"
    using s1(1) r(1) b Suc.prems(4) by (simp add: seek_set split_beta)
  moreover have "m' l = m l" if "l \<notin> set ?U" for l using that r(3) copy_bytes_same [OF that] by simp
  ultimately show ?case using r(2) by blast
qed auto

end

section \<open>Properties\<close>

text \<open>
  C4: a file sent to the card comes back. \<open>dma_to_device\<close> with a file that has the bytes, run on a
  channel to the device, ends without a failed assertion, whatever the number of writes. When
  \<open>dma_from_device\<close> is run later, by another process, for the same address and size, on a card whose
  memory is as the first program left it, its output file has the bytes of the first file once for
  every read.
\<close>

theorem file_through_card:
  assumes "channel_ready K io pt True s" "channel_ready K' io' pt' False r"
    and "alloc (sz + 4096) = Some a" "alloc' (sz + 4096) = Some b"
    and "unat (a + ucast off) + unat sz < 2 ^ 64" "unat (b + ucast off') + unat sz < 2 ^ 64"
    and "inj_on pt ((\<lambda>a. a div PAGE_SIZE) ` {unat (a + ucast off) ..< unat (a + ucast off) + unat sz})"
    and "inj_on pt' ((\<lambda>a. a div PAGE_SIZE) ` {unat (b + ucast off') ..< unat (b + ucast off') + unat sz})"
    and "0 < unat count" "unat sz \<le> length bs" "unat count' * unat sz \<le> room"
  shows "\<exists>s' m1. to_device pt (\<lambda>buf n pos s m. dma_request io K isr_env t buf n pos True s m) alloc addr sz off count (Some bs) s m
      = Some (s', m1) \<and>
    (\<forall>m2. (\<forall>c. m2 (Card c) = m1 (Card c)) \<longrightarrow>
      (\<exists>r' m3. from_device pt' (\<lambda>buf n pos s m. dma_request io' K' isr_env t' buf n pos False s m) alloc' addr sz off' count' (Some room) r m2
        = Some (r', m3, concat (replicate (unat count') (take (unat sz) bs)))))"
proof -
  let ?n = "unat sz" and ?C = "card_locs (ucast addr) (unat sz)"
  let ?U = "user_locs pt (unat (a + ucast off)) ?n" and ?V = "user_locs pt' (unat (b + ucast off')) ?n"
  let ?m = "store_bytes ?U (take ?n bs) m"
  have "unat count * ?n < 2 ^ 32 * 2 ^ 32"
    using unsigned_less [of count, where 'a = nat] unsigned_less [of sz, where 'a = nat] by (intro mult_strict_mono') simp_all
  then have c: "unat count * ?n < 2 ^ 64" by simp
  obtain s' m1 where w: "write_loop (\<lambda>buf n pos s m. dma_request io K isr_env t buf n pos True s m) (unat count) (a + ucast off) sz (ucast addr) s ?m
      = Some (s', m1)" "map m1 ?C = map ?m ?U"
    using chan.write_loop_fills [OF TrueI assms(1,5) c, of t "ucast addr" ?m] assms(9) by blast
  have d: "map m1 ?C = take ?n bs"
    unfolding w(2) by (rule store_bytes_stored) (use assms(10) distinct_user_locs [OF assms(7)] in simp_all)
  have "to_device pt (\<lambda>buf n pos s m. dma_request io K isr_env t buf n pos True s m) alloc addr sz off count (Some bs) s m = Some (s', m1)"
    using assms(3,10) w(1) by (simp add: to_device_def seek_set split_beta)
  moreover have "\<exists>r' m3. from_device pt' (\<lambda>buf n pos s m. dma_request io' K' isr_env t' buf n pos False s m) alloc' addr sz off' count' (Some room) r m2
      = Some (r', m3, concat (replicate (unat count') (take ?n bs)))" if "\<forall>c. m2 (Card c) = m1 (Card c)" for m2
  proof -
    have "map m2 ?C = take ?n bs" unfolding d [symmetric] using that by (simp add: card_locs_def)
    from chan.read_loop_appends [of False pt' _ sz K' io' r m2 addr, OF _ distinct_user_locs [OF assms(8)] assms(2,6) this, of "[]" "unat count'" room t' 0]
    show ?thesis using assms(4,11) by (auto simp: from_device_def)
  qed
  ultimately show ?thesis by blast
qed

lemma demo_channels:
  "channel_ready user_kernel demo_io demo_pt True (demo_est (\<lambda>_ _. 0))" "channel_ready user_kernel demo_io demo_pt False demo_read_engine"
  using user_kernel_ok demo_bus demo_dma_ready
  by (simp_all add: channel_ready_def demo_read_engine_def demo_est_def demo_engine_def)

lemma demo_pt_inj: "k \<le> 2 ^ 64 \<Longrightarrow> inj_on demo_pt ((\<lambda>a. a div PAGE_SIZE) ` {j ..< k})"
proof -
  assume k: "k \<le> 2 ^ 64"
  have "x div PAGE_SIZE mod 2 ^ 52 = x div PAGE_SIZE" if "x < k" for x
    using that k by (simp add: PAGE_SIZE_def)
  then show ?thesis by (auto simp: inj_on_def demo_pt_def)
qed

theorem file_through_card_witness:
  "\<exists>s' m1. to_device demo_pt (\<lambda>buf n pos s m. dma_request demo_io user_kernel isr_env 9 buf n pos True s m) (\<lambda>_. Some 0x10000) 0x2000 5000 16 3
      (Some (replicate 6000 7)) (demo_est (\<lambda>_ _. 0)) demo_bytes = Some (s', m1) \<and>
    (\<exists>r' m3. from_device demo_pt (\<lambda>buf n pos s m. dma_request demo_io user_kernel isr_env 9 buf n pos False s m) (\<lambda>_. Some 0x20000) 0x2000 5000 0 2
      (Some 10000) demo_read_engine m1 = Some (r', m3, concat (replicate 2 (replicate 5000 7))))"
proof -
  let ?a = "(0x10000 :: u64) + ucast (16 :: u32)" and ?b = "(0x20000 :: u64) + ucast (0 :: u32)"
  have i: "inj_on demo_pt ((\<lambda>a. a div PAGE_SIZE) ` {unat ?a ..< unat ?a + unat (5000 :: u32)})"
    "inj_on demo_pt ((\<lambda>a. a div PAGE_SIZE) ` {unat ?b ..< unat ?b + unat (5000 :: u32)})"
    by (rule demo_pt_inj; simp)+
  from file_through_card [OF demo_channels, where alloc = "\<lambda>_. Some 0x10000" and alloc' = "\<lambda>_. Some 0x20000" and count' = 2
      and room = 10000 and m = demo_bytes and t = 9 and t' = 9 and addr = "0x2000" and bs = "replicate 6000 7" and count = 3, OF refl refl _ _ i]
  show ?thesis by force
qed

end
