(* ===== verification/Perf.thy ===== *)
theory Perf
  imports SgdmaChar
begin

text \<open>
  The ioctls of an SG DMA channel and the performance measurement they control
  (\<open>driver/xdma-core.c\<close>): a cyclic transfer over a scratch buffer, and counters read from the
  registers of the engine. Accesses to user memory are arguments: return code and value read.
\<close>

unbundle bit_operations_syntax

definition XDMA_PERF_RUN :: u32 where "XDMA_PERF_RUN = 1"
definition XDMA_PERF_CLEAR :: u32 where "XDMA_PERF_CLEAR = 2"
definition XDMA_PERF_AUTO :: u32 where "XDMA_PERF_AUTO = 4"
definition IOCTL_XDMA_PERF_V1 :: u32 where "IOCTL_XDMA_PERF_V1 = 1"

text \<open>\<open>_IOC\<close>: direction (1 write, 2 read), size of the argument type, number; the type is \<open>'q'\<close>.\<close>

definition IOC_q :: "u32 \<Rightarrow> u32 \<Rightarrow> u32 \<Rightarrow> u32" where
  "IOC_q dir sz nr = ((push_bit 30 dir OR push_bit 16 sz) OR push_bit 8 0x71) OR nr"

definition IOCTL_XDMA_PERF_START :: u32 where "IOCTL_XDMA_PERF_START = IOC_q 1 8 1"
definition IOCTL_XDMA_PERF_STOP :: u32 where "IOCTL_XDMA_PERF_STOP = IOC_q 1 8 2"
definition IOCTL_XDMA_PERF_GET :: u32 where "IOCTL_XDMA_PERF_GET = IOC_q 2 8 3"
definition IOCTL_XDMA_ADDRMODE_SET :: u32 where "IOCTL_XDMA_ADDRMODE_SET = IOC_q 1 4 4"
definition IOCTL_XDMA_ADDRMODE_GET :: u32 where "IOCTL_XDMA_ADDRMODE_GET = IOC_q 2 4 5"
definition IOCTL_XDMA_ALIGN_GET :: u32 where "IOCTL_XDMA_ALIGN_GET = IOC_q 2 4 6"

lemmas ioctl_codes = IOCTL_XDMA_PERF_START_def IOCTL_XDMA_PERF_STOP_def IOCTL_XDMA_PERF_GET_def
  IOCTL_XDMA_ADDRMODE_SET_def IOCTL_XDMA_ADDRMODE_GET_def IOCTL_XDMA_ALIGN_GET_def IOC_q_def

section \<open>The measurement transfer\<close>

text \<open>The loop that fills the descriptors, with \<open>k\<close> rounds to go.\<close>

fun perf_desc_loop :: "nat \<Rightarrow> nat \<Rightarrow> u64 \<Rightarrow> nat \<Rightarrow> bool \<Rightarrow> xdma_desc list \<Rightarrow> xdma_desc list option" where
  "perf_desc_loop 0 i buffer_bus size_in_desc dir ds = Some ds"
| "perf_desc_loop (Suc k) i buffer_bus size_in_desc dir ds = do {
     ds \<leftarrow> set_index i (\<lambda>d. xdma_desc_set d (buffer_bus + of_nat (size_in_desc * i)) 0 (of_nat size_in_desc) dir) ds;
     perf_desc_loop k (Suc i) buffer_bus size_in_desc dir ds
   }"

text \<open>The number of descriptors, and the size of the buffer they share.\<close>

definition max_consistent_size :: nat where "max_consistent_size = 128 * 32 * 1024"

definition perf_shape :: "nat \<Rightarrow> nat \<times> nat" where
  "perf_shape size_in_desc =
    (let num = 128; size = size_in_desc * num
     in if size > max_consistent_size then (max_consistent_size div size_in_desc, max_consistent_size)
        else (num, size))"

text \<open>
  \<open>buffer_bus n\<close> is the bus address of the \<open>n\<close> bytes \<open>pci_alloc_consistent\<close> returned, \<open>t\<close> the
  number of the new transfer.
\<close>

definition xdma_performance_submit :: "kernel \<Rightarrow> (nat \<Rightarrow> u64) \<Rightarrow> nat \<Rightarrow> est \<Rightarrow> (int \<times> est) option" where
  "xdma_performance_submit K buffer_bus t s = do {
     p \<leftarrow> e_perf (en s);
     let size_in_desc = unat (pf_transfer_size p);
     BUG_ON (size_in_desc > max_consistent_size);
     let (num, size) = perf_shape size_in_desc;
     BUG_ON (\<not> k_kzalloc K);
     buf \<leftarrow> xdma_desc_alloc num (k_alloc K num);
     BUG_ON (buf = None);
     (ds, b) \<leftarrow> buf;
     ds \<leftarrow> perf_desc_loop num 0 (buffer_bus size) size_in_desc (e_dir_to_dev (en s)) ds;
     ds \<leftarrow> at_index 0 (\<lambda>d. xdma_desc_control d 0) ds;
     ds \<leftarrow> set_index (num - 1) (\<lambda>d. xdma_desc_link d (Some b)) ds;
     let x = transfer_zero\<lparr>t_dir_to_dev := e_dir_to_dev (en s), desc_num := num, desc_virt := ds, desc_bus := b,
               t_cyclic := True\<rparr>;
     (_, s) \<leftarrow> transfer_queue t (put_transfer t x s);
     Some (0, s)
   }"

section \<open>Counters\<close>

definition rd_pair :: "eng_reg \<Rightarrow> eng_reg \<Rightarrow> est \<Rightarrow> u64 \<times> est" where
  "rd_pair hi lo s =
    (let (h, s) = rd (ereg (e_regs (en s)) hi) s;
         (l, s) = rd (ereg (e_regs (en s)) lo) s
     in (build_u64 (ucast h) (ucast l), s))"

definition get_perf_stats :: "est \<Rightarrow> est option" where
  "get_perf_stats s = do {
     p \<leftarrow> e_perf (en s);
     let (lo, s) = rd (ereg (e_regs (en s)) E_completed_desc_count) s;
     let p = p\<lparr>pf_iterations := ucast (build_u64 0 (ucast lo))\<rparr>;
     let (v, s) = rd_pair E_perf_cyc_hi E_perf_cyc_lo s;
     let p = p\<lparr>pf_clock := v\<rparr>;
     let (v, s) = rd_pair E_perf_dat_hi E_perf_dat_lo s;
     let p = p\<lparr>pf_data := v\<rparr>;
     let (v, s) = rd_pair E_perf_pnd_hi E_perf_pnd_lo s;
     let p = p\<lparr>pf_pending := v\<rparr>;
     Some (set_en (\<lambda>e. e\<lparr>e_perf := Some p\<rparr>) s)
   }"

section \<open>The ioctls\<close>

text \<open>
  \<open>from_user\<close>: bytes \<open>copy_from_user\<close> could not copy, and the structure afterwards;
  \<open>to_user\<close>: the same for \<open>copy_to_user\<close>; \<open>get_user\<close>, \<open>put_user\<close>: return code (and value).
\<close>

record user_args =
  from_user :: "int \<times> xdma_performance"
  to_user :: int
  get_user :: "int \<times> u64"
  put_user :: int

text \<open>What an ioctl hands to user space.\<close>

datatype user_out = Out_none | Out_perf xdma_performance | Out_int u32

definition ioctl_do_perf_start ::
  "kernel \<Rightarrow> (nat \<Rightarrow> u64) \<Rightarrow> user_args \<Rightarrow> bool \<Rightarrow> nat \<Rightarrow> est \<Rightarrow> (int \<times> est) option" where
  "ioctl_do_perf_start K buffer_bus A kz t s =
    (if e_perf (en s) \<noteq> None then Some (- EBUSY, s)
     else if \<not> kz then Some (- ENOMEM, s)
     else
       let (rc, p) = from_user A;
           s = set_en (\<lambda>e. e\<lparr>e_perf := Some p\<rparr>) s
       in if rc < 0 then Some (- EINVAL, s)
          else if pf_version p \<noteq> IOCTL_XDMA_PERF_V1 then Some (- EINVAL, s)
          else
            let s = wr XDMA_PERF_CLEAR (ereg (e_regs (en s)) E_perf_ctrl) s;
                s = snd (rd (ereg (e_regs (en s)) E_identifier) s);
                s = wr (XDMA_PERF_AUTO OR XDMA_PERF_RUN) (ereg (e_regs (en s)) E_perf_ctrl) s;
                s = snd (rd (ereg (e_regs (en s)) E_identifier) s)
            in map_option (\<lambda>(_, s). (0, s)) (xdma_performance_submit K buffer_bus t s))"

definition ioctl_do_perf_stop :: "user_args \<Rightarrow> est \<Rightarrow> (int \<times> user_out \<times> est) option" where
  "ioctl_do_perf_stop A s =
    (if e_perf (en s) = None then Some (- EINVAL, Out_none, s)
     else do {
       (transfer, s) \<leftarrow> engine_cyclic_stop s;
       (out, s) \<leftarrow> (case e_perf (en s) of
          None \<Rightarrow> Some (Some Out_none, s)
        | Some _ \<Rightarrow> do {
            s \<leftarrow> get_perf_stats s;
            p \<leftarrow> e_perf (en s);
            Some (if to_user A \<noteq> 0 then None else Some (Out_perf p), s)
          });
       (case out of
          None \<Rightarrow> Some (- EINVAL, Out_none, s)
        | Some out \<Rightarrow> Some (0, out, set_en (\<lambda>e. e\<lparr>e_perf := None\<rparr>) s))
     })"

definition ioctl_do_perf_get :: "user_args \<Rightarrow> est \<Rightarrow> (int \<times> user_out \<times> est) option" where
  "ioctl_do_perf_get A s =
    (case e_perf (en s) of
       None \<Rightarrow> Some (- EPROTO, Out_none, s)
     | Some _ \<Rightarrow> do {
         s \<leftarrow> get_perf_stats s;
         p \<leftarrow> e_perf (en s);
         Some (if to_user A \<noteq> 0 then (- EINVAL, Out_none, s) else (0, Out_perf p, s))
       })"

definition ioctl_do_addrmode_set :: "user_args \<Rightarrow> est \<Rightarrow> int \<times> est" where
  "ioctl_do_addrmode_set A s =
    (let (rc, dst) = get_user A;
         s = (if rc = 0 then
                let s = set_en (\<lambda>e. e\<lparr>e_non_incr_addr := (dst \<noteq> 0)\<rparr>) s
                in wr XDMA_CTRL_NON_INCR_ADDR
                     (ereg (e_regs (en s)) (if e_non_incr_addr (en s) then E_control_w1s else E_control_w1c)) s
              else s)
     in (rc, engine_alignments s))"

definition ioctl_do_addrmode_get :: "user_args \<Rightarrow> est \<Rightarrow> int \<times> user_out \<times> est" where
  "ioctl_do_addrmode_get A s =
    (put_user A, if put_user A = 0 then Out_int (of_bool (e_non_incr_addr (en s))) else Out_none, s)"

definition ioctl_do_align_get :: "user_args \<Rightarrow> est \<Rightarrow> int \<times> user_out \<times> est" where
  "ioctl_do_align_get A s = (put_user A, if put_user A = 0 then Out_int (e_addr_align (en s)) else Out_none, s)"

definition char_sgdma_ioctl ::
  "kernel \<Rightarrow> (nat \<Rightarrow> u64) \<Rightarrow> user_args \<Rightarrow> bool \<Rightarrow> nat \<Rightarrow> u32 \<Rightarrow> est \<Rightarrow> (int \<times> user_out \<times> est) option" where
  "char_sgdma_ioctl K buffer_bus A kz t cmd s =
    (if cmd = IOCTL_XDMA_PERF_START then
       map_option (\<lambda>(rc, s). (rc, Out_none, s)) (ioctl_do_perf_start K buffer_bus A kz t s)
     else if cmd = IOCTL_XDMA_PERF_STOP then ioctl_do_perf_stop A s
     else if cmd = IOCTL_XDMA_PERF_GET then ioctl_do_perf_get A s
     else if cmd = IOCTL_XDMA_ADDRMODE_SET then
       (let (rc, s) = ioctl_do_addrmode_set A s in Some (rc, Out_none, s))
     else if cmd = IOCTL_XDMA_ADDRMODE_GET then Some (ioctl_do_addrmode_get A s)
     else if cmd = IOCTL_XDMA_ALIGN_GET then Some (ioctl_do_align_get A s)
     else Some (- EINVAL, Out_none, s))"

section \<open>The ring of the measurement\<close>

lemma perf_desc_loop_spec:
  "i + k \<le> length ds \<Longrightarrow> \<exists>ds'. perf_desc_loop k i bb sz dir ds = Some ds' \<and> length ds' = length ds \<and>
     (\<forall>m. ds' ! m = (if i \<le> m \<and> m < i + k then xdma_desc_set (ds ! m) (bb + of_nat (sz * m)) 0 (of_nat sz) dir else ds ! m))"
proof (induction k arbitrary: i ds)
  case 0
  then show ?case by (intro exI [of _ ds]) auto
next
  case (Suc k)
  let ?ds = "ds[i := xdma_desc_set (ds ! i) (bb + of_nat (sz * i)) 0 (of_nat sz) dir]"
  have "Suc i + k \<le> length ?ds" using Suc.prems by simp
  from Suc.IH [OF this] obtain ds' where r: "perf_desc_loop k (Suc i) bb sz dir ?ds = Some ds'"
    "length ds' = length ds"
    "\<And>m. ds' ! m = (if Suc i \<le> m \<and> m < Suc i + k
       then xdma_desc_set (?ds ! m) (bb + of_nat (sz * m)) 0 (of_nat sz) dir else ?ds ! m)" by auto
  have "ds' ! m = (if i \<le> m \<and> m < i + Suc k then xdma_desc_set (ds ! m) (bb + of_nat (sz * m)) 0 (of_nat sz) dir else ds ! m)" for m
    using r(3) [of m] Suc.prems by (cases "m = i") auto
  then show ?case using r(1,2) Suc.prems by auto
qed

lemma perf_shape_bounds:
  assumes "0 < sz" "sz \<le> max_consistent_size" "perf_shape sz = (n, bufsz)"
  shows "0 < n" "n \<le> 128" "n * sz \<le> bufsz" "bufsz \<le> max_consistent_size" "n = min 128 (max_consistent_size div sz)"
proof -
  have c: "max_consistent_size = 4194304" by (simp add: max_consistent_size_def)
  consider "sz * 128 > 4194304" "n = 4194304 div sz" "bufsz = 4194304" | "sz * 128 \<le> 4194304" "n = 128" "bufsz = sz * 128"
    using assms(3) by (auto simp: perf_shape_def c Let_def split: if_splits)
  then have "0 < n \<and> n \<le> 128 \<and> n * sz \<le> bufsz \<and> bufsz \<le> max_consistent_size \<and> n = min 128 (max_consistent_size div sz)"
  proof cases
    case 1
    then have d: "4194304 div sz < 128" using assms(1) by (simp add: div_less_iff_less_mult mult.commute)
    have "0 < 4194304 div sz" using assms(1,2) c by (simp add: div_greater_zero_iff)
    then show "0 < n \<and> n \<le> 128 \<and> n * sz \<le> bufsz \<and> bufsz \<le> max_consistent_size \<and> n = min 128 (max_consistent_size div sz)"
      using d 1 c by simp_all
  next
    case 2
    then have "128 \<le> 4194304 div sz" using assms(1) by (simp add: less_eq_div_iff_mult_less_eq mult.commute)
    then show "0 < n \<and> n \<le> 128 \<and> n * sz \<le> bufsz \<and> bufsz \<le> max_consistent_size \<and> n = min 128 (max_consistent_size div sz)"
      using 2 c by (simp_all add: mult.commute)
  qed
  then show "0 < n" "n \<le> 128" "n * sz \<le> bufsz" "bufsz \<le> max_consistent_size" "n = min 128 (max_consistent_size div sz)" by blast+
qed

text \<open>The measurement ring of \<open>n\<close> descriptors at \<open>b\<close> over the buffer at \<open>a\<close>.\<close>

definition perf_ring :: "bool \<Rightarrow> u64 \<Rightarrow> u64 \<Rightarrow> nat \<Rightarrow> nat \<Rightarrow> xdma_desc list \<Rightarrow> bool" where
  "perf_ring dir b a n sz ds \<longleftrightarrow> length ds = n \<and> (\<forall>m < n.
     desc_host dir (ds ! m) = a + of_nat (sz * m) \<and> desc_ep dir (ds ! m) = 0 \<and> d_bytes (ds ! m) = of_nat sz \<and>
     desc_magic_ok (ds ! m) \<and> desc_ctl (ds ! m) = 0 \<and> desc_next (ds ! m) = (if Suc m < n then b + of_nat (32 * Suc m) else b))"

lemma perf_descs:
  assumes "0 < n" "length ds0 = n" "\<forall>k < n. fresh_desc n b k (ds0 ! k)"
  shows "\<exists>ds1 ds2. perf_desc_loop n 0 a sz dir ds0 = Some ds1 \<and> at_index 0 (\<lambda>d. xdma_desc_control d 0) ds1 = Some ds2 \<and>
    perf_ring dir b a n sz (ds2[n - 1 := xdma_desc_link (ds2 ! (n - 1)) (Some b)]) \<and> n - 1 < length ds2"
proof -
  obtain ds1 where r: "perf_desc_loop n 0 a sz dir ds0 = Some ds1" "length ds1 = n"
    "\<And>m. m < n \<Longrightarrow> ds1 ! m = xdma_desc_set (ds0 ! m) (a + of_nat (sz * m)) 0 (of_nat sz) dir"
    using perf_desc_loop_spec [of 0 n ds0 a sz dir] assms(2) by auto
  have f: "desc_ctl (ds1 ! m) = 0 \<and> desc_magic_ok (ds1 ! m) \<and> desc_next (ds1 ! m) = (if Suc m < n then b + of_nat (32 * Suc m) else 0)"
    if "m < n" for m
    using assms(3) that unfolding r(3) [OF that] by (simp add: fresh_desc_def desc_ctl_def desc_magic_ok_def)
  obtain d0 where d0: "xdma_desc_control (ds1 ! 0) 0 = Some d0" "desc_frame (ds1 ! 0) d0" "desc_ctl d0 = 0"
    using ce_all.edit_field [of 0 "ds1 ! 0"] by (auto simp: ctl_field_def)
  define ds2 where "ds2 = ds1[0 := d0]"
  have l2: "length ds2 = n" using r(2) by (simp add: ds2_def)
  have e: "desc_host dir (ds2 ! m) = a + of_nat (sz * m) \<and> desc_ep dir (ds2 ! m) = 0 \<and> d_bytes (ds2 ! m) = of_nat sz \<and>
     desc_magic_ok (ds2 ! m) \<and> desc_ctl (ds2 ! m) = 0 \<and> (Suc m < n \<longrightarrow> desc_next (ds2 ! m) = b + of_nat (32 * Suc m))"
    if "m < n" for m
    using desc_frame_data [OF d0(2)] d0(3) f [OF that] r(2) r(3) [OF that] that assms(1)
    unfolding ds2_def by (cases "m = 0") auto
  have n3: "ds2[n - 1 := xdma_desc_link (ds2 ! (n - 1)) (Some b)] ! m =
      (if m = n - 1 then xdma_desc_link (ds2 ! m) (Some b) else ds2 ! m)" if "m < n" for m
    using that l2 by simp
  have "perf_ring dir b a n sz (ds2[n - 1 := xdma_desc_link (ds2 ! (n - 1)) (Some b)])"
    unfolding perf_ring_def
  proof (intro conjI [OF _ allI [OF impI]])
    fix m
    assume m: "m < n"
    show "desc_host dir (ds2[n - 1 := xdma_desc_link (ds2 ! (n - 1)) (Some b)] ! m) = a + of_nat (sz * m) \<and>
      desc_ep dir (ds2[n - 1 := xdma_desc_link (ds2 ! (n - 1)) (Some b)] ! m) = 0 \<and>
      d_bytes (ds2[n - 1 := xdma_desc_link (ds2 ! (n - 1)) (Some b)] ! m) = of_nat sz \<and>
      desc_magic_ok (ds2[n - 1 := xdma_desc_link (ds2 ! (n - 1)) (Some b)] ! m) \<and>
      desc_ctl (ds2[n - 1 := xdma_desc_link (ds2 ! (n - 1)) (Some b)] ! m) = 0 \<and>
      desc_next (ds2[n - 1 := xdma_desc_link (ds2 ! (n - 1)) (Some b)] ! m) = (if Suc m < n then b + of_nat (32 * Suc m) else b)"
      using e [OF m] m unfolding n3 [OF m] desc_host_def desc_ep_def by (cases "m = n - 1") auto
  qed (use l2 in simp)
  moreover have "at_index 0 (\<lambda>d. xdma_desc_control d 0) ds1 = Some ds2"
    using r(2) assms(1) d0(1) by (simp add: at_index_def ds2_def)
  ultimately show ?thesis using r(1) l2 assms(1) by (intro exI [of _ ds1] exI [of _ ds2]) simp
qed

section \<open>Properties\<close>

lemma perf_submit_spec:
  assumes "e_perf (en s) = Some p" "0 < unat (pf_transfer_size p)" "unat (pf_transfer_size p) \<le> max_consistent_size"
    and "kernel_ok K" "\<not> e_locked (en s)" "\<not> e_running (en s)" "transfer_list (en s) = []" "e_shutdown (en s) = 0"
  shows "\<exists>s' x bufsz. xdma_performance_submit K bb t s = Some (0, s') \<and> heap s' = (heap s)(t \<mapsto> x) \<and> t_cyclic x \<and> t_iocb x = None \<and>
    en s' = (en s)\<lparr>e_shutdown := 0, e_desc_dequeued := 0, e_running := True, transfer_list := [t], e_locked := False\<rparr> \<and>
    desc_num x = min 128 (max_consistent_size div unat (pf_transfer_size p)) \<and> 0 < desc_num x \<and>
    desc_num x * unat (pf_transfer_size p) \<le> bufsz \<and> bufsz \<le> max_consistent_size \<and>
    perf_ring (e_dir_to_dev (en s)) (desc_bus x) (bb bufsz) (desc_num x) (unat (pf_transfer_size p)) (desc_virt x)"
proof -
  define sz where "sz = unat (pf_transfer_size p)"
  obtain n bufsz where sh: "perf_shape sz = (n, bufsz)" by (cases "perf_shape sz")
  note b = perf_shape_bounds [OF assms(2,3) [folded sz_def] sh]
  obtain buf bus where k: "k_alloc K n = Some (buf, bus)" "length buf = n"
    using assms(4) b(1) unfolding kernel_ok_def by blast
  obtain ds0 where d0: "xdma_desc_alloc n (Some (buf, bus)) = Some (Some (ds0, bus))" "length ds0 = n"
    "\<forall>k < n. fresh_desc n bus k (ds0 ! k)"
    using desc_alloc_fresh [OF b(1) k(2), of bus] by blast
  obtain ds1 ds2 where d: "perf_desc_loop n 0 (bb bufsz) sz (e_dir_to_dev (en s)) ds0 = Some ds1"
    "at_index 0 (\<lambda>d. xdma_desc_control d 0) ds1 = Some ds2"
    "perf_ring (e_dir_to_dev (en s)) bus (bb bufsz) n sz (ds2[n - 1 := xdma_desc_link (ds2 ! (n - 1)) (Some bus)])" "n - 1 < length ds2"
    using perf_descs [OF b(1) d0(2,3)] by blast
  let ?x = "transfer_zero\<lparr>t_dir_to_dev := e_dir_to_dev (en s), desc_num := n,
    desc_virt := ds2[n - 1 := xdma_desc_link (ds2 ! (n - 1)) (Some bus)], desc_bus := bus, t_cyclic := True\<rparr>"
  let ?p = "put_transfer t ?x s"
  obtain s' where s': "transfer_queue t ?p = Some (0, s')"
    "en s' = (en ?p)\<lparr>e_shutdown := 0, e_desc_dequeued := 0, e_running := True, transfer_list := [t], e_locked := False\<rparr>"
    "heap s' = (heap ?p)(t \<mapsto> ?x\<lparr>t_state := STATE_SUBMITTED\<rparr>)"
    using queue_idle_spec [of ?p t ?x] b(1) assms(5-8) by auto
  have kz: "k_kzalloc K" using assms(4) by (simp add: kernel_ok_def)
  have "xdma_performance_submit K bb t s = Some (0, s')"
    using assms(1,3) sh kz k(1) d0(1) d(1,2,4) s'(1)
    by (simp add: xdma_performance_submit_def sz_def [symmetric] del: perf_desc_loop.simps)
  then show ?thesis unfolding sz_def [symmetric] using s'(2,3) b d(3)
    by (intro exI [of _ s'] exI [of _ "?x\<lparr>t_state := STATE_SUBMITTED\<rparr>"] exI [of _ bufsz]) (simp add: transfer_zero_def)
qed

text \<open>
  C20: the transfer of a performance measurement. For a transfer size of at most 4 MiB the driver
  builds a ring of as many descriptors as fit into 4 MiB, at most 128 and at least one, which lie
  one behind the other within the buffer, and starts the engine on it. No descriptor carries a
  control flag: despite its comment the code makes none of them stop the engine or interrupt.
\<close>

theorem performance_submit_ring:
  assumes "e_perf (en s) = Some p" "0 < unat (pf_transfer_size p)" "unat (pf_transfer_size p) \<le> max_consistent_size"
    and "kernel_ok K" "\<not> e_locked (en s)" "\<not> e_running (en s)" "transfer_list (en s) = []" "e_shutdown (en s) = 0"
  shows "\<exists>s' x bufsz. xdma_performance_submit K bb t s = Some (0, s') \<and> heap s' t = Some x \<and> t_cyclic x \<and>
    transfer_list (en s') = [t] \<and> e_running (en s') \<and>
    desc_num x = min 128 (max_consistent_size div unat (pf_transfer_size p)) \<and> 0 < desc_num x \<and>
    desc_num x * unat (pf_transfer_size p) \<le> bufsz \<and> bufsz \<le> max_consistent_size \<and>
    perf_ring (e_dir_to_dev (en s)) (desc_bus x) (bb bufsz) (desc_num x) (unat (pf_transfer_size p)) (desc_virt x)"
  using perf_submit_spec [OF assms, of bb t] by fastforce

definition demo_perf :: "u32 \<Rightarrow> u32 \<Rightarrow> xdma_performance" where
  "demo_perf v sz = \<lparr>pf_version = v, pf_transfer_size = sz, pf_stopped = False, pf_iterations = 0, pf_clock = 0,
     pf_data = 0, pf_pending = 0\<rparr>"

theorem performance_submit_ring_witness:
  "\<exists>s' x. xdma_performance_submit demo_kernel (\<lambda>_. 0x40000000) 9
      (set_en (\<lambda>e. e\<lparr>e_perf := Some (demo_perf 1 0x10000)\<rparr>) (demo_est (\<lambda>_ _. 0))) = Some (0, s') \<and>
    heap s' 9 = Some x \<and> desc_num x = 64"
  using performance_submit_ring [of "set_en (\<lambda>e. e\<lparr>e_perf := Some (demo_perf 1 0x10000)\<rparr>) (demo_est (\<lambda>_ _. 0))"
      "demo_perf 1 0x10000" demo_kernel "\<lambda>_. 0x40000000" 9] demo_kernel_ok
  by (auto simp: demo_perf_def max_consistent_size_def demo_est_def demo_engine_def)

text \<open>
  Starting a measurement with bad arguments. An unknown version is refused, but the engine keeps
  the structure: every later start is refused with \<open>-EBUSY\<close>, although nothing was started, until a
  stop. And a transfer size of more than 4 MiB, which comes from user space unchecked, is a kernel
  panic.
\<close>

theorem perf_start_bad_arguments:
  assumes "e_perf (en s) = None" "from_user A = (n, p)" "0 \<le> n"
  shows "(pf_version p \<noteq> 1 \<longrightarrow> (\<exists>s'. char_sgdma_ioctl K bb A True t IOCTL_XDMA_PERF_START s = Some (- EINVAL, Out_none, s') \<and>
      transfer_list (en s') = transfer_list (en s) \<and> writes (s_bus s') = writes (s_bus s) \<and>
      (\<forall>B u. char_sgdma_ioctl K bb B True u IOCTL_XDMA_PERF_START s' = Some (- EBUSY, Out_none, s')))) \<and>
    (pf_version p = 1 \<longrightarrow> max_consistent_size < unat (pf_transfer_size p) \<longrightarrow>
      char_sgdma_ioctl K bb A True t IOCTL_XDMA_PERF_START s = None)"
proof (intro conjI impI)
  assume "pf_version p \<noteq> 1"
  then show "\<exists>s'. char_sgdma_ioctl K bb A True t IOCTL_XDMA_PERF_START s = Some (- EINVAL, Out_none, s') \<and>
      transfer_list (en s') = transfer_list (en s) \<and> writes (s_bus s') = writes (s_bus s) \<and>
      (\<forall>B u. char_sgdma_ioctl K bb B True u IOCTL_XDMA_PERF_START s' = Some (- EBUSY, Out_none, s'))"
    using assms by (intro exI [of _ "set_en (\<lambda>e. e\<lparr>e_perf := Some p\<rparr>) s"])
      (simp add: char_sgdma_ioctl_def ioctl_do_perf_start_def IOCTL_XDMA_PERF_V1_def)
qed (use assms in \<open>simp add: char_sgdma_ioctl_def ioctl_do_perf_start_def IOCTL_XDMA_PERF_V1_def Let_def
  xdma_performance_submit_def\<close>)

theorem perf_start_bad_arguments_witness:
  "(\<exists>s'. char_sgdma_ioctl demo_kernel (\<lambda>_. 0) \<lparr>from_user = (0, demo_perf 7 64), to_user = 0, get_user = (0, 0), put_user = 0\<rparr> True 9
      IOCTL_XDMA_PERF_START (demo_est (\<lambda>_ _. 0)) = Some (- EINVAL, Out_none, s') \<and>
     char_sgdma_ioctl demo_kernel (\<lambda>_. 0) \<lparr>from_user = (0, demo_perf 1 64), to_user = 0, get_user = (0, 0), put_user = 0\<rparr> True 9
      IOCTL_XDMA_PERF_START s' = Some (- EBUSY, Out_none, s')) \<and>
   char_sgdma_ioctl demo_kernel (\<lambda>_. 0) \<lparr>from_user = (0, demo_perf 1 0x400001), to_user = 0, get_user = (0, 0), put_user = 0\<rparr> True 9
      IOCTL_XDMA_PERF_START (demo_est (\<lambda>_ _. 0)) = None"
proof -
  have i: "e_perf (en (demo_est (\<lambda>_ _. 0))) = None" by (simp add: demo_est_def demo_engine_def)
  show ?thesis
    using perf_start_bad_arguments [OF i, of "\<lparr>from_user = (0, demo_perf 7 64), to_user = 0, get_user = (0, 0), put_user = 0\<rparr>" 0
        "demo_perf 7 64" demo_kernel "\<lambda>_. 0" 9]
      perf_start_bad_arguments [OF i, of "\<lparr>from_user = (0, demo_perf 1 0x400001), to_user = 0, get_user = (0, 0), put_user = 0\<rparr>" 0
        "demo_perf 1 0x400001" demo_kernel "\<lambda>_. 0" 9]
    by (auto simp: demo_perf_def max_consistent_size_def)
qed

lemma low_28_mask: "(0xFFFFFFF :: u64) = mask 28"
  by (simp add: mask_eq_exp_minus_1)

lemma build_u64_value: "unat (build_u64 (ucast h) (ucast l)) = unat (h :: u32) mod 2 ^ 28 * 2 ^ 32 + unat (l :: u32)"
proof -
  have b: "unat h mod 2 ^ 28 < 2 ^ 28" "unat l < 2 ^ 32" using unsigned_less [of l] by simp_all
  have "build_u64 (ucast h) (ucast l) = push_bit 32 (take_bit 28 (ucast h)) OR ucast l"
    unfolding build_u64_def low_28_mask low_half_mask take_bit_eq_mask [symmetric]
    by (rule bit_word_eqI) (auto simp: bit_simps dest: bit_imp_le_length)
  also have "\<dots> = push_bit 32 (take_bit 28 (ucast h)) + ucast l"
    by (rule disjunctive_add [symmetric]) (auto simp: bit_simps dest: bit_imp_le_length)
  also have "\<dots> = of_nat (unat h mod 2 ^ 28 * 2 ^ 32 + unat l)"
  proof -
    have "take_bit 28 (of_nat (unat h) :: u64) = of_nat (unat h mod 2 ^ 28)"
      by (simp only: take_bit_of_nat take_bit_nat_def)
    then have "take_bit 28 (ucast h :: u64) = of_nat (unat h mod 2 ^ 28)" by (simp only: of_nat_unat)
    then show ?thesis by (simp add: push_bit_eq_mult)
  qed
  finally show ?thesis using b by (simp only: unat_of_nat) simp
qed

text \<open>
  The counters a measurement reports. Each 64-bit counter is read as two registers and put
  together from the low word and only 28 bits of the high word: the four most significant bits of
  what the hardware counted are lost.
\<close>

theorem perf_counters_truncated:
  assumes "e_perf (en s) = Some p" "\<And>h a. resp (s_bus s) h a = r a"
  shows "\<exists>s' q. get_perf_stats s = Some s' \<and> e_perf (en s') = Some q \<and>
    unat (pf_clock q) = unat (r (ereg (e_regs (en s)) E_perf_cyc_hi)) mod 2 ^ 28 * 2 ^ 32 + unat (r (ereg (e_regs (en s)) E_perf_cyc_lo)) \<and>
    unat (pf_data q) = unat (r (ereg (e_regs (en s)) E_perf_dat_hi)) mod 2 ^ 28 * 2 ^ 32 + unat (r (ereg (e_regs (en s)) E_perf_dat_lo)) \<and>
    unat (pf_pending q) = unat (r (ereg (e_regs (en s)) E_perf_pnd_hi)) mod 2 ^ 28 * 2 ^ 32 + unat (r (ereg (e_regs (en s)) E_perf_pnd_lo)) \<and>
    pf_iterations q = r (ereg (e_regs (en s)) E_completed_desc_count)"
proof -
  have v: "fst (rd_pair hi lo u) = build_u64 (ucast (r (ereg (e_regs (en u)) hi))) (ucast (r (ereg (e_regs (en u)) lo)))"
    "en (snd (rd_pair hi lo u)) = en u" "resp (s_bus (snd (rd_pair hi lo u))) = resp (s_bus u)"
    if "\<And>h a. resp (s_bus u) h a = r a" for hi lo u
    using that by (simp_all add: rd_pair_def split_beta rd_value)
  have it: "ucast (build_u64 0 (ucast w)) = (w :: u32)" for w
    unfolding build_u64_def low_half_mask by (rule bit_word_eqI) (auto simp: bit_simps dest: bit_imp_le_length)
  define u1 where "u1 = snd (rd (ereg (e_regs (en s)) E_completed_desc_count) s)"
  define u2 where "u2 = snd (rd_pair E_perf_cyc_hi E_perf_cyc_lo u1)"
  define u3 where "u3 = snd (rd_pair E_perf_dat_hi E_perf_dat_lo u2)"
  have r1: "\<And>h a. resp (s_bus u1) h a = r a" "en u1 = en s" using assms(2) by (simp_all add: u1_def)
  have r2: "\<And>h a. resp (s_bus u2) h a = r a" "en u2 = en s" using v(2,3) [OF r1(1)] r1 by (simp_all add: u2_def)
  have r3: "\<And>h a. resp (s_bus u3) h a = r a" "en u3 = en s" using v(2,3) [OF r2(1)] r2 by (simp_all add: u3_def)
  show ?thesis
    using assms(1) v(1) [OF r1(1)] v(1) [OF r2(1)] v(1) [OF r3(1)] v(2) [OF r3(1)] r1(2) r2(2) r3(2)
    by (simp add: get_perf_stats_def split_beta Let_def u1_def [symmetric] u2_def [symmetric] u3_def [symmetric]
        build_u64_value it) (simp add: rd_value assms(2))
qed

theorem perf_counters_truncated_witness:
  "\<exists>s' q. get_perf_stats (set_en (\<lambda>e. e\<lparr>e_perf := Some (demo_perf 1 64)\<rparr>) (demo_est (\<lambda>_ _. 0x10000001))) = Some s' \<and>
     e_perf (en s') = Some q \<and> unat (pf_clock q) = 0x110000001"
  using perf_counters_truncated [of "set_en (\<lambda>e. e\<lparr>e_perf := Some (demo_perf 1 64)\<rparr>) (demo_est (\<lambda>_ _. 0x10000001))"
      "demo_perf 1 64" "\<lambda>_. 0x10000001"]
  by (auto simp: demo_est_def)

end
