(* ===== verification/Measure.thy ===== *)
theory Measure
  imports Perf
begin

text \<open>
  The program that measures the throughput of a channel, \<open>test_dma\<close> of \<open>tests/performance.c\<close>: it starts
  a measurement, asks for its counters as often as it is told, and stops it, all by the ioctls of the
  channel's file. What it prints is left out.
\<close>

unbundle bit_operations_syntax

section \<open>The program\<close>

definition measure_args :: "u32 \<Rightarrow> user_args" where
  "measure_args sz = \<lparr>from_user = (0, \<lparr>pf_version = IOCTL_XDMA_PERF_V1, pf_transfer_size = sz, pf_stopped = False,
     pf_iterations = 0, pf_clock = 0, pf_data = 0, pf_pending = 0\<rparr>), to_user = 0, get_user = (0, 0), put_user = 0\<rparr>"

text \<open>The result codes of the ioctls, in order; none of them ends the program.\<close>

fun perf_gets :: "kernel \<Rightarrow> (nat \<Rightarrow> u64) \<Rightarrow> u32 \<Rightarrow> nat \<Rightarrow> nat \<Rightarrow> est \<Rightarrow> (int list \<times> est) option" where
  "perf_gets K bb sz t 0 s = Some ([], s)"
| "perf_gets K bb sz t (Suc count) s = do {
     (rc, _, s) \<leftarrow> char_sgdma_ioctl K bb (measure_args sz) True t IOCTL_XDMA_PERF_GET s;
     (rcs, s) \<leftarrow> perf_gets K bb sz t count s;
     Some (rc # rcs, s)
   }"

definition performance ::
  "kernel \<Rightarrow> (nat \<Rightarrow> u64) \<Rightarrow> u32 \<Rightarrow> u32 \<Rightarrow> nat \<Rightarrow> est \<Rightarrow> (int list \<times> user_out \<times> est) option" where
  "performance K bb sz count t s = do {
     (rc, _, s) \<leftarrow> char_sgdma_ioctl K bb (measure_args sz) True t IOCTL_XDMA_PERF_START s;
     (rcs, s) \<leftarrow> perf_gets K bb sz t (unat count) s;
     (rc', out, s) \<leftarrow> char_sgdma_ioctl K bb (measure_args sz) True t IOCTL_XDMA_PERF_STOP s;
     Some (rc # rcs @ [rc'], out, s)
   }"

section \<open>Its steps\<close>

lemma rd_pair_sel:
  "en (snd (rd_pair hi lo s)) = en s" "heap (snd (rd_pair hi lo s)) = heap s" "s_poll_mode (snd (rd_pair hi lo s)) = s_poll_mode s"
  by (simp_all add: rd_pair_def split_beta)

lemma stats_read:
  assumes "e_perf (en s) = Some p"
  shows "\<exists>s' q. get_perf_stats s = Some s' \<and> en s' = (en s)\<lparr>e_perf := Some q\<rparr> \<and> heap s' = heap s \<and> s_poll_mode s' = s_poll_mode s"
  using assms by (auto simp: get_perf_stats_def split_beta Let_def rd_pair_sel)

lemma ioctl_distinct:
  "IOCTL_XDMA_PERF_STOP \<noteq> IOCTL_XDMA_PERF_START" "IOCTL_XDMA_PERF_GET \<noteq> IOCTL_XDMA_PERF_START"
  "IOCTL_XDMA_PERF_GET \<noteq> IOCTL_XDMA_PERF_STOP"
  by (simp_all add: ioctl_codes)

lemma perf_gets_run:
  "e_perf (en s) = Some p \<Longrightarrow> \<exists>s' q. perf_gets K bb sz t n s = Some (replicate n 0, s') \<and>
     en s' = (en s)\<lparr>e_perf := Some q\<rparr> \<and> heap s' = heap s \<and> s_poll_mode s' = s_poll_mode s"
proof (induction n arbitrary: s p)
  case 0
  then show ?case by (intro exI [of _ s] exI [of _ p]) simp
next
  case (Suc n)
  obtain s1 q1 where s1: "get_perf_stats s = Some s1" "en s1 = (en s)\<lparr>e_perf := Some q1\<rparr>" "heap s1 = heap s"
    "s_poll_mode s1 = s_poll_mode s" using stats_read [OF Suc.prems] by blast
  then have "e_perf (en s1) = Some q1" by simp
  from Suc.IH [OF this] obtain s' q where "perf_gets K bb sz t n s1 = Some (replicate n 0, s')"
    "en s' = (en s1)\<lparr>e_perf := Some q\<rparr>" "heap s' = heap s1" "s_poll_mode s' = s_poll_mode s1" by blast
  with s1 Suc.prems show ?case
    by (intro exI [of _ s'] exI [of _ q]) (simp add: char_sgdma_ioctl_def ioctl_distinct ioctl_do_perf_get_def measure_args_def)
qed

text \<open>Stopping makes the last descriptor of the ring stop the engine, and leaves the transfer on the queue.\<close>

lemma perf_stop_run:
  assumes "e_perf (en s) = Some p" "transfer_list (en s) = [t]" "heap s t = Some x" "t_cyclic x" "0 < desc_num x"
    and "length (desc_virt x) = desc_num x"
  shows "\<exists>s' q y. char_sgdma_ioctl K bb (measure_args sz) True u IOCTL_XDMA_PERF_STOP s = Some (0, Out_perf q, s') \<and>
    en s' = (en s)\<lparr>e_perf := None\<rparr> \<and> s_poll_mode s' = s_poll_mode s \<and>
    heap s' = (heap s)(t \<mapsto> y) \<and> t_cyclic y \<and> t_iocb y = t_iocb x \<and> desc_num y = desc_num x \<and>
    desc_stopped (desc_virt y ! (desc_num x - 1))"
proof -
  have f: "ctl_field (XDMA_DESC_COMPLETED OR XDMA_DESC_STOPPED)" by (simp add: ctl_field_def bits)
  obtain d where d: "xdma_desc_control (desc_virt x ! (desc_num x - 1)) (XDMA_DESC_COMPLETED OR XDMA_DESC_STOPPED) = Some d"
    using ce_all.edit_total f by blast
  have st: "desc_stopped d" unfolding desc_stopped_def using ce_all.edit_ctl [OF d] by (simp add: bits)
  let ?x = "x\<lparr>t_cyclic := True, desc_virt := (desc_virt x)[desc_num x - 1 := d]\<rparr>"
  let ?s = "put_transfer t ?x (xdma_engine_stop s)"
  have "engine_cyclic_stop s = Some (Some t, ?s)"
    using assms d by (simp add: engine_cyclic_stop_def at_index_def)
  moreover obtain s1 q where "get_perf_stats ?s = Some s1" "en s1 = (en ?s)\<lparr>e_perf := Some q\<rparr>" "heap s1 = heap ?s"
    "s_poll_mode s1 = s_poll_mode ?s" using stats_read [of ?s p] assms(1) by auto
  ultimately show ?thesis using assms(1,5,6) st
    by (intro exI [of _ "set_en (\<lambda>e. e\<lparr>e_perf := None\<rparr>) s1"] exI [of _ q] exI [of _ ?x])
      (simp add: char_sgdma_ioctl_def ioctl_distinct ioctl_do_perf_stop_def measure_args_def)
qed

text \<open>The interrupt of a stopped ring: whatever the number of descriptors, the transfer leaves the queue.\<close>

lemma ring_service:
  assumes "e_running (en s)" "transfer_list (en s) = [t]" "heap s t = Some x" "t_cyclic x" "t_iocb x = None"
    and "e_perf (en s) = None" "e_shutdown (en s) = 0" "irq_status s AND (XDMA_STAT_BUSY OR err_flags) = 0"
  shows "\<exists>s'. engine_service 0 s = Some (0, s') \<and> \<not> e_running (en s') \<and> transfer_list (en s') = [] \<and> heap s' t \<noteq> None"
proof -
  have b: "irq_status s AND XDMA_STAT_BUSY = 0" "irq_status s AND err_flags = 0"
    using assms(8) by (simp_all only: bit.conj_disj_distrib or_eq_0_iff)
  define s0 where "s0 = snd (rd (ereg (e_regs (en s)) E_completed_desc_count) (engine_service_shutdown (snd (engine_status_read True s))))"
  have e0: "en s0 = (en s)\<lparr>e_status := irq_status s, e_running := False\<rparr>" "heap s0 = heap s"
    by (simp_all add: s0_def irq_status_def)
  have q: "\<exists>s'. engine_service_queue n s0 = Some s' \<and> \<not> e_running (en s') \<and> transfer_list (en s') = [] \<and> heap s' t \<noteq> None" for n
    using assms(2-7) b(2) e0
    by (auto simp: engine_service_queue_def list_first_def engine_service_perf_def engine_service_transfer_list_def
        service_list_loop.simps engine_service_final_transfer_def list_del_head_def engine_transfer_completion_def
        engine_service_resume_def Let_def)
  from q [of "irq_count s"] show ?thesis using assms(1) b(1)
    by (auto simp: engine_service_def Let_def split_beta s0_def irq_status_def irq_count_def)
qed

section \<open>A measurement\<close>

text \<open>
  C33: a measurement from beginning to end. On an idle engine, for a transfer size of up to 4 MiB, every
  ioctl of the program succeeds, whatever the registers read. When the program has ended, the engine
  still runs the ring, whose last descriptor now stops it; the interrupt that follows takes the
  transfer off the queue and leaves the engine stopped, but the transfer is still allocated, and nothing
  in the driver refers to it any more.
\<close>

theorem measurement_leaks_ring:
  assumes "idle s" "kernel_ok K" "0 < unat sz" "unat sz \<le> max_consistent_size"
  shows "\<exists>out s' x. performance K bb sz count t s = Some (replicate (unat count + 2) 0, out, s') \<and>
    e_perf (en s') = None \<and> e_running (en s') \<and> transfer_list (en s') = [t] \<and> heap s' t = Some x \<and>
    desc_stopped (desc_virt x ! (desc_num x - 1)) \<and>
    (\<forall>b. (\<forall>h. resp b h (ereg (e_regs (en s)) E_status_rc) AND (XDMA_STAT_BUSY OR err_flags) = 0) \<longrightarrow>
      (\<exists>s3. engine_service 0 (s'\<lparr>s_bus := b\<rparr>) = Some (0, s3) \<and> \<not> e_running (en s3) \<and> transfer_list (en s3) = [] \<and>
        heap s3 t \<noteq> None))"
proof -
  let ?p = "snd (from_user (measure_args sz))"
  have i: "\<not> e_locked (en s)" "\<not> e_running (en s)" "transfer_list (en s) = []" "e_shutdown (en s) = 0" "e_perf (en s) = None"
    using assms(1) by (simp_all add: idle_def)
  define s0 where "s0 = snd (rd (ereg (e_regs (en s)) E_identifier) (wr (XDMA_PERF_AUTO OR XDMA_PERF_RUN) (ereg (e_regs (en s)) E_perf_ctrl)
    (snd (rd (ereg (e_regs (en s)) E_identifier) (wr XDMA_PERF_CLEAR (ereg (e_regs (en s)) E_perf_ctrl) (set_en (\<lambda>e. e\<lparr>e_perf := Some ?p\<rparr>) s))))))"
  have e0: "en s0 = (en s)\<lparr>e_perf := Some ?p\<rparr>" by (simp add: s0_def)
  obtain s1 x where s1: "xdma_performance_submit K bb t s0 = Some (0, s1)" "heap s1 = (heap s0)(t \<mapsto> x)" "t_cyclic x" "t_iocb x = None"
    "en s1 = (en s0)\<lparr>e_shutdown := 0, e_desc_dequeued := 0, e_running := True, transfer_list := [t], e_locked := False\<rparr>"
    "0 < desc_num x" "length (desc_virt x) = desc_num x"
    using perf_submit_spec [of s0 ?p K bb t] assms(2-4) i e0 by (auto simp: measure_args_def perf_ring_def)
  have start: "char_sgdma_ioctl K bb (measure_args sz) True t IOCTL_XDMA_PERF_START s = Some (0, Out_none, s1)"
    using s1(1) i(5) by (simp add: char_sgdma_ioctl_def ioctl_do_perf_start_def measure_args_def Let_def s0_def)
  obtain s2 q where s2: "perf_gets K bb sz t (unat count) s1 = Some (replicate (unat count) 0, s2)"
    "en s2 = (en s1)\<lparr>e_perf := Some q\<rparr>" "heap s2 = heap s1"
    using perf_gets_run [of s1 ?p K bb sz t "unat count"] s1(5) e0 by auto
  have h2: "e_perf (en s2) = Some q" "transfer_list (en s2) = [t]" "heap s2 t = Some x" using s1(2,5) s2(2,3) by simp_all
  obtain s' q' y where s': "char_sgdma_ioctl K bb (measure_args sz) True t IOCTL_XDMA_PERF_STOP s2 = Some (0, Out_perf q', s')"
    "en s' = (en s2)\<lparr>e_perf := None\<rparr>" "heap s' = (heap s2)(t \<mapsto> y)" "t_cyclic y" "t_iocb y = t_iocb x" "desc_num y = desc_num x"
    "desc_stopped (desc_virt y ! (desc_num x - 1))"
    using perf_stop_run [OF h2 s1(3,6,7), of K bb sz t] by blast
  have "performance K bb sz count t s = Some (replicate (unat count + 2) 0, Out_perf q', s')"
    using start s2(1) s'(1) by (simp add: performance_def replicate_append_same)
  moreover have "\<exists>s3. engine_service 0 (s'\<lparr>s_bus := b\<rparr>) = Some (0, s3) \<and> \<not> e_running (en s3) \<and> transfer_list (en s3) = [] \<and> heap s3 t \<noteq> None"
    if "\<forall>h. resp b h (ereg (e_regs (en s)) E_status_rc) AND (XDMA_STAT_BUSY OR err_flags) = 0" for b
  proof (rule ring_service [where x = y])
    show "irq_status (s'\<lparr>s_bus := b\<rparr>) AND (XDMA_STAT_BUSY OR err_flags) = 0"
      using that e0 s1(5) s2(2) s'(2) by (simp add: irq_status_def rd_value)
  qed (use e0 s1(4,5) s2(2) s'(2-5) in simp_all)
  ultimately show ?thesis using e0 s1(5) s2(2) s'(2,3,6,7) by auto
qed

theorem measurement_leaks_ring_witness:
  "\<exists>out s' x. performance demo_kernel (\<lambda>_. 0x40000000) 0x8000 3 9 (demo_est (\<lambda>_ _. 0)) = Some (replicate 5 0, out, s') \<and>
    heap s' 9 = Some x \<and> e_perf (en s') = None"
  using measurement_leaks_ring [OF demo_est_idle demo_kernel_ok, of "0x8000" "\<lambda>_. 0x40000000" 3 9 "\<lambda>_ _. 0"]
  by (auto simp: max_consistent_size_def)

end
