(* ===== verification/BitHeader.thy ===== *)
theory BitHeader
  imports XPrelude
begin

text \<open>
  The header of a Xilinx bit file, as \<open>bitstream_parse_header\<close> of \<open>driver/xdma-bit.c\<close> reads it,
  and the format it accepts. The buffer is a list of bytes; reading behind its end is a fault, as
  is an allocation that fails, since the result of \<open>kmalloc\<close> is used unchecked.
\<close>

unbundle bit_operations_syntax

definition XHI_EVEN_MAGIC_BYTE :: u8 where "XHI_EVEN_MAGIC_BYTE = 0x0f"
definition XHI_ODD_MAGIC_BYTE :: u8 where "XHI_ODD_MAGIC_BYTE = 0xf0"
definition XHI_BIT_HEADER_FAILURE :: u32 where "XHI_BIT_HEADER_FAILURE = - 1"

record XHwIcap_Bit_Header =
  HeaderLength :: u32
  BitstreamLength :: u32
  DesignName :: "u8 list option"
  PartName :: "u8 list option"
  Date :: "u8 list option"
  Time :: "u8 list option"
  MagicLength :: u32

text \<open>All callers zero the header first.\<close>

definition header_zero :: XHwIcap_Bit_Header where
  "header_zero = \<lparr>HeaderLength = 0, BitstreamLength = 0, DesignName = None, PartName = None, Date = None, Time = None,
     MagicLength = 0\<rparr>"

section \<open>Reading\<close>

text \<open>\<open>Data[Index++]\<close>, alone, as the two bytes of a length, and as the bytes of a string.\<close>

definition data_at :: "u8 list \<Rightarrow> nat \<Rightarrow> (u8 \<times> nat) option" where
  "data_at Data i = (if i < length Data then Some (Data ! i, Suc i) else None)"

definition data_short :: "u8 list \<Rightarrow> nat \<Rightarrow> (u32 \<times> nat) option" where
  "data_short Data i = do {
     (a, i) \<leftarrow> data_at Data i;
     (b, i) \<leftarrow> data_at Data i;
     Some (push_bit 8 (ucast a) OR ucast b, i)
   }"

fun data_bytes :: "u8 list \<Rightarrow> nat \<Rightarrow> nat \<Rightarrow> (u8 list \<times> nat) option" where
  "data_bytes Data 0 i = Some ([], i)"
| "data_bytes Data (Suc n) i = do {
     (b, i) \<leftarrow> data_at Data i;
     (bs, i) \<leftarrow> data_bytes Data n i;
     Some (b # bs, i)
   }"

text \<open>The four bytes of the length of the bitstream.\<close>

definition data_word :: "u8 list \<Rightarrow> nat \<Rightarrow> (u32 \<times> nat) option" where
  "data_word Data i = do {
     (a, i) \<leftarrow> data_at Data i;
     let L = ucast a;
     (a, i) \<leftarrow> data_at Data i;
     let L = push_bit 8 L OR ucast a;
     (a, i) \<leftarrow> data_at Data i;
     let L = push_bit 8 L OR ucast a;
     (a, i) \<leftarrow> data_at Data i;
     Some (push_bit 8 L OR ucast a, i)
   }"

text \<open>The loop over the magic bytes; the flag is false if one is wrong.\<close>

fun magic_loop :: "u8 list \<Rightarrow> nat \<Rightarrow> nat \<Rightarrow> nat \<Rightarrow> (bool \<times> nat) option" where
  "magic_loop Data 0 I i = Some (True, i)"
| "magic_loop Data (Suc n) I i = do {
     (t, i) \<leftarrow> data_at Data i;
     (if I mod 2 = 0 \<and> t \<noteq> XHI_EVEN_MAGIC_BYTE then Some (False, i)
      else if I mod 2 = 1 \<and> t \<noteq> XHI_ODD_MAGIC_BYTE then Some (False, i)
      else magic_loop Data n (Suc I) i)
   }"

text \<open>
  A letter, a length and a string that must end with a null character. With length 0 the code
  tests the byte 4 GiB behind the string.
\<close>

definition header_field ::
  "(u32 \<Rightarrow> bool) \<Rightarrow> u8 \<Rightarrow> u8 list \<Rightarrow> nat \<Rightarrow> (bool \<times> u8 list option \<times> nat) option" where
  "header_field kmalloc key Data i = do {
     (t, i) \<leftarrow> data_at Data i;
     (if t \<noteq> key then Some (False, None, i)
      else do {
        (len, i) \<leftarrow> data_short Data i;
        BUG_ON (len = 0 \<or> \<not> kmalloc len);
        (s, i) \<leftarrow> data_bytes Data (unat len) i;
        Some (s ! unat (len - 1) = 0, Some s, i)
      })
   }"

definition bitstream_parse_header ::
  "(u32 \<Rightarrow> bool) \<Rightarrow> u8 list \<Rightarrow> (int \<times> XHwIcap_Bit_Header) option" where
  "bitstream_parse_header kmalloc Data = do {
     let H = header_zero\<lparr>HeaderLength := XHI_BIT_HEADER_FAILURE\<rparr>;
     (m, i) \<leftarrow> data_short Data 0;
     let H = H\<lparr>MagicLength := m\<rparr>;
     (ok, i) \<leftarrow> magic_loop Data (unat (m - 1)) 0 i;
     (if \<not> ok then Some (- 1, H) else do {
     (_, i) \<leftarrow> data_at Data i;
     (t, i) \<leftarrow> data_short Data i;
     (if t \<noteq> 1 then Some (- 1, H) else do {
     (ok, s, i) \<leftarrow> header_field kmalloc 0x61 Data i;
     let H = H\<lparr>DesignName := s\<rparr>;
     (if \<not> ok then Some (- 1, H) else do {
     (ok, s, i) \<leftarrow> header_field kmalloc 0x62 Data i;
     let H = H\<lparr>PartName := s\<rparr>;
     (if \<not> ok then Some (- 1, H) else do {
     (ok, s, i) \<leftarrow> header_field kmalloc 0x63 Data i;
     let H = H\<lparr>Date := s\<rparr>;
     (if \<not> ok then Some (- 1, H) else do {
     (ok, s, i) \<leftarrow> header_field kmalloc 0x64 Data i;
     let H = H\<lparr>Time := s\<rparr>;
     (if \<not> ok then Some (- 1, H) else do {
     (t, i) \<leftarrow> data_at Data i;
     (if t \<noteq> 0x65 then Some (- 1, H) else do {
     (L, i) \<leftarrow> data_word Data i;
     Some (0, H\<lparr>BitstreamLength := L, HeaderLength := of_nat i\<rparr>)
     })})})})})})})
   }"

section \<open>The format\<close>

definition be_short :: "u32 \<Rightarrow> u8 list" where
  "be_short w = [ucast (drop_bit 8 w), ucast w]"

definition be_word :: "u32 \<Rightarrow> u8 list" where
  "be_word w = [ucast (drop_bit 24 w), ucast (drop_bit 16 w), ucast (drop_bit 8 w), ucast w]"

definition magic_bytes :: "nat \<Rightarrow> nat \<Rightarrow> u8 list" where
  "magic_bytes k n = map (\<lambda>i. if even i then XHI_EVEN_MAGIC_BYTE else XHI_ODD_MAGIC_BYTE) [k..<k + n]"

definition field_bytes :: "u8 \<Rightarrow> u8 list \<Rightarrow> u8 list" where
  "field_bytes key s = key # be_short (of_nat (length s)) @ s"

definition header_bytes :: "u32 \<Rightarrow> u8 \<Rightarrow> u8 list \<Rightarrow> u8 list \<Rightarrow> u8 list \<Rightarrow> u8 list \<Rightarrow> u32 \<Rightarrow> u8 list" where
  "header_bytes m z des part dat tim len =
     be_short m @ magic_bytes 0 (unat (m - 1)) @ [z] @ be_short 1 @ field_bytes 0x61 des @ field_bytes 0x62 part @
     field_bytes 0x63 dat @ field_bytes 0x64 tim @ [0x65] @ be_word len"

text \<open>A string with its null character, of a length that fits the field.\<close>

definition c_string :: "u8 list \<Rightarrow> bool" where
  "c_string s \<longleftrightarrow> s \<noteq> [] \<and> length s < 2 ^ 16 \<and> last s = 0"

text \<open>The bytes \<open>bs\<close> lie in the buffer from \<open>i\<close> up to \<open>j\<close>.\<close>

definition lies :: "u8 list \<Rightarrow> nat \<Rightarrow> u8 list \<Rightarrow> nat \<Rightarrow> bool" where
  "lies Data i bs j \<longleftrightarrow> j = i + length bs \<and> j \<le> length Data \<and> take (length bs) (drop i Data) = bs"

lemma lies_append: "lies Data i (xs @ ys) k \<longleftrightarrow> (\<exists>j. lies Data i xs j \<and> lies Data j ys k)"
proof -
  have "take (length xs + length ys) (drop i Data) = take (length xs) (drop i Data) @ take (length ys) (drop (i + length xs) Data)"
    by (simp add: take_add add.commute)
  then show ?thesis by (auto simp: lies_def append_eq_append_conv_if add.assoc) 
qed

lemma lies_Nil: "lies Data i [] j \<longleftrightarrow> j = i \<and> i \<le> length Data"
  by (auto simp: lies_def)

lemma lies_one: "lies Data i [b] j \<longleftrightarrow> i < length Data \<and> Data ! i = b \<and> j = Suc i"
  by (auto simp: lies_def Suc_le_eq take_Suc_conv_app_nth)

lemma lies_Cons: "lies Data i (b # bs) k \<longleftrightarrow> i < length Data \<and> Data ! i = b \<and> lies Data (Suc i) bs k"
  using lies_append [of Data i "[b]" bs k] by (auto simp: lies_one)

lemma lies_start: "lies Data 0 bs j \<longleftrightarrow> j = length bs \<and> (\<exists>rest. Data = bs @ rest)"
  by (auto simp: lies_def) (metis append_take_drop_id)

section \<open>What each reader accepts\<close>

lemma data_at_iff: "data_at Data i = Some (b, j) \<longleftrightarrow> lies Data i [b] j"
  by (auto simp: data_at_def lies_one)

lemma be_short_word:
  assumes "unat (w :: u32) < 2 ^ 16"
  shows "push_bit 8 (ucast (ucast (drop_bit 8 w) :: u8)) OR ucast (ucast w :: u8) = w"
proof -
  have "take_bit 16 w = w" using assms by (simp add: unat_arith_simps unsigned_take_bit_eq take_bit_nat_eq_self)
  then have b: "bit w n \<Longrightarrow> n < 16" for n by (metis bit_take_bit_iff)
  have "bit w n \<Longrightarrow> 8 \<le> n \<Longrightarrow> n - 8 < 8" for n using b [of n] by linarith
  then show ?thesis by (intro bit_word_eqI) (auto simp: bit_simps)
qed

lemma short_be_word:
  fixes a b :: u8
  defines "w \<equiv> push_bit 8 (ucast a) OR ucast b :: u32"
  shows "be_short w = [a, b]" "unat w < 2 ^ 16"
proof -
  have "ucast (drop_bit 8 w) = a" "ucast w = b"
    by (auto simp: w_def bit_eq_iff bit_simps dest: bit_imp_le_length)
  then show "be_short w = [a, b]" by (simp add: be_short_def)
  have "take_bit 16 w = w" by (rule bit_word_eqI) (auto simp: w_def bit_simps dest: bit_imp_le_length)
  then have "unat w = take_bit 16 (unat w)" by (metis unsigned_take_bit_eq)
  then show "unat w < 2 ^ 16" by (metis take_bit_nat_less_exp)
qed

lemma data_short_iff: "data_short Data i = Some (w, j) \<longleftrightarrow> unat w < 2 ^ 16 \<and> lies Data i (be_short w) j"
proof
  assume "data_short Data i = Some (w, j)"
  then obtain a b k where "data_at Data i = Some (a, k)" "data_at Data k = Some (b, j)" "w = push_bit 8 (ucast a) OR ucast b"
    by (auto simp: data_short_def bind_eq_Some_conv)
  then show "unat w < 2 ^ 16 \<and> lies Data i (be_short w) j"
    using short_be_word [of a b] by (auto simp: data_at_iff lies_one lies_Cons lies_Nil)
next
  assume "unat w < 2 ^ 16 \<and> lies Data i (be_short w) j"
  then show "data_short Data i = Some (w, j)"
    using be_short_word [of w] by (auto simp: data_short_def be_short_def lies_Cons lies_Nil data_at_def)
qed

lemma data_bytes_iff:
  "i \<le> length Data \<Longrightarrow> data_bytes Data n i = Some (s, j) \<longleftrightarrow> length s = n \<and> lies Data i s j"
proof (induction n arbitrary: i s)
  case (Suc n)
  show ?case
  proof (cases "i < length Data")
    case True
    then show ?thesis using Suc.IH [of "Suc i"] by (cases s) (auto simp: data_at_def lies_Cons bind_eq_Some_conv)
  next
    case False
    then show ?thesis by (cases s) (auto simp: data_at_def lies_Cons)
  qed
qed (auto simp: lies_Nil)

lemma magic_bytes_Suc: "magic_bytes k (Suc n) = (if even k then XHI_EVEN_MAGIC_BYTE else XHI_ODD_MAGIC_BYTE) # magic_bytes (Suc k) n"
  by (simp add: magic_bytes_def upt_conv_Cons del: upt_Suc)

lemma magic_loop_iff:
  "i \<le> length Data \<Longrightarrow> magic_loop Data n k i = Some (True, j) \<longleftrightarrow> lies Data i (magic_bytes k n) j"
proof (induction n arbitrary: i k)
  case (Suc n)
  show ?case
  proof (cases "i < length Data")
    case True
    then show ?thesis using Suc.IH [of "Suc i" "Suc k"]
      by (auto simp: data_at_def lies_Cons magic_bytes_Suc odd_iff_mod_2_eq_one even_iff_mod_2_eq_zero)
  next
    case False
    then show ?thesis by (auto simp: data_at_def magic_bytes_Suc lies_Cons)
  qed
qed (auto simp: lies_Nil magic_bytes_def)

lemma liesD: "lies Data i bs j \<Longrightarrow> j \<le> length Data"
  by (simp add: lies_def)

lemma c_string_len:
  assumes "c_string s"
  shows "unat (of_nat (length s) :: u32) = length s" "of_nat (length s) \<noteq> (0 :: u32)" "unat (of_nat (length s) - 1 :: u32) = length s - 1"
proof -
  show u: "unat (of_nat (length s) :: u32) = length s" using assms by (simp add: c_string_def unsigned_of_nat take_bit_nat_eq_self)
  have "length s \<noteq> 0" using assms by (simp add: c_string_def)
  then show "of_nat (length s) \<noteq> (0 :: u32)" using u by (metis unsigned_0)
  then show "unat (of_nat (length s) - 1 :: u32) = length s - 1" using u by (simp add: unat_minus_one)
qed

lemma header_field_iff:
  "header_field (\<lambda>_. True) key Data i = Some (True, x, j) \<longleftrightarrow> (\<exists>s. x = Some s \<and> c_string s \<and> lies Data i (field_bytes key s) j)"
proof
  assume "header_field (\<lambda>_. True) key Data i = Some (True, x, j)"
  then obtain k len l s where r: "data_at Data i = Some (key, k)" "data_short Data k = Some (len, l)" "len \<noteq> 0"
    "data_bytes Data (unat len) l = Some (s, j)" "s ! unat (len - 1) = 0" "x = Some s"
    by (auto simp: header_field_def bind_eq_Some_conv split: if_splits)
  have l: "unat len < 2 ^ 16" "lies Data k (be_short len) l" using r(2) by (simp_all add: data_short_iff)
  have s: "length s = unat len" "lies Data l s j" using r(4) data_bytes_iff [OF liesD [OF l(2)]] by simp_all
  have len: "len = of_nat (length s)" using s(1) by simp
  have "unat (len - 1) = length s - 1" using r(3) s(1) by (simp add: unat_minus_one)
  moreover have "s \<noteq> []" using r(3) len by auto
  ultimately have "c_string s" using r(5) s(1) l(1) by (simp add: c_string_def last_conv_nth)
  moreover have "lies Data i (field_bytes key s) j"
  proof -
    have "i < length Data" "Data ! i = key" "k = Suc i" using r(1) by (auto simp: data_at_def split: if_splits)
    then show ?thesis using l(2) s(2) unfolding field_bytes_def len lies_Cons lies_append by blast
  qed
  ultimately show "\<exists>s. x = Some s \<and> c_string s \<and> lies Data i (field_bytes key s) j" using r(6) by blast
next
  assume "\<exists>s. x = Some s \<and> c_string s \<and> lies Data i (field_bytes key s) j"
  then obtain s l where s: "x = Some s" "c_string s" "i < length Data" "Data ! i = key"
    "lies Data (Suc i) (be_short (of_nat (length s))) l" "lies Data l s j"
    unfolding field_bytes_def lies_Cons lies_append by blast
  have "data_short Data (Suc i) = Some (of_nat (length s), l)"
    using s(2,5) c_string_len [OF s(2)] by (simp add: data_short_iff c_string_def)
  moreover have "data_bytes Data (length s) l = Some (s, j)"
    using data_bytes_iff [OF liesD [OF s(5)]] s(6) by simp
  moreover have "s ! (length s - 1) = 0" using s(2) last_conv_nth [of s] by (simp add: c_string_def)
  ultimately show "header_field (\<lambda>_. True) key Data i = Some (True, x, j)"
    using s(1,3,4) c_string_len [OF s(2)] by (simp add: header_field_def data_at_def)
qed

lemma be_word_iff:
  fixes a b c d :: u8
  shows "be_word w = [a, b, c, d] \<longleftrightarrow> w = push_bit 8 (push_bit 8 (push_bit 8 (ucast a) OR ucast b) OR ucast c) OR ucast d"
    (is "_ \<longleftrightarrow> w = ?w a b c d")
proof -
  define f :: "u8 \<Rightarrow> u8 \<Rightarrow> u8 \<Rightarrow> u8 \<Rightarrow> u32" where "f = (\<lambda>a b c d. ?w a b c d)"
  have bits: "bit (f a b c d) k = (if k < 8 then bit d k else if k < 16 then bit c (k - 8) else if k < 24 then bit b (k - 16)
      else bit a (k - 24))" if "k < 32" for k a b c d
  proof -
    consider "k < 8" | "8 \<le> k" "k < 16" | "16 \<le> k" "k < 24" | "24 \<le> k" by linarith
    then show ?thesis using that by cases (auto simp: f_def bit_simps dest: bit_imp_le_length)
  qed
  have part: "ucast (drop_bit 24 (f a b c d)) = a" "ucast (drop_bit 16 (f a b c d)) = b" "ucast (drop_bit 8 (f a b c d)) = c"
    "ucast (f a b c d) = d" for a b c d
    by (rule bit_word_eqI; simp add: bit_ucast_iff bit_drop_bit_eq bits)+
  have "w = f (ucast (drop_bit 24 w)) (ucast (drop_bit 16 w)) (ucast (drop_bit 8 w)) (ucast w)"
    by (rule bit_word_eqI) (simp add: bits, simp add: bit_simps, auto)
  then have "be_word w = [a, b, c, d] \<longleftrightarrow> w = f a b c d" using part by (auto simp: be_word_def)
  then show ?thesis by (simp only: f_def)
qed

lemma data_word_iff: "data_word Data i = Some (w, j) \<longleftrightarrow> lies Data i (be_word w) j"
proof
  assume "data_word Data i = Some (w, j)"
  then obtain a b c d where "lies Data i [a, b, c, d] j" "w = push_bit 8 (push_bit 8 (push_bit 8 (ucast a) OR ucast b) OR ucast c) OR ucast d"
    by (fastforce simp: data_word_def data_at_def lies_Cons lies_Nil Let_def bind_eq_Some_conv split: if_splits)
  then show "lies Data i (be_word w) j" using be_word_iff [of w a b c d] by simp
next
  assume l: "lies Data i (be_word w) j"
  obtain a b c d where e: "be_word w = [a, b, c, d]" by (simp add: be_word_def)
  then have "w = push_bit 8 (push_bit 8 (push_bit 8 (ucast a) OR ucast b) OR ucast c) OR ucast d" using be_word_iff by blast
  moreover have "j = i + 4" "j \<le> length Data" "Data ! i = a" "Data ! Suc i = b" "Data ! Suc (Suc i) = c" "Data ! Suc (Suc (Suc i)) = d"
    using l by (auto simp: e lies_Cons lies_Nil)
  ultimately show "data_word Data i = Some (w, j)" by (simp add: data_word_def data_at_def)
qed

section \<open>The parser and the format\<close>

text \<open>The format as a sequence of fields, each read where the one before it ends.\<close>

lemma header_bytes_lies:
  "lies Data 0 (header_bytes m z des part dat tim len) j \<longleftrightarrow>
     (\<exists>i1 i2 i3 i4 i5 i6 i7. lies Data 0 (be_short m) i1 \<and> lies Data i1 (magic_bytes 0 (unat (m - 1))) i2 \<and>
        lies Data i2 [z] (Suc i2) \<and> lies Data (Suc i2) (be_short 1) i3 \<and> lies Data i3 (field_bytes 0x61 des) i4 \<and>
        lies Data i4 (field_bytes 0x62 part) i5 \<and> lies Data i5 (field_bytes 0x63 dat) i6 \<and>
        lies Data i6 (field_bytes 0x64 tim) i7 \<and> lies Data i7 [0x65] (Suc i7) \<and> lies Data (Suc i7) (be_word len) j)"
proof -
  have one: "lies Data i ([b] @ bs) k \<longleftrightarrow> lies Data i [b] (Suc i) \<and> lies Data (Suc i) bs k" for i b bs k
    by (auto simp: lies_Cons lies_Nil)
  show ?thesis unfolding header_bytes_def lies_append [of _ _ "be_short _"] lies_append [of _ _ "magic_bytes _ _"]
    lies_append [of _ _ "field_bytes _ _"] one by blast
qed

lemma parse_iff:
  "bitstream_parse_header (\<lambda>_. True) Data = Some (0, H) \<longleftrightarrow>
     (\<exists>z des part dat tim rest. Data = header_bytes (MagicLength H) z des part dat tim (BitstreamLength H) @ rest \<and>
        unat (MagicLength H) < 2 ^ 16 \<and> c_string des \<and> c_string part \<and> c_string dat \<and> c_string tim \<and>
        H = \<lparr>HeaderLength = of_nat (length Data - length rest), BitstreamLength = BitstreamLength H, DesignName = Some des,
              PartName = Some part, Date = Some dat, Time = Some tim, MagicLength = MagicLength H\<rparr>)"
  (is "_ \<longleftrightarrow> ?R")
proof
  assume "bitstream_parse_header (\<lambda>_. True) Data = Some (0, H)"
  then obtain m i1 i2 z t i3 s1 i4 s2 i5 s3 i6 s4 i7 j1 L j where
    r: "data_short Data 0 = Some (m, i1)" "magic_loop Data (unat (m - 1)) 0 i1 = Some (True, i2)"
    "data_at Data i2 = Some (z, t)" "data_short Data t = Some (1, i3)"
    "header_field (\<lambda>_. True) 0x61 Data i3 = Some (True, s1, i4)" "header_field (\<lambda>_. True) 0x62 Data i4 = Some (True, s2, i5)"
    "header_field (\<lambda>_. True) 0x63 Data i5 = Some (True, s3, i6)" "header_field (\<lambda>_. True) 0x64 Data i6 = Some (True, s4, i7)"
    "data_at Data i7 = Some (0x65, j1)" "data_word Data j1 = Some (L, j)"
    "H = header_zero\<lparr>MagicLength := m, DesignName := s1, PartName := s2, Date := s3, Time := s4, BitstreamLength := L, HeaderLength := of_nat j\<rparr>"
    by (auto simp: bitstream_parse_header_def bind_eq_Some_conv Let_def split: if_splits)
  have i1: "i1 \<le> length Data" using r(1) by (auto simp: data_short_iff dest: liesD)
  obtain des part dat tim where s: "s1 = Some des" "s2 = Some part" "s3 = Some dat" "s4 = Some tim"
    "c_string des" "c_string part" "c_string dat" "c_string tim" using r(5-8) unfolding header_field_iff by blast
  have "lies Data 0 (header_bytes m z des part dat tim L) j"
    unfolding header_bytes_lies
  proof (intro exI conjI)
    show "lies Data 0 (be_short m) i1" using r(1) by (simp add: data_short_iff)
    show "lies Data i1 (magic_bytes 0 (unat (m - 1))) i2" using r(2) magic_loop_iff [OF i1] by simp
    show "lies Data i2 [z] (Suc i2)" using r(3) by (auto simp: data_at_iff lies_one)
    show "lies Data (Suc i2) (be_short 1) i3" using r(3,4) by (auto simp: data_at_iff lies_one data_short_iff)
    show "lies Data i7 [0x65] (Suc i7)" using r(9) by (auto simp: data_at_iff lies_one)
    show "lies Data (Suc i7) (be_word L) j" using r(9,10) by (auto simp: data_at_iff lies_one data_word_iff)
  qed (use r(5-8) s in \<open>simp_all add: header_field_iff\<close>)
  moreover have "unat m < 2 ^ 16" using r(1) by (simp add: data_short_iff)
  ultimately obtain rest where d: "Data = header_bytes m z des part dat tim L @ rest" "j = length (header_bytes m z des part dat tim L)"
    "unat m < 2 ^ 16" by (auto simp: lies_start)
  show ?R
    by (intro exI [of _ z] exI [of _ des] exI [of _ part] exI [of _ dat] exI [of _ tim] exI [of _ rest])
      (use d s r(11) in \<open>simp add: header_zero_def\<close>)
next
  assume ?R
  then obtain z des part dat tim rest where
    h: "Data = header_bytes (MagicLength H) z des part dat tim (BitstreamLength H) @ rest" "unat (MagicLength H) < 2 ^ 16"
      "c_string des" "c_string part" "c_string dat" "c_string tim"
      "H = \<lparr>HeaderLength = of_nat (length Data - length rest), BitstreamLength = BitstreamLength H, DesignName = Some des,
              PartName = Some part, Date = Some dat, Time = Some tim, MagicLength = MagicLength H\<rparr>" by blast
  define m where "m = MagicLength H"
  define L where "L = BitstreamLength H"
  have "lies Data 0 (header_bytes m z des part dat tim L) (length Data - length rest)"
    unfolding lies_start m_def L_def using h(1) by simp
  then obtain i1 i2 i3 i4 i5 i6 i7 where l: "lies Data 0 (be_short m) i1" "lies Data i1 (magic_bytes 0 (unat (m - 1))) i2"
    "lies Data i2 [z] (Suc i2)" "lies Data (Suc i2) (be_short 1) i3" "lies Data i3 (field_bytes 0x61 des) i4"
    "lies Data i4 (field_bytes 0x62 part) i5" "lies Data i5 (field_bytes 0x63 dat) i6" "lies Data i6 (field_bytes 0x64 tim) i7"
    "lies Data i7 [0x65] (Suc i7)" "lies Data (Suc i7) (be_word L) (length Data - length rest)"
    unfolding header_bytes_lies by blast
  have f: "data_short Data 0 = Some (m, i1)" "magic_loop Data (unat (m - 1)) 0 i1 = Some (True, i2)"
    "data_at Data i2 = Some (z, Suc i2)" "data_short Data (Suc i2) = Some (1, i3)"
    "header_field (\<lambda>_. True) 0x61 Data i3 = Some (True, Some des, i4)"
    "header_field (\<lambda>_. True) 0x62 Data i4 = Some (True, Some part, i5)"
    "header_field (\<lambda>_. True) 0x63 Data i5 = Some (True, Some dat, i6)"
    "header_field (\<lambda>_. True) 0x64 Data i6 = Some (True, Some tim, i7)"
    "data_at Data i7 = Some (0x65, Suc i7)" "data_word Data (Suc i7) = Some (L, length Data - length rest)"
    using l h(2-6) magic_loop_iff [OF liesD [OF l(1)]]
    unfolding header_field_iff data_short_iff data_at_iff data_word_iff m_def by (simp_all)
  have "bitstream_parse_header (\<lambda>_. True) Data = Some (0, \<lparr>HeaderLength = of_nat (length Data - length rest), BitstreamLength = L,
      DesignName = Some des, PartName = Some part, Date = Some dat, Time = Some tim, MagicLength = m\<rparr>)"
    by (simp add: bitstream_parse_header_def f header_zero_def)
  then show "bitstream_parse_header (\<lambda>_. True) Data = Some (0, H)" using h(7) unfolding m_def L_def by simp
qed

text \<open>
  C29: the parser accepts exactly the files of the format, and reads back what was written. It
  succeeds on a buffer if and only if the buffer starts with a header: a magic string of
  alternating bytes, then the four fields with their letters, lengths and null-terminated strings,
  then the length of the bitstream; and the result holds these strings, that length, and the
  number of bytes of the header.
\<close>

theorem parse_header_format:
  "bitstream_parse_header (\<lambda>_. True) Data = Some (0, H) \<longleftrightarrow>
     (\<exists>z des part dat tim rest. Data = header_bytes (MagicLength H) z des part dat tim (BitstreamLength H) @ rest \<and>
        unat (MagicLength H) < 2 ^ 16 \<and> c_string des \<and> c_string part \<and> c_string dat \<and> c_string tim \<and>
        H = \<lparr>HeaderLength = of_nat (length Data - length rest), BitstreamLength = BitstreamLength H, DesignName = Some des,
              PartName = Some part, Date = Some dat, Time = Some tim, MagicLength = MagicLength H\<rparr>)"
  by (rule parse_iff)

end
