(* ===== verification/Bitstream.thy ===== *)
theory Bitstream
  imports Mmio BitHeader
begin

text \<open>
  Download of bitstreams, \<open>driver/xdma-bit.c\<close> (compiled when \<open>SD_ACCEL\<close> is switched on), with the
  AXI gate of \<open>driver/xdma-ioctl.c\<close> that it closes and opens. There are two ways into the FPGA: the
  HWICAP core behind the user BAR, and the MCAP registers in the configuration space of the device.
  Each has a bus of its own. The gate is written with 8-bit accesses only; they are recorded with
  their value zero-extended.
\<close>

unbundle bit_operations_syntax

section \<open>State and registers\<close>

definition AXI_GATE_OFFSET :: u64 where "AXI_GATE_OFFSET = 0x030000"
definition AXI_GATE_OFFSET_READ :: u64 where "AXI_GATE_OFFSET_READ = 0x030008"
definition HWICAP_OFFSET :: u64 where "HWICAP_OFFSET = 0x020000"
definition XHWICAP_WF :: u64 where "XHWICAP_WF = HWICAP_OFFSET + 0x100"
definition XHWICAP_CR :: u64 where "XHWICAP_CR = HWICAP_OFFSET + 0x10c"
definition XHWICAP_SR :: u64 where "XHWICAP_SR = HWICAP_OFFSET + 0x110"
definition XHWICAP_WFV :: u64 where "XHWICAP_WFV = HWICAP_OFFSET + 0x114"
definition DMA_HWICAP_BITFILE_BUFFER_SIZE :: nat where "DMA_HWICAP_BITFILE_BUFFER_SIZE = 1024"

definition MCAP_STATUS :: u64 where "MCAP_STATUS = 0x10"
definition MCAP_CONTROL :: u64 where "MCAP_CONTROL = 0x14"
definition MCAP_DATA :: u64 where "MCAP_DATA = 0x18"
definition MCAP_CTRL_MODE_MASK :: u32 where "MCAP_CTRL_MODE_MASK = push_bit 0 1"
definition MCAP_CTRL_REG_READ_MASK :: u32 where "MCAP_CTRL_REG_READ_MASK = push_bit 1 1"
definition MCAP_CTRL_RESET_MASK :: u32 where "MCAP_CTRL_RESET_MASK = push_bit 4 1"
definition MCAP_CTRL_MOD_RESET_MASK :: u32 where "MCAP_CTRL_MOD_RESET_MASK = push_bit 5 1"
definition MCAP_CTRL_IN_USE_MASK :: u32 where "MCAP_CTRL_IN_USE_MASK = push_bit 8 1"
definition MCAP_CTRL_DESIGN_SWITCH_MASK :: u32 where "MCAP_CTRL_DESIGN_SWITCH_MASK = push_bit 12 1"
definition MCAP_CTRL_DATA_REG_PROT_MASK :: u32 where "MCAP_CTRL_DATA_REG_PROT_MASK = push_bit 16 1"
definition MCAP_STS_ERR_MASK :: u32 where "MCAP_STS_ERR_MASK = push_bit 0 1"
definition MCAP_STS_EOS_MASK :: u32 where "MCAP_STS_EOS_MASK = push_bit 1 1"
definition MCAP_STS_REG_READ_CMP_MASK :: u32 where "MCAP_STS_REG_READ_CMP_MASK = push_bit 4 1"
definition MCAP_STS_FIFO_OVERFLOW_MASK :: u32 where "MCAP_STS_FIFO_OVERFLOW_MASK = push_bit 8 1"
definition MCAP_STS_CFG_MCAP_REQ_MASK :: u32 where "MCAP_STS_CFG_MCAP_REQ_MASK = push_bit 24 1"
definition MCAP_LOOP_COUNT :: nat where "MCAP_LOOP_COUNT = 1000000"
definition EMCAP_EOS_RETRY_COUNT :: nat where "EMCAP_EOS_RETRY_COUNT = 10"
definition EMCAP_EOS_LOOP_COUNT :: nat where "EMCAP_EOS_LOOP_COUNT = 100"
definition EMCAP_NOOP_VAL :: u32 where "EMCAP_NOOP_VAL = 0x2000000"

text \<open>The part of \<open>struct xdma_dev\<close> that is used here; \<open>user_bar\<close> is \<open>bar[user_bar_idx]\<close>.\<close>

record sd_dev =
  sd_bus :: bus
  sd_cfg :: bus
  user_bar :: u64
  mcap_base :: u64
  axi_gate_frozen :: bool
  clear_bitstream :: "u8 list option"
  clear_bitstream_length :: u32

definition srd :: "u64 \<Rightarrow> sd_dev \<Rightarrow> u32 \<times> sd_dev" where
  "srd off s = (let (v, b) = read_register (user_bar s + off) (sd_bus s) in (v, s\<lparr>sd_bus := b\<rparr>))"

definition swr :: "u32 \<Rightarrow> u64 \<Rightarrow> sd_dev \<Rightarrow> sd_dev" where
  "swr v off s = s\<lparr>sd_bus := write_register v (user_bar s + off) (sd_bus s)\<rparr>"

definition MCapRegWrite :: "u64 \<Rightarrow> u32 \<Rightarrow> sd_dev \<Rightarrow> sd_dev" where
  "MCapRegWrite off v s = s\<lparr>sd_cfg := write_register v (mcap_base s + off) (sd_cfg s)\<rparr>"

definition MCapRegRead :: "u64 \<Rightarrow> sd_dev \<Rightarrow> u32 \<times> sd_dev" where
  "MCapRegRead off s = (let (v, b) = read_register (mcap_base s + off) (sd_cfg s) in (v, s\<lparr>sd_cfg := b\<rparr>))"

definition mcap_bit :: "u64 \<Rightarrow> u32 \<Rightarrow> sd_dev \<Rightarrow> bool \<times> sd_dev" where
  "mcap_bit off m s = (let (v, s) = MCapRegRead off s in (v AND m \<noteq> 0, s))"

definition IsResetSet :: "sd_dev \<Rightarrow> bool \<times> sd_dev" where
  "IsResetSet = mcap_bit MCAP_CONTROL MCAP_CTRL_RESET_MASK"

definition IsModuleResetSet :: "sd_dev \<Rightarrow> bool \<times> sd_dev" where
  "IsModuleResetSet = mcap_bit MCAP_CONTROL MCAP_CTRL_MOD_RESET_MASK"

definition IsConfigureMCapReqSet :: "sd_dev \<Rightarrow> bool \<times> sd_dev" where
  "IsConfigureMCapReqSet = mcap_bit MCAP_STATUS MCAP_STS_CFG_MCAP_REQ_MASK"

definition IsErrSet :: "sd_dev \<Rightarrow> bool \<times> sd_dev" where
  "IsErrSet = mcap_bit MCAP_STATUS MCAP_STS_ERR_MASK"

definition IsRegReadComplete :: "sd_dev \<Rightarrow> bool \<times> sd_dev" where
  "IsRegReadComplete = mcap_bit MCAP_STATUS MCAP_STS_REG_READ_CMP_MASK"

definition IsFifoOverflow :: "sd_dev \<Rightarrow> bool \<times> sd_dev" where
  "IsFifoOverflow = mcap_bit MCAP_STATUS MCAP_STS_FIFO_OVERFLOW_MASK"

text \<open>\<open>p(s) || q(s)\<close>, the second test only if the first fails.\<close>

definition or_else :: "(sd_dev \<Rightarrow> bool \<times> sd_dev) \<Rightarrow> (sd_dev \<Rightarrow> bool \<times> sd_dev) \<Rightarrow> sd_dev \<Rightarrow> bool \<times> sd_dev" where
  "or_else p q s = (let (f, s) = p s in if f then (True, s) else q s)"

definition is_not :: "(sd_dev \<Rightarrow> bool \<times> sd_dev) \<Rightarrow> sd_dev \<Rightarrow> bool \<times> sd_dev" where
  "is_not p s = (let (f, s) = p s in (\<not> f, s))"

section \<open>The AXI gate\<close>

definition freezeAXIGate :: "sd_dev \<Rightarrow> sd_dev option" where
  "freezeAXIGate s = do {
     BUG_ON (axi_gate_frozen s);
     let (t, s) = srd AXI_GATE_OFFSET_READ s;
     let s = swr 0 AXI_GATE_OFFSET s;
     let (t, s) = srd AXI_GATE_OFFSET_READ s;
     Some (s\<lparr>axi_gate_frozen := True\<rparr>)
   }"

definition freeAXIGate :: "sd_dev \<Rightarrow> sd_dev option" where
  "freeAXIGate s = do {
     BUG_ON (\<not> axi_gate_frozen s);
     let (t, s) = srd AXI_GATE_OFFSET_READ s;
     let s = swr 2 AXI_GATE_OFFSET s;
     let (t, s) = srd AXI_GATE_OFFSET_READ s;
     let s = swr 0 AXI_GATE_OFFSET s;
     let (t, s) = srd AXI_GATE_OFFSET_READ s;
     let s = swr 2 AXI_GATE_OFFSET s;
     let (t, s) = srd AXI_GATE_OFFSET_READ s;
     let s = swr 3 AXI_GATE_OFFSET s;
     let (t, s) = srd AXI_GATE_OFFSET_READ s;
     Some (s\<lparr>axi_gate_frozen := False\<rparr>)
   }"

section \<open>MCAP\<close>

text \<open>\<open>do { if (!IsConfigureMCapReqSet) break; } while (loop--)\<close>: the value of \<open>loop\<close> at the end.\<close>

primrec clear_req_loop :: "nat \<Rightarrow> sd_dev \<Rightarrow> int \<times> sd_dev" where
  "clear_req_loop 0 s = (let (f, s) = IsConfigureMCapReqSet s in (if \<not> f then 0 else - 1, s))"
| "clear_req_loop (Suc n) s =
    (let (f, s) = IsConfigureMCapReqSet s in if \<not> f then (int (Suc n), s) else clear_req_loop n s)"

definition MCapClearRequestByConfigure :: "sd_dev \<Rightarrow> int \<times> u32 \<times> sd_dev" where
  "MCapClearRequestByConfigure s =
    (let (restore, s) = MCapRegRead MCAP_CONTROL s;
         (f, s) = IsConfigureMCapReqSet s
     in if f then
          let s = MCapRegWrite MCAP_CONTROL (restore OR (MCAP_CTRL_MODE_MASK OR MCAP_CTRL_IN_USE_MASK)) s;
              (loop, s) = clear_req_loop MCAP_LOOP_COUNT s
          in if loop = 0 then (- EIO, restore, MCapRegWrite MCAP_CONTROL restore s) else (0, restore, s)
        else (0, restore, s))"

text \<open>\<open>n\<close> is the number of retries left.\<close>

primrec completion_loop :: "nat \<Rightarrow> u32 \<Rightarrow> sd_dev \<Rightarrow> int \<times> sd_dev" where
  "completion_loop 0 sr s =
    (if sr AND MCAP_STS_EOS_MASK \<noteq> 0 then (0, s)
     else (- EIO, snd (MCapRegRead MCAP_STATUS ((MCapRegWrite MCAP_DATA EMCAP_NOOP_VAL ^^ EMCAP_EOS_LOOP_COUNT) s))))"
| "completion_loop (Suc n) sr s =
    (if sr AND MCAP_STS_EOS_MASK \<noteq> 0 then (0, s)
     else let (sr, s) = MCapRegRead MCAP_STATUS ((MCapRegWrite MCAP_DATA EMCAP_NOOP_VAL ^^ EMCAP_EOS_LOOP_COUNT) s)
       in completion_loop n sr s)"

definition Checkforcompletion :: "sd_dev \<Rightarrow> int \<times> sd_dev" where
  "Checkforcompletion s = (let (sr, s) = MCapRegRead MCAP_STATUS s in completion_loop EMCAP_EOS_RETRY_COUNT sr s)"

definition MCapFullReset :: "sd_dev \<Rightarrow> int \<times> sd_dev" where
  "MCapFullReset s =
    (let (err, restore, s) = MCapClearRequestByConfigure s
     in if err \<noteq> 0 then (err, s)
        else let (set, s) = MCapRegRead MCAP_CONTROL s;
                 set = set OR (MCAP_CTRL_MODE_MASK OR MCAP_CTRL_IN_USE_MASK OR MCAP_CTRL_RESET_MASK OR MCAP_CTRL_MOD_RESET_MASK);
                 s = MCapRegWrite MCAP_CONTROL set s;
                 (f, s) = or_else IsErrSet (or_else (is_not IsModuleResetSet) (is_not IsResetSet)) s;
                 s = MCapRegWrite MCAP_CONTROL restore s
             in (if f then - EIO else 0, s))"

definition bitstream_mcap_setup :: "bool \<Rightarrow> sd_dev \<Rightarrow> int \<times> u32 \<times> sd_dev" where
  "bitstream_mcap_setup design_switch s =
    (let (err, restore, s) = MCapClearRequestByConfigure s
     in if err \<noteq> 0 then (err, restore, s)
        else let (f, s) = or_else IsErrSet (or_else IsRegReadComplete IsFifoOverflow) s
          in if f then (- EIO, restore, MCapRegWrite MCAP_CONTROL restore s)
             else let (set, s) = MCapRegRead MCAP_CONTROL s;
                      set = set OR (MCAP_CTRL_MODE_MASK OR MCAP_CTRL_IN_USE_MASK OR MCAP_CTRL_DATA_REG_PROT_MASK);
                      set = set AND NOT (MCAP_CTRL_RESET_MASK OR MCAP_CTRL_MOD_RESET_MASK OR MCAP_CTRL_REG_READ_MASK);
                      set = (if design_switch then set AND NOT MCAP_CTRL_DESIGN_SWITCH_MASK else set)
                  in (0, restore, MCapRegWrite MCAP_CONTROL set s))"

section \<open>Words of a buffer\<close>

text \<open>The big-endian words; the first \<open>n\<close> words of a buffer that must hold them.\<close>

fun be_words :: "u8 list \<Rightarrow> u32 list" where
  "be_words (a # b # c # d # bs) =
     (push_bit 24 (ucast a) OR push_bit 16 (ucast b) OR push_bit 8 (ucast c) OR ucast d) # be_words bs"
| "be_words bs = []"

definition buffer_words :: "u8 list \<Rightarrow> nat \<Rightarrow> u32 list option" where
  "buffer_words buf n = (if 4 * n \<le> length buf then Some (be_words (take (4 * n) buf)) else None)"

definition bitstream_mcap_helper :: "u8 list \<Rightarrow> nat \<Rightarrow> sd_dev \<Rightarrow> sd_dev option" where
  "bitstream_mcap_helper buf n s = do {
     ws \<leftarrow> buffer_words buf n;
     Some (fold (MCapRegWrite MCAP_DATA) ws s)
   }"

section \<open>HWICAP\<close>

primrec wait_done_loop :: "nat \<Rightarrow> sd_dev \<Rightarrow> int \<times> sd_dev" where
  "wait_done_loop 0 s = (- EIO, s)"
| "wait_done_loop (Suc n) s = (let (w, s) = srd XHWICAP_SR s in if w AND 0x5 \<noteq> 0 then (0, s) else wait_done_loop n s)"

definition wait_for_done :: "sd_dev \<Rightarrow> int \<times> sd_dev" where
  "wait_for_done s = wait_done_loop 10 s"

primrec write_done_loop :: "nat \<Rightarrow> sd_dev \<Rightarrow> int \<times> sd_dev" where
  "write_done_loop 0 s = (- EIO, s)"
| "write_done_loop (Suc n) s = (let (w, s) = srd XHWICAP_CR s in if w AND 0x1 = 0 then (0, s) else write_done_loop n s)"

definition hwicapWrite :: "u8 list \<Rightarrow> nat \<Rightarrow> sd_dev \<Rightarrow> (int \<times> sd_dev) option" where
  "hwicapWrite buf n s = do {
     ws \<leftarrow> buffer_words buf n;
     let s = fold (\<lambda>w. swr w XHWICAP_WF) ws s;
     Some (write_done_loop 10 (swr 0x1 XHWICAP_CR s))
   }"

text \<open>The vacancy is a signed integer; \<open>remain_word\<close> has 32 bits.\<close>

function bitstream_icap_helper :: "u8 list \<Rightarrow> u32 \<Rightarrow> sd_dev \<Rightarrow> (int \<times> sd_dev) option" where
  "bitstream_icap_helper buf remain s =
    (if remain = 0 then Some (0, s)
     else let (v, s) = srd XHWICAP_WFV s
       in if sint v \<le> 0 then Some (- EIO, s)
          else let n = (if v < remain then v else remain)
            in do {
                 (rc, s) \<leftarrow> hwicapWrite buf (unat n) s;
                 (if rc \<noteq> 0 then Some (- EIO, s) else bitstream_icap_helper (drop (4 * unat n) buf) (remain - n) s)
               })"
  by pat_completeness auto

lemma sint_pos: "0 < sint (v :: u32) \<Longrightarrow> v \<noteq> 0"
  by auto

termination bitstream_icap_helper
proof (relation "measure (\<lambda>(_, r, _). unat r)", simp)
  fix buf :: "u8 list" and remain v n :: u32 and s :: sd_dev and x y and xa :: "int \<times> sd_dev" and xb ya
  assume a: "remain \<noteq> 0" "(v, y) = x" "\<not> sint v \<le> 0" "n = (if v < remain then v else remain)"
  have "v \<noteq> 0" using a(3) by auto
  then have "n \<noteq> 0" "n \<le> remain" using a(1,4) by (auto simp: not_less)
  then have "0 < unat n" "unat n \<le> unat remain" by (simp_all add: unat_gt_0 word_le_nat_alt)
  then have "unat (remain - n) < unat remain" using \<open>n \<le> remain\<close> by (simp add: unat_sub)
  then show "((drop (4 * unat n) buf, remain - n, ya), buf, remain, s) \<in> measure (\<lambda>(_, r, _). unat r)" by simp
qed

text \<open>
  The chunks of at most 1024 bytes; \<open>rem\<close> is what is left of the bitstream, \<open>buf\<close> the buffer from
  the pointer on. The flag is false if the helper failed.
\<close>

function icap_chunks :: "u8 list \<Rightarrow> nat \<Rightarrow> sd_dev \<Rightarrow> (bool \<times> sd_dev) option" where
  "icap_chunks buf rem s =
    (if rem = 0 then Some (True, s)
     else let n = min rem DMA_HWICAP_BITFILE_BUFFER_SIZE
       in do {
            (rc, s) \<leftarrow> bitstream_icap_helper buf (of_nat (n div 4)) s;
            (if rc \<noteq> 0 then Some (False, s) else icap_chunks (drop n buf) (rem - n) s)
          })"
  by pat_completeness auto

termination icap_chunks
  by (relation "measure (\<lambda>(_, r, _). r)") (auto simp: DMA_HWICAP_BITFILE_BUFFER_SIZE_def)

text \<open>
  Too short a buffer for the header and the bitstream is refused; the sum is one of 32-bit numbers.
  A failure of the helper jumps to the end with \<open>err\<close> still 0.
\<close>

definition too_long :: "XHwIcap_Bit_Header \<Rightarrow> u64 \<Rightarrow> bool" where
  "too_long H len \<longleftrightarrow> ucast (HeaderLength H + BitstreamLength H) > len"

definition bitstream_icap :: "(u32 \<Rightarrow> bool) \<Rightarrow> u8 list \<Rightarrow> u32 \<Rightarrow> sd_dev \<Rightarrow> (int \<times> sd_dev) option" where
  "bitstream_icap kmalloc buffer len s = do {
     BUG_ON (len = 0);
     (rc, H) \<leftarrow> bitstream_parse_header kmalloc buffer;
     (if rc \<noteq> 0 then Some (- EINVAL, s)
      else if too_long H (ucast len) then Some (- EINVAL, s)
      else do {
        (ok, s) \<leftarrow> icap_chunks (drop (unat (HeaderLength H)) buffer) (unat (BitstreamLength H)) s;
        (if \<not> ok then Some (0, s)
         else let (rc, s) = wait_for_done s in Some (if rc \<noteq> 0 then - EIO else 0, s))
      })
   }"

definition vfree_stash :: "sd_dev \<Rightarrow> sd_dev" where
  "vfree_stash s = s\<lparr>clear_bitstream := None, clear_bitstream_length := 0\<rparr>"

definition bitstream_clear_icap :: "(u32 \<Rightarrow> bool) \<Rightarrow> sd_dev \<Rightarrow> (int \<times> sd_dev) option" where
  "bitstream_clear_icap kmalloc s =
    (case clear_bitstream s of
       None \<Rightarrow> Some (0, s)
     | Some buffer \<Rightarrow> do {
         (err, s) \<leftarrow> bitstream_icap kmalloc buffer (clear_bitstream_length s) s;
         Some (err, vfree_stash s)
       })"

section \<open>Download from user space\<close>

text \<open>The memory of the process; \<open>copy_from_user\<close> fails if a byte is not readable.\<close>

type_synonym user_mem = "u64 \<Rightarrow> u8 option"

definition copy_from_user :: "user_mem \<Rightarrow> u64 \<Rightarrow> nat \<Rightarrow> u8 list option" where
  "copy_from_user um a n = those (map (\<lambda>i. um (a + of_nat i)) [0..<n])"

text \<open>The result of a loop over the chunks: copied and written, a helper that failed, a copy that failed.\<close>

datatype chunks_end = Chunks_done | Helper_failed | Copy_failed

function icap_user_chunks :: "user_mem \<Rightarrow> u64 \<Rightarrow> nat \<Rightarrow> sd_dev \<Rightarrow> (chunks_end \<times> sd_dev) option" where
  "icap_user_chunks um p rem s =
    (if rem = 0 then Some (Chunks_done, s)
     else let n = min rem DMA_HWICAP_BITFILE_BUFFER_SIZE
       in case copy_from_user um p n of
            None \<Rightarrow> Some (Copy_failed, s)
          | Some buf \<Rightarrow> do {
              (rc, s) \<leftarrow> bitstream_icap_helper buf (of_nat (n div 4)) s;
              (if rc \<noteq> 0 then Some (Helper_failed, s) else icap_user_chunks um (p + of_nat n) (rem - n) s)
            })"
  by pat_completeness auto

termination icap_user_chunks
  by (relation "measure (\<lambda>(_, _, r, _). r)") (auto simp: DMA_HWICAP_BITFILE_BUFFER_SIZE_def)

text \<open>
  The part between closing and opening the gate. \<open>kmalloc\<close> serves the strings of the header,
  \<open>kmalloc_buf\<close> is whether the buffer could be allocated.
\<close>

definition ioctl_icap_body ::
  "(u32 \<Rightarrow> bool) \<Rightarrow> bool \<Rightarrow> user_mem \<Rightarrow> u64 \<Rightarrow> u64 \<Rightarrow> sd_dev \<Rightarrow> (int \<times> sd_dev) option" where
  "ioctl_icap_body kmalloc kmalloc_buf um bit_buf len s = do {
     (err, s) \<leftarrow> bitstream_clear_icap kmalloc s;
     (if err \<noteq> 0 then Some (err, s)
      else if \<not> kmalloc_buf then Some (- ENOMEM, s)
      else case copy_from_user um bit_buf DMA_HWICAP_BITFILE_BUFFER_SIZE of
        None \<Rightarrow> Some (- EFAULT, s)
      | Some buffer \<Rightarrow> do {
          (rc, H) \<leftarrow> bitstream_parse_header kmalloc buffer;
          (if rc \<noteq> 0 then Some (- EINVAL, s)
           else if too_long H len then Some (- EINVAL, s)
           else do {
             (r, s) \<leftarrow> icap_user_chunks um (bit_buf + ucast (HeaderLength H)) (unat (BitstreamLength H)) s;
             (case r of
                Copy_failed \<Rightarrow> Some (- EFAULT, s)
              | Helper_failed \<Rightarrow> Some (0, s)
              | Chunks_done \<Rightarrow> let (rc, s) = wait_for_done s in Some (if rc \<noteq> 0 then - EIO else 0, s))
           })
        })
   }"

definition bitstream_ioctl_icap ::
  "(u32 \<Rightarrow> bool) \<Rightarrow> bool \<Rightarrow> user_mem \<Rightarrow> u64 \<Rightarrow> u64 \<Rightarrow> sd_dev \<Rightarrow> (int \<times> sd_dev) option" where
  "bitstream_ioctl_icap kmalloc kmalloc_buf um bit_buf len s = do {
     s \<leftarrow> freezeAXIGate s;
     (err, s) \<leftarrow> ioctl_icap_body kmalloc kmalloc_buf um bit_buf len s;
     s \<leftarrow> freeAXIGate s;
     Some (err, s)
   }"

declare bitstream_icap_helper.simps [simp del] icap_chunks.simps [simp del] icap_user_chunks.simps [simp del]

text \<open>A header that is refused leaves the stashed bitstream in place.\<close>

definition bitstream_clear_mcap :: "(u32 \<Rightarrow> bool) \<Rightarrow> sd_dev \<Rightarrow> (int \<times> sd_dev) option" where
  "bitstream_clear_mcap kmalloc s =
    (case clear_bitstream s of
       None \<Rightarrow> Some (0, s)
     | Some buffer \<Rightarrow> do {
         (rc, H) \<leftarrow> bitstream_parse_header kmalloc buffer;
         (if rc \<noteq> 0 then Some (- EINVAL, s)
          else if too_long H (ucast (clear_bitstream_length s)) then Some (- EINVAL, s)
          else do {
            s \<leftarrow> bitstream_mcap_helper (drop (unat (HeaderLength H)) buffer) (unat (BitstreamLength H div 4)) s;
            Some (0, vfree_stash s)
          })
       })"

function mcap_user_chunks :: "user_mem \<Rightarrow> u64 \<Rightarrow> nat \<Rightarrow> sd_dev \<Rightarrow> (bool \<times> sd_dev) option" where
  "mcap_user_chunks um p rem s =
    (if rem = 0 then Some (True, s)
     else let n = min rem DMA_HWICAP_BITFILE_BUFFER_SIZE
       in case copy_from_user um p n of
            None \<Rightarrow> Some (False, s)
          | Some buf \<Rightarrow> do {
              s \<leftarrow> bitstream_mcap_helper buf (n div 4) s;
              mcap_user_chunks um (p + of_nat n) (rem - n) s
            })"
  by pat_completeness auto

termination mcap_user_chunks
  by (relation "measure (\<lambda>(_, _, r, _). r)") (auto simp: DMA_HWICAP_BITFILE_BUFFER_SIZE_def)

declare mcap_user_chunks.simps [simp del]

text \<open>After the data: success only if the end of startup is seen and neither error bit is set.\<close>

definition mcap_finish :: "u32 \<Rightarrow> sd_dev \<Rightarrow> int \<times> sd_dev" where
  "mcap_finish restore s =
    (let (err, s) = Checkforcompletion s;
         (f, s) = (if err \<noteq> 0 then (True, s) else or_else IsErrSet IsFifoOverflow s)
     in if f then (- EIO, snd (MCapFullReset (MCapRegWrite MCAP_CONTROL restore s))) else (0, s))"

text \<open>From the header on; whatever happens after the setup, the control register is restored.\<close>

definition ioctl_mcap_write ::
  "(u32 \<Rightarrow> bool) \<Rightarrow> user_mem \<Rightarrow> u64 \<Rightarrow> XHwIcap_Bit_Header \<Rightarrow> sd_dev \<Rightarrow> (int \<times> sd_dev) option" where
  "ioctl_mcap_write kmalloc um bit_buf H s = do {
     let (err, restore, s) = bitstream_mcap_setup False s;
     (err, s) \<leftarrow>
       (if err \<noteq> 0 then Some (err, s)
        else do {
          (err, s) \<leftarrow> bitstream_clear_mcap kmalloc s;
          (if err \<noteq> 0 then Some (err, s)
           else do {
             (ok, s) \<leftarrow> mcap_user_chunks um (bit_buf + ucast (HeaderLength H)) (unat (BitstreamLength H)) s;
             Some (if \<not> ok then (- EFAULT, s) else mcap_finish restore s)
           })
        });
     Some (err, MCapRegWrite MCAP_CONTROL restore s)
   }"

definition ioctl_mcap_body ::
  "(u32 \<Rightarrow> bool) \<Rightarrow> bool \<Rightarrow> user_mem \<Rightarrow> u64 \<Rightarrow> u64 \<Rightarrow> sd_dev \<Rightarrow> (int \<times> sd_dev) option" where
  "ioctl_mcap_body kmalloc kmalloc_buf um bit_buf len s =
    (if \<not> kmalloc_buf then Some (- ENOMEM, s)
     else case copy_from_user um bit_buf DMA_HWICAP_BITFILE_BUFFER_SIZE of
       None \<Rightarrow> Some (- EFAULT, s)
     | Some buffer \<Rightarrow> do {
         (rc, H) \<leftarrow> bitstream_parse_header kmalloc buffer;
         (if rc \<noteq> 0 then Some (- EINVAL, s)
          else if too_long H len then Some (- EINVAL, s)
          else ioctl_mcap_write kmalloc um bit_buf H s)
       })"

definition bitstream_ioctl_mcap ::
  "(u32 \<Rightarrow> bool) \<Rightarrow> bool \<Rightarrow> user_mem \<Rightarrow> u64 \<Rightarrow> u64 \<Rightarrow> sd_dev \<Rightarrow> (int \<times> sd_dev) option" where
  "bitstream_ioctl_mcap kmalloc kmalloc_buf um bit_buf len s =
    (if bit_buf = 0 \<or> len = 0 then Some (- EINVAL, s)
     else do {
       s \<leftarrow> freezeAXIGate s;
       (err, s) \<leftarrow> ioctl_mcap_body kmalloc kmalloc_buf um bit_buf len s;
       s \<leftarrow> freeAXIGate s;
       Some (err, s)
     })"

text \<open>The download of the second stage at the start of the driver, with a design switch at the end.\<close>

definition bitstream_mcap :: "(u32 \<Rightarrow> bool) \<Rightarrow> u8 list \<Rightarrow> u32 \<Rightarrow> sd_dev \<Rightarrow> (int \<times> sd_dev) option" where
  "bitstream_mcap kmalloc buffer len s = do {
     BUG_ON (len = 0);
     (rc, H) \<leftarrow> bitstream_parse_header kmalloc buffer;
     (if rc \<noteq> 0 then Some (- EINVAL, s)
      else if too_long H (ucast len) then Some (- EINVAL, s)
      else do {
        let (err, restore, s) = bitstream_mcap_setup True s;
        (if err \<noteq> 0 then Some (err, s)
         else do {
           s \<leftarrow> bitstream_mcap_helper (drop (unat (HeaderLength H)) buffer) (unat (BitstreamLength H div 4)) s;
           let (err, s) = mcap_finish restore s;
           Some (if err \<noteq> 0 then (err, s) else (0, MCapRegWrite MCAP_CONTROL (restore OR MCAP_CTRL_DESIGN_SWITCH_MASK) s))
         })
      })
   }"

section \<open>The container\<close>

text \<open>\<open>struct xclBin\<close> as it lies in memory; little-endian numbers at their offsets.\<close>

record xclBin =
  m_magic :: "u8 list"
  m_length :: u64
  m_primaryFirmwareOffset :: u64
  m_primaryFirmwareLength :: u64
  m_secondaryFirmwareOffset :: u64
  m_secondaryFirmwareLength :: u64

definition XCLBIN_SIZE :: nat where "XCLBIN_SIZE = 128"

definition le32 :: "u8 list \<Rightarrow> nat \<Rightarrow> u32" where
  "le32 bs i = horner_sum ucast 256 (take 4 (drop i bs))"

definition le64 :: "u8 list \<Rightarrow> nat \<Rightarrow> u64" where
  "le64 bs i = horner_sum ucast 256 (take 8 (drop i bs))"

definition xclbin_of :: "u8 list \<Rightarrow> xclBin option" where
  "xclbin_of bs =
    (if XCLBIN_SIZE \<le> length bs
     then Some \<lparr>m_magic = take 8 bs, m_length = le64 bs 8, m_primaryFirmwareOffset = le64 bs 80, m_primaryFirmwareLength = le64 bs 88,
       m_secondaryFirmwareOffset = le64 bs 96, m_secondaryFirmwareLength = le64 bs 104\<rparr>
     else None)"

text \<open>\<open>"xclbin0"\<close> with its null character.\<close>

definition xclbin0 :: "u8 list" where
  "xclbin0 = [0x78, 0x63, 0x6c, 0x62, 0x69, 0x6e, 0x30, 0]"

text \<open>The two parts lie within the container; the sums are of 64-bit numbers.\<close>

definition parts_fit :: "xclBin \<Rightarrow> bool" where
  "parts_fit x \<longleftrightarrow> m_primaryFirmwareOffset x + m_primaryFirmwareLength x \<le> m_length x \<and>
     m_secondaryFirmwareOffset x + m_secondaryFirmwareLength x \<le> m_length x"

datatype download = XDMA_IOCICAPDOWNLOAD | XDMA_IOCMCAPDOWNLOAD

text \<open>Keeping the clearing bitstream for the next download.\<close>

definition stash_user :: "bool \<Rightarrow> user_mem \<Rightarrow> u64 \<Rightarrow> u64 \<Rightarrow> sd_dev \<Rightarrow> int \<times> sd_dev" where
  "stash_user vmalloc um p len s =
    (let s = s\<lparr>clear_bitstream := None\<rparr>
     in if \<not> vmalloc then (- ENOMEM, s\<lparr>clear_bitstream_length := 0\<rparr>)
        else case copy_from_user um p (unat len) of
          None \<Rightarrow> (- EFAULT, vfree_stash s)
        | Some buf \<Rightarrow> (0, s\<lparr>clear_bitstream := Some buf, clear_bitstream_length := ucast len\<rparr>))"

text \<open>
  The argument points to the magic, the command and the pointer to the container. \<open>access_ok\<close> is
  the kernel's check that the range belongs to the process.
\<close>

definition bitstream_ioctl ::
  "(u32 \<Rightarrow> bool) \<Rightarrow> bool \<Rightarrow> bool \<Rightarrow> (u64 \<Rightarrow> u64 \<Rightarrow> bool) \<Rightarrow> user_mem \<Rightarrow> download \<Rightarrow> u64 \<Rightarrow> sd_dev \<Rightarrow> (int \<times> sd_dev) option" where
  "bitstream_ioctl kmalloc kmalloc_buf vmalloc access_ok um cmd arg s =
    (case copy_from_user um arg 16 of
       None \<Rightarrow> Some (- EFAULT, s)
     | Some obj \<Rightarrow>
         let xclbin = le64 obj 8
         in case Option.bind (copy_from_user um xclbin XCLBIN_SIZE) xclbin_of of
              None \<Rightarrow> Some (- EFAULT, s)
            | Some x \<Rightarrow>
                if m_magic x \<noteq> xclbin0 then Some (- EINVAL, s)
                else if \<not> parts_fit x then Some (- EINVAL, s)
                else if \<not> access_ok xclbin (m_length x) then Some (- EFAULT, s)
                else do {
                  let buffer = xclbin + m_primaryFirmwareOffset x;
                  (err, s) \<leftarrow>
                    (case cmd of
                       XDMA_IOCICAPDOWNLOAD \<Rightarrow> bitstream_ioctl_icap kmalloc kmalloc_buf um buffer (m_primaryFirmwareLength x) s
                     | XDMA_IOCMCAPDOWNLOAD \<Rightarrow> bitstream_ioctl_mcap kmalloc kmalloc_buf um buffer (m_primaryFirmwareLength x) s);
                  Some (if m_secondaryFirmwareLength x \<noteq> 0
                        then stash_user vmalloc um (xclbin + m_secondaryFirmwareOffset x) (m_secondaryFirmwareLength x) s
                        else (err, s))
                })"

section \<open>Firmware at the start of the driver\<close>

text \<open>\<open>memcpy\<close> from the firmware; reading behind its end is a fault.\<close>

definition fw_slice :: "u8 list \<Rightarrow> nat \<Rightarrow> nat \<Rightarrow> u8 list option" where
  "fw_slice fw off n = (if off + n \<le> length fw then Some (take n (drop off fw)) else None)"

text \<open>The stash: from the container if it brings one, else what is already there, if its header is good.\<close>

definition firmware_stash :: "(u32 \<Rightarrow> bool) \<Rightarrow> bool \<Rightarrow> u8 list \<Rightarrow> xclBin \<Rightarrow> sd_dev \<Rightarrow> (int \<times> sd_dev) option" where
  "firmware_stash kmalloc vmalloc fw x s = do {
     (err, s) \<leftarrow>
       (if m_secondaryFirmwareLength x \<noteq> 0 \<and> (m_primaryFirmwareLength x \<noteq> 0 \<or> clear_bitstream s = None) then
          if \<not> vmalloc then Some (- ENOMEM, vfree_stash s)
          else do {
            let len = ucast (m_secondaryFirmwareLength x);
            buf \<leftarrow> fw_slice fw (unat (m_secondaryFirmwareOffset x)) (unat len);
            Some (0, s\<lparr>clear_bitstream := Some buf, clear_bitstream_length := len\<rparr>)
          }
        else Some (0, s));
     (if err \<noteq> 0 then Some (err, s)
      else case clear_bitstream s of
        None \<Rightarrow> Some (0, s)
      | Some buf \<Rightarrow> do {
          (rc, H) \<leftarrow> bitstream_parse_header kmalloc buf;
          Some (if rc \<noteq> 0 then (- EINVAL, vfree_stash s) else (0, s))
        })
   }"

text \<open>\<open>names\<close> holds what \<open>request_firmware\<close> finds under the three names that are tried in order.\<close>

definition load_boot_firmware ::
  "(u32 \<Rightarrow> bool) \<Rightarrow> bool \<Rightarrow> u8 list option list \<Rightarrow> sd_dev \<Rightarrow> (int \<times> sd_dev) option" where
  "load_boot_firmware kmalloc vmalloc names s =
    (case List.find (\<lambda>x. x \<noteq> None) names of
       Some (Some fw) \<Rightarrow> do {
         x \<leftarrow> xclbin_of fw;
         (if m_length x > of_nat (length fw) then Some (- EINVAL, s)
          else if \<not> parts_fit x then Some (- EINVAL, s)
          else do {
            (err, s) \<leftarrow>
              (if m_primaryFirmwareLength x \<noteq> 0 then do {
                 (err, s) \<leftarrow> bitstream_mcap kmalloc (drop (unat (m_primaryFirmwareOffset x)) fw) (ucast (m_primaryFirmwareLength x)) s;
                 Some (err, vfree_stash s)
               } else Some (0, s));
            (if err \<noteq> 0 then Some (err, s) else firmware_stash kmalloc vmalloc fw x s)
          })
       }
     | _ \<Rightarrow> Some (0, s))"

section \<open>What the operations keep\<close>

text \<open>All but the gate and the stash.\<close>

definition gate_of :: "sd_dev \<Rightarrow> bool \<times> u64 \<times> u64" where
  "gate_of s = (axi_gate_frozen s, user_bar s, mcap_base s)"

lemma gate_prims [frames]:
  "gate_of (snd (srd off s)) = gate_of s" "gate_of (swr v off s) = gate_of s" "gate_of (MCapRegWrite off v s) = gate_of s"
  "gate_of (snd (MCapRegRead off s)) = gate_of s" "gate_of (snd (mcap_bit off m s)) = gate_of s" "gate_of (vfree_stash s) = gate_of s"
  by (simp_all add: gate_of_def srd_def swr_def MCapRegWrite_def MCapRegRead_def mcap_bit_def vfree_stash_def Let_def split_beta)

lemma gate_tests [frames]:
  "gate_of (snd (IsResetSet s)) = gate_of s" "gate_of (snd (IsModuleResetSet s)) = gate_of s"
  "gate_of (snd (IsConfigureMCapReqSet s)) = gate_of s" "gate_of (snd (IsErrSet s)) = gate_of s"
  "gate_of (snd (IsRegReadComplete s)) = gate_of s" "gate_of (snd (IsFifoOverflow s)) = gate_of s"
  by (simp_all add: IsResetSet_def IsModuleResetSet_def IsConfigureMCapReqSet_def IsErrSet_def IsRegReadComplete_def
      IsFifoOverflow_def gate_prims)

lemma gate_or_else:
  "(\<And>s. gate_of (snd (p s)) = gate_of s) \<Longrightarrow> (\<And>s. gate_of (snd (q s)) = gate_of s) \<Longrightarrow> gate_of (snd (or_else p q s)) = gate_of s"
  by (simp add: or_else_def Let_def split_beta)

lemma gate_is_not: "(\<And>s. gate_of (snd (p s)) = gate_of s) \<Longrightarrow> gate_of (snd (is_not p s)) = gate_of s"
  by (simp add: is_not_def Let_def split_beta)

lemma gate_loops [frames]:
  "gate_of (snd (clear_req_loop n s)) = gate_of s" "gate_of (snd (wait_done_loop n s)) = gate_of s"
  "gate_of (snd (write_done_loop n s)) = gate_of s"
  by (induction n arbitrary: s) (simp_all add: Let_def split_beta gate_tests gate_prims)

lemma gate_noops [frames]: "gate_of ((MCapRegWrite off v ^^ n) s) = gate_of s"
  by (induction n) (simp_all add: gate_prims)

lemma gate_completion [frames]: "gate_of (snd (completion_loop n sr s)) = gate_of s"
  by (induction n arbitrary: sr s) (simp_all add: Let_def split_beta gate_prims gate_noops)

lemma gate_fold [frames]: "gate_of (fold (MCapRegWrite off) ws s) = gate_of s" "gate_of (fold (\<lambda>w. swr w a) ws s) = gate_of s"
  by (induction ws arbitrary: s) (simp_all add: gate_prims)

lemma gate_mcap [frames]:
  "gate_of (snd (snd (MCapClearRequestByConfigure s))) = gate_of s" "gate_of (snd (MCapFullReset s)) = gate_of s"
  "gate_of (snd (snd (bitstream_mcap_setup f s))) = gate_of s" "gate_of (snd (Checkforcompletion s)) = gate_of s"
  "gate_of (snd (mcap_finish r s)) = gate_of s"
proof -
  show c: "gate_of (snd (snd (MCapClearRequestByConfigure s))) = gate_of s" for s
    by (simp add: MCapClearRequestByConfigure_def Let_def split_beta frames)
  show f: "gate_of (snd (MCapFullReset s)) = gate_of s" for s
    by (simp add: MCapFullReset_def Let_def split_beta frames gate_or_else gate_is_not c)
  show "gate_of (snd (snd (bitstream_mcap_setup f s))) = gate_of s"
    by (simp add: bitstream_mcap_setup_def Let_def split_beta frames gate_or_else c)
  show k: "gate_of (snd (Checkforcompletion s)) = gate_of s" for s
    by (simp add: Checkforcompletion_def Let_def split_beta frames)
  show "gate_of (snd (mcap_finish r s)) = gate_of s"
    by (simp add: mcap_finish_def Let_def split_beta frames gate_or_else k f)
qed

lemma gate_helpers:
  "bitstream_mcap_helper buf n s = Some s' \<Longrightarrow> gate_of s' = gate_of s"
  "hwicapWrite buf n s = Some (rc, s'') \<Longrightarrow> gate_of s'' = gate_of s"
proof -
  assume "hwicapWrite buf n s = Some (rc, s'')"
  then obtain ws where "s'' = snd (write_done_loop 10 (swr 0x1 XHWICAP_CR (fold (\<lambda>w. swr w XHWICAP_WF) ws s)))"
    by (auto simp: hwicapWrite_def bind_eq_Some_conv) (metis snd_conv)
  then show "gate_of s'' = gate_of s" by (simp add: frames)
qed (auto simp: bitstream_mcap_helper_def bind_eq_Some_conv frames)

lemma gate_icap_helper: "bitstream_icap_helper buf r s = Some (rc, s') \<Longrightarrow> gate_of s' = gate_of s"
proof (induction buf r s arbitrary: rc s' rule: bitstream_icap_helper.induct)
  case (1 buf r s)
  obtain v s1 where v: "srd XHWICAP_WFV s = (v, s1)" by fastforce
  have f: "gate_of s1 = gate_of s" using gate_prims(1) [of XHWICAP_WFV s] by (simp add: v)
  define n where "n = (if v < r then v else r)"
  show ?case
  proof (cases "r = 0 \<or> sint v \<le> 0")
    case True
    then show ?thesis using "1.prems" f unfolding bitstream_icap_helper.simps [of buf r s] by (auto simp: v split: if_splits)
  next
    case False
    then obtain rc1 s2 where w: "hwicapWrite buf (unat n) s1 = Some (rc1, s2)"
      "(if rc1 \<noteq> 0 then Some (- EIO, s2) else bitstream_icap_helper (drop (4 * unat n) buf) (r - n) s2) = Some (rc, s')"
      using "1.prems" unfolding bitstream_icap_helper.simps [of buf r s]
      by (auto simp: v n_def [symmetric] Let_def bind_eq_Some_conv cong: if_cong)
    have g: "gate_of s2 = gate_of s" using gate_helpers(2) [OF w(1)] f by simp
    show ?thesis
    proof (cases "rc1 = 0")
      case True
      then show ?thesis using "1.IH" [OF _ v [symmetric] refl _ n_def w(1) refl] False w(2) g by auto
    qed (use w(2) g in auto)
  qed
qed

lemma gate_chunks:
  "icap_chunks buf rem s = Some (ok, s') \<Longrightarrow> gate_of s' = gate_of s"
  "icap_user_chunks um p rem s = Some (r, s') \<Longrightarrow> gate_of s' = gate_of s"
  "mcap_user_chunks um p rem s = Some (f, s') \<Longrightarrow> gate_of s' = gate_of s"
proof -
  show "icap_chunks buf rem s = Some (ok, s') \<Longrightarrow> gate_of s' = gate_of s"
  proof (induction buf rem s rule: icap_chunks.induct)
    case (1 buf rem s)
    then show ?case
      unfolding icap_chunks.simps [of buf rem s]
      by (auto simp: Let_def bind_eq_Some_conv dest: gate_icap_helper split: if_splits)
  qed
  show "icap_user_chunks um p rem s = Some (r, s') \<Longrightarrow> gate_of s' = gate_of s"
  proof (induction um p rem s rule: icap_user_chunks.induct)
    case (1 um p rem s)
    define n where "n = min rem DMA_HWICAP_BITFILE_BUFFER_SIZE"
    show ?case
    proof (cases "rem = 0 \<or> copy_from_user um p n = None")
      case True
      then show ?thesis using "1.prems" unfolding icap_user_chunks.simps [of um p rem s] n_def by (auto split: if_splits)
    next
      case False
      then obtain buf rc s1 where b: "copy_from_user um p n = Some buf" "bitstream_icap_helper buf (of_nat (n div 4)) s = Some (rc, s1)"
        "(if rc \<noteq> 0 then Some (Helper_failed, s1) else icap_user_chunks um (p + of_nat n) (rem - n) s1) = Some (r, s')"
        using "1.prems" unfolding icap_user_chunks.simps [of um p rem s]
        by (auto simp: n_def [symmetric] Let_def bind_eq_Some_conv cong: if_cong)
      have g: "gate_of s1 = gate_of s" by (rule gate_icap_helper [OF b(2)])
      show ?thesis using "1.IH" [OF _ n_def b(1,2) refl] b(3) g False by (auto split: if_splits)
    qed
  qed
  show "mcap_user_chunks um p rem s = Some (f, s') \<Longrightarrow> gate_of s' = gate_of s"
  proof (induction um p rem s rule: mcap_user_chunks.induct)
    case (1 um p rem s)
    define n where "n = min rem DMA_HWICAP_BITFILE_BUFFER_SIZE"
    show ?case
    proof (cases "rem = 0 \<or> copy_from_user um p n = None")
      case True
      then show ?thesis using "1.prems" unfolding mcap_user_chunks.simps [of um p rem s] n_def by (auto split: if_splits)
    next
      case False
      then obtain buf s1 where b: "copy_from_user um p n = Some buf" "bitstream_mcap_helper buf (n div 4) s = Some s1"
        "mcap_user_chunks um (p + of_nat n) (rem - n) s1 = Some (f, s')"
        using "1.prems" unfolding mcap_user_chunks.simps [of um p rem s]
        by (auto simp: n_def [symmetric] Let_def bind_eq_Some_conv cong: if_cong)
      have g: "gate_of s1 = gate_of s" by (rule gate_helpers(1) [OF b(2)])
      show ?thesis using "1.IH" [OF _ n_def b(1,2)] b(3) g False by auto
    qed
  qed
qed

lemma gate_downloads:
  "bitstream_icap km buf len s = Some (rc, s') \<Longrightarrow> gate_of s' = gate_of s"
  "bitstream_clear_icap km s = Some (rc, s') \<Longrightarrow> gate_of s' = gate_of s"
  "ioctl_icap_body km kb um p l s = Some (rc, s') \<Longrightarrow> gate_of s' = gate_of s"
  "bitstream_clear_mcap km s = Some (rc, s') \<Longrightarrow> gate_of s' = gate_of s"
  "ioctl_mcap_write km um p H s = Some (rc, s') \<Longrightarrow> gate_of s' = gate_of s"
  "ioctl_mcap_body km kb um p l s = Some (rc, s') \<Longrightarrow> gate_of s' = gate_of s"
  "bitstream_mcap km buf len s = Some (rc, s') \<Longrightarrow> gate_of s' = gate_of s"
proof -
  have w: "gate_of (snd (wait_for_done s)) = gate_of s" for s by (simp add: wait_for_done_def frames)
  show icap: "gate_of s' = gate_of s" if "bitstream_icap km buf len s = Some (rc, s')" for buf len s rc s'
    using that w by (auto simp: bitstream_icap_def Let_def split_beta bind_eq_Some_conv dest!: gate_chunks split: if_splits)
  show clear: "gate_of s' = gate_of s" if "bitstream_clear_icap km s = Some (rc, s')" for s rc s'
    using that icap by (auto simp: bitstream_clear_icap_def bind_eq_Some_conv frames split: option.splits)
  show "gate_of s' = gate_of s" if "ioctl_icap_body km kb um p l s = Some (rc, s')"
    using that w
    by (auto simp: ioctl_icap_body_def Let_def split_beta bind_eq_Some_conv dest!: gate_chunks clear
        split: if_splits option.splits chunks_end.splits) (metis chunks_end.exhaust)+
  show mclear: "gate_of s' = gate_of s" if "bitstream_clear_mcap km s = Some (rc, s')" for s rc s'
    using that by (auto simp: bitstream_clear_mcap_def bind_eq_Some_conv frames dest!: gate_helpers split: option.splits if_splits)
  show wr: "gate_of s' = gate_of s" if call: "ioctl_mcap_write km um p H s = Some (rc, s')" for H s rc s'
  proof -
    obtain e r t where st: "bitstream_mcap_setup False s = (e, r, t)" by (cases "bitstream_mcap_setup False s")
    have t: "gate_of t = gate_of s" using gate_mcap(3) [of False s] by (simp add: st)
    have wrt: "gate_of v = gate_of u" if "(if x \<noteq> 0 then Some (x, u)
        else do {
          (ok, s) \<leftarrow> mcap_user_chunks um p n u;
          Some (if \<not> ok then (- EFAULT, s) else mcap_finish r s)
        }) = Some (y, v)" for x u p n y v
      using that gate_mcap(5) [of r] by (auto simp: bind_eq_Some_conv split: if_splits dest: gate_chunks(3))
        (metis snd_conv gate_chunks(3))
    show ?thesis
    proof (cases "e = 0")
      case True
      obtain x u where u: "bitstream_clear_mcap km t = Some (x, u)" using call True
        by (auto simp: ioctl_mcap_write_def st bind_eq_Some_conv)
      obtain y v where v: "(if x \<noteq> 0 then Some (x, u)
        else do {
          (ok, s) \<leftarrow> mcap_user_chunks um (p + ucast (HeaderLength H)) (unat (BitstreamLength H)) u;
          Some (if \<not> ok then (- EFAULT, s) else mcap_finish r s)
        }) = Some (y, v)" "s' = MCapRegWrite MCAP_CONTROL r v"
        using call True unfolding ioctl_mcap_write_def st by (auto simp: u bind_eq_Some_conv cong: if_cong)
      show ?thesis using wrt [OF v(1)] mclear [OF u] t by (simp add: v(2) gate_prims)
    qed (use call t in \<open>auto simp: ioctl_mcap_write_def st gate_prims\<close>)
  qed
  show "gate_of s' = gate_of s" if "ioctl_mcap_body km kb um p l s = Some (rc, s')"
    using that by (auto simp: ioctl_mcap_body_def bind_eq_Some_conv dest!: wr split: if_splits option.splits)
  have fin: "mcap_finish r u = (x, v) \<Longrightarrow> gate_of v = gate_of u" for r u x v using gate_mcap(5) [of r u] by simp
  show "gate_of s' = gate_of s" if "bitstream_mcap km buf len s = Some (rc, s')"
    using that by (auto simp: bitstream_mcap_def Let_def split_beta bind_eq_Some_conv frames dest!: gate_helpers fin split: if_splits)
qed

text \<open>The gate is opened again.\<close>

lemma freeAXIGate_open: "freeAXIGate s = Some s' \<Longrightarrow> axi_gate_frozen s \<and> \<not> axi_gate_frozen s'"
  by (auto simp: freeAXIGate_def Let_def split_beta split: if_splits)

lemma download_gate:
  "bitstream_ioctl_icap km kb um p l s = Some (rc, s') \<Longrightarrow> \<not> axi_gate_frozen s \<and> \<not> axi_gate_frozen s'"
  "bitstream_ioctl_mcap km kb um p l s = Some (rc, s') \<Longrightarrow> \<not> axi_gate_frozen s \<Longrightarrow> \<not> axi_gate_frozen s'"
  by (auto simp: bitstream_ioctl_icap_def bitstream_ioctl_mcap_def bind_eq_Some_conv freezeAXIGate_def dest: freeAXIGate_open
      split: if_splits)

lemma bitstream_ioctl_gate:
  assumes "bitstream_ioctl km kb vm ok um cmd arg s = Some (rc, s')" "\<not> axi_gate_frozen s"
  shows "\<not> axi_gate_frozen s'"
proof -
  have "axi_gate_frozen s' = axi_gate_frozen t" if "stash_user vm um p n t = (rc, s')" for p n t
    using that by (auto simp: stash_user_def vfree_stash_def Let_def split: option.splits if_splits)
  then show ?thesis using assms
    by (auto simp: bitstream_ioctl_def Let_def bind_eq_Some_conv dest: download_gate
        split: option.splits if_splits download.splits)
qed

section \<open>What HWICAP receives\<close>

text \<open>The words written to the write FIFO, and a core that always has room and finishes.\<close>

definition wf_words :: "sd_dev \<Rightarrow> u32 list" where
  "wf_words s = map snd (filter (\<lambda>w. fst w = user_bar s + XHWICAP_WF) (writes (sd_bus s)))"

definition ready :: "sd_dev \<Rightarrow> bool" where
  "ready s \<longleftrightarrow> (\<forall>h. 0 < sint (resp (sd_bus s) h (user_bar s + XHWICAP_WFV)) \<and>
     resp (sd_bus s) h (user_bar s + XHWICAP_CR) AND 0x1 = 0 \<and> resp (sd_bus s) h (user_bar s + XHWICAP_SR) AND 0x5 \<noteq> 0)"

text \<open>The same device, with the same gate.\<close>

definition same_dev :: "sd_dev \<Rightarrow> sd_dev \<Rightarrow> bool" where
  "same_dev s s' \<longleftrightarrow> gate_of s' = gate_of s \<and> resp (sd_bus s') = resp (sd_bus s)"

lemma same_dev_refl [simp]: "same_dev s s"
  by (simp add: same_dev_def)

lemma same_dev_trans: "same_dev s t \<Longrightarrow> same_dev t u \<Longrightarrow> same_dev s u"
  by (simp add: same_dev_def)

lemma ready_same: "same_dev s s' \<Longrightarrow> ready s' = ready s"
  by (simp add: same_dev_def ready_def gate_of_def)

lemma same_dev_prims:
  "same_dev s (snd (srd off s))" "same_dev s (swr v off s)"
  by (simp_all add: same_dev_def gate_prims) (simp_all add: srd_def swr_def Let_def split_beta)

lemma wf_prims:
  "wf_words (snd (srd off s)) = wf_words s"
  "wf_words (swr v off s) = wf_words s @ (if off = XHWICAP_WF then [v] else [])"
  by (simp_all add: wf_words_def srd_def swr_def Let_def split_beta)

lemma write_done_loop_spec:
  "same_dev s (snd (write_done_loop n s)) \<and> wf_words (snd (write_done_loop n s)) = wf_words s \<and>
   (ready s \<and> n \<noteq> 0 \<longrightarrow> fst (write_done_loop n s) = 0)"
proof (induction n arbitrary: s)
  case (Suc n)
  obtain v t where t: "srd XHWICAP_CR s = (v, t)" by fastforce
  have e: "same_dev s t" "wf_words t = wf_words s" using same_dev_prims(1) [of s XHWICAP_CR] wf_prims(1) [of XHWICAP_CR s] by (simp_all add: t)
  have "ready s \<Longrightarrow> v AND 0x1 = 0" using t by (auto simp: ready_def srd_def read_register_def Let_def)
  then show ?case using Suc.IH [of t] e same_dev_trans [OF e(1)] by (simp add: t)
qed simp

lemma fold_wf: "wf_words (fold (\<lambda>w. swr w XHWICAP_WF) ws s) = wf_words s @ ws \<and> same_dev s (fold (\<lambda>w. swr w XHWICAP_WF) ws s)"
proof (induction ws arbitrary: s)
  case (Cons w ws)
  show ?case using Cons.IH [of "swr w XHWICAP_WF s"] same_dev_trans [OF same_dev_prims(2) [of s w XHWICAP_WF]] by (simp add: wf_prims)
qed simp

lemma length_be_words: "length (be_words bs) = length bs div 4"
  by (induction bs rule: be_words.induct) simp_all

lemma four_Suc: "4 * Suc n = Suc (Suc (Suc (Suc (4 * n))))"
  by simp

lemma be_words_take: "be_words (take (4 * n) bs) = take n (be_words bs)"
proof (induction bs arbitrary: n rule: be_words.induct)
  case (1 a b c d bs)
  then show ?case by (cases n) (simp_all add: four_Suc del: mult_Suc_right)
qed (case_tac n; simp)+

lemma be_words_drop: "be_words (drop (4 * n) bs) = drop n (be_words bs)"
proof (induction bs arbitrary: n rule: be_words.induct)
  case (1 a b c d bs)
  then show ?case by (cases n) (simp_all add: four_Suc del: mult_Suc_right)
qed (case_tac n; simp)+

lemma hwicapWrite_spec:
  assumes "4 * n \<le> length buf"
  shows "\<exists>rc s'. hwicapWrite buf n s = Some (rc, s') \<and> wf_words s' = wf_words s @ take n (be_words buf) \<and> same_dev s s' \<and>
    (ready s \<longrightarrow> rc = 0)"
proof -
  let ?t = "swr 0x1 XHWICAP_CR (fold (\<lambda>w. swr w XHWICAP_WF) (be_words (take (4 * n) buf)) s)"
  have d: "XHWICAP_CR \<noteq> XHWICAP_WF" by (simp add: XHWICAP_CR_def XHWICAP_WF_def HWICAP_OFFSET_def)
  have t: "same_dev s ?t" "wf_words ?t = wf_words s @ take n (be_words buf)"
    using fold_wf [of "be_words (take (4 * n) buf)" s] d same_dev_trans [OF _ same_dev_prims(2)] by (simp_all add: wf_prims be_words_take)
  have "hwicapWrite buf n s = Some (write_done_loop 10 ?t)" using assms by (simp add: hwicapWrite_def buffer_words_def)
  then show ?thesis using write_done_loop_spec [of ?t 10] t ready_same [OF t(1)] same_dev_trans [OF t(1)]
    by (cases "write_done_loop 10 ?t") simp
qed

text \<open>What a part of the download did: \<open>n\<close> words were asked for, \<open>ok\<close> is whether it succeeded.\<close>

definition wrote :: "u8 list \<Rightarrow> nat \<Rightarrow> bool \<Rightarrow> sd_dev \<Rightarrow> sd_dev \<Rightarrow> bool" where
  "wrote buf n ok s s' \<longleftrightarrow> same_dev s s' \<and>
     (\<exists>k. k \<le> n \<and> wf_words s' = wf_words s @ take k (be_words buf) \<and> (ok \<longrightarrow> k = n)) \<and> (ready s \<longrightarrow> ok)"

lemma wrote_trans:
  assumes "wf_words t = wf_words s @ take m (be_words buf)" "same_dev s t" "4 * m \<le> length buf"
    and "wrote (drop (4 * m) buf) n ok t u"
  shows "wrote buf (m + n) ok s u"
proof -
  obtain k where k: "k \<le> n" "wf_words u = wf_words t @ take k (be_words (drop (4 * m) buf))" "ok \<longrightarrow> k = n"
    using assms(4) by (auto simp: wrote_def)
  have "wf_words u = wf_words s @ take (m + k) (be_words buf)"
    using k(2) assms(1) by (simp add: be_words_drop take_add)
  moreover have "m + k \<le> m + n" "ok \<longrightarrow> m + k = m + n" using k(1,3) by auto
  moreover have "same_dev s u" "ready s \<longrightarrow> ok"
    using assms(4) same_dev_trans [OF assms(2)] ready_same [OF assms(2)] by (auto simp: wrote_def)
  ultimately show ?thesis unfolding wrote_def by blast
qed

lemma wrote_nothing: "same_dev s t \<Longrightarrow> wf_words t = wf_words s \<Longrightarrow> ok = (n = 0) \<Longrightarrow> \<not> ready s \<or> ok \<Longrightarrow> wrote buf n ok s t"
  by (auto simp: wrote_def)

lemma bitstream_icap_helper_spec:
  "4 * unat r \<le> length buf \<Longrightarrow> \<exists>rc s'. bitstream_icap_helper buf r s = Some (rc, s') \<and> wrote buf (unat r) (rc = 0) s s'"
proof (induction buf r s rule: bitstream_icap_helper.induct)
  case (1 buf r s)
  obtain v t where v: "srd XHWICAP_WFV s = (v, t)" by fastforce
  have t: "same_dev s t" "wf_words t = wf_words s"
    using same_dev_prims(1) [of s XHWICAP_WFV] wf_prims(1) [of XHWICAP_WFV s] by (simp_all add: v)
  have rv: "ready s \<Longrightarrow> 0 < sint v" using v by (auto simp: ready_def srd_def read_register_def Let_def)
  define n where "n = (if v < r then v else r)"
  have n: "unat n \<le> unat r" by (auto simp: n_def word_le_nat_alt dest: order.strict_implies_order)
  note unfold = bitstream_icap_helper.simps [of buf r s]
  show ?case
  proof (cases "r = 0 \<or> sint v \<le> 0")
    case True
    then show ?thesis
      using wrote_nothing [of s s True "unat r" buf] wrote_nothing [OF t, of False "unat r" buf] rv
      unfolding unfold by (cases "r = 0") (auto simp: v EIO_def unat_eq_zero)
  next
    case False
    have fit: "4 * unat n \<le> length buf" using n "1.prems" by simp
    obtain rc u where u: "hwicapWrite buf (unat n) t = Some (rc, u)" "wf_words u = wf_words t @ take (unat n) (be_words buf)"
      "same_dev t u" "ready t \<longrightarrow> rc = 0" using hwicapWrite_spec [OF fit, of t] by blast
    have su: "same_dev s u" "wf_words u = wf_words s @ take (unat n) (be_words buf)" using same_dev_trans [OF t(1) u(3)] u(2) t(2) by simp_all
    show ?thesis
    proof (cases "rc = 0")
      case True
      have r: "unat (r - n) = unat r - unat n" using n by (simp add: unat_sub word_le_nat_alt)
      have "4 * unat (r - n) \<le> length (drop (4 * unat n) buf)" using "1.prems" n by (simp add: r)
      then obtain rc' w where "bitstream_icap_helper (drop (4 * unat n) buf) (r - n) u = Some (rc', w)"
        "wrote (drop (4 * unat n) buf) (unat (r - n)) (rc' = 0) u w"
        using "1.IH" [OF _ v [symmetric] refl _ n_def u(1) refl] False True by auto
      then show ?thesis using wrote_trans [OF su(2,1) fit, of "unat (r - n)"] n False True u(1)
        unfolding unfold by (auto simp: v n_def [symmetric] r Let_def cong: if_cong)
    next
      case False
      have "wrote buf (unat r) False s u"
        using su n u(4) False ready_same [OF t(1)] unfolding wrote_def by blast
      then show ?thesis using False u(1) \<open>\<not> (r = 0 \<or> sint v \<le> 0)\<close>
        unfolding unfold by (auto simp: v n_def [symmetric] Let_def EIO_def cong: if_cong)
    qed
  qed
qed

lemma chunk_words: "unat (of_nat (min rem DMA_HWICAP_BITFILE_BUFFER_SIZE div 4) :: u32) = min rem DMA_HWICAP_BITFILE_BUFFER_SIZE div 4"
proof -
  have "min rem DMA_HWICAP_BITFILE_BUFFER_SIZE div 4 \<le> 1024 div 4"
    by (rule div_le_mono) (simp add: DMA_HWICAP_BITFILE_BUFFER_SIZE_def)
  then show ?thesis by (simp add: unsigned_of_nat take_bit_nat_eq_self)
qed

lemma icap_chunks_spec:
  "rem \<le> length buf \<Longrightarrow> \<exists>ok s'. icap_chunks buf rem s = Some (ok, s') \<and> wrote buf (rem div 4) ok s s'"
proof (induction buf rem s rule: icap_chunks.induct)
  case (1 buf rem s)
  define n where "n = min rem DMA_HWICAP_BITFILE_BUFFER_SIZE"
  note unfold = icap_chunks.simps [of buf rem s, folded n_def]
  show ?case
  proof (cases "rem = 0")
    case True
    then show ?thesis using wrote_nothing [of s s True 0 buf] unfolding unfold by auto
  next
    case False
    have w: "unat (of_nat (n div 4) :: u32) = n div 4" unfolding n_def by (rule chunk_words)
    have n: "n \<le> rem" "n = rem \<or> n = 1024"
      unfolding n_def DMA_HWICAP_BITFILE_BUFFER_SIZE_def by linarith+
    have "4 * unat (of_nat (n div 4) :: u32) \<le> length buf" unfolding w using n(1) "1.prems" by linarith
    from bitstream_icap_helper_spec [OF this, of s] obtain rc t where
      t: "bitstream_icap_helper buf (of_nat (n div 4)) s = Some (rc, t)" "wrote buf (n div 4) (rc = 0) s t" unfolding w by blast
    have le: "n div 4 \<le> rem div 4" using n(1) by (rule div_le_mono)
    consider "rc \<noteq> 0" | "rc = 0" "n = rem" | "rc = 0" "n = 4 * (n div 4)" using n(2) by fastforce
    then show ?thesis
    proof cases
      case 1
      have "wrote buf (rem div 4) False s t" using t(2) 1 le unfolding wrote_def by (metis order_trans)
      then show ?thesis unfolding unfold using False 1 t(1) by auto
    next
      case 2
      then show ?thesis unfolding unfold using False t by (auto simp: icap_chunks.simps [of _ 0])
    next
      case 3
      have len: "rem - n \<le> length (drop n buf)" using "1.prems" by simp
      from "1.IH" [OF False n_def t(1) refl _ len] 3(1) obtain ok u where
        u: "icap_chunks (drop n buf) (rem - n) t = Some (ok, u)" "wrote (drop n buf) ((rem - n) div 4) ok t u" by auto
      have d: "(rem - n) div 4 = rem div 4 - n div 4"
      proof -
        have "rem = (rem - n) + 4 * (n div 4)" using 3(2) n(1) by linarith
        then have "rem div 4 = (rem - n) div 4 + n div 4" by (metis div_mult_self2 add.commute zero_neq_numeral)
        then show ?thesis by simp
      qed
      obtain k where k: "wf_words t = wf_words s @ take (n div 4) (be_words buf)" "same_dev s t"
        using t(2) 3(1) unfolding wrote_def by auto
      have "4 * (n div 4) \<le> length buf" using 3(2) n(1) "1.prems" by linarith
      from wrote_trans [OF k this, of "rem div 4 - n div 4" ok u] u(2) have "wrote buf (n div 4 + (rem div 4 - n div 4)) ok s u"
        unfolding d 3(2) [symmetric] by blast
      then have "wrote buf (rem div 4) ok s u" unfolding le_add_diff_inverse [OF le] .
      then show ?thesis unfolding unfold using False t(1) 3(1) u(1) by auto
    qed
  qed
qed

text \<open>A device that is ready for as long as it is asked, and a buffer that is too short.\<close>

lemma bitstream_icap_helper_overrun:
  "ready s \<Longrightarrow> length buf < 4 * unat r \<Longrightarrow> bitstream_icap_helper buf r s = None"
proof (induction buf r s rule: bitstream_icap_helper.induct)
  case (1 buf r s)
  obtain v t where v: "srd XHWICAP_WFV s = (v, t)" by fastforce
  have t: "same_dev s t" using same_dev_prims(1) [of s XHWICAP_WFV] by (simp add: v)
  have rv: "0 < sint v" using v "1.prems"(1) by (auto simp: ready_def srd_def read_register_def Let_def)
  define n where "n = (if v < r then v else r)"
  have n: "unat n \<le> unat r" by (auto simp: n_def word_le_nat_alt dest: order.strict_implies_order)
  have r: "unat (r - n) = unat r - unat n" using n by (simp add: unat_sub word_le_nat_alt)
  have r0: "r \<noteq> 0" using "1.prems"(2) by auto
  show ?case
  proof (cases "4 * unat n \<le> length buf")
    case True
    obtain rc u where u: "hwicapWrite buf (unat n) t = Some (rc, u)" "same_dev t u" "ready t \<longrightarrow> rc = 0"
      using hwicapWrite_spec [OF True, of t] by blast
    have ready: "ready t" "ready u" using "1.prems"(1) ready_same [OF t] ready_same [OF u(2)] by simp_all
    have "length (drop (4 * unat n) buf) < 4 * unat (r - n)" using "1.prems"(2) True n by (simp add: r)
    then have "bitstream_icap_helper (drop (4 * unat n) buf) (r - n) u = None"
      using "1.IH" [OF r0 v [symmetric] refl _ n_def u(1) refl _ ready(2)] rv u(3) ready by simp
    then show ?thesis
      unfolding bitstream_icap_helper.simps [of buf r s]
      using r0 rv u ready by (auto simp: v n_def [symmetric] Let_def cong: if_cong)
  next
    case False
    then show ?thesis unfolding bitstream_icap_helper.simps [of buf r s]
      using r0 rv by (auto simp: v n_def [symmetric] Let_def hwicapWrite_def buffer_words_def cong: if_cong)
  qed
qed

lemma icap_chunks_overrun: "ready s \<Longrightarrow> length buf < 4 * (rem div 4) \<Longrightarrow> icap_chunks buf rem s = None"
proof (induction buf rem s rule: icap_chunks.induct)
  case (1 buf rem s)
  define n where "n = min rem DMA_HWICAP_BITFILE_BUFFER_SIZE"
  note unfold = icap_chunks.simps [of buf rem s, folded n_def]
  have w: "unat (of_nat (n div 4) :: u32) = n div 4" unfolding n_def by (rule chunk_words)
  have n: "n \<le> rem" "n = rem \<or> n = 1024"
    unfolding n_def DMA_HWICAP_BITFILE_BUFFER_SIZE_def by linarith+
  have rem: "rem \<noteq> 0" using "1.prems"(2) by auto
  show ?case
  proof (cases "4 * (n div 4) \<le> length buf")
    case True
    then have n4: "n = 1024" "n = 4 * (n div 4)" using n "1.prems"(2) by auto
    have "4 * unat (of_nat (n div 4) :: u32) \<le> length buf" using True by (simp only: w)
    from bitstream_icap_helper_spec [OF this, of s] obtain rc t where
      t: "bitstream_icap_helper buf (of_nat (n div 4)) s = Some (rc, t)" "same_dev s t" "ready s \<longrightarrow> rc = 0"
      by (auto simp: wrote_def)
    have "rem = (rem - n) + 4 * (n div 4)" using n4(2) n(1) by linarith
    then have "rem div 4 = (rem - n) div 4 + n div 4" by (metis div_mult_self2 add.commute zero_neq_numeral)
    then have "4 * (rem div 4) = 4 * ((rem - n) div 4) + n" using n4(2) by linarith
    moreover have "n \<le> length buf" using True n4(2) by linarith
    ultimately have "length (drop n buf) < 4 * ((rem - n) div 4)" using "1.prems"(2) unfolding length_drop by linarith
    then have "icap_chunks (drop n buf) (rem - n) t = None"
      using "1.IH" [OF rem n_def t(1) refl] t(3) "1.prems"(1) ready_same [OF t(2)] by simp
    then show ?thesis unfolding unfold using rem t(1,3) "1.prems"(1) by auto
  next
    case False
    then have "length buf < 4 * unat (of_nat (n div 4) :: u32)" unfolding w by simp
    then have "bitstream_icap_helper buf (of_nat (n div 4)) s = None" by (rule bitstream_icap_helper_overrun [OF "1.prems"(1)])
    then show ?thesis unfolding unfold using rem by simp
  qed
qed

lemma wait_done_loop_spec:
  "same_dev s (snd (wait_done_loop n s)) \<and> wf_words (snd (wait_done_loop n s)) = wf_words s \<and>
   (ready s \<and> n \<noteq> 0 \<longrightarrow> fst (wait_done_loop n s) = 0)"
proof (induction n arbitrary: s)
  case (Suc n)
  obtain v t where t: "srd XHWICAP_SR s = (v, t)" by fastforce
  have e: "same_dev s t" "wf_words t = wf_words s" using same_dev_prims(1) [of s XHWICAP_SR] wf_prims(1) [of XHWICAP_SR s] by (simp_all add: t)
  have "ready s \<Longrightarrow> v AND 0x5 \<noteq> 0" using t by (auto simp: ready_def srd_def read_register_def Let_def)
  then show ?case using Suc.IH [of t] e same_dev_trans [OF e(1)] by (simp add: t)
qed simp

lemma unat_up: "unat (ucast (w :: u32) :: u64) = unat w"
proof -
  have "unat w < 2 ^ 32" using unsigned_less [of w, where ?'a = nat] by simp
  then have "unat w < 2 ^ 64" by simp
  then show ?thesis by (simp add: unsigned_ucast_eq take_bit_nat_eq_self)
qed

lemma wrap_sum:
  assumes "(b + h) mod 2 ^ 32 = (0 :: nat)" "0 < h" "h < 2 ^ 31" "b < 2 ^ 32"
  shows "b = 2 ^ 32 - h"
proof -
  have "\<not> b + h < 2 ^ 32" using assms(1,2) by (metis mod_less add_is_0 less_irrefl)
  then have "(b + h - 2 ^ 32) mod 2 ^ 32 = 0" using assms(1) by (metis le_mod_geq not_less)
  moreover have "b + h - 2 ^ 32 < 2 ^ 32" using assms(3,4) by simp
  ultimately show ?thesis using \<open>\<not> b + h < 2 ^ 32\<close> by simp
qed

lemma icap_spec:
  assumes "bitstream_parse_header km buf = Some (0, H)" "unat (HeaderLength H) + unat (BitstreamLength H) \<le> unat len"
    and "unat len \<le> length buf" "len \<noteq> 0"
  shows "\<exists>rc s' k. bitstream_icap km buf len s = Some (rc, s') \<and> k \<le> unat (BitstreamLength H) div 4 \<and>
     wf_words s' = wf_words s @ take k (be_words (drop (unat (HeaderLength H)) buf)) \<and>
     (ready s \<longrightarrow> rc = 0 \<and> k = unat (BitstreamLength H) div 4)"
proof -
  have "unat (HeaderLength H + BitstreamLength H) \<le> unat len"
    using assms(2) unfolding unat_word_ariths by (rule order_trans [OF mod_less_eq_dividend])
  then have fits: "\<not> too_long H (ucast len)" by (simp add: too_long_def not_less word_le_nat_alt unat_up)
  let ?b = "drop (unat (HeaderLength H)) buf"
  have "unat (BitstreamLength H) \<le> length ?b" using assms(2,3) by simp
  from icap_chunks_spec [OF this, of s] obtain ok t where
    c: "icap_chunks ?b (unat (BitstreamLength H)) s = Some (ok, t)" "wrote ?b (unat (BitstreamLength H) div 4) ok s t" by blast
  obtain rc u where w: "wait_for_done t = (rc, u)" by fastforce
  have u: "wf_words u = wf_words t" "ready t \<Longrightarrow> rc = 0" using wait_done_loop_spec [of t 10] w by (auto simp: wait_for_done_def)
  have i: "bitstream_icap km buf len s = (if \<not> ok then Some (0, t) else Some (if rc \<noteq> 0 then - EIO else 0, u))"
    using assms(1,4) fits c(1) w by (simp add: bitstream_icap_def)
  obtain k where k: "k \<le> unat (BitstreamLength H) div 4" "wf_words t = wf_words s @ take k (be_words ?b)"
    "ok \<longrightarrow> k = unat (BitstreamLength H) div 4" "ready s \<longrightarrow> ok" "same_dev s t" using c(2) by (auto simp: wrote_def)
  have "wf_words (snd (the (bitstream_icap km buf len s))) = wf_words s @ take k (be_words ?b)" using k(2) u(1) by (simp add: i)
  moreover have "ready s \<Longrightarrow> fst (the (bitstream_icap km buf len s)) = 0 \<and> k = unat (BitstreamLength H) div 4"
    using k(3,4) u(2) ready_same [OF k(5)] by (simp add: i)
  moreover obtain x y where "bitstream_icap km buf len s = Some (x, y)" by (cases ok) (auto simp: i)
  ultimately show ?thesis using k(1) by auto
qed

lemma icap_overrun:
  assumes "bitstream_parse_header km buf = Some (0, H)" "\<not> too_long H (ucast len)" "len \<noteq> 0" "ready s"
    and "length buf < unat (HeaderLength H) + 4 * (unat (BitstreamLength H) div 4)" "4 \<le> unat (BitstreamLength H)"
  shows "bitstream_icap km buf len s = None"
proof -
  have "0 < unat (BitstreamLength H) div 4" using assms(6) by simp
  then have "length (drop (unat (HeaderLength H)) buf) < 4 * (unat (BitstreamLength H) div 4)" using assms(5) by auto
  then show ?thesis using assms(1-3) icap_chunks_overrun [OF assms(4)] by (simp add: bitstream_icap_def)
qed

section \<open>Properties of the download\<close>

text \<open>
  C30: a download through HWICAP writes the words of the bitstream, and nothing else, to the write
  FIFO. If the header is accepted and header and bitstream lie within the buffer, the call returns,
  and what reached the FIFO is a first part of the big-endian words behind the header, in order. If
  the core has room and finishes whenever it is asked, the result is 0 and the words are all the
  words of the bitstream.
\<close>

theorem bitstream_icap_words:
  assumes "bitstream_parse_header km buf = Some (0, H)" "unat (HeaderLength H) + unat (BitstreamLength H) \<le> unat len"
    and "unat len \<le> length buf" "len \<noteq> 0"
  shows "\<exists>rc s' k. bitstream_icap km buf len s = Some (rc, s') \<and> k \<le> unat (BitstreamLength H) div 4 \<and>
     wf_words s' = wf_words s @ take k (be_words (drop (unat (HeaderLength H)) buf)) \<and>
     (ready s \<longrightarrow> rc = 0 \<and> k = unat (BitstreamLength H) div 4)"
  by (rule icap_spec [OF assms])

text \<open>A file with four strings of one character, and a bitstream of \<open>n\<close> bytes announced.\<close>

definition tiny_file :: "u32 \<Rightarrow> u8 list \<Rightarrow> u8 list" where
  "tiny_file n bs = header_bytes 1 0 [0] [0] [0] [0] n @ bs"

definition tiny_header :: "u32 \<Rightarrow> XHwIcap_Bit_Header" where
  "tiny_header n = \<lparr>HeaderLength = 26, BitstreamLength = n, DesignName = Some [0], PartName = Some [0], Date = Some [0],
     Time = Some [0], MagicLength = 1\<rparr>"

definition constant_dev :: "u32 \<Rightarrow> sd_dev" where
  "constant_dev v = \<lparr>sd_bus = \<lparr>hist = [], resp = \<lambda>_ _. v\<rparr>, sd_cfg = \<lparr>hist = [], resp = \<lambda>_ _. v\<rparr>, user_bar = 0, mcap_base = 0,
     axi_gate_frozen = True, clear_bitstream = None, clear_bitstream_length = 0\<rparr>"

lemma length_tiny: "length (tiny_file n bs) = 26 + length bs"
  by (simp add: tiny_file_def header_bytes_def be_short_def be_word_def field_bytes_def magic_bytes_def)

lemma parse_tiny: "bitstream_parse_header (\<lambda>_. True) (tiny_file n bs) = Some (0, tiny_header n)"
proof -
  have "tiny_header n = \<lparr>HeaderLength = of_nat (length (tiny_file n bs) - length bs), BitstreamLength = n, DesignName = Some [0],
     PartName = Some [0], Date = Some [0], Time = Some [0], MagicLength = 1\<rparr>"
    by (simp add: tiny_header_def length_tiny)
  moreover have "c_string [0]" by (simp add: c_string_def)
  ultimately show ?thesis unfolding parse_iff
    by (intro exI [of _ 0] exI [of _ "[0]"] exI [of _ bs]) (simp add: tiny_header_def tiny_file_def)
qed

lemma drop_tiny: "drop 26 (tiny_file n bs) = bs"
  using length_tiny [of n "[]"] by (simp add: tiny_file_def)

lemma ready_constant: "ready (constant_dev 4)"
  by (simp add: ready_def constant_dev_def)

theorem bitstream_icap_words_witness:
  "\<exists>s'. bitstream_icap (\<lambda>_. True) (tiny_file 8 [1, 2, 3, 4, 5, 6, 7, 8]) 34 (constant_dev 4) = Some (0, s') \<and>
     wf_words s' = [0x01020304, 0x05060708]"
proof -
  let ?buf = "tiny_file 8 [1, 2, 3, 4, 5, 6, 7, 8]"
  have "wf_words (constant_dev 4) = []" by (simp add: wf_words_def constant_dev_def writes_def)
  moreover have "be_words (drop 26 ?buf) = [0x01020304, 0x05060708]" by (simp add: drop_tiny)
  ultimately show ?thesis
    using bitstream_icap_words [OF parse_tiny [of 8 "[1, 2, 3, 4, 5, 6, 7, 8]"], of 34 "constant_dev 4"] ready_constant
    by (auto simp: tiny_header_def length_tiny)
qed

text \<open>
  A core without room is not reported. If the write FIFO never has a vacancy, no word of the
  bitstream is written, and the result is 0 as after a complete download: the jump to the end does
  not set the result.
\<close>

theorem bitstream_icap_full_is_success:
  assumes "bitstream_parse_header km buf = Some (0, H)" "\<not> too_long H (ucast len)" "len \<noteq> 0" "4 \<le> unat (BitstreamLength H)"
    and "\<And>h. sint (resp (sd_bus s) h (user_bar s + XHWICAP_WFV)) \<le> 0"
  shows "\<exists>s'. bitstream_icap km buf len s = Some (0, s') \<and> writes (sd_bus s') = writes (sd_bus s)"
proof -
  define n where "n = min (unat (BitstreamLength H)) DMA_HWICAP_BITFILE_BUFFER_SIZE"
  obtain v t where v: "srd XHWICAP_WFV s = (v, t)" by fastforce
  have t: "sint v \<le> 0" "writes (sd_bus t) = writes (sd_bus s)"
    using v assms(5) by (auto simp: srd_def read_register_def Let_def writes_def)
  have "0 < n div 4" using assms(4) by (auto simp: n_def DMA_HWICAP_BITFILE_BUFFER_SIZE_def)
  then have "of_nat (n div 4) \<noteq> (0 :: u32)" using chunk_words [of "unat (BitstreamLength H)"] unfolding n_def by (metis unsigned_0 less_irrefl)
  then have "bitstream_icap_helper b (of_nat (n div 4)) s = Some (- EIO, t)" for b
    using t(1) by (subst bitstream_icap_helper.simps) (simp add: v)
  moreover have "unat (BitstreamLength H) \<noteq> 0" using assms(4) by linarith
  ultimately have "icap_chunks b (unat (BitstreamLength H)) s = Some (False, t)" for b
    using icap_chunks.simps [of b "unat (BitstreamLength H)" s, folded n_def] by (simp add: EIO_def)
  then show ?thesis using assms(1-3) t(2) by (simp add: bitstream_icap_def)
qed

theorem bitstream_icap_full_is_success_witness:
  "\<exists>s'. bitstream_icap (\<lambda>_. True) (tiny_file 8 [1, 2, 3, 4, 5, 6, 7, 8]) 34 (constant_dev 0) = Some (0, s') \<and>
     writes (sd_bus s') = []"
proof -
  have "\<not> too_long (tiny_header 8) (ucast (34 :: u32))" by (simp add: too_long_def tiny_header_def)
  from bitstream_icap_full_is_success [OF parse_tiny [of 8 "[1, 2, 3, 4, 5, 6, 7, 8]"] this, of "constant_dev 0"] show ?thesis
    by (simp add: tiny_header_def constant_dev_def writes_def)
qed

text \<open>
  The test of the lengths does not protect the buffer. The sum of the two lengths is one of
  32-bit numbers: a file whose bitstream length is the negated header length passes, and a core
  that takes every word is fed from behind the end of the buffer, however long the buffer is said
  to be.
\<close>

theorem bitstream_icap_length_wraps:
  assumes "bitstream_parse_header km buf = Some (0, H)" "BitstreamLength H = - HeaderLength H" "HeaderLength H \<noteq> 0"
    and "unat (HeaderLength H) \<le> length buf" "length buf < 2 ^ 31" "len \<noteq> 0" "ready s"
  shows "\<not> too_long H (ucast len) \<and> bitstream_icap km buf len s = None"
proof -
  have fits: "\<not> too_long H (ucast len)" using assms(2) by (simp add: too_long_def)
  have h: "unat (HeaderLength H) < 2 ^ 31" using assms(4,5) by linarith
  have "BitstreamLength H + HeaderLength H = 0" using assms(2) by simp
  then have "(unat (BitstreamLength H) + unat (HeaderLength H)) mod 2 ^ 32 = 0"
    using unat_word_ariths(1) [of "BitstreamLength H" "HeaderLength H"] by simp
  moreover have "0 < unat (HeaderLength H)" "unat (BitstreamLength H) < 2 ^ 32"
    using assms(3) unsigned_less [of "BitstreamLength H", where ?'a = nat] by (simp_all add: unat_gt_0)
  ultimately have b: "unat (BitstreamLength H) = 2 ^ 32 - unat (HeaderLength H)" using wrap_sum h by simp
  have "length buf < unat (HeaderLength H) + 4 * (unat (BitstreamLength H) div 4)" "4 \<le> unat (BitstreamLength H)"
    using h b assms(5) by simp_all
  then show ?thesis using icap_overrun [OF assms(1) fits assms(6,7)] fits by blast
qed

theorem bitstream_icap_length_wraps_witness:
  "\<not> too_long (tiny_header (- 26)) 26 \<and> bitstream_icap (\<lambda>_. True) (tiny_file (- 26) []) 26 (constant_dev 4) = None"
  using bitstream_icap_length_wraps [OF parse_tiny [of "- 26" "[]"] _ _ _ _ _ ready_constant, of 26]
  by (simp add: tiny_header_def length_tiny)

text \<open>
  The time limit of the request bit is missed. If the configure request is never cleared, the
  function leaves with success after its million and one tests, and the control register keeps the
  mode and in-use bits: \<open>loop\<close> is -1 when the loop runs out, and the test is for 0.
\<close>

theorem MCapClearRequest_never_cleared:
  assumes "\<And>h. resp (sd_cfg s) h (mcap_base s + MCAP_STATUS) AND MCAP_STS_CFG_MCAP_REQ_MASK \<noteq> 0"
  shows "\<exists>r s'. MCapClearRequestByConfigure s = (0, r, s') \<and>
     writes (sd_cfg s') = writes (sd_cfg s) @ [(mcap_base s + MCAP_CONTROL, r OR (MCAP_CTRL_MODE_MASK OR MCAP_CTRL_IN_USE_MASK))]"
proof -
  define stuck where "stuck t \<longleftrightarrow> resp (sd_cfg t) = resp (sd_cfg s) \<and> mcap_base t = mcap_base s" for t :: sd_dev
  have prims: "stuck (snd (MCapRegRead off t)) = stuck t" "stuck (MCapRegWrite off v t) = stuck t"
    "writes (sd_cfg (snd (MCapRegRead off t))) = writes (sd_cfg t)" for off v t
    by (simp_all add: stuck_def MCapRegRead_def MCapRegWrite_def Let_def split_beta)
  have bit: "\<exists>t'. IsConfigureMCapReqSet t = (True, t') \<and> stuck t' \<and> writes (sd_cfg t') = writes (sd_cfg t)" if "stuck t" for t
    using that assms prims(1) [of MCAP_STATUS t] prims(3) [of MCAP_STATUS t]
    by (auto simp: IsConfigureMCapReqSet_def mcap_bit_def MCapRegRead_def read_register_def stuck_def Let_def)
  have loop: "\<exists>t'. clear_req_loop n t = (- 1, t') \<and> writes (sd_cfg t') = writes (sd_cfg t)" if "stuck t" for n t
    using that
  proof (induction n arbitrary: t)
    case (Suc n)
    obtain t' where t': "IsConfigureMCapReqSet t = (True, t')" "stuck t'" "writes (sd_cfg t') = writes (sd_cfg t)"
      using bit [OF Suc.prems] by blast
    show ?case using Suc.IH [OF t'(2)] t'(1,3) by simp
  qed (auto dest: bit)
  obtain r t where t: "MCapRegRead MCAP_CONTROL s = (r, t)" by fastforce
  have "stuck t" "writes (sd_cfg t) = writes (sd_cfg s)" "mcap_base t = mcap_base s"
    using prims(1) [of MCAP_CONTROL s] prims(3) [of MCAP_CONTROL s] by (auto simp: t stuck_def)
  then obtain u where u: "IsConfigureMCapReqSet t = (True, u)" "stuck u" "writes (sd_cfg u) = writes (sd_cfg s)" using bit [of t] by auto
  let ?v = "MCapRegWrite MCAP_CONTROL (r OR (MCAP_CTRL_MODE_MASK OR MCAP_CTRL_IN_USE_MASK)) u"
  obtain w where w: "clear_req_loop MCAP_LOOP_COUNT ?v = (- 1, w)" "writes (sd_cfg w) = writes (sd_cfg ?v)"
    using loop [of ?v MCAP_LOOP_COUNT] u(2) by (auto simp: prims)
  have "MCapClearRequestByConfigure s = (0, r, w)" by (simp add: MCapClearRequestByConfigure_def t u(1) w(1))
  moreover have "writes (sd_cfg w) = writes (sd_cfg s) @ [(mcap_base s + MCAP_CONTROL, r OR (MCAP_CTRL_MODE_MASK OR MCAP_CTRL_IN_USE_MASK))]"
    using u(2,3) by (simp add: w(2) MCapRegWrite_def stuck_def)
  ultimately show ?thesis by blast
qed

theorem MCapClearRequest_never_cleared_witness:
  "\<exists>r s'. MCapClearRequestByConfigure (constant_dev MCAP_STS_CFG_MCAP_REQ_MASK) = (0, r, s')"
  using MCapClearRequest_never_cleared [of "constant_dev MCAP_STS_CFG_MCAP_REQ_MASK"]
  by (auto simp: constant_dev_def MCAP_STS_CFG_MCAP_REQ_MASK_def)

end
