(* ===== verification/Fpga.thy ===== *)
theory Fpga
  imports Bitstream
begin

text \<open>
  The driver of the memory of an FPGA board, \<open>src/MTE/vc707_memcpy/FPGA.c\<close>, with the one function in
  which its copy \<open>src/MTE/vcu108_memcpy/FPGA.c\<close> differs: reads and writes of its
  file carry a command block with the address of the real data, and copy between the process and a
  BAR through a buffer of one page. The memory behind the BARs and the memory of the process are
  stores of bytes; bytes of the process that it does not own have no value.
\<close>

unbundle bit_operations_syntax

section \<open>State\<close>

definition NUM_BARS :: nat where "NUM_BARS = 1"
definition BUFFER_SIZE :: nat where "BUFFER_SIZE = 4096"

text \<open>Of the buffer only whether it could be allocated matters: each chunk fills it before it is used.\<close>

record DevInfo_t =
  f_bar :: "u64 option list"
  barLengths :: "u64 list"
  f_buffer :: bool
  f_sem :: nat
  userPID :: int

record fpga =
  dev_info :: DevInfo_t
  bar_mem :: "nat \<Rightarrow> nat \<Rightarrow> u8"
  user :: user_mem

text \<open>
  \<open>copy_from_user\<close> stops at the first byte it cannot read and fills the rest with zeros;
  \<open>copy_to_user\<close> stops at the first byte it cannot write. The driver looks at neither result.
\<close>

fun copy_in :: "user_mem \<Rightarrow> u64 \<Rightarrow> nat \<Rightarrow> u8 list" where
  "copy_in um a 0 = []"
| "copy_in um a (Suc n) = (case um a of None \<Rightarrow> replicate (Suc n) 0 | Some b \<Rightarrow> b # copy_in um (a + 1) n)"

fun copy_out :: "user_mem \<Rightarrow> u64 \<Rightarrow> u8 list \<Rightarrow> user_mem" where
  "copy_out um a [] = um"
| "copy_out um a (b # bs) = (if um a = None then um else copy_out (um(a := Some b)) (a + 1) bs)"

section \<open>Reading and writing\<close>

record IOCmd_t =
  barNum :: u8
  devAddr :: u32
  userAddr :: u64

definition iocmd_of :: "u8 list \<Rightarrow> IOCmd_t" where
  "iocmd_of bs = \<lparr>barNum = bs ! 4, devAddr = le32 bs 8, userAddr = le64 bs 16\<rparr>"

text \<open>An access to a BAR that is not mapped, or behind the end of the mapping, is a fault.\<close>

definition in_bar :: "DevInfo_t \<Rightarrow> nat \<Rightarrow> nat \<Rightarrow> nat \<Rightarrow> bool" where
  "in_bar D i off n \<longleftrightarrow> i < length (f_bar D) \<and> f_bar D ! i \<noteq> None \<and> off + n \<le> unat (barLengths D ! i)"

definition memcpy_fromio :: "nat \<Rightarrow> nat \<Rightarrow> nat \<Rightarrow> fpga \<Rightarrow> u8 list option" where
  "memcpy_fromio i off n w = do {
     BUG_ON (\<not> in_bar (dev_info w) i off n);
     Some (map (\<lambda>j. bar_mem w i (off + j)) [0..<n])
   }"

definition memcpy_toio :: "nat \<Rightarrow> nat \<Rightarrow> u8 list \<Rightarrow> fpga \<Rightarrow> fpga option" where
  "memcpy_toio i off bs w = do {
     BUG_ON (\<not> in_bar (dev_info w) i off (length bs));
     Some (w\<lparr>bar_mem := (bar_mem w)(i := \<lambda>x. if off \<le> x \<and> x < off + length bs then bs ! (x - off) else bar_mem w i x)\<rparr>)
   }"

definition rw_chunk :: "bool \<Rightarrow> nat \<Rightarrow> nat \<Rightarrow> u64 \<Rightarrow> nat \<Rightarrow> fpga \<Rightarrow> fpga option" where
  "rw_chunk rwFlag i off ua n w = do {
     BUG_ON (\<not> f_buffer (dev_info w));
     (if rwFlag then do {
        bs \<leftarrow> memcpy_fromio i off n w;
        Some (w\<lparr>user := copy_out (user w) ua bs\<rparr>)
      } else memcpy_toio i off (copy_in (user w) ua n) w)
   }"

function rw_loop :: "bool \<Rightarrow> nat \<Rightarrow> nat \<Rightarrow> u64 \<Rightarrow> nat \<Rightarrow> nat \<Rightarrow> fpga \<Rightarrow> (nat \<times> fpga) option" where
  "rw_loop rwFlag i addr ua 0 bytesDone w = Some (bytesDone, w)"
| "rw_loop rwFlag i addr ua (Suc c) bytesDone w =
     (let n = min (Suc c) BUFFER_SIZE
      in do {
           w \<leftarrow> rw_chunk rwFlag i (addr + bytesDone) (ua + of_nat bytesDone) n w;
           rw_loop rwFlag i addr ua (Suc c - n) (bytesDone + n) w
         })"
  by pat_completeness auto

termination rw_loop
  by (relation "measure (\<lambda>(_, _, _, _, c, _, _). c)") (auto simp: BUFFER_SIZE_def)

text \<open>\<open>intr\<close> is whether a signal ends the wait for the semaphore; nobody else gives it back meanwhile.\<close>

definition rw_dispatcher :: "bool \<Rightarrow> u64 \<Rightarrow> nat \<Rightarrow> bool \<Rightarrow> fpga \<Rightarrow> (int \<times> fpga) option" where
  "rw_dispatcher intr buf count rwFlag w =
    (if intr then Some (- 1, w)
     else do {
       BUG_ON (f_sem (dev_info w) = 0);
       let iocmd = iocmd_of (copy_in (user w) buf 24);
       BUG_ON (unat (barNum iocmd) \<ge> NUM_BARS);
       (bytesDone, w) \<leftarrow> rw_loop rwFlag (unat (barNum iocmd)) (unat (devAddr iocmd)) (userAddr iocmd) count 0 w;
       Some (int bytesDone, w)
     })"

definition fpga_read :: "bool \<Rightarrow> u64 \<Rightarrow> nat \<Rightarrow> fpga \<Rightarrow> (int \<times> fpga) option" where
  "fpga_read intr buf count w = rw_dispatcher intr buf count True w"

definition fpga_write :: "bool \<Rightarrow> u64 \<Rightarrow> nat \<Rightarrow> fpga \<Rightarrow> (int \<times> fpga) option" where
  "fpga_write intr buf count w = rw_dispatcher intr buf count False w"

definition fpga_open :: "bool \<Rightarrow> bool \<Rightarrow> int \<Rightarrow> DevInfo_t \<Rightarrow> (int \<times> DevInfo_t) option" where
  "fpga_open intr1 intr2 pid D =
    (if intr1 then Some (- 1, D)
     else do {
       BUG_ON (f_sem D = 0);
       let D = D\<lparr>userPID := pid\<rparr>;
       Some (if intr2 then - 1 else 0, D)
     })"

definition fpga_close :: "bool \<Rightarrow> DevInfo_t \<Rightarrow> (int \<times> DevInfo_t) option" where
  "fpga_close intr D = (if intr then Some (- 1, D) else do { BUG_ON (f_sem D = 0); Some (0, D) })"

section \<open>Bringing the board up and down\<close>

datatype board_res = F_info | F_region | F_cdev | F_buffer | F_enabled | F_regions | F_bar nat

record board_kernel =
  b_zalloc :: bool
  b_region :: bool
  b_cdev :: bool
  b_kmalloc :: bool
  b_enable :: bool
  b_request :: bool
  b_start :: "nat \<Rightarrow> u64"
  b_end :: "nat \<Rightarrow> u64"
  b_iomap :: "nat \<Rightarrow> u64 option"

text \<open>What the driver takes and gives back, as a list of changes of the number held.\<close>

type_synonym board_log = "(board_res \<times> int) list"

definition balance :: "('r \<times> int) list \<Rightarrow> 'r \<Rightarrow> int" where
  "balance l r = sum_list (map snd (filter (\<lambda>x. fst x = r) l))"

definition setup_chrdev :: "board_kernel \<Rightarrow> int \<times> board_log" where
  "setup_chrdev K =
    (if \<not> b_region K then (- 1, [])
     else if \<not> b_cdev K then (- 1, [(F_region, 1)])
     else (0, [(F_region, 1), (F_cdev, 1)]))"

fun map_board_bars :: "board_kernel \<Rightarrow> nat list \<Rightarrow> DevInfo_t \<Rightarrow> int \<times> board_log \<times> DevInfo_t" where
  "map_board_bars K [] D = (0, [], D)"
| "map_board_bars K (ct # cts) D =
    (let barLength = b_end K ct - b_start K ct + 1;
         D = D\<lparr>barLengths := (barLengths D)[ct := barLength]\<rparr>
     in if b_start K ct = 0 \<or> b_end K ct = 0 then map_board_bars K cts (D\<lparr>barLengths := (barLengths D)[ct := 0]\<rparr>)
        else if barLength < 1 then map_board_bars K cts D
        else let D = D\<lparr>f_bar := (f_bar D)[ct := b_iomap K ct]\<rparr>
          in if b_iomap K ct = None then (- 1, [], D)
             else let (rc, l, D) = map_board_bars K cts D in (rc, (F_bar ct, 1) # l, D))"

fun unmap_board_bars :: "nat list \<Rightarrow> DevInfo_t \<Rightarrow> board_log \<times> DevInfo_t" where
  "unmap_board_bars [] D = ([], D)"
| "unmap_board_bars (ct # cts) D =
    (if f_bar D ! ct \<noteq> None
     then let (l, D) = unmap_board_bars cts (D\<lparr>f_bar := (f_bar D)[ct := None]\<rparr>) in ((F_bar ct, - 1) # l, D)
     else unmap_board_bars cts D)"

definition zero_info :: DevInfo_t where
  "zero_info = \<lparr>f_bar = replicate NUM_BARS None, barLengths = replicate NUM_BARS 0, f_buffer = False, f_sem = 0, userPID = 0\<rparr>"

text \<open>
  The results of \<open>setup_chrdev\<close>, \<open>kmalloc\<close>, \<open>pci_request_regions\<close> and \<open>map_bars\<close> are not looked at.
  The result holds \<open>devInfo\<close>, once it is stored in the device.
\<close>

definition board_probe :: "board_kernel \<Rightarrow> int \<times> board_log \<times> DevInfo_t option" where
  "board_probe K =
    (if \<not> b_zalloc K then (- 1, [], None)
     else let (_, l1) = setup_chrdev K;
              D = zero_info\<lparr>userPID := - 1, f_buffer := b_kmalloc K\<rparr>;
              l1 = (F_info, 1) # l1 @ (if b_kmalloc K then [(F_buffer, 1)] else [])
       in if \<not> b_enable K then (- 1, l1, Some D)
          else let (_, l2, D) = map_board_bars K [0..<NUM_BARS] D
            in (0, l1 @ [(F_enabled, 1)] @ (if b_request K then [(F_regions, 1)] else []) @ l2, Some (D\<lparr>f_sem := 1\<rparr>)))"

definition board_remove :: "DevInfo_t option \<Rightarrow> board_log" where
  "board_remove info =
    (case info of
       None \<Rightarrow> []
     | Some D \<Rightarrow>
         [(F_cdev, - 1), (F_region, - 1)] @ fst (unmap_board_bars [0..<NUM_BARS] D) @ [(F_regions, - 1), (F_enabled, - 1)] @
         (if f_buffer D then [(F_buffer, - 1)] else []) @ [(F_info, - 1)])"

text \<open>
  The variant for another board, \<open>src/MTE/vcu108_memcpy/FPGA.c\<close>, maps its BARs with a function of its
  own, which takes the device not from its arguments but from a local pointer that is never set.
  \<open>stray\<close> is BAR 0 of the device this pointer happens to lead to; if it leads to none, that is a fault.
  \<open>wc\<close> is \<open>ioremap_wc\<close>.
\<close>

record pci_bar =
  r_start :: u64
  r_len :: u64
  r_io :: bool
  r_mem :: bool

definition pci_iomap_wc_range :: "pci_bar option \<Rightarrow> (u64 \<Rightarrow> u64 \<Rightarrow> u64 option) \<Rightarrow> u64 \<Rightarrow> u64 \<Rightarrow> u64 option option" where
  "pci_iomap_wc_range stray wc offset maxlen = do {
     r \<leftarrow> stray;
     Some (if r_io r then None
       else if r_len r \<le> offset \<or> r_start r = 0 then None
       else let len = r_len r - offset;
                start = r_start r + offset;
                len = (if maxlen \<noteq> 0 \<and> maxlen < len then maxlen else len)
         in if r_mem r then wc start len else None)
   }"

definition pci_iomap_wc :: "pci_bar option \<Rightarrow> (u64 \<Rightarrow> u64 \<Rightarrow> u64 option) \<Rightarrow> u64 \<Rightarrow> u64 option option" where
  "pci_iomap_wc stray wc maxlen = pci_iomap_wc_range stray wc 0 maxlen"

fun vcu_map_bars :: "pci_bar option \<Rightarrow> (u64 \<Rightarrow> u64 \<Rightarrow> u64 option) \<Rightarrow> board_kernel \<Rightarrow> nat list \<Rightarrow> DevInfo_t \<Rightarrow>
    (int \<times> board_log \<times> DevInfo_t) option" where
  "vcu_map_bars stray wc K [] D = Some (0, [], D)"
| "vcu_map_bars stray wc K (ct # cts) D =
    (let barLength = b_end K ct - b_start K ct + 1;
         D = D\<lparr>barLengths := (barLengths D)[ct := barLength]\<rparr>
     in if b_start K ct = 0 \<or> b_end K ct = 0 then vcu_map_bars stray wc K cts (D\<lparr>barLengths := (barLengths D)[ct := 0]\<rparr>)
        else if barLength < 1 then vcu_map_bars stray wc K cts D
        else do {
          m \<leftarrow> pci_iomap_wc stray wc barLength;
          let D = D\<lparr>f_bar := (f_bar D)[ct := m]\<rparr>;
          (if m = None then Some (- 1, [], D)
           else do { (rc, l, D) \<leftarrow> vcu_map_bars stray wc K cts D; Some (rc, (F_bar ct, 1) # l, D) })
        })"

section \<open>Copying\<close>

text \<open>The bytes \<open>[a, a + n)\<close> belong to the process.\<close>

definition owns :: "user_mem \<Rightarrow> u64 \<Rightarrow> nat \<Rightarrow> bool" where
  "owns um a n \<longleftrightarrow> (\<forall>j < n. um (a + of_nat j) \<noteq> None)"

definition user_bytes :: "user_mem \<Rightarrow> u64 \<Rightarrow> nat \<Rightarrow> u8 list" where
  "user_bytes um a n = map (\<lambda>j. the (um (a + of_nat j))) [0..<n]"

lemma owns_Suc: "owns um a (Suc n) \<longleftrightarrow> um a \<noteq> None \<and> owns um (a + 1) n"
  by (auto simp: owns_def less_Suc_eq_0_disj add.assoc)

lemma user_bytes_Suc: "user_bytes um a (Suc n) = the (um a) # user_bytes um (a + 1) n"
  by (simp add: user_bytes_def upt_conv_Cons map_Suc_upt [symmetric] add.assoc comp_def del: upt_Suc)

lemma length_user_bytes [simp]: "length (user_bytes um a n) = n"
  by (simp add: user_bytes_def)

lemma copy_in_owns: "owns um a n \<Longrightarrow> copy_in um a n = user_bytes um a n"
  by (induction um a n rule: copy_in.induct) (auto simp: owns_Suc user_bytes_Suc, simp add: user_bytes_def)

lemma copy_in_length [simp]: "length (copy_in um a n) = n"
  by (induction um a n rule: copy_in.induct) (auto split: option.splits)

lemma copy_in_zeros: "\<forall>j < n. um (a + of_nat j) = None \<Longrightarrow> copy_in um a n = replicate n 0"
  by (cases n) (auto dest: spec [of _ 0])

text \<open>The process memory with \<open>bs\<close> at \<open>a\<close>.\<close>

definition user_put :: "u64 \<Rightarrow> u8 list \<Rightarrow> user_mem \<Rightarrow> user_mem" where
  "user_put a bs um = (\<lambda>x. if unat (x - a) < length bs then Some (bs ! unat (x - a)) else um x)"

lemma unat_minus_one_iff: "x \<noteq> a \<Longrightarrow> unat (x - (a + 1)) = unat (x - a) - 1" for x a :: u64
  using unat_minus_one [of "x - a"] by (simp add: algebra_simps)

lemma copy_out_owns: "owns um a (length bs) \<Longrightarrow> length bs < 2 ^ 64 \<Longrightarrow> copy_out um a bs = user_put a bs um"
proof (induction bs arbitrary: um a)
  case (Cons b bs)
  have o: "owns (um(a := Some b)) (a + 1) (length bs)" using Cons.prems(1) unfolding list.size(4) add_0_right add_Suc_right owns_Suc
    by (simp add: owns_def)
  have "user_put (a + 1) bs (um(a := Some b)) = user_put a (b # bs) um"
  proof
    fix x
    show "user_put (a + 1) bs (um(a := Some b)) x = user_put a (b # bs) um x"
    proof (cases "x = a")
      case True
      have "unat (- 1 :: u64) = 2 ^ 64 - 1" by (simp add: unsigned_minus_1_eq_mask mask_eq_exp_minus_1)
      then show ?thesis using True Cons.prems(2) by (simp add: user_put_def)
    next
      case False
      then have "unat (x - a) \<noteq> 0" by (simp add: unat_eq_zero)
      then show ?thesis using False unat_minus_one_iff [OF False] by (auto simp: user_put_def nth_Cons split: nat.splits)
    qed
  qed
  moreover have "copy_out (um(a := Some b)) (a + 1) bs = user_put (a + 1) bs (um(a := Some b))"
    by (rule Cons.IH [OF o]) (use Cons.prems(2) in simp)
  moreover have "um a \<noteq> None" using Cons.prems(1) by (simp add: owns_Suc)
  ultimately show ?case by auto
qed (simp add: user_put_def)

lemma user_put_bytes:
  assumes "length bs \<le> 2 ^ 64" "j < length bs"
  shows "user_put a bs um (a + of_nat j) = Some (bs ! j)"
proof -
  have "j < 2 ^ 64" using assms by linarith
  then have "unat (of_nat j :: u64) = j" unfolding unsigned_of_nat by (simp add: take_bit_nat_eq_self)
  then show ?thesis using assms(2) by (simp add: user_put_def)
qed

section \<open>The loop over the pages\<close>

text \<open>The BAR with \<open>bs\<close> at \<open>off\<close>.\<close>

definition bar_put :: "nat \<Rightarrow> nat \<Rightarrow> u8 list \<Rightarrow> fpga \<Rightarrow> fpga" where
  "bar_put i off bs w =
    w\<lparr>bar_mem := (bar_mem w)(i := \<lambda>x. if off \<le> x \<and> x < off + length bs then bs ! (x - off) else bar_mem w i x)\<rparr>"

lemma bar_put_sel [simp]: "dev_info (bar_put i off bs w) = dev_info w" "user (bar_put i off bs w) = user w"
  by (simp_all add: bar_put_def)

lemma bar_put_append: "bar_put i (off + length xs) ys (bar_put i off xs w) = bar_put i off (xs @ ys) w"
  by (rule fpga.equality) (auto simp: bar_put_def fun_eq_iff nth_append)

lemma bar_put_Nil [simp]: "bar_put i off [] w = w"
  by (rule fpga.equality) (auto simp: bar_put_def fun_eq_iff)

lemma in_bar_part: "in_bar D i off n \<Longrightarrow> off \<le> off' \<Longrightarrow> off' + n' \<le> off + n \<Longrightarrow> in_bar D i off' n'"
  by (simp add: in_bar_def)

lemma write_chunk:
  "f_buffer (dev_info w) \<Longrightarrow> in_bar (dev_info w) i off n \<Longrightarrow>
   rw_chunk False i off ua n w = Some (bar_put i off (copy_in (user w) ua n) w)"
  by (simp add: rw_chunk_def memcpy_toio_def bar_put_def)

text \<open>The bytes of one call of \<open>copy_from_user\<close> for each page; for memory of the process they are its bytes.\<close>

function page_bytes :: "user_mem \<Rightarrow> u64 \<Rightarrow> nat \<Rightarrow> nat \<Rightarrow> u8 list" where
  "page_bytes um ua d 0 = []"
| "page_bytes um ua d (Suc c) = (let n = min (Suc c) BUFFER_SIZE
     in copy_in um (ua + of_nat d) n @ page_bytes um ua (d + n) (Suc c - n))"
  by pat_completeness auto

termination page_bytes
  by (relation "measure (\<lambda>(_, _, _, c). c)") (auto simp: BUFFER_SIZE_def)

lemma length_page_bytes [simp]: "length (page_bytes um ua d c) = c"
  by (induction um ua d c rule: page_bytes.induct) (simp_all add: Let_def del: copy_in.simps)

lemma user_bytes_append: "user_bytes um a n @ user_bytes um (a + of_nat n) m = user_bytes um a (n + m)"
  by (rule nth_equalityI) (auto simp: user_bytes_def nth_append algebra_simps)

lemma owns_part: "owns um a n \<Longrightarrow> d + m \<le> n \<Longrightarrow> owns um (a + of_nat d) m"
  unfolding owns_def by (metis (no_types, lifting) add.assoc add_less_cancel_left of_nat_add order_less_le_trans)

lemma page_bytes_owns: "owns um (ua + of_nat d) c \<Longrightarrow> page_bytes um ua d c = user_bytes um (ua + of_nat d) c"
proof (induction um ua d c rule: page_bytes.induct)
  case (2 um ua d c)
  define n where "n = min (Suc c) BUFFER_SIZE"
  have n: "n \<le> Suc c" by (simp add: n_def)
  have "owns um (ua + of_nat d) n" using owns_part [OF "2.prems", of 0 n] n by simp
  moreover have "owns um (ua + of_nat (d + n)) (Suc c - n)" using owns_part [OF "2.prems", of n "Suc c - n"] n by (simp add: add.assoc)
  ultimately show ?case
    using "2.IH" [OF n_def] user_bytes_append [of um "ua + of_nat d" n "Suc c - n"] n
    by (simp add: n_def [symmetric] copy_in_owns add.assoc del: copy_in.simps)
qed (simp add: user_bytes_def)

lemma write_loop:
  "f_buffer (dev_info w) \<Longrightarrow> in_bar (dev_info w) i (addr + d) c \<Longrightarrow>
   rw_loop False i addr ua c d w = Some (d + c, bar_put i (addr + d) (page_bytes (user w) ua d c) w)"
proof (induction c arbitrary: d w rule: less_induct)
  case (less c)
  show ?case
  proof (cases c)
    case (Suc b)
    define n where "n = min (Suc b) BUFFER_SIZE"
    have n: "n \<le> c" "c - n < c" by (simp_all add: n_def Suc BUFFER_SIZE_def)
    let ?w = "bar_put i (addr + d) (copy_in (user w) (ua + of_nat d) n) w"
    have chunk: "rw_chunk False i (addr + d) (ua + of_nat d) n w = Some ?w"
      using write_chunk [OF less.prems(1) in_bar_part [OF less.prems(2)]] n(1) by simp
    have "in_bar (dev_info ?w) i (addr + (d + n)) (c - n)"
      using in_bar_part [OF less.prems(2), of "addr + (d + n)" "c - n"] n(1) by simp
    then have "rw_loop False i addr ua (c - n) (d + n) ?w =
        Some (d + n + (c - n), bar_put i (addr + (d + n)) (page_bytes (user ?w) ua (d + n) (c - n)) ?w)"
      using less.IH [OF n(2), of ?w "d + n"] less.prems(1) by simp
    then show ?thesis using n(1) chunk bar_put_append [of i "addr + d" "copy_in (user w) (ua + of_nat d) n"]
      by (simp add: Suc n_def [symmetric] Let_def add.assoc del: copy_in.simps)
  qed simp
qed

lemma user_put_append:
  assumes "length xs + length ys < 2 ^ 64"
  shows "user_put (a + of_nat (length xs)) ys (user_put a xs um) = user_put a (xs @ ys) um"
proof
  fix x :: u64
  have l: "unat (of_nat (length xs) :: u64) = length xs"
    unfolding unsigned_of_nat using assms by (simp add: take_bit_nat_eq_self)
  have "unat (x - (a + of_nat (length xs))) = unat (x - a - of_nat (length xs))" by (simp add: algebra_simps)
  also have "\<dots> = (if length xs \<le> unat (x - a) then unat (x - a) - length xs else unat (x - a) + 2 ^ 64 - length xs)"
    using unat_sub_if' [of "x - a" "of_nat (length xs)"] by (simp add: l)
  finally have d: "unat (x - (a + of_nat (length xs))) =
    (if length xs \<le> unat (x - a) then unat (x - a) - length xs else unat (x - a) + 2 ^ 64 - length xs)" .
  show "user_put (a + of_nat (length xs)) ys (user_put a xs um) x = user_put a (xs @ ys) um x"
    using assms by (auto simp: user_put_def d nth_append split: if_splits)
qed

lemma owns_put: "owns um a n \<Longrightarrow> owns (user_put b bs um) a n"
  by (simp add: owns_def user_put_def)

definition bar_bytes :: "fpga \<Rightarrow> nat \<Rightarrow> nat \<Rightarrow> nat \<Rightarrow> u8 list" where
  "bar_bytes w i off n = map (\<lambda>j. bar_mem w i (off + j)) [0..<n]"

lemma length_bar_bytes [simp]: "length (bar_bytes w i off n) = n"
  by (simp add: bar_bytes_def)

lemma bar_bytes_append: "bar_bytes w i off n @ bar_bytes w i (off + n) m = bar_bytes w i off (n + m)"
  by (rule nth_equalityI) (auto simp: bar_bytes_def nth_append add.assoc)

lemma bar_bytes_user [simp]: "bar_bytes (w\<lparr>user := um\<rparr>) i off n = bar_bytes w i off n"
  by (simp add: bar_bytes_def)

lemma bar_bytes_put: "bar_bytes (bar_put i off bs w) i off (length bs) = bs"
  by (rule nth_equalityI) (simp_all add: bar_bytes_def bar_put_def)

lemma read_chunk:
  "f_buffer (dev_info w) \<Longrightarrow> in_bar (dev_info w) i off n \<Longrightarrow>
   rw_chunk True i off ua n w = Some (w\<lparr>user := copy_out (user w) ua (bar_bytes w i off n)\<rparr>)"
  by (simp add: rw_chunk_def memcpy_fromio_def bar_bytes_def)

lemma read_loop:
  "f_buffer (dev_info w) \<Longrightarrow> in_bar (dev_info w) i (addr + d) c \<Longrightarrow> owns (user w) (ua + of_nat d) c \<Longrightarrow> c < 2 ^ 64 \<Longrightarrow>
   rw_loop True i addr ua c d w = Some (d + c, w\<lparr>user := user_put (ua + of_nat d) (bar_bytes w i (addr + d) c) (user w)\<rparr>)"
proof (induction c arbitrary: d w rule: less_induct)
  case (less c)
  show ?case
  proof (cases c)
    case 0
    have "user_put a [] um = um" for a um by (simp add: user_put_def)
    then show ?thesis by (simp add: 0 bar_bytes_def)
  next
    case (Suc b)
    define n where "n = min (Suc b) BUFFER_SIZE"
    have n: "n \<le> c" "c - n < c" by (simp_all add: n_def Suc BUFFER_SIZE_def)
    let ?um = "user_put (ua + of_nat d) (bar_bytes w i (addr + d) n) (user w)"
    have "owns (user w) (ua + of_nat d) n" using owns_part [OF less.prems(3), of 0 n] n(1) by simp
    then have out: "copy_out (user w) (ua + of_nat d) (bar_bytes w i (addr + d) n) = ?um"
      using copy_out_owns [of "user w" "ua + of_nat d" "bar_bytes w i (addr + d) n"] n(1) less.prems(4) by simp
    have chunk: "rw_chunk True i (addr + d) (ua + of_nat d) n w = Some (w\<lparr>user := ?um\<rparr>)"
      using read_chunk [OF less.prems(1) in_bar_part [OF less.prems(2)], of "addr + d" n] n(1) by (simp add: out)
    have "in_bar (dev_info w) i (addr + (d + n)) (c - n)"
      using in_bar_part [OF less.prems(2), of "addr + (d + n)" "c - n"] n(1) by simp
    moreover have "owns ?um (ua + of_nat (d + n)) (c - n)"
      using owns_put [OF owns_part [OF less.prems(3), of n "c - n"]] n(1) by (simp add: add.assoc)
    ultimately have rest: "rw_loop True i addr ua (c - n) (d + n) (w\<lparr>user := ?um\<rparr>) =
        Some (d + n + (c - n), w\<lparr>user := user_put (ua + of_nat (d + n)) (bar_bytes w i (addr + (d + n)) (c - n)) ?um\<rparr>)"
      using less.IH [OF n(2), of "w\<lparr>user := ?um\<rparr>" "d + n"] less.prems(1,4) by simp
    have "user_put (ua + of_nat (d + n)) (bar_bytes w i (addr + (d + n)) (c - n)) ?um =
        user_put (ua + of_nat d) (bar_bytes w i (addr + d) c) (user w)"
      using user_put_append [of "bar_bytes w i (addr + d) n" "bar_bytes w i (addr + (d + n)) (c - n)" "ua + of_nat d" "user w"]
        bar_bytes_append [of w i "addr + d" n "c - n"] n(1) less.prems(4) by (simp add: add.assoc)
    then show ?thesis using chunk rest n(1) unfolding Suc by (simp add: n_def [symmetric] Let_def)
  qed
qed

text \<open>Whatever the process owns: the loop runs to the end within the BAR, and faults outside.\<close>

lemma rw_loop_total:
  "f_buffer (dev_info w) \<Longrightarrow> c \<noteq> 0 \<Longrightarrow>
   (case rw_loop rw i addr ua c d w of None \<Rightarrow> \<not> in_bar (dev_info w) i (addr + d) c
    | Some (m, w') \<Rightarrow> in_bar (dev_info w) i (addr + d) c \<and> m = d + c \<and> dev_info w' = dev_info w)"
proof (induction c arbitrary: d w rule: less_induct)
  case (less c)
  obtain b where b: "c = Suc b" using less.prems(2) by (cases c) auto
  define n where "n = min (Suc b) BUFFER_SIZE"
  have n: "n \<le> c" "c - n < c" "n \<noteq> 0" by (simp_all add: n_def b BUFFER_SIZE_def)
  have unfold: "rw_loop rw i addr ua c d w = do {
      w \<leftarrow> rw_chunk rw i (addr + d) (ua + of_nat d) n w; rw_loop rw i addr ua (c - n) (d + n) w }"
    unfolding b by (simp add: n_def [symmetric] Let_def)
  show ?case
  proof (cases "in_bar (dev_info w) i (addr + d) n")
    case True
    then obtain w1 where w1: "rw_chunk rw i (addr + d) (ua + of_nat d) n w = Some w1" "dev_info w1 = dev_info w"
      using write_chunk [OF less.prems(1)] read_chunk [OF less.prems(1)] by (cases rw) fastforce+
    have part: "in_bar (dev_info w) i (addr + d) c \<longleftrightarrow> in_bar (dev_info w) i (addr + (d + n)) (c - n)"
      using True n(1) by (auto simp: in_bar_def)
    show ?thesis
    proof (cases "c - n = 0")
      case True
      then have "c = n" using n(1) by simp
      then show ?thesis using \<open>in_bar (dev_info w) i (addr + d) n\<close> w1 unfolding unfold by simp
    next
      case False
      show ?thesis using less.IH [OF n(2), of w1 "d + n"] less.prems(1) w1 False part n(1) unfolding unfold
        by (auto split: option.splits)
    qed
  next
    case False
    then have "rw_chunk rw i (addr + d) (ua + of_nat d) n w = None"
      by (auto simp: rw_chunk_def memcpy_fromio_def memcpy_toio_def)
    moreover have "\<not> in_bar (dev_info w) i (addr + d) c" using False n(1) by (auto simp: in_bar_def)
    ultimately show ?thesis unfolding unfold by simp
  qed
qed

text \<open>A call of \<open>write\<close> or \<open>read\<close> whose command block names a range of the BAR and memory of the process.\<close>

lemma fpga_write_in:
  assumes "f_sem (dev_info w) \<noteq> 0" "f_buffer (dev_info w)" "in_bar (dev_info w) 0 (unat a) n"
    and "iocmd_of (copy_in (user w) buf 24) = \<lparr>barNum = 0, devAddr = a, userAddr = u\<rparr>" "owns (user w) u n"
  shows "fpga_write False buf n w = Some (int n, bar_put 0 (unat a) (user_bytes (user w) u n) w)"
  using write_loop [of w 0 "unat a" 0 n u] page_bytes_owns [of "user w" u 0 n] assms
  by (simp add: fpga_write_def rw_dispatcher_def NUM_BARS_def)

lemma fpga_read_in:
  assumes "f_sem (dev_info w) \<noteq> 0" "f_buffer (dev_info w)" "in_bar (dev_info w) 0 (unat a) n" "n < 2 ^ 64"
    and "iocmd_of (copy_in (user w) buf 24) = \<lparr>barNum = 0, devAddr = a, userAddr = u\<rparr>" "owns (user w) u n"
  shows "fpga_read False buf n w = Some (int n, w\<lparr>user := user_put u (bar_bytes w 0 (unat a) n) (user w)\<rparr>)"
  using read_loop [of w 0 "unat a" 0 n u] assms by (simp add: fpga_read_def rw_dispatcher_def NUM_BARS_def)

text \<open>
  Mapping the BARs of the other board: nothing is shown to go wrong only if the stray pointer leads to the
  device itself; then its one BAR is mapped as a whole, as \<open>pci_iomap\<close> does.
\<close>

lemma vcu_map_own:
  assumes "r_start r = b_start K 0" "r_len r = b_end K 0 - b_start K 0 + 1" "r_mem r" "\<not> r_io r" "r_len r \<noteq> 0"
    and "b_iomap K 0 = wc (b_start K 0) (r_len r)"
  shows "vcu_map_bars (Some r) wc K [0..<NUM_BARS] D = Some (map_board_bars K [0..<NUM_BARS] D)"
  using assms by (auto simp: NUM_BARS_def pci_iomap_wc_def pci_iomap_wc_range_def Let_def split: prod.split option.split)

lemma vcu_map_stray:
  assumes "b_start K 0 \<noteq> 0" "b_end K 0 \<noteq> 0" "b_end K 0 - b_start K 0 + 1 \<noteq> 0"
  shows "vcu_map_bars None wc K [0..<NUM_BARS] D = None"
proof -
  have "\<not> x < 1" if "x \<noteq> 0" for x :: u64 using that by (simp add: word_less_nat_alt unat_eq_zero)
  then show ?thesis using assms by (simp add: NUM_BARS_def pci_iomap_wc_def pci_iomap_wc_range_def Let_def)
qed

section \<open>Properties\<close>

text \<open>
  C34: what is written to the board is read back. A write whose command block names a range of the BAR
  and bytes of the process, followed by a read of the same range with another command block, leaves
  the written bytes at the address of the second block; both report the full count, in however many
  pages it is copied, and the write changes no other byte of the board.
\<close>

theorem write_read_roundtrip:
  assumes "f_sem (dev_info w) \<noteq> 0" "f_buffer (dev_info w)" "in_bar (dev_info w) 0 (unat a) n" "n < 2 ^ 64"
    and "iocmd_of (copy_in (user w) buf1 24) = \<lparr>barNum = 0, devAddr = a, userAddr = u1\<rparr>" "owns (user w) u1 n"
    and "iocmd_of (copy_in (user w) buf2 24) = \<lparr>barNum = 0, devAddr = a, userAddr = u2\<rparr>" "owns (user w) u2 n"
  shows "\<exists>w1 w2. fpga_write False buf1 n w = Some (int n, w1) \<and> fpga_read False buf2 n w1 = Some (int n, w2) \<and>
    user_bytes (user w2) u2 n = user_bytes (user w) u1 n \<and>
    bar_mem w1 = (bar_mem w)(0 := \<lambda>x. if unat a \<le> x \<and> x < unat a + n then user_bytes (user w) u1 n ! (x - unat a) else bar_mem w 0 x)"
proof -
  let ?w1 = "bar_put 0 (unat a) (user_bytes (user w) u1 n) w"
  let ?um = "user_put u2 (user_bytes (user w) u1 n) (user w)"
  have w: "fpga_write False buf1 n w = Some (int n, ?w1)" by (rule fpga_write_in [OF assms(1-3,5,6)])
  have "bar_bytes ?w1 0 (unat a) n = user_bytes (user w) u1 n" using bar_bytes_put [of 0 "unat a" "user_bytes (user w) u1 n" w] by simp
  then have r: "fpga_read False buf2 n ?w1 = Some (int n, ?w1\<lparr>user := ?um\<rparr>)"
    using fpga_read_in [of ?w1 a n buf2 u2] assms(1-4,7,8) by simp
  have "user_bytes ?um u2 n = user_bytes (user w) u1 n"
    by (rule nth_equalityI) (use user_put_bytes [of "user_bytes (user w) u1 n"] assms(4) in \<open>simp_all add: user_bytes_def [of ?um]\<close>)
  moreover have "bar_mem ?w1 = (bar_mem w)(0 := \<lambda>x. if unat a \<le> x \<and> x < unat a + n then user_bytes (user w) u1 n ! (x - unat a) else bar_mem w 0 x)"
    by (simp add: bar_put_def)
  ultimately show ?thesis using w r by auto
qed

text \<open>A board with a BAR of 64 bytes, and a process with two command blocks and two buffers of eight bytes.\<close>

definition demo_process :: user_mem where
  "demo_process x =
    (if x < 24 then Some (([0, 0, 0, 0, 0, 0, 0, 0, 16, 0, 0, 0, 0, 0, 0, 0, 64, 0, 0, 0, 0, 0, 0, 0] :: u8 list) ! unat x)
     else if x < 48 then Some (([0, 0, 0, 0, 0, 0, 0, 0, 16, 0, 0, 0, 0, 0, 0, 0, 128, 0, 0, 0, 0, 0, 0, 0] :: u8 list) ! (unat x - 24))
     else if x < 136 then Some (ucast x) else None)"

definition demo_board :: fpga where
  "demo_board = \<lparr>dev_info = \<lparr>f_bar = [Some 0xffff0000], barLengths = [64], f_buffer = True, f_sem = 1, userPID = 7\<rparr>,
     bar_mem = \<lambda>_ _. 0, user = demo_process\<rparr>"

lemma demo_commands:
  "iocmd_of (copy_in demo_process 0 24) = \<lparr>barNum = 0, devAddr = 16, userAddr = 64\<rparr>"
  "iocmd_of (copy_in demo_process 24 24) = \<lparr>barNum = 0, devAddr = 16, userAddr = 128\<rparr>"
  by code_simp+

lemma demo_owns: "owns demo_process 64 8" "owns demo_process 128 8"
  by code_simp+

theorem write_read_roundtrip_witness:
  "\<exists>w1 w2. fpga_write False 0 8 demo_board = Some (8, w1) \<and> fpga_read False 24 8 w1 = Some (8, w2) \<and>
     user_bytes (user w2) 128 8 = [64, 65, 66, 67, 68, 69, 70, 71]"
proof -
  have "user_bytes demo_process 64 8 = [64, 65, 66, 67, 68, 69, 70, 71]" by code_simp
  then show ?thesis
    using write_read_roundtrip [of demo_board 16 8 0 64 24 128] demo_commands demo_owns
    by (auto simp: demo_board_def in_bar_def)
qed

text \<open>
  No transfer ever fails. Of a request with a free semaphore for the one BAR there are only two
  ends: within the BAR it reports the full count, whatever of the addresses the process does not own,
  and outside it faults, since the range is compared with nothing. A write from memory that the
  process does not own puts zeros into the board.
\<close>

theorem transfers_unchecked:
  assumes "f_sem (dev_info w) \<noteq> 0" "f_buffer (dev_info w)" "n \<noteq> 0"
    and "iocmd_of (copy_in (user w) buf 24) = \<lparr>barNum = 0, devAddr = a, userAddr = u\<rparr>"
  shows "(case rw_dispatcher False buf n rw w of None \<Rightarrow> \<not> in_bar (dev_info w) 0 (unat a) n
      | Some (rc, w') \<Rightarrow> in_bar (dev_info w) 0 (unat a) n \<and> rc = int n) \<and>
    (in_bar (dev_info w) 0 (unat a) n \<and> (\<forall>j < n. user w (u + of_nat j) = None) \<longrightarrow>
      fpga_write False buf n w = Some (int n, bar_put 0 (unat a) (replicate n 0) w))"
proof
  have "rw_dispatcher False buf n rw w = map_option (\<lambda>(m, w). (int m, w)) (rw_loop rw 0 (unat a) u n 0 w)" for rw
    using assms(1,4) by (cases "rw_loop rw 0 (unat a) u n 0 w") (auto simp: rw_dispatcher_def NUM_BARS_def)
  note d = this
  show "case rw_dispatcher False buf n rw w of None \<Rightarrow> \<not> in_bar (dev_info w) 0 (unat a) n
      | Some (rc, w') \<Rightarrow> in_bar (dev_info w) 0 (unat a) n \<and> rc = int n"
    using rw_loop_total [OF assms(2,3), where rw = rw and i = 0 and addr = "unat a" and ua = u and d = 0] by (auto simp: d split: option.splits)
  have z: "page_bytes um u d c = replicate c 0" if "\<forall>j < d + c. um (u + of_nat j) = None" for um d c
    using that
  proof (induction um u d c rule: page_bytes.induct)
    case (2 um ua d c)
    define m where "m = min (Suc c) BUFFER_SIZE"
    have m: "m \<le> Suc c" by (simp add: m_def)
    have "\<forall>j < m. um (ua + of_nat d + of_nat j) = None"
    proof (intro allI impI)
      fix j assume "j < m"
      then have "d + j < d + Suc c" using m by simp
      then have "um (ua + of_nat (d + j)) = None" using "2.prems" by blast
      then show "um (ua + of_nat d + of_nat j) = None" by (simp add: add.assoc)
    qed
    then have "copy_in um (ua + of_nat d) m = replicate m 0" by (rule copy_in_zeros)
    moreover have "page_bytes um ua (d + m) (Suc c - m) = replicate (Suc c - m) 0" using "2.IH" [OF m_def] "2.prems" m by simp
    ultimately show ?case using m by (simp add: m_def [symmetric] replicate_add [symmetric] del: copy_in.simps replicate.simps)
  qed simp
  show "in_bar (dev_info w) 0 (unat a) n \<and> (\<forall>j < n. user w (u + of_nat j) = None) \<longrightarrow>
      fpga_write False buf n w = Some (int n, bar_put 0 (unat a) (replicate n 0) w)"
    using write_loop [of w 0 "unat a" 0 n u] assms(2) z [of 0 n "user w"] by (simp add: fpga_write_def d)
qed

theorem transfers_unchecked_witness:
  "rw_dispatcher False 0 64 True demo_board = None \<and>
   (\<exists>w'. rw_dispatcher False 0 48 True demo_board = Some (48, w')) \<and> (demo_process 136 = None)"
proof -
  have h: "f_sem (dev_info demo_board) \<noteq> 0" "f_buffer (dev_info demo_board)" "user demo_board = demo_process"
    by (simp_all add: demo_board_def)
  note t = transfers_unchecked [OF h(1,2) _ demo_commands(1) [folded h(3)], where rw = True]
  have "rw_dispatcher False 0 64 True demo_board = None"
    using t [where n = 64] by (auto simp: demo_board_def in_bar_def split: option.splits)
  moreover have "\<exists>w'. rw_dispatcher False 0 48 True demo_board = Some (48, w')"
    using t [where n = 48] by (auto simp: demo_board_def in_bar_def split: option.splits)
  ultimately show ?thesis by (simp add: demo_process_def)
qed

text \<open>
  Removing the board undoes probing it if and only if nothing was refused that probing does not
  look at. Probing succeeds as soon as there is memory for its structure and the device can be
  enabled; what removing then gives back is what was taken exactly if the number and the character
  device were granted and the regions were free.
\<close>

theorem board_remove_undoes_probe:
  assumes "b_zalloc K" "b_enable K"
  shows "\<exists>l D. board_probe K = (0, l, Some D) \<and>
    ((\<forall>r. balance (l @ board_remove (Some D)) r = 0) \<longleftrightarrow> b_region K \<and> b_cdev K \<and> b_request K)"
proof -
  have all: "(\<forall>r. P r) \<longleftrightarrow> P F_info \<and> P F_region \<and> P F_cdev \<and> P F_buffer \<and> P F_enabled \<and> P F_regions \<and> (\<forall>i. P (F_bar i))" for P
    by (metis board_res.exhaust)
  obtain rc l2 D where m: "map_board_bars K [0] (zero_info\<lparr>userPID := - 1, f_buffer := b_kmalloc K\<rparr>) = (rc, l2, D)"
    by (cases "map_board_bars K [0] (zero_info\<lparr>userPID := - 1, f_buffer := b_kmalloc K\<rparr>)")
  have D: "f_buffer D = b_kmalloc K" "l2 = (if f_bar D ! 0 = None then [] else [(F_bar 0, 1)])"
    using m by (auto simp: zero_info_def NUM_BARS_def Let_def split: if_splits option.splits)
  obtain l1 c where s: "setup_chrdev K = (c, l1)" "l1 = (if b_region K then (F_region, 1) # (if b_cdev K then [(F_cdev, 1)] else []) else [])"
    by (cases "setup_chrdev K") (auto simp: setup_chrdev_def split: if_splits)
  define l where "l = (F_info, 1) # l1 @ (if b_kmalloc K then [(F_buffer, 1)] else []) @ [(F_enabled, 1)] @
    (if b_request K then [(F_regions, 1)] else []) @ l2"
  have "board_probe K = (0, l, Some (D\<lparr>f_sem := 1\<rparr>))"
    using assms m s(1) by (simp add: board_probe_def NUM_BARS_def l_def)
  moreover have "(\<forall>r. balance (l @ board_remove (Some (D\<lparr>f_sem := 1\<rparr>))) r = 0) \<longleftrightarrow> b_region K \<and> b_cdev K \<and> b_request K"
    unfolding all l_def s(2) D(2) by (auto simp: balance_def board_remove_def D(1) NUM_BARS_def)
  ultimately show ?thesis by blast
qed

definition easy_board :: board_kernel where
  "easy_board = \<lparr>b_zalloc = True, b_region = True, b_cdev = True, b_kmalloc = True, b_enable = True, b_request = True,
     b_start = \<lambda>_. 0x1000, b_end = \<lambda>_. 0x1fff, b_iomap = \<lambda>_. Some 0xffff0000\<rparr>"

theorem board_remove_undoes_probe_witness:
  "\<exists>l D. board_probe easy_board = (0, l, Some D) \<and> balance (l @ board_remove (Some D)) (F_bar 0) = 0"
  using board_remove_undoes_probe [of easy_board] by (auto simp: easy_board_def)

end
