(* ===== verification/Virtex.thy ===== *)
theory Virtex
  imports Fpga
begin

text \<open>
  The first drivers of the Virtex-7 board, before the DMA driver: \<open>src/MTE/vc707/driver.c\<close>, its
  predecessor \<open>src/old_driver/driver.c\<close> and the experiment \<open>src/test/driver.c\<close>. A file gives a process
  the memory behind BAR 0, word by word, at the position of the file. The two static arrays of the
  driver, through which every transfer goes, are byte stores; the memory of the process is as in
  \<open>Fpga\<close>.
\<close>

unbundle bit_operations_syntax

section \<open>State\<close>

text \<open>
  \<open>dev_data\<close> is allocated without being cleared, so the pointer to the character device is wild
  until \<open>pci_probe\<close> sets it; an allocated one has been added or not.
\<close>

datatype cdev_ptr = Wild | Nul | Allocated bool

record device_data =
  mmio_base :: u64
  mmio_length :: u64
  mmio_addr :: "u64 option"
  cdev :: cdev_ptr

text \<open>A class is created in \<open>old_driver\<close> only; \<open>class_create\<close> may return an error pointer.\<close>

datatype class_ptr = NoClass | ErrClass | Class | FreedClass

text \<open>Of the number \<open>pci_devt\<close> it matters whether it is one that was allocated and not given back.\<close>

record virtex =
  dev_data :: device_data
  pci_devt :: bool
  testClass :: class_ptr
  board :: "nat \<Rightarrow> u8"
  data_buf :: "nat \<Rightarrow> u8"
  value_buf :: "nat \<Rightarrow> u8"
  proc_mem :: user_mem

definition DATA_WORDS :: nat where "DATA_WORDS = 1048576"

text \<open>\<open>n\<close> bytes of a store, and a store with bytes put into it.\<close>

definition window :: "(nat \<Rightarrow> u8) \<Rightarrow> nat \<Rightarrow> nat \<Rightarrow> u8 list" where
  "window f off n = map (\<lambda>j. f (off + j)) [0..<n]"

definition overlay :: "nat \<Rightarrow> u8 list \<Rightarrow> (nat \<Rightarrow> u8) \<Rightarrow> nat \<Rightarrow> u8" where
  "overlay off bs f = (\<lambda>x. if off \<le> x \<and> x < off + length bs then bs ! (x - off) else f x)"

text \<open>The bytes of an integer in memory, lowest first, as \<open>le32\<close> reads them.\<close>

definition bytes32 :: "u32 \<Rightarrow> u8 list" where
  "bytes32 v = [ucast v, ucast (drop_bit 8 v), ucast (drop_bit 16 v), ucast (drop_bit 24 v)]"

section \<open>Access to the board\<close>

definition in_map :: "device_data \<Rightarrow> nat \<Rightarrow> nat \<Rightarrow> bool" where
  "in_map D off n \<longleftrightarrow> mmio_addr D \<noteq> None \<and> off + n \<le> unat (mmio_length D)"

definition iowrite32 :: "u32 \<Rightarrow> nat \<Rightarrow> virtex \<Rightarrow> virtex option" where
  "iowrite32 v off w = do {
     BUG_ON (\<not> in_map (dev_data w) off 4);
     Some (w\<lparr>board := overlay off (bytes32 v) (board w)\<rparr>)
   }"

definition ioread32 :: "nat \<Rightarrow> virtex \<Rightarrow> u32 option" where
  "ioread32 off w = do {
     BUG_ON (\<not> in_map (dev_data w) off 4);
     Some (le32 (window (board w) off 4) 0)
   }"

text \<open>The loops over consecutive words.\<close>

fun out_words :: "nat \<Rightarrow> u32 list \<Rightarrow> virtex \<Rightarrow> virtex option" where
  "out_words off [] w = Some w"
| "out_words off (v # vs) w = do { w \<leftarrow> iowrite32 v off w; out_words (off + 4) vs w }"

fun in_words :: "nat \<Rightarrow> nat \<Rightarrow> virtex \<Rightarrow> u32 list option" where
  "in_words off 0 w = Some []"
| "in_words off (Suc n) w = do { v \<leftarrow> ioread32 off w; vs \<leftarrow> in_words (off + 4) n w; Some (v # vs) }"

section \<open>The file of vc707/driver.c\<close>

text \<open>
  \<open>pci_write\<close> fills the static array \<open>data\<close> and writes it out from there, \<open>pci_read\<close> collects words in
  the static array \<open>value\<close> and copies that out. More than the array holds overruns it. The position
  is read and not moved. The two halves of a write are separate steps, as nothing locks the array.
\<close>

definition write_copy :: "u64 \<Rightarrow> nat \<Rightarrow> virtex \<Rightarrow> virtex option" where
  "write_copy buf count w = do {
     BUG_ON (4 * DATA_WORDS < count);
     Some (w\<lparr>data_buf := overlay 0 (copy_in (proc_mem w) buf count) (data_buf w)\<rparr>)
   }"

definition write_out :: "nat \<Rightarrow> nat \<Rightarrow> virtex \<Rightarrow> virtex option" where
  "write_out count pos w = out_words pos (map (\<lambda>i. le32 (window (data_buf w) (4 * i) 4) 0) [0..<count div 4]) w"

definition pci_write :: "u64 \<Rightarrow> nat \<Rightarrow> nat \<Rightarrow> virtex \<Rightarrow> (int \<times> nat \<times> virtex) option" where
  "pci_write buf count pos w = do {
     w \<leftarrow> write_copy buf count w;
     w \<leftarrow> write_out count pos w;
     Some (int count, pos, w)
   }"

definition pci_read :: "u64 \<Rightarrow> nat \<Rightarrow> nat \<Rightarrow> virtex \<Rightarrow> (int \<times> nat \<times> virtex) option" where
  "pci_read buf count pos w = do {
     BUG_ON (DATA_WORDS < count div 4);
     vs \<leftarrow> in_words pos (count div 4) w;
     let w = w\<lparr>value_buf := overlay 0 (concat (map bytes32 vs)) (value_buf w)\<rparr>;
     BUG_ON (4 * DATA_WORDS < count);
     Some (int count, pos, w\<lparr>proc_mem := copy_out (proc_mem w) buf (window (value_buf w) 0 count)\<rparr>)
   }"

definition pci_llseek :: "int \<Rightarrow> nat \<Rightarrow> nat \<Rightarrow> int \<times> nat" where
  "pci_llseek off whence f_pos =
    (if whence = 0 \<or> whence = 1
     then let newpos = (if whence = 0 then off else signed_take_bit 63 (int f_pos + off))
       in if newpos < 0 then (- EINVAL, f_pos) else (newpos, nat newpos)
     else (- EINVAL, f_pos))"

text \<open>Opening clears the private data of the file, which nothing sets and closing would free.\<close>

definition pci_open :: "bool \<Rightarrow> int \<times> bool" where
  "pci_open private_data = (0, False)"

definition pci_close :: "bool \<Rightarrow> int \<times> bool" where
  "pci_close private_data = (0, if private_data then False else private_data)"

text \<open>
  In \<open>old_driver/driver.c\<close> the same bodies end without a \<open>return\<close>: what the caller gets is whatever
  the register holds, here the argument \<open>junk\<close>.
\<close>

definition old_pci_write :: "int \<Rightarrow> u64 \<Rightarrow> nat \<Rightarrow> nat \<Rightarrow> virtex \<Rightarrow> (int \<times> nat \<times> virtex) option" where
  "old_pci_write junk buf count pos w = do {
     w \<leftarrow> write_copy buf count w;
     w \<leftarrow> write_out count pos w;
     Some (junk, pos, w)
   }"

definition old_pci_read :: "int \<Rightarrow> u64 \<Rightarrow> nat \<Rightarrow> nat \<Rightarrow> virtex \<Rightarrow> (int \<times> nat \<times> virtex) option" where
  "old_pci_read junk buf count pos w = do {
     BUG_ON (DATA_WORDS < count div 4);
     vs \<leftarrow> in_words pos (count div 4) w;
     let w = w\<lparr>value_buf := overlay 0 (concat (map bytes32 vs)) (value_buf w)\<rparr>;
     BUG_ON (4 * DATA_WORDS < count);
     Some (junk, pos, w\<lparr>proc_mem := copy_out (proc_mem w) buf (window (value_buf w) 0 count)\<rparr>)
   }"

section \<open>The file of test/driver.c\<close>

text \<open>
  Here every byte of the process is a word of the board: \<open>get_user\<close> reads a \<open>char\<close>, which is
  extended with its sign, \<open>put_user\<close> stores the lowest byte. A byte that cannot be read or written
  ends the loop after it has been counted.
\<close>

fun test_write_loop :: "u64 \<Rightarrow> nat \<Rightarrow> nat \<Rightarrow> nat \<Rightarrow> virtex \<Rightarrow> (nat \<times> nat \<times> virtex) option" where
  "test_write_loop buf write_num 0 pos w = Some (write_num, pos, w)"
| "test_write_loop buf write_num (Suc n) pos w =
    (case proc_mem w (buf + of_nat write_num) of
       None \<Rightarrow> Some (write_num + 1, pos, w)
     | Some val \<Rightarrow> do {
         w \<leftarrow> iowrite32 (scast val) pos w;
         test_write_loop buf (write_num + 1) n (pos + 4) w
       })"

definition test_pci_write :: "u64 \<Rightarrow> nat \<Rightarrow> nat \<Rightarrow> virtex \<Rightarrow> (int \<times> nat \<times> virtex) option" where
  "test_pci_write buf count pos w = do {
     (write_num, pos, w) \<leftarrow> test_write_loop buf 0 count pos w;
     Some (int write_num, pos, w)
   }"

fun test_read_loop :: "u64 \<Rightarrow> nat \<Rightarrow> nat \<Rightarrow> nat \<Rightarrow> virtex \<Rightarrow> (nat \<times> nat \<times> virtex) option" where
  "test_read_loop buf read_num 0 pos w = Some (read_num, pos, w)"
| "test_read_loop buf read_num (Suc n) pos w = do {
     val \<leftarrow> ioread32 pos w;
     (let a = buf + of_nat read_num
      in if proc_mem w a = None then Some (read_num + 1, pos, w)
         else test_read_loop buf (read_num + 1) n (pos + 4) (w\<lparr>proc_mem := (proc_mem w)(a := Some (ucast val))\<rparr>))
   }"

definition test_pci_read :: "u64 \<Rightarrow> nat \<Rightarrow> nat \<Rightarrow> virtex \<Rightarrow> (int \<times> nat \<times> virtex) option" where
  "test_pci_read buf count pos w = do {
     (read_num, pos, w) \<leftarrow> test_read_loop buf 0 count pos w;
     Some (int read_num, pos, w)
   }"

section \<open>Bringing the board up and down\<close>

datatype vres = V_info | V_enabled | V_mapped | V_region | V_devt | V_cdev_mem | V_cdev | V_irq | V_class | V_device

text \<open>The answers of the kernel for one board; zero is success where the kernel returns a code.\<close>

record virtex_kernel =
  v_enable :: int
  v_start :: u64
  v_len :: u64
  v_ioremap :: "u64 option"
  v_request :: int
  v_alloc :: int
  v_kmalloc :: bool
  v_cdev_add :: int
  v_class :: int
  v_device :: int

type_synonym virtex_log = "(vres \<times> int) list"

definition set_cdev :: "cdev_ptr \<Rightarrow> virtex \<Rightarrow> virtex" where
  "set_cdev c w = w\<lparr>dev_data := (dev_data w)\<lparr>cdev := c\<rparr>\<rparr>"

text \<open>A wild or null pointer given to \<open>cdev_del\<close> is a fault.\<close>

definition cdev_del :: "virtex \<Rightarrow> (virtex_log \<times> virtex) option" where
  "cdev_del w = (case cdev (dev_data w) of
       Allocated True \<Rightarrow> Some ([(V_cdev, - 1)], set_cdev (Allocated False) w)
     | Allocated False \<Rightarrow> Some ([], w)
     | _ \<Rightarrow> None)"

definition unregister_chrdev_region :: "virtex \<Rightarrow> virtex_log \<times> virtex" where
  "unregister_chrdev_region w = (if pci_devt w then ([(V_devt, - 1)], w\<lparr>pci_devt := False\<rparr>) else ([], w))"

text \<open>The label \<open>error\<close>: \<open>cdev_err\<close> and \<open>alloc_ret\<close> are 0 from the start.\<close>

definition probe_error :: "int \<Rightarrow> int \<Rightarrow> virtex_log \<Rightarrow> virtex \<Rightarrow> (int \<times> virtex_log \<times> virtex) option" where
  "probe_error alloc_ret cdev_err l w = do {
     (l, w) \<leftarrow> (if cdev_err = 0 then do { (l', w) \<leftarrow> cdev_del w; Some (l @ l', w) } else Some (l, w));
     let (l', w) = (if alloc_ret = 0 then unregister_chrdev_region w else ([], w));
     Some (- 1, l @ l', w)
   }"

definition map_board :: "virtex_kernel \<Rightarrow> virtex \<Rightarrow> virtex_log \<times> virtex" where
  "map_board K w =
    ((V_enabled, 1) # (if v_ioremap K = None then [] else [(V_mapped, 1)]),
     w\<lparr>dev_data := (dev_data w)\<lparr>mmio_base := v_start K, mmio_length := v_len K, mmio_addr := v_ioremap K\<rparr>\<rparr>)"

definition register_file :: "virtex_kernel \<Rightarrow> virtex_log \<Rightarrow> virtex \<Rightarrow> (int \<times> virtex_log \<times> virtex) option" where
  "register_file K l w =
    (if v_alloc K \<noteq> 0 then probe_error (v_alloc K) 0 l w
     else let w = w\<lparr>pci_devt := True\<rparr>; l = l @ [(V_devt, 1)]
       in if \<not> v_kmalloc K then probe_error 0 0 l (set_cdev Nul w)
          else if v_cdev_add K \<noteq> 0 then probe_error 0 (v_cdev_add K) (l @ [(V_cdev_mem, 1)]) (set_cdev (Allocated False) w)
          else Some (0, l @ [(V_cdev_mem, 1), (V_cdev, 1)], set_cdev (Allocated True) w))"

definition pci_probe :: "virtex_kernel \<Rightarrow> virtex \<Rightarrow> (int \<times> virtex_log \<times> virtex) option" where
  "pci_probe K w =
    (if v_enable K \<noteq> 0 then probe_error 0 0 [] w
     else let (l, w) = map_board K w
       in if v_request K \<noteq> 0 then probe_error 0 0 l w
          else register_file K (l @ [(V_region, 1)]) w)"

text \<open>The interrupt that \<open>pci_remove\<close> frees has never been requested.\<close>

definition pci_remove :: "virtex \<Rightarrow> (virtex_log \<times> virtex) option" where
  "pci_remove w = do {
     (l1, w) \<leftarrow> cdev_del w;
     let (l2, w) = unregister_chrdev_region w;
     Some (l1 @ l2 @ [(V_irq, - 1)] @ (if mmio_addr (dev_data w) = None then [] else [(V_mapped, - 1)]) @
       [(V_region, - 1), (V_enabled, - 1)], w)
   }"

text \<open>
  Loading registers the driver, which probes the boards that are present; the result counts those
  whose probe succeeded. Unloading removes these.
\<close>

fun probe_boards :: "virtex_kernel list \<Rightarrow> virtex \<Rightarrow> (nat \<times> virtex_log \<times> virtex) option" where
  "probe_boards [] w = Some (0, [], w)"
| "probe_boards (K # Ks) w = do {
     (rc, l, w) \<leftarrow> pci_probe K w;
     (n, l', w) \<leftarrow> probe_boards Ks w;
     Some ((if rc = 0 then n + 1 else n), l @ l', w)
   }"

definition pci_init :: "bool \<Rightarrow> virtex_kernel list \<Rightarrow> virtex \<Rightarrow> (int \<times> nat \<times> virtex_log \<times> virtex) option" where
  "pci_init kmalloc Ks w =
    (if \<not> kmalloc then Some (- 1, 0, [], w)
     else do {
       (n, l, w) \<leftarrow> probe_boards Ks (set_cdev Wild w);
       Some (0, n, (V_info, 1) # l, w)
     })"

fun remove_boards :: "nat \<Rightarrow> virtex \<Rightarrow> (virtex_log \<times> virtex) option" where
  "remove_boards 0 w = Some ([], w)"
| "remove_boards (Suc n) w = do {
     (l, w) \<leftarrow> pci_remove w;
     (l', w) \<leftarrow> remove_boards n w;
     Some (l @ l', w)
   }"

definition pci_exit :: "nat \<Rightarrow> virtex \<Rightarrow> (virtex_log \<times> virtex) option" where
  "pci_exit n w = do { (l, w) \<leftarrow> remove_boards n w; Some (l @ [(V_info, - 1)], w) }"

text \<open>
  \<open>old_driver/driver.c\<close> goes on to create a class and a device. Its \<open>unregister_chrdev\<close> on the error
  paths names 256 minor numbers where one was registered, and releases nothing.
\<close>

definition old_pci_probe :: "virtex_kernel \<Rightarrow> virtex \<Rightarrow> (int \<times> virtex_log \<times> virtex) option" where
  "old_pci_probe K w = do {
     (rc, l, w) \<leftarrow> pci_probe K w;
     Some (if rc \<noteq> 0 then (rc, l, w)
       else if v_class K \<noteq> 0 then (v_class K, l, w\<lparr>testClass := ErrClass\<rparr>)
       else if v_device K \<noteq> 0 then (v_device K, l @ [(V_class, 1), (V_class, - 1)], w\<lparr>testClass := FreedClass\<rparr>)
       else (0, l @ [(V_class, 1), (V_device, 1)], w\<lparr>testClass := Class\<rparr>))
   }"

definition class_unregister :: "virtex \<Rightarrow> (virtex_log \<times> virtex) option" where
  "class_unregister w = (case testClass w of Class \<Rightarrow> Some ([(V_class, - 1)], w\<lparr>testClass := FreedClass\<rparr>) | _ \<Rightarrow> None)"

definition class_destroy :: "virtex \<Rightarrow> (virtex_log \<times> virtex) option" where
  "class_destroy w = (if testClass w = NoClass \<or> testClass w = ErrClass then Some ([], w) else class_unregister w)"

text \<open>\<open>device_destroy\<close> finds nothing without a class, and a class that is not one is a fault.\<close>

definition old_pci_exit :: "nat \<Rightarrow> virtex \<Rightarrow> (virtex_log \<times> virtex) option" where
  "old_pci_exit n w = do {
     BUG_ON (testClass w = ErrClass \<or> testClass w = FreedClass);
     let l1 = (if testClass w = Class then [(V_device, - 1)] else []);
     (l2, w) \<leftarrow> class_unregister w;
     (l3, w) \<leftarrow> class_destroy w;
     (l4, w) \<leftarrow> pci_exit n w;
     Some (l1 @ l2 @ l3 @ l4, w)
   }"

text \<open>\<open>test/driver.c\<close> tries the board out while probing it: it fills memory from offset 0 on.\<close>

definition FILL_WORDS :: nat where "FILL_WORDS = 262145"
definition TRY_WORDS :: nat where "TRY_WORDS = 16384"

definition test_pci_probe :: "virtex_kernel \<Rightarrow> virtex \<Rightarrow> (int \<times> virtex_log \<times> virtex) option" where
  "test_pci_probe K w =
    (if v_enable K \<noteq> 0 then probe_error 0 0 [] w
     else let (l, w) = map_board K w
       in if v_request K \<noteq> 0 then probe_error 0 0 l w
          else do {
            w \<leftarrow> out_words 0 (replicate FILL_WORDS 0x12345677) w;
            _ \<leftarrow> ioread32 0 w;
            _ \<leftarrow> in_words 0 TRY_WORDS w;
            (rc, l, w) \<leftarrow> register_file K (l @ [(V_region, 1)]) w;
            (if rc \<noteq> 0 then Some (rc, l, w)
             else do {
               w \<leftarrow> out_words 0 (replicate TRY_WORDS 0x12345678) w;
               _ \<leftarrow> ioread32 65536 w;
               Some (0, l, w)
             })
          })"

section \<open>Words and bytes\<close>

lemma length_bytes32 [simp]: "length (bytes32 v) = 4"
  by (simp add: bytes32_def)

lemma length_window [simp]: "length (window f off n) = n"
  by (simp add: window_def)

lemma window_nth [simp]: "j < n \<Longrightarrow> window f off n ! j = f (off + j)"
  by (simp add: window_def)

lemma window_append: "window f off n @ window f (off + n) m = window f off (n + m)"
  by (rule nth_equalityI) (auto simp: nth_append add.assoc)

lemma window_take: "m \<le> n \<Longrightarrow> take m (window f off n) = window f off m"
  by (rule nth_equalityI) auto

lemma window_drop: "m \<le> n \<Longrightarrow> drop m (window f off n) = window f (off + m) (n - m)"
  by (rule nth_equalityI) (auto simp: add.assoc)

lemma window_overlay: "window (overlay off bs f) off (length bs) = bs"
  by (rule nth_equalityI) (simp_all add: overlay_def)

lemma window_overlay_part: "window (overlay off (bs @ cs) f) off (length bs) = bs"
  by (rule nth_equalityI) (simp_all add: overlay_def nth_append)

lemma window_overlay_other: "off + length bs \<le> p \<or> p + n \<le> off \<Longrightarrow> window (overlay off bs f) p n = window f p n"
  by (rule nth_equalityI) (auto simp: overlay_def)

lemma overlay_append: "overlay (off + length xs) ys (overlay off xs f) = overlay off (xs @ ys) f"
  by (auto simp: overlay_def fun_eq_iff nth_append)

lemma overlay_Nil [simp]: "overlay off [] f = f"
  by (auto simp: overlay_def fun_eq_iff)

lemma bit_horner_bytes:
  "bit (horner_sum ucast 256 bs :: 'a::len word) k \<longleftrightarrow> k < LENGTH('a) \<and> k < 8 * length bs \<and> bit (bs ! (k div 8)) (k mod 8)" for bs :: "u8 list"
proof (induction bs arbitrary: k)
  case (Cons b bs)
  have "horner_sum ucast 256 (b # bs) = ucast b + (push_bit 8 (horner_sum ucast 256 bs) :: 'a word)"
    by (simp add: push_bit_eq_mult mult.commute)
  also have "\<dots> = ucast b OR push_bit 8 (horner_sum ucast 256 bs)"
    by (rule disjunctive_add) (auto simp: bit_simps dest: bit_imp_le_length)
  finally have "horner_sum ucast 256 (b # bs) = ucast b OR (push_bit 8 (horner_sum ucast 256 bs) :: 'a word)" .
  then show ?case
    by (cases "k < 8") (auto simp: bit_simps Cons le_div_geq le_mod_geq not_less nth_Cons' dest: bit_imp_le_length)
qed simp

lemma bytes32_nth: "k < 4 \<Longrightarrow> bytes32 v ! k = ucast (drop_bit (8 * k) v)"
  by (auto simp: bytes32_def nth_Cons' less_Suc_eq numeral_eq_Suc)

lemma bytes32_le32:
  assumes "length bs = 4"
  shows "bytes32 (le32 bs 0) = bs"
proof (rule nth_equalityI)
  fix k assume "k < length (bytes32 (le32 bs 0))"
  then have k: "k < 4" by simp
  show "bytes32 (le32 bs 0) ! k = bs ! k"
    by (rule bit_word_eqI) (use k assms in \<open>auto simp: bytes32_nth le32_def bit_simps bit_horner_bytes\<close>)
qed (simp add: assms)

lemma le32_bytes32: "le32 (bytes32 v) 0 = v"
  by (rule bit_word_eqI) (auto simp: le32_def bit_horner_bytes bytes32_nth bit_simps)

section \<open>The loops\<close>

lemma in_map_part: "in_map D off n \<Longrightarrow> off \<le> p \<Longrightarrow> p + m \<le> off + n \<Longrightarrow> in_map D p m"
  by (simp add: in_map_def)

lemma length_concat_bytes32 [simp]: "length (concat (map bytes32 vs)) = 4 * length vs"
  by (induction vs) simp_all

text \<open>A run of words is one range of bytes; it faults as soon as the range leaves the mapping.\<close>

lemma out_words_in: "in_map (dev_data w) off (4 * length vs) \<Longrightarrow>
  out_words off vs w = Some (w\<lparr>board := overlay off (concat (map bytes32 vs)) (board w)\<rparr>)"
proof (induction off vs w rule: out_words.induct)
  case (2 off v vs w)
  have "in_map (dev_data w) off 4" by (rule in_map_part [OF "2.prems"]) simp_all
  then have s: "iowrite32 v off w = Some (w\<lparr>board := overlay off (bytes32 v) (board w)\<rparr>)" by (simp add: iowrite32_def)
  have "in_map (dev_data w) (off + 4) (4 * length vs)" by (rule in_map_part [OF "2.prems"]) simp_all
  then show ?case using "2.IH" [of "w\<lparr>board := overlay off (bytes32 v) (board w)\<rparr>"] overlay_append [of off "bytes32 v"]
    by (simp add: s)
qed simp

lemma out_words_out: "\<not> in_map (dev_data w) off (4 * length vs) \<Longrightarrow> vs \<noteq> [] \<Longrightarrow> out_words off vs w = None"
proof (induction off vs w rule: out_words.induct)
  case (2 off v vs w)
  show ?case
  proof (cases "in_map (dev_data w) off 4")
    case True
    then have "\<not> in_map (dev_data w) (off + 4) (4 * length vs)" "vs \<noteq> []" using "2.prems" by (auto simp: in_map_def)
    then show ?thesis using "2.IH" True by (simp add: iowrite32_def)
  qed (simp add: iowrite32_def)
qed simp

lemma in_words_in: "in_map (dev_data w) off (4 * n) \<Longrightarrow>
  \<exists>vs. in_words off n w = Some vs \<and> concat (map bytes32 vs) = window (board w) off (4 * n)"
proof (induction n arbitrary: off)
  case (Suc n)
  have "in_map (dev_data w) off 4" by (rule in_map_part [OF Suc.prems]) simp_all
  moreover have "in_map (dev_data w) (off + 4) (4 * n)" by (rule in_map_part [OF Suc.prems]) simp_all
  ultimately show ?case using Suc.IH [of "off + 4"] window_append [of "board w" off 4 "4 * n"]
    by (auto simp: ioread32_def bytes32_le32)
qed (simp add: window_def)

text \<open>The words taken from the static array are its bytes.\<close>

lemma array_words: "concat (map (\<lambda>i. window f (4 * i) 4) [0..<k]) = window f 0 (4 * k)"
proof (induction k)
  case (Suc k)
  have "concat (map (\<lambda>i. window f (4 * i) 4) [0..<Suc k]) = window f 0 (4 * k) @ window f (4 * k) 4"
    by (simp add: Suc.IH)
  also have "\<dots> = window f 0 (4 * Suc k)" using window_append [of f 0 "4 * k" 4] by (simp add: add.commute)
  finally show ?case .
qed (simp add: window_def)

lemma write_out_in:
  assumes "in_map (dev_data w) pos (4 * (n div 4))"
  shows "write_out n pos w = Some (w\<lparr>board := overlay pos (window (data_buf w) 0 (4 * (n div 4))) (board w)\<rparr>)"
  using out_words_in [of w pos "map (\<lambda>i. le32 (window (data_buf w) (4 * i) 4) 0) [0..<n div 4]"] assms
  by (simp add: write_out_def bytes32_le32 array_words comp_def)

lemma pci_write_in:
  assumes "in_map (dev_data w) pos (4 * (n div 4))" "n \<le> 4 * DATA_WORDS" "owns (proc_mem w) buf n"
  defines "bs \<equiv> user_bytes (proc_mem w) buf n"
  shows "pci_write buf n pos w =
    Some (int n, pos, w\<lparr>data_buf := overlay 0 bs (data_buf w), board := overlay pos (take (4 * (n div 4)) bs) (board w)\<rparr>)"
proof -
  let ?w = "w\<lparr>data_buf := overlay 0 bs (data_buf w)\<rparr>"
  have "window (data_buf ?w) 0 (4 * (n div 4)) = take (4 * (n div 4)) bs"
    using window_take [of "4 * (n div 4)" "length bs" "data_buf ?w" 0] window_overlay [of 0 bs "data_buf w"] by (simp add: bs_def)
  moreover have "write_copy buf n w = Some ?w"
    using assms(2,3) by (simp add: write_copy_def bs_def copy_in_owns)
  ultimately show ?thesis using write_out_in [of ?w pos n] assms(1) by (simp add: pci_write_def)
qed

lemma pci_read_in:
  assumes "in_map (dev_data w) pos (4 * (n div 4))" "n \<le> 4 * DATA_WORDS" "owns (proc_mem w) buf n"
  defines "bs \<equiv> window (board w) pos (4 * (n div 4)) @ window (value_buf w) (4 * (n div 4)) (n mod 4)"
  shows "\<exists>v. pci_read buf n pos w = Some (int n, pos, w\<lparr>value_buf := v, proc_mem := user_put buf bs (proc_mem w)\<rparr>)"
proof -
  obtain vs where vs: "in_words pos (n div 4) w = Some vs" "concat (map bytes32 vs) = window (board w) pos (4 * (n div 4))"
    using in_words_in [OF assms(1)] by blast
  define v where "v = overlay 0 (concat (map bytes32 vs)) (value_buf w)"
  have "window v 0 (4 * (n div 4)) = window (board w) pos (4 * (n div 4))"
    using window_overlay [of 0 "concat (map bytes32 vs)" "value_buf w"] vs(2) by (simp add: v_def)
  moreover have "window v (4 * (n div 4)) (n mod 4) = window (value_buf w) (4 * (n div 4)) (n mod 4)"
    using vs(2) by (simp add: v_def window_overlay_other)
  ultimately have "window v 0 n = bs" using window_append [of v 0 "4 * (n div 4)" "n mod 4"] by (simp add: bs_def)
  moreover have "length bs = n" by (simp add: bs_def)
  ultimately have "copy_out (proc_mem w) buf (window v 0 n) = user_put buf bs (proc_mem w)"
    using copy_out_owns [of "proc_mem w" buf bs] assms(2,3) by (simp add: DATA_WORDS_def)
  moreover have "n div 4 \<le> DATA_WORDS" using assms(2) by simp
  ultimately show ?thesis using vs(1) assms(2) by (auto simp: pci_read_def v_def not_less)
qed

lemma user_bytes_put: "length bs \<le> 2 ^ 64 \<Longrightarrow> user_bytes (user_put a bs um) a (length bs) = bs"
  by (rule nth_equalityI) (simp_all add: user_bytes_def user_put_bytes)

lemma pci_write_fails:
  "pci_write buf n pos w = None \<longleftrightarrow> 4 * DATA_WORDS < n \<or> 4 \<le> n \<and> \<not> in_map (dev_data w) pos (4 * (n div 4))"
proof (cases "4 * DATA_WORDS < n")
  case False
  let ?w = "w\<lparr>data_buf := overlay 0 (copy_in (proc_mem w) buf n) (data_buf w)\<rparr>"
  have n: "4 \<le> n \<longleftrightarrow> n div 4 \<noteq> 0" by (auto simp: div_eq_0_iff)
  have "write_out n pos ?w = None \<longleftrightarrow> n div 4 \<noteq> 0 \<and> \<not> in_map (dev_data w) pos (4 * (n div 4))"
    using out_words_out [of ?w pos "map (\<lambda>i. le32 (window (data_buf ?w) (4 * i) 4) 0) [0..<n div 4]"] write_out_in [of ?w pos n]
    by (cases "n div 4 = 0") (auto simp: write_out_def)
  then show ?thesis using False n by (auto simp: pci_write_def write_copy_def split: bind_split)
qed (simp add: pci_write_def write_copy_def)

text \<open>The two loops of the experiment, over the bytes of the process.\<close>

lemma test_write_loop_in:
  "\<lbrakk>owns (proc_mem w) (buf + of_nat m) k; k \<le> n; k < n \<Longrightarrow> proc_mem w (buf + of_nat (m + k)) = None; in_map (dev_data w) pos (4 * k)\<rbrakk> \<Longrightarrow>
   test_write_loop buf m n pos w = Some (m + min n (k + 1), pos + 4 * k,
     w\<lparr>board := overlay pos (concat (map (\<lambda>b. bytes32 (scast b)) (user_bytes (proc_mem w) (buf + of_nat m) k))) (board w)\<rparr>)"
proof (induction k arbitrary: m n pos w)
  case 0
  then show ?case by (cases n) (auto simp: user_bytes_def)
next
  case (Suc k)
  then obtain n' where n: "n = Suc n'" by (cases n) auto
  obtain b where b: "proc_mem w (buf + of_nat m) = Some b" "owns (proc_mem w) (buf + of_nat (m + 1)) k"
    using Suc.prems(1) by (auto simp: owns_Suc add.commute add.left_commute)
  let ?w = "w\<lparr>board := overlay pos (bytes32 (scast b)) (board w)\<rparr>"
  have "in_map (dev_data w) pos 4" "in_map (dev_data w) (pos + 4) (4 * k)" by (rule in_map_part [OF Suc.prems(4)]; simp)+
  then have "test_write_loop buf (m + 1) n' (pos + 4) ?w = Some (m + 1 + min n' (k + 1), pos + 4 + 4 * k,
      ?w\<lparr>board := overlay (pos + 4) (concat (map (\<lambda>b. bytes32 (scast b)) (user_bytes (proc_mem w) (buf + of_nat (m + 1)) k))) (board ?w)\<rparr>)"
    and "iowrite32 (scast b) pos w = Some ?w"
    using Suc.IH [of ?w "m + 1" n' "pos + 4"] Suc.prems(2,3) b(2) n by (auto simp: iowrite32_def)
  then show ?case using overlay_append [of pos "bytes32 (scast b)"] b(1) n
    by (simp add: user_bytes_Suc add.commute add.left_commute)
qed

lemma test_read_loop_in:
  "\<lbrakk>owns (proc_mem w) (buf + of_nat m) (length bs); in_map (dev_data w) pos (4 * length bs);
    window (board w) pos (4 * length bs) = concat (map (\<lambda>b. bytes32 (scast b)) bs)\<rbrakk> \<Longrightarrow>
   test_read_loop buf m (length bs) pos w =
     Some (m + length bs, pos + 4 * length bs, w\<lparr>proc_mem := copy_out (proc_mem w) (buf + of_nat m) bs\<rparr>)"
proof (induction bs arbitrary: m pos w)
  case (Cons b bs)
  let ?a = "buf + of_nat m"
  let ?w = "w\<lparr>proc_mem := (proc_mem w)(?a := Some b)\<rparr>"
  have o: "proc_mem w ?a \<noteq> None" "owns (proc_mem ?w) (buf + of_nat (m + 1)) (length bs)"
    using Cons.prems(1) by (auto simp: owns_Suc add.commute add.left_commute owns_def)
  have "window (board w) pos 4 @ window (board w) (pos + 4) (4 * length bs) = bytes32 (scast b) @ concat (map (\<lambda>b. bytes32 (scast b)) bs)"
    using Cons.prems(3) window_append [of "board w" pos 4 "4 * length bs"] by simp
  then have wd: "window (board w) pos 4 = bytes32 (scast b)"
    "window (board w) (pos + 4) (4 * length bs) = concat (map (\<lambda>b. bytes32 (scast b)) bs)" by simp_all
  have "ucast (scast b :: u32) = b" for b :: u8 by (rule bit_word_eqI) (simp add: bit_simps)
  moreover have "in_map (dev_data w) pos 4" "in_map (dev_data w) (pos + 4) (4 * length bs)"
    by (rule in_map_part [OF Cons.prems(2)]; simp)+
  ultimately show ?case using Cons.IH [of ?w "m + 1" "pos + 4"] o wd
    by (auto simp: ioread32_def le32_bytes32 Let_def add.commute add.left_commute simp del: fun_upd_apply)
qed simp

section \<open>Properties\<close>

text \<open>
  C36: what is written to the board's file is read back, in whole words. A write and a read of
  \<open>n\<close> bytes at a position leave in the second buffer the bytes of the first up to the last multiple
  of four. Both report all \<open>n\<close> bytes and leave the position where it was, but the last one to three
  bytes do not reach the board, and what a reader gets for them is what some earlier read has left in
  the static array.
\<close>

theorem file_write_read:
  assumes "in_map (dev_data w) pos (4 * (n div 4))" "n \<le> 4 * DATA_WORDS"
    and "owns (proc_mem w) b1 n" "owns (proc_mem w) b2 n"
  shows "\<exists>w1 w2. pci_write b1 n pos w = Some (int n, pos, w1) \<and> pci_read b2 n pos w1 = Some (int n, pos, w2) \<and>
    user_bytes (proc_mem w2) b2 n = take (4 * (n div 4)) (user_bytes (proc_mem w) b1 n) @
      window (value_buf w) (4 * (n div 4)) (n mod 4) \<and>
    board w1 = overlay pos (take (4 * (n div 4)) (user_bytes (proc_mem w) b1 n)) (board w)"
proof -
  define xs where "xs = take (4 * (n div 4)) (user_bytes (proc_mem w) b1 n)"
  have len: "length xs = 4 * (n div 4)" by (simp add: xs_def)
  let ?w1 = "w\<lparr>data_buf := overlay 0 (user_bytes (proc_mem w) b1 n) (data_buf w), board := overlay pos xs (board w)\<rparr>"
  let ?bs = "xs @ window (value_buf w) (4 * (n div 4)) (n mod 4)"
  have "window (board ?w1) pos (4 * (n div 4)) = xs" using window_overlay [of pos xs "board w"] len by simp
  then obtain v where "pci_read b2 n pos ?w1 = Some (int n, pos, ?w1\<lparr>value_buf := v, proc_mem := user_put b2 ?bs (proc_mem w)\<rparr>)"
    using pci_read_in [of ?w1 pos n b2] assms by auto
  moreover have "pci_write b1 n pos w = Some (int n, pos, ?w1)" using pci_write_in [OF assms(1-3)] by (simp add: xs_def)
  moreover have "user_bytes (user_put b2 ?bs (proc_mem w)) b2 n = ?bs"
    using user_bytes_put [of ?bs b2 "proc_mem w"] len assms(2) by (simp add: DATA_WORDS_def)
  ultimately show ?thesis by (auto simp: xs_def)
qed

definition demo_virtex :: virtex where
  "demo_virtex = \<lparr>dev_data = \<lparr>mmio_base = 0xf0000000, mmio_length = 64, mmio_addr = Some 0xffff0000, cdev = Allocated True\<rparr>,
     pci_devt = True, testClass = NoClass, board = \<lambda>_. 0, data_buf = \<lambda>_. 0, value_buf = \<lambda>_. 7,
     proc_mem = \<lambda>x. if x < 64 then Some (ucast x) else None\<rparr>"

lemma demo_virtex_owns: "b \<le> 32 \<Longrightarrow> n \<le> 16 \<Longrightarrow> owns (proc_mem demo_virtex) b n"
  unfolding owns_def
proof (intro allI impI)
  fix j
  assume "b \<le> 32" "n \<le> 16" "j < n"
  then have "unat b \<le> 32" "unat (of_nat j :: u64) = j" "j < 16"
    by (auto simp: word_le_nat_alt unsigned_of_nat take_bit_nat_eq_self)
  then have "b + of_nat j < 64" by (simp add: word_less_nat_alt unat_word_ariths)
  then show "proc_mem demo_virtex (b + of_nat j) \<noteq> None" by (simp add: demo_virtex_def)
qed

theorem file_write_read_witness:
  "\<exists>w1 w2. pci_write 1 6 8 demo_virtex = Some (6, 8, w1) \<and> pci_read 32 6 8 w1 = Some (6, 8, w2) \<and>
     user_bytes (proc_mem w2) 32 6 = [1, 2, 3, 4, 7, 7]"
proof -
  have "take (4 * (6 div 4)) (user_bytes (proc_mem demo_virtex) 1 6) @ window (value_buf demo_virtex) (4 * (6 div 4)) (6 mod 4) =
    [1, 2, 3, 4, 7, 7]" by code_simp
  then show ?thesis
    using file_write_read [of demo_virtex 8 6 1 32] demo_virtex_owns [of 1 6] demo_virtex_owns [of 32 6]
    by (auto simp: demo_virtex_def in_map_def DATA_WORDS_def)
qed

text \<open>
  Writers are not kept apart. When a second process writes as many bytes between the two halves of
  a first process's write, the first write puts the second process's bytes at its own position, and no
  call reports anything.
\<close>

theorem writers_share_array:
  assumes "in_map (dev_data w) p1 (4 * (n div 4))" "in_map (dev_data w) p2 (4 * (n div 4))" "n \<le> 4 * DATA_WORDS"
    and "owns (proc_mem w) b1 n" "owns (proc_mem w) b2 n"
  shows "\<exists>w1 w2 w3. write_copy b1 n w = Some w1 \<and> pci_write b2 n p2 w1 = Some (int n, p2, w2) \<and> write_out n p1 w2 = Some w3 \<and>
    window (board w3) p1 (4 * (n div 4)) = take (4 * (n div 4)) (user_bytes (proc_mem w) b2 n)"
proof -
  let ?xs = "user_bytes (proc_mem w) b2 n" and ?k = "4 * (n div 4)"
  let ?w1 = "w\<lparr>data_buf := overlay 0 (user_bytes (proc_mem w) b1 n) (data_buf w)\<rparr>"
  obtain w2 where w2: "pci_write b2 n p2 ?w1 = Some (int n, p2, w2)" "dev_data w2 = dev_data w" "window (data_buf w2) 0 n = ?xs"
    using pci_write_in [of ?w1 p2 n b2] assms window_overlay [of 0 ?xs] by auto
  have "window (data_buf w2) 0 ?k = take ?k ?xs" using window_take [of ?k n "data_buf w2" 0] w2(3) by simp
  then have "write_out n p1 w2 = Some (w2\<lparr>board := overlay p1 (take ?k ?xs) (board w2)\<rparr>)"
    using write_out_in [of w2 p1 n] w2(2) assms(1) by simp
  moreover have "window (overlay p1 (take ?k ?xs) (board w2)) p1 ?k = take ?k ?xs"
    using window_overlay [of p1 "take ?k ?xs" "board w2"] by simp
  moreover have "write_copy b1 n w = Some ?w1" using assms(3,4) by (simp add: write_copy_def copy_in_owns)
  ultimately show ?thesis using w2(1) by fastforce
qed

theorem writers_share_array_witness:
  "\<exists>w1 w2 w3. write_copy 0 8 demo_virtex = Some w1 \<and> pci_write 16 8 32 w1 = Some (8, 32, w2) \<and> write_out 8 0 w2 = Some w3 \<and>
     window (board w3) 0 8 = [16, 17, 18, 19, 20, 21, 22, 23]"
proof -
  have "take (4 * (8 div 4)) (user_bytes (proc_mem demo_virtex) 16 8) = [16, 17, 18, 19, 20, 21, 22, 23]" by code_simp
  then show ?thesis
    using writers_share_array [of demo_virtex 0 8 32 0 16] demo_virtex_owns [of 0 8] demo_virtex_owns [of 16 8]
    by (auto simp: demo_virtex_def in_map_def DATA_WORDS_def)
qed

text \<open>
  The experimental driver keeps every byte in a word of its own, and what is written is read back.
  Of \<open>n\<close> bytes of which the process owns the first \<open>k\<close>, a write stores these \<open>k\<close>, extended with
  their sign, in \<open>k\<close> words from the position on, which it moves by \<open>4k\<close>; if a byte could not be read, it
  is counted in the result as if it had been written. A read of \<open>k\<close> bytes at the old position returns them.
\<close>

theorem test_write_read:
  assumes "owns (proc_mem w) b1 k" "k \<le> n" "k < n \<Longrightarrow> proc_mem w (b1 + of_nat k) = None"
    and "in_map (dev_data w) pos (4 * k)" "owns (proc_mem w) b2 k"
  shows "\<exists>w1 w2. test_pci_write b1 n pos w = Some (int (min n (k + 1)), pos + 4 * k, w1) \<and>
    test_pci_read b2 k pos w1 = Some (int k, pos + 4 * k, w2) \<and>
    user_bytes (proc_mem w2) b2 k = user_bytes (proc_mem w) b1 k \<and>
    board w1 = overlay pos (concat (map (\<lambda>b. bytes32 (scast b)) (user_bytes (proc_mem w) b1 k))) (board w)"
proof -
  let ?bs = "user_bytes (proc_mem w) b1 k"
  let ?ws = "concat (map (\<lambda>b. bytes32 (scast b)) ?bs)"
  let ?w1 = "w\<lparr>board := overlay pos ?ws (board w)\<rparr>"
  have fit: "k < 2 ^ 64"
    using assms(4) unsigned_less [of "mmio_length (dev_data w)", where ?'a = nat] by (simp add: in_map_def)
  have "length ?ws = 4 * k" using length_concat_bytes32 [of "map scast ?bs"] by (simp add: comp_def)
  then have "window (board ?w1) pos (4 * k) = ?ws" using window_overlay [of pos ?ws "board w"] by simp
  then have "test_read_loop b2 0 k pos ?w1 = Some (k, pos + 4 * k, ?w1\<lparr>proc_mem := copy_out (proc_mem w) b2 ?bs\<rparr>)"
    using test_read_loop_in [of ?w1 b2 0 ?bs pos] assms(4,5) by simp
  moreover have "copy_out (proc_mem w) b2 ?bs = user_put b2 ?bs (proc_mem w)" using copy_out_owns [of _ b2 ?bs] assms(5) fit by simp
  moreover have "user_bytes (user_put b2 ?bs (proc_mem w)) b2 k = ?bs" using user_bytes_put [of ?bs b2] fit by simp
  moreover have "test_write_loop b1 0 n pos w = Some (min n (k + 1), pos + 4 * k, ?w1)"
    using test_write_loop_in [of w b1 0 k n pos] assms(1-4) by simp
  ultimately show ?thesis by (auto simp: test_pci_write_def test_pci_read_def)
qed

theorem test_write_read_witness:
  "\<exists>w1 w2. test_pci_write 60 8 0 demo_virtex = Some (5, 16, w1) \<and> test_pci_read 8 4 0 w1 = Some (4, 16, w2) \<and>
     user_bytes (proc_mem w2) 8 4 = [60, 61, 62, 63]"
proof -
  have "owns (proc_mem demo_virtex) 60 4" "user_bytes (proc_mem demo_virtex) 60 4 = [60, 61, 62, 63]" by code_simp+
  then show ?thesis
    using test_write_read [of demo_virtex 60 4 8 0 8] demo_virtex_owns [of 8 4] by (auto simp: demo_virtex_def in_map_def)
qed

section \<open>Bringing the board up\<close>

lemmas probe_defs = pci_probe_def register_file_def probe_error_def cdev_del_def unregister_chrdev_region_def set_cdev_def map_board_def

text \<open>
  When probing fails. With the first board, before anything is there to be undone, the error
  path returns only if it was the last call, \<open>cdev_add\<close>, that failed; the board then stays enabled,
  mapped and reserved. Every other refusal by the kernel makes it delete a character device
  through a pointer that was never set. With a second board, whose region is refused, it
  deletes the character device and releases the number of the first.
\<close>

theorem probe_error_paths:
  "(cdev (dev_data w) = Wild \<longrightarrow>
      (pci_probe K w = None \<longleftrightarrow> v_enable K \<noteq> 0 \<or> v_request K \<noteq> 0 \<or> v_alloc K \<noteq> 0 \<or> \<not> v_kmalloc K) \<and>
      (\<forall>rc l w'. pci_probe K w = Some (rc, l, w') \<longrightarrow>
        rc = (if v_cdev_add K = 0 then 0 else - 1) \<and> balance l V_enabled = 1 \<and> balance l V_region = 1 \<and>
        balance l V_cdev_mem = 1 \<and> balance l V_cdev = rc + 1 \<and> balance l V_devt = rc + 1)) \<and>
   (cdev (dev_data w) = Allocated True \<and> pci_devt w \<and> v_enable K = 0 \<and> v_request K \<noteq> 0 \<longrightarrow>
      (\<exists>l w'. pci_probe K w = Some (- 1, l, w') \<and> balance l V_cdev = - 1 \<and> balance l V_devt = - 1 \<and> balance l V_enabled = 1))"
  by (intro conjI impI) (auto simp: probe_defs balance_def Let_def split: if_splits)

definition demo_answers :: virtex_kernel where
  "demo_answers = \<lparr>v_enable = 0, v_start = 0xf0000000, v_len = 0x200000, v_ioremap = Some 0xffff0000, v_request = 0, v_alloc = 0,
     v_kmalloc = True, v_cdev_add = 0, v_class = 0, v_device = 0\<rparr>"

theorem probe_error_paths_witness:
  "pci_probe (demo_answers\<lparr>v_request := - 16\<rparr>) (set_cdev Wild demo_virtex) = None \<and>
   (\<exists>l w'. pci_probe (demo_answers\<lparr>v_request := - 16\<rparr>) demo_virtex = Some (- 1, l, w') \<and> balance l V_cdev = - 1)"
  using probe_error_paths [of "set_cdev Wild demo_virtex" "demo_answers\<lparr>v_request := - 16\<rparr>"]
    probe_error_paths [of demo_virtex "demo_answers\<lparr>v_request := - 16\<rparr>"]
  by (auto simp: demo_answers_def demo_virtex_def set_cdev_def)

text \<open>
  Loading and unloading the module with one board, all of whose requests but possibly the last are
  granted. With all of them granted, unloading gives back what was taken, except that the character
  device's memory is never freed, and it frees an interrupt that was never requested. When \<open>cdev_add\<close> fails,
  the board is not bound to the driver, nothing removes it, and it stays enabled, mapped and reserved
  after the module is gone, although loading has reported success.
\<close>

theorem load_unload:
  assumes "v_enable K = 0" "v_request K = 0" "v_alloc K = 0" "v_kmalloc K"
  shows "\<exists>n l w1 l' w2. pci_init True [K] w = Some (0, n, l, w1) \<and> pci_exit n w1 = Some (l', w2) \<and>
    n = (if v_cdev_add K = 0 then 1 else 0) \<and>
    (\<forall>r. balance (l @ l') r =
      (if v_cdev_add K = 0 then (if r = V_cdev_mem then 1 else if r = V_irq then - 1 else 0)
       else if r = V_enabled \<or> r = V_region \<or> r = V_cdev_mem \<or> r = V_mapped \<and> v_ioremap K \<noteq> None then 1 else 0))"
  using assms
  by (cases "v_cdev_add K = 0"; cases "v_ioremap K")
    (simp_all add: pci_init_def pci_exit_def probe_defs pci_remove_def balance_def)

theorem load_unload_witness:
  "\<exists>n l w1 l' w2. pci_init True [demo_answers] demo_virtex = Some (0, n, l, w1) \<and> pci_exit n w1 = Some (l', w2) \<and>
     balance (l @ l') V_cdev_mem = 1 \<and> balance (l @ l') V_irq = - 1 \<and> balance (l @ l') V_region = 0"
  using load_unload [of demo_answers demo_virtex] by (auto simp: demo_answers_def)

lemma nth_fill: "x < 4 * n \<Longrightarrow> concat (map bytes32 (replicate n v)) ! x = bytes32 v ! (x mod 4)"
proof (induction n arbitrary: x)
  case (Suc n)
  show ?case
  proof (cases "x < 4")
    case False
    then show ?thesis using Suc.IH [of "x - 4"] Suc.prems by (simp add: nth_append le_mod_geq)
  qed (simp add: nth_append)
qed simp

lemma out_fill:
  assumes "0 < n"
  shows "out_words 0 (replicate n v) w = (if in_map (dev_data w) 0 (4 * n)
    then Some (w\<lparr>board := \<lambda>x. if x < 4 * n then bytes32 v ! (x mod 4) else board w x\<rparr>) else None)"
proof -
  have "overlay 0 (concat (map bytes32 (replicate n v))) (board w) = (\<lambda>x. if x < 4 * n then bytes32 v ! (x mod 4) else board w x)"
    using length_concat_bytes32 [of "replicate n v"] by (auto simp: overlay_def fun_eq_iff nth_fill simp del: map_replicate)
  then show ?thesis using out_words_in [of w 0 "replicate n v"] out_words_out [of w 0 "replicate n v"] assms by (auto simp del: map_replicate)
qed

text \<open>
  The experimental driver writes to the board without asking how large it is. With all requests granted
  and the address mapped, probing faults unless BAR 0 has at least 1048580 bytes, one word more than a megabyte;
  otherwise it replaces these bytes by its two patterns, and touches nothing behind them.
\<close>

theorem test_probe_overwrites:
  assumes "v_enable K = 0" "v_request K = 0" "v_alloc K = 0" "v_kmalloc K" "v_cdev_add K = 0" "v_ioremap K \<noteq> None"
  shows "if unat (v_len K) < 1048580 then test_pci_probe K w = None
    else \<exists>l w'. test_pci_probe K w = Some (0, l, w') \<and>
      board w' = (\<lambda>x. if x < 65536 then bytes32 0x12345678 ! (x mod 4)
        else if x < 1048580 then bytes32 0x12345677 ! (x mod 4) else board w x)"
proof -
  obtain w1 where w1: "map_board K w = ([(V_enabled, 1), (V_mapped, 1)], w1)" "board w1 = board w"
    "mmio_addr (dev_data w1) \<noteq> None" "mmio_length (dev_data w1) = v_len K"
    using assms(6) by (auto simp: map_board_def)
  have m: "in_map (dev_data w1) off n \<longleftrightarrow> off + n \<le> unat (v_len K)" for off n using w1(3,4) by (simp add: in_map_def)
  show ?thesis
  proof (cases "unat (v_len K) < 1048580")
    case True
    then have "out_words 0 (replicate FILL_WORDS 0x12345677) w1 = None" by (simp add: out_fill FILL_WORDS_def m)
    then show ?thesis using True assms w1(1) by (simp add: test_pci_probe_def)
  next
    case False
    define w2 where "w2 = w1\<lparr>board := \<lambda>x. if x < 1048580 then bytes32 0x12345677 ! (x mod 4) else board w1 x\<rparr>"
    have n: "0 < FILL_WORDS" "4 * FILL_WORDS = 1048580" "0 < TRY_WORDS" "4 * TRY_WORDS = 65536"
      by (simp_all add: FILL_WORDS_def TRY_WORDS_def)
    have 2: "out_words 0 (replicate FILL_WORDS 0x12345677) w1 = Some w2"
      using False by (simp add: out_fill n m w2_def)
    have d: "dev_data w2 = dev_data w1" by (simp add: w2_def)
    obtain vs v where r: "in_words 0 TRY_WORDS w2 = Some vs" "ioread32 0 w2 = Some v"
      using in_words_in [of w2 0 TRY_WORDS] False by (auto simp: m d n ioread32_def)
    obtain l w3 where 3: "register_file K [(V_enabled, 1), (V_mapped, 1), (V_region, 1)] w2 = Some (0, l, w3)" "board w3 = board w2"
      "mmio_addr (dev_data w3) = mmio_addr (dev_data w2)" "mmio_length (dev_data w3) = mmio_length (dev_data w2)"
      using assms by (auto simp: register_file_def set_cdev_def)
    have m3: "in_map (dev_data w3) off n \<longleftrightarrow> off + n \<le> unat (v_len K)" for off n using m 3(3,4) d by (simp add: in_map_def)
    define w4 where "w4 = w3\<lparr>board := \<lambda>x. if x < 65536 then bytes32 0x12345678 ! (x mod 4) else board w3 x\<rparr>"
    have 4: "out_words 0 (replicate TRY_WORDS 0x12345678) w3 = Some w4"
      using False by (simp add: out_fill n m3 w4_def)
    have d4: "dev_data w4 = dev_data w3" by (simp add: w4_def)
    obtain u where "ioread32 65536 w4 = Some u" using False by (auto simp: ioread32_def m3 d4)
    then have "test_pci_probe K w = Some (0, l, w4)" using assms w1(1) 2 r 3(1) 4 by (simp add: test_pci_probe_def)
    moreover have "board w4 = (\<lambda>x. if x < 65536 then bytes32 0x12345678 ! (x mod 4)
        else if x < 1048580 then bytes32 0x12345677 ! (x mod 4) else board w x)"
      by (auto simp: fun_eq_iff w4_def 3(2) w2_def w1(2))
    ultimately show ?thesis using False by auto
  qed
qed

theorem test_probe_overwrites_witness:
  "test_pci_probe (demo_answers\<lparr>v_len := 0x100000\<rparr>) demo_virtex = None \<and>
   (\<exists>l w'. test_pci_probe demo_answers demo_virtex = Some (0, l, w') \<and> board w' 0 = 0x78 \<and> board w' 0x100000 = 0x77 \<and> board w' 0x100004 = 0)"
  using test_probe_overwrites [of "demo_answers\<lparr>v_len := 0x100000\<rparr>" demo_virtex] test_probe_overwrites [of demo_answers demo_virtex]
  by (auto simp: demo_answers_def demo_virtex_def bytes32_def)

end
