(* ===== verification/Device.thy ===== *)
theory Device
  imports Engine
begin

text \<open>
  The device instance of the driver: \<open>struct xdma_dev\<close>, \<open>struct xdma_irq\<close> and \<open>struct xdma_char\<close>
  (\<open>include/xdma-core.h\<close>), the parts of the kernel that probing, removal and the interrupt
  handlers call, and the account of the kernel resources a sequence of calls leaves behind.
\<close>

unbundle bit_operations_syntax

definition XDMA_BAR_NUM :: nat where "XDMA_BAR_NUM = 6"
definition XDMA_BAR_SIZE :: u64 where "XDMA_BAR_SIZE = 0x8000"
definition XDMA_CHANNEL_NUM_MAX :: nat where "XDMA_CHANNEL_NUM_MAX = 4"
definition MAX_USER_IRQ :: nat where "MAX_USER_IRQ = 16"
definition MAX_NUM_ENGINES :: nat where "MAX_NUM_ENGINES = XDMA_CHANNEL_NUM_MAX * 2"
definition MAGIC_DEVICE :: u32 where "MAGIC_DEVICE = 0xDDDDDDDD"
definition MAGIC_CHAR :: u32 where "MAGIC_CHAR = 0xCCCCCCCC"

section \<open>State\<close>

datatype chardev_type = CHAR_USER | CHAR_CTRL | CHAR_EVENTS | CHAR_XDMA_H2C | CHAR_XDMA_C2H
  | CHAR_BYPASS_H2C | CHAR_BYPASS_C2H | CHAR_BYPASS

text \<open>The types can be enumerated, so that statements about all of them are decided by evaluation.\<close>

instantiation chardev_type :: enum
begin

definition enum_chardev_type :: "chardev_type list" where
  "enum_chardev_type = [CHAR_USER, CHAR_CTRL, CHAR_EVENTS, CHAR_XDMA_H2C, CHAR_XDMA_C2H, CHAR_BYPASS_H2C, CHAR_BYPASS_C2H, CHAR_BYPASS]"

definition enum_all_chardev_type :: "(chardev_type \<Rightarrow> bool) \<Rightarrow> bool" where
  "enum_all_chardev_type P \<longleftrightarrow> list_all P (enum_class.enum :: chardev_type list)"

definition enum_ex_chardev_type :: "(chardev_type \<Rightarrow> bool) \<Rightarrow> bool" where
  "enum_ex_chardev_type P \<longleftrightarrow> list_ex P (enum_class.enum :: chardev_type list)"

instance
proof
  show "(UNIV :: chardev_type set) = set enum_class.enum"
    by (auto simp: enum_chardev_type_def) (metis chardev_type.exhaust)
  then show "enum_class.enum_all P = Ball UNIV P" "enum_class.enum_ex P = Bex UNIV P" for P :: "chardev_type \<Rightarrow> bool"
    by (simp_all add: enum_all_chardev_type_def enum_ex_chardev_type_def list_all_iff list_ex_iff)
qed (simp add: enum_chardev_type_def)

end

text \<open>An engine of the device has more fields than the operations of \<open>Engine\<close> need.\<close>

record dev_engine = xdma_engine +
  msix_irq_line :: u32
  bypass_offset :: u32
  poll_virt :: bool

text \<open>
  The engine of a character device is given by its place in \<open>lro->engine\<close>. The pointer that
  \<open>device_create\<close> returns is to a device or, if it failed, an error code (\<open>ERR_PTR\<close>); it is null only
  before that call.
\<close>

datatype dev_ptr = Null_ptr | Err_ptr | Dev_ptr

record xdma_char =
  c_magic :: u32
  cdevno :: "nat \<times> nat"
  c_bar :: int
  c_engine :: "(nat \<times> nat) option"
  c_user_irq :: "nat option"
  c_type :: chardev_type
  c_sys_device :: dev_ptr

record xdma_irq =
  events_irq :: u8

text \<open>What the kernel lends to the driver, by the call that returns it.\<close>

datatype handler = H_isr | H_user nat | H_channel nat nat

datatype kres = R_dev | R_pci | R_msix | R_msi | R_regions | R_bar nat | R_irq u32 handler
  | R_wb nat nat | R_engine nat nat | R_char chardev_type int "(nat \<times> nat) option" | R_cdev "nat \<times> nat"
  | R_chrdev "nat \<times> nat" nat | R_device "nat \<times> nat" | R_attr | R_slot nat

datatype kcall = Get kres | Put kres | Schedule nat nat | Wake_events nat

text \<open>How many of a resource a sequence of calls leaves in the hands of the driver.\<close>

fun held :: "kcall list \<Rightarrow> kres \<Rightarrow> int" where
  "held [] r = 0"
| "held (Get x # l) r = (if x = r then 1 else 0) + held l r"
| "held (Put x # l) r = (if x = r then - 1 else 0) + held l r"
| "held (Schedule c k # l) r = held l r"
| "held (Wake_events i # l) r = held l r"

lemma held_append [simp]: "held (xs @ ys) r = held xs r + held ys r"
  by (induction xs r rule: held.induct) simp_all

lemma held_concat: "held (concat (map f xs)) r = (\<Sum>x\<leftarrow>xs. held (f x) r)"
  by (induction xs) simp_all

record xdma_dev =
  d_magic :: u32
  d_major :: int
  d_instance :: nat
  user_char_dev :: "xdma_char option"
  ctrl_char_dev :: "xdma_char option"
  bypass_char_dev :: "nat \<Rightarrow> nat \<Rightarrow> xdma_char option"
  bypass_char_dev_base :: "xdma_char option"
  sgdma_char_dev :: "nat \<Rightarrow> nat \<Rightarrow> xdma_char option"
  events_char_dev :: "nat \<Rightarrow> xdma_char option"
  bar :: "nat \<Rightarrow> u64 option"
  user_bar_idx :: int
  config_bar_idx :: int
  bypass_bar_idx :: int
  regions_in_use :: bool
  got_regions :: bool
  irq_count :: u32
  irq_line :: int
  msi_enabled :: bool
  msix_enabled :: bool
  entry_vector :: "nat \<Rightarrow> u32"
  user_irq :: "nat \<Rightarrow> xdma_irq"
  engines_num :: nat
  engine :: "nat \<Rightarrow> nat \<Rightarrow> dev_engine option"
  d_bus :: bus
  klog :: "kcall list"

definition log_call :: "kcall \<Rightarrow> xdma_dev \<Rightarrow> xdma_dev" where
  "log_call c d = d\<lparr>klog := klog d @ [c]\<rparr>"

definition dwr :: "u32 \<Rightarrow> u64 \<Rightarrow> xdma_dev \<Rightarrow> xdma_dev" where
  "dwr v a d = d\<lparr>d_bus := write_register v a (d_bus d)\<rparr>"

definition drd :: "u64 \<Rightarrow> xdma_dev \<Rightarrow> u32 \<times> xdma_dev" where
  "drd a d = (let (v, b) = read_register a (d_bus d) in (v, d\<lparr>d_bus := b\<rparr>))"

text \<open>\<open>lro->bar[lro->config_bar_idx]\<close>; no BAR and a negative index are faults.\<close>

definition config_bar :: "xdma_dev \<Rightarrow> u64 option" where
  "config_bar d = (if 0 \<le> config_bar_idx d \<and> config_bar_idx d < int XDMA_BAR_NUM then bar d (nat (config_bar_idx d)) else None)"

lemma log_call_sel [simp]:
  "klog (log_call c d) = klog d @ [c]" "d_bus (log_call c d) = d_bus d" "engine (log_call c d) = engine d"
  "user_irq (log_call c d) = user_irq d" "config_bar (log_call c d) = config_bar d" "irq_count (log_call c d) = irq_count d"
  "entry_vector (log_call c d) = entry_vector d" "msix_enabled (log_call c d) = msix_enabled d" "bar (log_call c d) = bar d"
  "config_bar_idx (log_call c d) = config_bar_idx d" "engines_num (log_call c d) = engines_num d"
  by (simp_all add: log_call_def config_bar_def)

lemma dwr_sel [simp]:
  "klog (dwr v a d) = klog d" "engine (dwr v a d) = engine d" "writes (d_bus (dwr v a d)) = writes (d_bus d) @ [(a, v)]"
  "user_irq (dwr v a d) = user_irq d" "config_bar (dwr v a d) = config_bar d" "irq_count (dwr v a d) = irq_count d"
  "entry_vector (dwr v a d) = entry_vector d" "msix_enabled (dwr v a d) = msix_enabled d" "bar (dwr v a d) = bar d"
  "config_bar_idx (dwr v a d) = config_bar_idx d" "engines_num (dwr v a d) = engines_num d"
  "hist (d_bus (dwr v a d)) = Wr a v # hist (d_bus d)" "resp (d_bus (dwr v a d)) = resp (d_bus d)"
  by (simp_all add: dwr_def config_bar_def write_register_def writes_def)

lemma drd_sel [simp]:
  "klog (snd (drd a d)) = klog d" "engine (snd (drd a d)) = engine d" "writes (d_bus (snd (drd a d))) = writes (d_bus d)"
  "user_irq (snd (drd a d)) = user_irq d" "config_bar (snd (drd a d)) = config_bar d" "irq_count (snd (drd a d)) = irq_count d"
  "entry_vector (snd (drd a d)) = entry_vector d" "msix_enabled (snd (drd a d)) = msix_enabled d" "bar (snd (drd a d)) = bar d"
  "config_bar_idx (snd (drd a d)) = config_bar_idx d" "engines_num (snd (drd a d)) = engines_num d"
  "fst (drd a d) = resp (d_bus d) (hist (d_bus d)) a"
  "hist (d_bus (snd (drd a d))) = Rd a (fst (drd a d)) # hist (d_bus d)" "resp (d_bus (snd (drd a d))) = resp (d_bus d)"
  by (simp_all add: drd_def config_bar_def read_register_def Let_def writes_def)

section \<open>The kernel\<close>

text \<open>
  A PCI device and the answers of the kernel to the calls of the driver; a call that fails returns
  a negative number or nothing, as documented. \<open>pci_enable_msix\<close> returns a positive number when
  fewer vectors than asked for are available, and then has not enabled them.
\<close>

datatype cap = PCI_CAP_ID_MSI | PCI_CAP_ID_MSIX

record pci_dev =
  no_msi :: bool
  bus_no_msi :: "bool list"
  pci_find_capability :: "cap \<Rightarrow> bool"
  pci_irq :: u32
  interrupt_pin :: u8
  pci_resource_start :: "nat \<Rightarrow> u64"
  pci_resource_end :: "nat \<Rightarrow> u64"

record kapi = pci_dev +
  k_zalloc_dev :: bool
  k_enable_device :: int
  k_enable_msix :: "nat \<Rightarrow> int"
  k_msix_vector :: "nat \<Rightarrow> u32"
  k_enable_msi :: int
  k_request_regions :: int
  k_iomap :: "nat \<Rightarrow> u64 \<Rightarrow> u64 option"
  k_dma_mask :: "nat \<Rightarrow> bool"
  k_request_irq :: "u32 \<Rightarrow> handler \<Rightarrow> int"
  k_zalloc_engine :: "nat \<Rightarrow> nat \<Rightarrow> bool"
  k_writeback :: "nat \<Rightarrow> nat \<Rightarrow> u64 option"
  k_zalloc_char :: "chardev_type \<Rightarrow> int \<Rightarrow> (nat \<times> nat) option \<Rightarrow> bool"
  k_chrdev_major :: nat
  k_set_name :: "nat \<times> nat \<Rightarrow> int"
  k_register_chrdev :: "nat \<times> nat \<Rightarrow> int"
  k_cdev_add :: "nat \<times> nat \<Rightarrow> int"
  k_device_create :: "nat \<times> nat \<Rightarrow> bool"
  k_create_file :: int

text \<open>The length of a resource, as the macro of the kernel computes it.\<close>

definition pci_resource_len :: "'a pci_dev_scheme \<Rightarrow> nat \<Rightarrow> u64" where
  "pci_resource_len p i = (if pci_resource_start p i = 0 \<and> pci_resource_end p i = pci_resource_start p i then 0
     else pci_resource_end p i - pci_resource_start p i + 1)"

definition request_irq :: "kapi \<Rightarrow> u32 \<Rightarrow> handler \<Rightarrow> xdma_dev \<Rightarrow> int \<times> xdma_dev" where
  "request_irq K v h d = (let rc = k_request_irq K v h in (rc, if rc = 0 then log_call (Get (R_irq v h)) d else d))"

definition free_irq :: "u32 \<Rightarrow> handler \<Rightarrow> xdma_dev \<Rightarrow> xdma_dev" where
  "free_irq v h d = log_call (Put (R_irq v h)) d"

end
