(* ===== verification/Irq.thy ===== *)
theory Irq
  imports Device
begin

text \<open>
  Interrupts: the handlers of \<open>driver/xdma-core.c\<close> for legacy/MSI and for MSI-X, the setup and
  teardown of interrupt lines and vectors, and the event files that report user interrupts.
\<close>

unbundle bit_operations_syntax

section \<open>Handlers\<close>

definition user_irq_service :: "nat \<Rightarrow> xdma_dev \<Rightarrow> xdma_dev" where
  "user_irq_service i d =
    (if events_irq (user_irq d i) = 0
     then log_call (Wake_events i) (d\<lparr>user_irq := (user_irq d)(i := (user_irq d i)\<lparr>events_irq := 1\<rparr>)\<rparr>)
     else d)"

fun user_irq_loop :: "u32 \<Rightarrow> nat list \<Rightarrow> xdma_dev \<Rightarrow> xdma_dev" where
  "user_irq_loop req [] d = d"
| "user_irq_loop req (i # is) d =
    user_irq_loop req is (if req AND push_bit i 1 \<noteq> 0 then user_irq_service i d else d)"

definition schedule_engine :: "u32 \<Rightarrow> nat \<Rightarrow> nat \<Rightarrow> xdma_dev \<Rightarrow> xdma_dev" where
  "schedule_engine ch_irq k c d =
    (case engine d c k of
       None \<Rightarrow> d
     | Some e \<Rightarrow> if e_irq_bitmask e AND ch_irq \<noteq> 0 then log_call (Schedule c k) d else d)"

definition xdma_isr :: "xdma_dev \<Rightarrow> xdma_dev option" where
  "xdma_isr d = do {
     cfg \<leftarrow> config_bar d;
     let (ch_irq, d) = drd (ireg cfg I_channel_int_request) d;
     let d = d\<lparr>d_bus := channel_interrupts_disable cfg ch_irq (d_bus d)\<rparr>;
     let (req, d) = drd (ireg cfg I_user_int_request) d;
     let d = user_irq_loop req [0..<MAX_USER_IRQ] d;
     let d = fold (schedule_engine ch_irq 0) [0..<XDMA_CHANNEL_NUM_MAX] d;
     let d = fold (schedule_engine ch_irq 1) [0..<XDMA_CHANNEL_NUM_MAX] d;
     Some (d\<lparr>irq_count := irq_count d + 1\<rparr>)
   }"

definition xdma_user_irq :: "nat \<Rightarrow> xdma_dev \<Rightarrow> xdma_dev" where
  "xdma_user_irq i d = user_irq_service i d"

text \<open>The engine that asked for the interrupt must exist: its handler is given a pointer to it.\<close>

definition xdma_channel_irq :: "nat \<Rightarrow> nat \<Rightarrow> xdma_dev \<Rightarrow> xdma_dev option" where
  "xdma_channel_irq c k d = do {
     e \<leftarrow> engine d c k;
     cfg \<leftarrow> config_bar d;
     let (v, d) = drd (ereg (e_regs e) E_interrupt_enable_mask) d;
     let e = e\<lparr>e_ie_mask := v\<rparr>;
     let d = d\<lparr>engine := (engine d)(c := (engine d c)(k := Some e))\<rparr>;
     let d = dwr (e_ie_mask e) (ereg (e_regs e) E_interrupt_enable_mask_w1c) d;
     let (_, d) = drd (ireg cfg I_channel_int_pending) d;
     let d = log_call (Schedule c k) d;
     Some (d\<lparr>irq_count := irq_count d + 1\<rparr>)
   }"

section \<open>Vectors and lines\<close>

definition build_vector_reg :: "u32 \<Rightarrow> u32 \<Rightarrow> u32 \<Rightarrow> u32 \<Rightarrow> u32" where
  "build_vector_reg a b c d =
    (a AND 0x1f) OR push_bit 8 (b AND 0x1f) OR push_bit 16 (c AND 0x1f) OR push_bit 24 (d AND 0x1f)"

definition write_msix_vectors :: "xdma_dev \<Rightarrow> xdma_dev option" where
  "write_msix_vectors d = do {
     cfg \<leftarrow> config_bar d;
     let d = dwr (build_vector_reg 0 1 2 3) (ireg cfg I_user_msi_vector) d;
     let d = dwr (build_vector_reg 4 5 6 7) (ireg cfg I_user_msi_vector + 4) d;
     let d = dwr (build_vector_reg 8 9 10 11) (ireg cfg I_user_msi_vector + 8) d;
     let d = dwr (build_vector_reg 12 13 14 15) (ireg cfg I_user_msi_vector + 12) d;
     let d = dwr (build_vector_reg 16 17 18 19) (ireg cfg I_channel_msi_vector) d;
     let d = dwr (build_vector_reg 20 21 22 23) (ireg cfg I_channel_msi_vector + 4) d;
     Some d
   }"

text \<open>The loop of \<open>msix_irq_setup\<close> returns the error code and the number of lines it got.\<close>

fun request_user_irqs :: "kapi \<Rightarrow> nat \<Rightarrow> nat \<Rightarrow> xdma_dev \<Rightarrow> int \<times> nat \<times> xdma_dev" where
  "request_user_irqs K 0 i d = (0, i, d)"
| "request_user_irqs K (Suc n) i d =
    (let (rc, d) = request_irq K (entry_vector d i) (H_user i) d
     in if rc \<noteq> 0 then (rc, i, d) else request_user_irqs K n (Suc i) d)"

text \<open>\<open>while (--i >= 0) free_irq(...)\<close>\<close>

fun free_user_irqs :: "nat \<Rightarrow> xdma_dev \<Rightarrow> xdma_dev" where
  "free_user_irqs 0 d = d"
| "free_user_irqs (Suc i) d = free_user_irqs i (free_irq (entry_vector d i) (H_user i) d)"

definition msix_irq_setup :: "kapi \<Rightarrow> xdma_dev \<Rightarrow> (int \<times> xdma_dev) option" where
  "msix_irq_setup K d = do {
     d \<leftarrow> write_msix_vectors d;
     let (rc, i, d) = request_user_irqs K MAX_USER_IRQ 0 d;
     Some (rc, if rc \<noteq> 0 then free_user_irqs i d else d)
   }"

definition irq_teardown :: "xdma_dev \<Rightarrow> xdma_dev" where
  "irq_teardown d =
    (if msix_enabled d then fold (\<lambda>i d. free_irq (entry_vector d i) (H_user i) d) [0..<MAX_USER_IRQ] d
     else if irq_line d \<noteq> - 1 then free_irq (word_of_int (irq_line d)) H_isr d
     else d)"

text \<open>A legacy interrupt pin other than A is written to all vector registers.\<close>

definition legacy_vectors :: "u8 \<Rightarrow> xdma_dev \<Rightarrow> xdma_dev option" where
  "legacy_vectors v d = do {
     cfg \<leftarrow> config_bar d;
     let v = (ucast (v - 1) :: u32);
     let w = push_bit 24 v OR push_bit 16 v OR push_bit 8 v OR v;
     let d = dwr w (cfg + 0x2080) d;
     let d = dwr w (cfg + 0x2080 + 0x4) d;
     let d = dwr w (cfg + 0x2080 + 0x8) d;
     let d = dwr w (cfg + 0x2080 + 0xC) d;
     let d = dwr w (cfg + 0x20A0) d;
     let d = dwr w (cfg + 0x20A0 + 0x4) d;
     Some d
   }"

definition irq_setup :: "kapi \<Rightarrow> xdma_dev \<Rightarrow> (int \<times> xdma_dev) option" where
  "irq_setup K d =
    (if msix_enabled d then msix_irq_setup K d
     else do {
       d \<leftarrow> (if \<not> msi_enabled d \<and> interrupt_pin K > 1 then legacy_vectors (interrupt_pin K) d else Some d);
       let d = d\<lparr>irq_line := sint (pci_irq K)\<rparr>;
       Some (request_irq K (pci_irq K) H_isr d)
     })"

definition enable_credit_feature :: "xdma_dev \<Rightarrow> xdma_dev option" where
  "enable_credit_feature d = do {
     cfg \<leftarrow> config_bar d;
     Some (dwr 0xF0000 (cfg + 0x6000 + of_nat (offsetof sgdma_common_regs G_credit_feature_enable)) d)
   }"

section \<open>Event files\<close>

text \<open>
  \<open>sig\<close> says whether a signal arrives while the reader sleeps, \<open>fault\<close> how many bytes
  \<open>copy_to_user\<close> could not copy. A reader that sleeps without a signal does not return. The
  second component is what the user buffer receives.
\<close>

definition POLLIN_RDNORM :: u32 where "POLLIN_RDNORM = 0x41"

definition char_events_read ::
  "bool \<Rightarrow> nat \<Rightarrow> xdma_char \<Rightarrow> u64 \<Rightarrow> u64 \<Rightarrow> xdma_dev \<Rightarrow> (int \<times> u32 option \<times> xdma_dev) option" where
  "char_events_read sig fault ch count pos d = do {
     BUG_ON (c_magic ch \<noteq> MAGIC_CHAR);
     BUG_ON (c_user_irq ch = None);
     i \<leftarrow> c_user_irq ch;
     (if count \<noteq> 4 then Some (- EPROTO, None, d)
      else if pos AND 3 \<noteq> 0 then Some (- EPROTO, None, d)
      else if events_irq (user_irq d i) = 0 then (if sig then Some (- ERESTARTSYS, None, d) else None)
      else let events_user = (ucast (events_irq (user_irq d i)) :: u32);
               d = d\<lparr>user_irq := (user_irq d)(i := (user_irq d i)\<lparr>events_irq := 0\<rparr>)\<rparr>
           in Some (4, if fault = 0 then Some events_user else None, d))
   }"

definition char_events_poll :: "xdma_char \<Rightarrow> xdma_dev \<Rightarrow> u32 option" where
  "char_events_poll ch d = do {
     BUG_ON (c_magic ch \<noteq> MAGIC_CHAR);
     BUG_ON (c_user_irq ch = None);
     i \<leftarrow> c_user_irq ch;
     Some (if events_irq (user_irq d i) \<noteq> 0 then POLLIN_RDNORM else 0)
   }"

section \<open>The loops\<close>

lemma user_irq_loop_spec:
  "distinct is \<Longrightarrow> user_irq_loop req is d =
     d\<lparr>user_irq := (\<lambda>i. if i \<in> set is \<and> bit req i \<and> events_irq (user_irq d i) = 0
                      then (user_irq d i)\<lparr>events_irq := 1\<rparr> else user_irq d i),
       klog := klog d @ map Wake_events (filter (\<lambda>i. bit req i \<and> events_irq (user_irq d i) = 0) is)\<rparr>"
proof (induction "is" arbitrary: d)
  case (Cons i "is")
  have b: "req AND push_bit i 1 \<noteq> 0 \<longleftrightarrow> bit req i" by (rule bit_iff_and_push_bit_not_eq_0 [symmetric])
  define P where "P = (\<lambda>j. bit req j \<and> events_irq (user_irq d j) = 0)"
  let ?up = "\<lambda>j. (user_irq d j)\<lparr>events_irq := 1\<rparr>"
  show ?case
  proof (cases "P i")
    case True
    define d1 where "d1 = d\<lparr>user_irq := (user_irq d)(i := ?up i), klog := klog d @ [Wake_events i]\<rparr>"
    have d1: "(if bit req i then user_irq_service i d else d) = d1"
      using True by (simp add: P_def d1_def user_irq_service_def log_call_def)
    have "filter (\<lambda>j. bit req j \<and> events_irq (user_irq d1 j) = 0) is = filter P is"
      by (rule filter_cong) (use Cons.prems in \<open>auto simp: d1_def P_def\<close>)
    moreover have "(\<lambda>j. if j \<in> set is \<and> bit req j \<and> events_irq (user_irq d1 j) = 0 then (user_irq d1 j)\<lparr>events_irq := 1\<rparr>
        else user_irq d1 j) = (\<lambda>j. if j \<in> set (i # is) \<and> bit req j \<and> events_irq (user_irq d j) = 0 then ?up j else user_irq d j)"
      using True Cons.prems by (intro ext) (auto simp: d1_def P_def)
    ultimately show ?thesis
      unfolding user_irq_loop.simps b d1 using Cons.IH [of d1] Cons.prems True
      by (simp add: P_def [symmetric]) (simp add: d1_def P_def)
  next
    case False
    then have "(if bit req i then user_irq_service i d else d) = d" by (simp add: P_def user_irq_service_def)
    moreover have "(\<lambda>j. if j \<in> set is \<and> bit req j \<and> events_irq (user_irq d j) = 0 then ?up j else user_irq d j) =
        (\<lambda>j. if j \<in> set (i # is) \<and> bit req j \<and> events_irq (user_irq d j) = 0 then ?up j else user_irq d j)"
      using False by (intro ext) (auto simp: P_def)
    ultimately show ?thesis
      unfolding user_irq_loop.simps b using Cons.IH [of d] Cons.prems False by (simp add: P_def)
  qed
qed simp

definition fired :: "u32 \<Rightarrow> xdma_dev \<Rightarrow> nat \<Rightarrow> nat \<Rightarrow> bool" where
  "fired ch_irq d k c \<longleftrightarrow> (\<exists>e. engine d c k = Some e \<and> e_irq_bitmask e AND ch_irq \<noteq> 0)"

lemma schedule_loop:
  "fold (schedule_engine ch_irq k) cs d = d\<lparr>klog := klog d @ map (\<lambda>c. Schedule c k) (filter (fired ch_irq d k) cs)\<rparr>"
proof (induction cs arbitrary: d)
  case (Cons c cs)
  have f: "fired ch_irq (log_call x d) k = fired ch_irq d k" for x by (simp add: fun_eq_iff fired_def)
  have c: "schedule_engine ch_irq k c d = (if fired ch_irq d k c then log_call (Schedule c k) d else d)"
    by (auto simp: schedule_engine_def fired_def split: option.splits)
  show ?case
  proof (cases "fired ch_irq d k c")
    case True
    then show ?thesis using Cons.IH [of "log_call (Schedule c k) d"] by (simp add: c f) (simp add: log_call_def)
  next
    case False
    then show ?thesis by (simp add: c Cons.IH)
  qed
qed simp

lemma request_user_irqs_spec:
  "request_user_irqs K n i d = (rc, j, d') \<Longrightarrow>
     klog d' = klog d @ map (\<lambda>k. Get (R_irq (entry_vector d k) (H_user k))) [i..<j] \<and> entry_vector d' = entry_vector d \<and>
     d_bus d' = d_bus d \<and> i \<le> j \<and> j \<le> i + n \<and> (rc = 0 \<longrightarrow> j = i + n) \<and>
     (rc = 0 \<longleftrightarrow> (\<forall>k. i \<le> k \<and> k < i + n \<longrightarrow> k_request_irq K (entry_vector d k) (H_user k) = 0))"
proof (induction n arbitrary: i d)
  case (Suc n)
  show ?case
  proof (cases "k_request_irq K (entry_vector d i) (H_user i) = 0")
    case True
    let ?d = "log_call (Get (R_irq (entry_vector d i) (H_user i))) d"
    have "request_user_irqs K n (Suc i) ?d = (rc, j, d')"
      using Suc.prems True by (simp add: request_irq_def)
    note ih = Suc.IH [OF this, simplified]
    then have "[i..<j] = i # [Suc i..<j]" by (simp add: upt_conv_Cons)
    moreover have "(\<forall>k. i \<le> k \<and> k < Suc (i + n) \<longrightarrow> P k) \<longleftrightarrow> P i \<and> (\<forall>k. Suc i \<le> k \<and> k < Suc (i + n) \<longrightarrow> P k)" for P
      by (metis Suc_leD Suc_leI le_add1 le_neq_implies_less less_Suc_eq_le order_refl)
    ultimately show ?thesis using ih True by simp
  next
    case False
    then show ?thesis using Suc.prems by (force simp: request_irq_def)
  qed
qed auto

lemma free_user_irqs_spec:
  "klog (free_user_irqs n d) = klog d @ map (\<lambda>k. Put (R_irq (entry_vector d k) (H_user k))) (rev [0..<n]) \<and>
   d_bus (free_user_irqs n d) = d_bus d"
  by (induction n arbitrary: d) (simp_all add: free_irq_def)

lemma held_map_Get: "held (map (\<lambda>k. Get (f k)) ks) r = int (length (filter (\<lambda>k. f k = r) ks))"
  by (induction ks) simp_all

lemma held_map_Put: "held (map (\<lambda>k. Put (f k)) ks) r = - int (length (filter (\<lambda>k. f k = r) ks))"
  by (induction ks) simp_all

lemma held_Put_rev: "held (map (\<lambda>k. Put (f k)) (rev ks)) r = - held (map (\<lambda>k. Get (f k)) ks) r"
  by (simp add: held_map_Put held_map_Get rev_filter [symmetric])

lemma msix_irq_setup_spec:
  assumes "config_bar d = Some cfg"
  shows "\<exists>rc d'. msix_irq_setup K d = Some (rc, d') \<and>
    (rc = 0 \<longleftrightarrow> (\<forall>i < MAX_USER_IRQ. k_request_irq K (entry_vector d i) (H_user i) = 0)) \<and>
    (\<forall>r. held (klog d') r = held (klog d) r +
       (if rc = 0 then int (length (filter (\<lambda>i. R_irq (entry_vector d i) (H_user i) = r) [0..<MAX_USER_IRQ])) else 0)) \<and>
    writes (d_bus d') = writes (d_bus d) @
      map (\<lambda>j. (ireg cfg I_user_msi_vector + of_nat (4 * j),
        build_vector_reg (of_nat (4 * j)) (of_nat (4 * j + 1)) (of_nat (4 * j + 2)) (of_nat (4 * j + 3)))) [0..<4] @
      map (\<lambda>j. (ireg cfg I_channel_msi_vector + of_nat (4 * j),
        build_vector_reg (of_nat (4 * j + 16)) (of_nat (4 * j + 17)) (of_nat (4 * j + 18)) (of_nat (4 * j + 19)))) [0..<2]"
proof -
  obtain d1 where d1: "write_msix_vectors d = Some d1" "klog d1 = klog d" "entry_vector d1 = entry_vector d"
    and w: "writes (d_bus d1) = writes (d_bus d) @
      map (\<lambda>j. (ireg cfg I_user_msi_vector + of_nat (4 * j),
        build_vector_reg (of_nat (4 * j)) (of_nat (4 * j + 1)) (of_nat (4 * j + 2)) (of_nat (4 * j + 3)))) [0..<4] @
      map (\<lambda>j. (ireg cfg I_channel_msi_vector + of_nat (4 * j),
        build_vector_reg (of_nat (4 * j + 16)) (of_nat (4 * j + 17)) (of_nat (4 * j + 18)) (of_nat (4 * j + 19)))) [0..<2]"
    by (simp add: write_msix_vectors_def assms upt_rec)
  obtain rc j d2 where d2: "request_user_irqs K MAX_USER_IRQ 0 d1 = (rc, j, d2)" by (cases "request_user_irqs K MAX_USER_IRQ 0 d1")
  note s = request_user_irqs_spec [OF d2]
  define d' where "d' = (if rc \<noteq> 0 then free_user_irqs j d2 else d2)"
  have r: "msix_irq_setup K d = Some (rc, d')" by (simp add: msix_irq_setup_def d1(1) d2 d'_def)
  have h: "held (klog d') r = held (klog d) r +
      (if rc = 0 then int (length (filter (\<lambda>i. R_irq (entry_vector d i) (H_user i) = r) [0..<MAX_USER_IRQ])) else 0)" for r
    using s by (cases "rc = 0") (simp_all add: d'_def free_user_irqs_spec d1(2,3) held_Put_rev held_map_Get)
  have "writes (d_bus d') = writes (d_bus d1)" using s by (simp add: d'_def free_user_irqs_spec)
  then show ?thesis using r h s w by (intro exI [of _ rc] exI [of _ d']) (simp add: d1(3))
qed

section \<open>Properties\<close>

text \<open>
  C21: the interrupt handler reads the pending channel interrupts, masks exactly those, and reads
  the pending user interrupts, in this order. It then schedules the bottom half of every engine
  one of whose interrupt bits is pending, once each, read channels first, and of no other engine;
  it marks every pending user interrupt and wakes its readers unless it was marked already.
\<close>

theorem isr_dispatches:
  assumes "config_bar d = Some cfg"
  shows "\<exists>d' ch req. xdma_isr d = Some d' \<and>
    hist (d_bus d') = Rd (ireg cfg I_user_int_request) req # Wr (ireg cfg I_channel_int_enable_w1c) ch #
      Rd (ireg cfg I_channel_int_request) ch # hist (d_bus d) \<and>
    klog d' = klog d @ map Wake_events (filter (\<lambda>i. bit req i \<and> events_irq (user_irq d i) = 0) [0..<MAX_USER_IRQ]) @
      map (\<lambda>c. Schedule c 0) (filter (fired ch d 0) [0..<XDMA_CHANNEL_NUM_MAX]) @
      map (\<lambda>c. Schedule c 1) (filter (fired ch d 1) [0..<XDMA_CHANNEL_NUM_MAX]) \<and>
    (\<forall>i. events_irq (user_irq d' i) =
       (if i < MAX_USER_IRQ \<and> bit req i \<and> events_irq (user_irq d i) = 0 then 1 else events_irq (user_irq d i))) \<and>
    engine d' = engine d \<and> irq_count d' = irq_count d + 1"
proof -
  obtain ch d1 where d1: "drd (ireg cfg I_channel_int_request) d = (ch, d1)" by (cases "drd (ireg cfg I_channel_int_request) d")
  define d2 where "d2 = d1\<lparr>d_bus := channel_interrupts_disable cfg ch (d_bus d1)\<rparr>"
  obtain req d3 where d3: "drd (ireg cfg I_user_int_request) d2 = (req, d3)" by (cases "drd (ireg cfg I_user_int_request) d2")
  define d4 where "d4 = user_irq_loop req [0..<MAX_USER_IRQ] d3"
  define d5 where "d5 = fold (schedule_engine ch 0) [0..<XDMA_CHANNEL_NUM_MAX] d4"
  define d6 where "d6 = fold (schedule_engine ch 1) [0..<XDMA_CHANNEL_NUM_MAX] d5"
  have r: "xdma_isr d = Some (d6\<lparr>irq_count := irq_count d6 + 1\<rparr>)"
    unfolding xdma_isr_def assms by (simp add: d1 d2_def [symmetric] d3 d4_def [symmetric] d5_def [symmetric])
      (simp add: d6_def Let_def)
  have e1: "hist (d_bus d1) = Rd (ireg cfg I_channel_int_request) ch # hist (d_bus d)" "klog d1 = klog d"
    "user_irq d1 = user_irq d" "engine d1 = engine d" "irq_count d1 = irq_count d"
    using drd_sel [of "ireg cfg I_channel_int_request" d] unfolding d1 by simp_all
  have e3: "hist (d_bus d3) = Rd (ireg cfg I_user_int_request) req # hist (d_bus d2)" "klog d3 = klog d2"
    "user_irq d3 = user_irq d2" "engine d3 = engine d2" "irq_count d3 = irq_count d2"
    using drd_sel [of "ireg cfg I_user_int_request" d2] unfolding d3 by simp_all
  have e2: "hist (d_bus d2) = Wr (ireg cfg I_channel_int_enable_w1c) ch # hist (d_bus d1)" "klog d2 = klog d1"
    "user_irq d2 = user_irq d1" "engine d2 = engine d1" "irq_count d2 = irq_count d1"
    by (simp_all add: d2_def channel_interrupts_disable_def write_register_def)
  have f: "fired ch d5 k = fired ch d k" "fired ch d4 k = fired ch d k" for k
    by (simp_all add: fun_eq_iff fired_def d5_def d4_def schedule_loop user_irq_loop_spec e1 e2 e3)
  show ?thesis
    by (intro exI [of _ "d6\<lparr>irq_count := irq_count d6 + 1\<rparr>"] exI [of _ ch] exI [of _ req] conjI allI r)
      (simp_all add: d6_def schedule_loop f, simp_all add: d5_def schedule_loop f,
        simp_all add: d4_def user_irq_loop_spec e1 e2 e3)
qed

text \<open>
  In MSI-X mode the setup of the user interrupts is all or nothing. It succeeds if and only if
  the kernel grants all 16 lines, and then holds exactly these; if one is refused, every line
  already granted is given back. The vector registers name entry \<open>i\<close> for user interrupt \<open>i\<close>, whose
  line has the handler of user interrupt \<open>i\<close>, and entry \<open>16 + n\<close> for channel interrupt \<open>n\<close>.
\<close>

theorem msix_setup_all_or_nothing:
  assumes "config_bar d = Some cfg"
  shows "\<exists>rc d'. msix_irq_setup K d = Some (rc, d') \<and>
    (rc = 0 \<longleftrightarrow> (\<forall>i < MAX_USER_IRQ. k_request_irq K (entry_vector d i) (H_user i) = 0)) \<and>
    (\<forall>r. held (klog d') r = held (klog d) r +
       (if rc = 0 then int (length (filter (\<lambda>i. R_irq (entry_vector d i) (H_user i) = r) [0..<MAX_USER_IRQ])) else 0)) \<and>
    writes (d_bus d') = writes (d_bus d) @
      map (\<lambda>j. (ireg cfg I_user_msi_vector + of_nat (4 * j),
        build_vector_reg (of_nat (4 * j)) (of_nat (4 * j + 1)) (of_nat (4 * j + 2)) (of_nat (4 * j + 3)))) [0..<4] @
      map (\<lambda>j. (ireg cfg I_channel_msi_vector + of_nat (4 * j),
        build_vector_reg (of_nat (4 * j + 16)) (of_nat (4 * j + 17)) (of_nat (4 * j + 18)) (of_nat (4 * j + 19)))) [0..<2]"
  using assms by (rule msix_irq_setup_spec)

text \<open>
  No user interrupt is lost, and none is reported twice. However many interrupts arrive before
  a read, the next read of four bytes returns exactly one event, poll having announced it; a read
  before the next interrupt waits, and ends only with a signal.
\<close>

theorem events_reported_once:
  assumes "c_magic ch = MAGIC_CHAR" "c_user_irq ch = Some i" "pos AND 3 = 0" "0 < n" "events_irq (user_irq d i) \<in> {0, 1}"
  shows "\<exists>d'. char_events_poll ch ((xdma_user_irq i ^^ n) d) = Some POLLIN_RDNORM \<and>
    char_events_read sig 0 ch 4 pos ((xdma_user_irq i ^^ n) d) = Some (4, Some 1, d') \<and>
    char_events_poll ch d' = Some 0 \<and> char_events_read False 0 ch 4 pos d' = None \<and>
    char_events_read True 0 ch 4 pos d' = Some (- ERESTARTSYS, None, d')"
proof -
  have "events_irq (user_irq ((xdma_user_irq i ^^ Suc m) d) i) = 1" for m
    by (induction m) (use assms(5) in \<open>auto simp: xdma_user_irq_def user_irq_service_def\<close>)
  then have "events_irq (user_irq ((xdma_user_irq i ^^ n) d) i) = 1" using assms(4) by (cases n) auto
  then show ?thesis using assms(1-3)
    by (simp add: char_events_read_def char_events_poll_def POLLIN_RDNORM_def)
qed

definition demo_dev :: xdma_dev where
  "demo_dev = \<lparr>d_magic = MAGIC_DEVICE, d_major = 0, d_instance = 0, user_char_dev = None, ctrl_char_dev = None,
     bypass_char_dev = (\<lambda>_ _. None), bypass_char_dev_base = None, sgdma_char_dev = (\<lambda>_ _. None),
     events_char_dev = (\<lambda>_. None), bar = (\<lambda>_. None)(1 := Some 0x10000), user_bar_idx = - 1, config_bar_idx = 1,
     bypass_bar_idx = - 1, regions_in_use = False, got_regions = True, irq_count = 0, irq_line = - 1,
     msi_enabled = False, msix_enabled = True, entry_vector = of_nat, user_irq = (\<lambda>_. \<lparr>events_irq = 0\<rparr>),
     engines_num = 0, engine = (\<lambda>_ _. None), d_bus = \<lparr>hist = [], resp = (\<lambda>_ _. 0)\<rparr>, klog = []\<rparr>"

definition demo_char :: xdma_char where
  "demo_char = \<lparr>c_magic = MAGIC_CHAR, cdevno = (250, 10), c_bar = 0, c_engine = None, c_user_irq = Some 0,
     c_type = CHAR_EVENTS, c_sys_device = Dev_ptr\<rparr>"

lemma demo_config: "config_bar demo_dev = Some 0x10000"
  by (simp add: config_bar_def demo_dev_def XDMA_BAR_NUM_def)

theorem isr_dispatches_witness: "\<exists>d'. xdma_isr demo_dev = Some d' \<and> irq_count d' = 1"
  using isr_dispatches [OF demo_config] by (fastforce simp: demo_dev_def)

theorem msix_setup_all_or_nothing_witness:
  "\<forall>K. \<exists>d'. msix_irq_setup (K\<lparr>k_request_irq := \<lambda>_ _. 0\<rparr>) demo_dev = Some (0, d') \<and> held (klog d') (R_irq 3 (H_user 3)) = 1"
proof
  fix K :: kapi
  let ?K = "K\<lparr>k_request_irq := \<lambda>_ _. 0\<rparr>"
  obtain d' where "msix_irq_setup ?K demo_dev = Some (0, d')"
    "held (klog d') (R_irq 3 (H_user 3)) = held (klog demo_dev) (R_irq 3 (H_user 3)) +
       int (length (filter (\<lambda>i. R_irq (entry_vector demo_dev i) (H_user i) = R_irq 3 (H_user 3)) [0..<MAX_USER_IRQ]))"
    using msix_setup_all_or_nothing [OF demo_config, of ?K] by fastforce
  then show "\<exists>d'. msix_irq_setup ?K demo_dev = Some (0, d') \<and> held (klog d') (R_irq 3 (H_user 3)) = 1"
    by (simp add: demo_dev_def MAX_USER_IRQ_def upt_rec)
qed

theorem events_reported_once_witness:
  "\<exists>d'. char_events_read False 0 demo_char 4 0 ((xdma_user_irq 0 ^^ 3) demo_dev) = Some (4, Some 1, d') \<and>
     char_events_read False 0 demo_char 4 0 d' = None"
  using events_reported_once [of demo_char 0 0 3 demo_dev False] by (fastforce simp: demo_dev_def demo_char_def)

end
