(* ===== verification/Bars.thy ===== *)
theory Bars
  imports Irq
begin

text \<open>
  The base address registers: mapping and identifying them at probe time
  (\<open>map_bars\<close> and its parts in \<open>driver/xdma-core.c\<close>), mapping one into a process
  (\<open>bridge_mmap\<close>), and the files that read and write registers of a BAR, or the descriptors
  waiting in the queue of an engine (bypass files).
\<close>

unbundle bit_operations_syntax

definition IRQ_BLOCK_ID :: u32 where "IRQ_BLOCK_ID = 0x1fc20000"
definition CONFIG_BLOCK_ID :: u32 where "CONFIG_BLOCK_ID = 0x1fc30000"
definition INT_MAX :: u64 where "INT_MAX = 0x7fffffff"

section \<open>Mapping\<close>

definition unmap_bar :: "nat \<Rightarrow> xdma_dev \<Rightarrow> xdma_dev" where
  "unmap_bar i d = (if bar d i \<noteq> None then (log_call (Put (R_bar i)) d)\<lparr>bar := (bar d)(i := None)\<rparr> else d)"

definition unmap_bars :: "xdma_dev \<Rightarrow> xdma_dev" where
  "unmap_bars d = fold unmap_bar [0..<XDMA_BAR_NUM] d"

text \<open>The length that is mapped: the whole BAR, at most \<open>INT_MAX\<close> bytes.\<close>

definition map_len :: "kapi \<Rightarrow> nat \<Rightarrow> u64" where
  "map_len K i = (if pci_resource_len K i > INT_MAX then INT_MAX else pci_resource_len K i)"

definition map_single_bar :: "kapi \<Rightarrow> nat \<Rightarrow> xdma_dev \<Rightarrow> int \<times> xdma_dev" where
  "map_single_bar K i d =
    (let d = d\<lparr>bar := (bar d)(i := None)\<rparr>
     in if pci_resource_len K i = 0 then (0, d)
        else let d = d\<lparr>bar := (bar d)(i := k_iomap K i (map_len K i))\<rparr>
          in if bar d i = None then (- 1, d)
             else (uint (map_len K i), log_call (Get (R_bar i)) d))"

text \<open>Only the identifiers are compared, not the version number.\<close>

definition is_config_bar :: "nat \<Rightarrow> xdma_dev \<Rightarrow> (bool \<times> xdma_dev) option" where
  "is_config_bar i d = do {
     a \<leftarrow> bar d i;
     let (irq_id, d) = drd (ireg a I_identifier) d;
     let (cfg_id, d) = drd (creg a C_identifier) d;
     Some (irq_id AND 0xffff0000 = IRQ_BLOCK_ID \<and> cfg_id AND 0xffff0000 = CONFIG_BLOCK_ID, d)
   }"

definition identify_bars :: "nat list \<Rightarrow> nat \<Rightarrow> xdma_dev \<Rightarrow> xdma_dev" where
  "identify_bars ids pos d =
    (if length ids = 2 then
       (if pos = 0 then d\<lparr>bypass_bar_idx := int (ids ! 1)\<rparr>
        else if pos = 1 then d\<lparr>user_bar_idx := int (ids ! 0)\<rparr> else d)
     else if length ids = 3 then
       (if pos = 1 then d\<lparr>user_bar_idx := int (ids ! 0), bypass_bar_idx := int (ids ! 2)\<rparr> else d)
     else d)"

text \<open>The loop over the BARs: the identifiers found so far and the position of the config BAR.\<close>

fun map_loop :: "kapi \<Rightarrow> nat list \<Rightarrow> nat list \<Rightarrow> nat \<Rightarrow> xdma_dev \<Rightarrow> (bool \<times> nat list \<times> nat \<times> xdma_dev) option" where
  "map_loop K [] ids pos d = Some (True, ids, pos, d)"
| "map_loop K (i # is) ids pos d =
    (let (bar_len, d) = map_single_bar K i d
     in if bar_len = 0 then map_loop K is ids pos d
        else if bar_len < 0 then Some (False, ids, pos, d)
        else if bar_len \<ge> uint XDMA_BAR_SIZE \<and> config_bar_idx d < 0 then do {
          (flag, d) \<leftarrow> is_config_bar i d;
          (if flag then map_loop K is (ids @ [i]) (length ids) (d\<lparr>config_bar_idx := int i\<rparr>)
           else map_loop K is (ids @ [i]) pos d)
        } else map_loop K is (ids @ [i]) pos d)"

definition map_bars :: "kapi \<Rightarrow> xdma_dev \<Rightarrow> (int \<times> xdma_dev) option" where
  "map_bars K d = do {
     (ok, ids, pos, d) \<leftarrow> map_loop K [0..<XDMA_BAR_NUM] [] 0 d;
     (if \<not> ok then Some (- 1, unmap_bars d)
      else if config_bar_idx d < 0 then Some (- 1, unmap_bars d)
      else Some (0, identify_bars ids pos d))
   }"

section \<open>Mapping a BAR into a process\<close>

text \<open>
  The result of \<open>io_remap_pfn_range\<close> is an argument. On success the second component says what
  is mapped: the first page frame and the number of bytes.
\<close>

record vm_area =
  vm_start :: u64
  vm_end :: u64
  vm_pgoff :: u64

definition bridge_mmap ::
  "kapi \<Rightarrow> (u64 \<Rightarrow> u64 \<Rightarrow> int) \<Rightarrow> xdma_char \<Rightarrow> xdma_dev \<Rightarrow> vm_area \<Rightarrow> (int \<times> (u64 \<times> u64) option) option" where
  "bridge_mmap K remap ch d vma = do {
     BUG_ON (c_magic ch \<noteq> MAGIC_CHAR);
     BUG_ON (d_magic d \<noteq> MAGIC_DEVICE);
     let off = push_bit PAGE_SHIFT (vm_pgoff vma);
     let phys = pci_resource_start K (nat (c_bar ch)) + off;
     let vsize = vm_end vma - vm_start vma;
     let psize = pci_resource_end K (nat (c_bar ch)) - pci_resource_start K (nat (c_bar ch)) + 1 - off;
     (if vsize > psize then Some (- EINVAL, None)
      else if remap (drop_bit PAGE_SHIFT phys) vsize \<noteq> 0 then Some (- EAGAIN, None)
      else Some (0, Some (drop_bit PAGE_SHIFT phys, vsize)))
   }"

section \<open>Register files\<close>

text \<open>
  \<open>fault\<close> says whether the copy from or to user space fails (the error is ignored). The value a
  failed copy leaves in the local variable is the argument \<open>junk\<close>.
\<close>

definition char_ctrl_read :: "bool \<Rightarrow> xdma_char \<Rightarrow> u64 \<Rightarrow> u64 \<Rightarrow> xdma_dev \<Rightarrow> (int \<times> u64 \<times> u32 option \<times> xdma_dev) option" where
  "char_ctrl_read fault ch count pos d = do {
     BUG_ON (c_magic ch \<noteq> MAGIC_CHAR);
     BUG_ON (d_magic d \<noteq> MAGIC_DEVICE);
     (if pos AND 3 \<noteq> 0 then Some (- EPROTO, pos, None, d)
      else do {
        a \<leftarrow> bar d (nat (c_bar ch));
        let (w, d) = drd (a + pos) d;
        Some (4, pos + 4, if fault then None else Some w, d)
      })
   }"

definition char_ctrl_write :: "u32 option \<Rightarrow> u32 \<Rightarrow> xdma_char \<Rightarrow> u64 \<Rightarrow> u64 \<Rightarrow> xdma_dev \<Rightarrow> (int \<times> u64 \<times> xdma_dev) option" where
  "char_ctrl_write data junk ch count pos d = do {
     BUG_ON (c_magic ch \<noteq> MAGIC_CHAR);
     BUG_ON (d_magic d \<noteq> MAGIC_DEVICE);
     (if pos AND 3 \<noteq> 0 then Some (- EPROTO, pos, d)
      else do {
        a \<leftarrow> bar d (nat (c_bar ch));
        let w = (case data of Some w \<Rightarrow> w | None \<Rightarrow> junk);
        Some (4, pos + 4, dwr w (a + pos) d)
      })
   }"

text \<open>\<open>char_open\<close> finds the character device and stores it in the file; \<open>char_close\<close> only checks.\<close>

definition char_open :: "xdma_char \<Rightarrow> (int \<times> xdma_char) option" where
  "char_open ch = do { BUG_ON (c_magic ch \<noteq> MAGIC_CHAR); Some (0, ch) }"

definition char_close :: "xdma_char \<Rightarrow> xdma_dev \<Rightarrow> int option" where
  "char_close ch d = do { BUG_ON (c_magic ch \<noteq> MAGIC_CHAR); BUG_ON (d_magic d \<noteq> MAGIC_DEVICE); Some 0 }"

section \<open>Bypass files\<close>

text \<open>
  \<open>fault off\<close> says whether the copy to user space at offset \<open>off\<close> fails. The descriptors copied
  are returned in order; a descriptor takes 32 bytes.
\<close>

fun copy_desc_loop ::
  "(nat \<Rightarrow> bool) \<Rightarrow> nat \<Rightarrow> xdma_desc list \<Rightarrow> nat \<Rightarrow> int \<Rightarrow> int \<times> nat \<times> xdma_desc list" where
  "copy_desc_loop fault n [] off rc = (rc, off, [])"
| "copy_desc_loop fault n (x # ds) off rc =
    (if off + 32 \<le> n then
       (if fault off then copy_desc_loop fault n ds n (- EINVAL)
        else let (rc, off', out) = copy_desc_loop fault n ds (off + 32) rc in (rc, off', x # out))
     else copy_desc_loop fault n ds off (- ENOMEM))"

definition copy_desc_data :: "(nat \<Rightarrow> bool) \<Rightarrow> xdma_transfer \<Rightarrow> nat \<Rightarrow> nat \<Rightarrow> (int \<times> nat \<times> xdma_desc list) option" where
  "copy_desc_data fault x off n =
    (if length (desc_virt x) < desc_num x then None
     else Some (copy_desc_loop fault n (take (desc_num x) (desc_virt x)) off 0))"

text \<open>The result of a call replaces the one before: only the last transfer can make the read fail.\<close>

fun bypass_read_loop ::
  "(nat \<Rightarrow> bool) \<Rightarrow> nat \<Rightarrow> est \<Rightarrow> nat list \<Rightarrow> nat \<Rightarrow> int \<Rightarrow> (int \<times> nat \<times> xdma_desc list) option" where
  "bypass_read_loop fault n s [] off rc = Some (rc, off, [])"
| "bypass_read_loop fault n s (t # ts) off rc = do {
     x \<leftarrow> heap s t;
     (rc, off, out) \<leftarrow> copy_desc_data fault x off n;
     (rc, off, out') \<leftarrow> bypass_read_loop fault n s ts off rc;
     Some (rc, off, out @ out')
   }"

definition bypass_guard :: "xdma_char \<Rightarrow> xdma_dev \<Rightarrow> est \<Rightarrow> bool \<Rightarrow> nat \<Rightarrow> int option" where
  "bypass_guard ch d s buf count = do {
     BUG_ON (c_magic ch \<noteq> MAGIC_CHAR);
     BUG_ON (d_magic d \<noteq> MAGIC_DEVICE);
     BUG_ON (c_engine ch = None);
     BUG_ON (e_magic (en s) \<noteq> MAGIC_ENGINE);
     Some (if count mod 4 \<noteq> 0 then - EINVAL
           else if \<not> buf then - EINVAL
           else if bypass_bar_idx d < 0 then - ENODEV
           else 0)
   }"

definition char_bypass_read ::
  "(nat \<Rightarrow> bool) \<Rightarrow> xdma_char \<Rightarrow> xdma_dev \<Rightarrow> est \<Rightarrow> bool \<Rightarrow> nat \<Rightarrow> (int \<times> xdma_desc list \<times> est) option" where
  "char_bypass_read fault ch d s buf count = do {
     rc \<leftarrow> bypass_guard ch d s buf count;
     (if rc \<noteq> 0 then Some (rc, [], s)
      else do {
        s \<leftarrow> lock_engine s;
        (rc, off, out) \<leftarrow> bypass_read_loop fault count s (transfer_list (en s)) 0 0;
        Some (if rc < 0 then rc else int off, out, unlock_engine s)
      })
   }"

text \<open>\<open>data i\<close> is word \<open>i\<close> of the user buffer, nothing if it cannot be read.\<close>

fun bypass_write_loop :: "(nat \<Rightarrow> u32 option) \<Rightarrow> u64 \<Rightarrow> nat \<Rightarrow> nat \<Rightarrow> int \<Rightarrow> est \<Rightarrow> int \<times> est" where
  "bypass_write_loop data a 0 i rc s = (rc, s)"
| "bypass_write_loop data a (Suc n) i rc s =
    (case data i of
       None \<Rightarrow> (- EINVAL, s)
     | Some w \<Rightarrow> bypass_write_loop data a n (Suc i) (4 * int (Suc i)) (wr w a s))"

text \<open>\<open>bypass_addr\<close> points to 32-bit words: the offset of the engine counts words.\<close>

definition char_bypass_write ::
  "(nat \<Rightarrow> u32 option) \<Rightarrow> u32 \<Rightarrow> xdma_char \<Rightarrow> xdma_dev \<Rightarrow> est \<Rightarrow> bool \<Rightarrow> nat \<Rightarrow> (int \<times> est) option" where
  "char_bypass_write data byp_off ch d s buf count = do {
     rc \<leftarrow> bypass_guard ch d s buf count;
     (if rc \<noteq> 0 then Some (rc, s)
      else do {
        s \<leftarrow> lock_engine s;
        a \<leftarrow> bar d (nat (bypass_bar_idx d));
        let (rc, s) = bypass_write_loop data (a + 4 * ucast byp_off) (count div 4) 0 0 s;
        Some (rc, unlock_engine s)
      })
   }"

section \<open>What mapping holds\<close>

text \<open>The resources held apart from the mappings that \<open>lro->bar\<close> accounts for.\<close>

definition bars_held :: "xdma_dev \<Rightarrow> kres \<Rightarrow> int" where
  "bars_held d r = held (klog d) r - (case r of R_bar j \<Rightarrow> (if bar d j \<noteq> None then 1 else 0) | _ \<Rightarrow> 0)"

lemma bars_held_cong: "klog d' = klog d \<Longrightarrow> bar d' = bar d \<Longrightarrow> bars_held d' = bars_held d"
  by (intro ext) (simp add: bars_held_def split: kres.split)

lemma bars_held_unmap [simp]: "bars_held (unmap_bar i d) = bars_held d"
  by (auto simp: fun_eq_iff bars_held_def unmap_bar_def split: kres.split)

lemma unmap_bars_fold:
  "bars_held (fold unmap_bar is d) = bars_held d \<and>
   bar (fold unmap_bar is d) = (\<lambda>i. if i \<in> set is then None else bar d i)"
proof (induction "is" arbitrary: d)
  case (Cons i "is")
  have "bar (unmap_bar i d) = (bar d)(i := None)" by (auto simp: unmap_bar_def)
  then show ?case by (auto simp: Cons.IH fun_eq_iff)
qed simp

lemma bars_held_map: "bar d i = None \<Longrightarrow> bars_held (snd (map_single_bar K i d)) = bars_held d"
  by (auto simp: fun_eq_iff bars_held_def map_single_bar_def Let_def split: kres.split)

lemma map_single_sel [simp]:
  "config_bar_idx (snd (map_single_bar K i d)) = config_bar_idx d" "user_bar_idx (snd (map_single_bar K i d)) = user_bar_idx d"
  "bypass_bar_idx (snd (map_single_bar K i d)) = bypass_bar_idx d" "resp (d_bus (snd (map_single_bar K i d))) = resp (d_bus d)"
  "bar (snd (map_single_bar K i d)) = (bar d)(i := if pci_resource_len K i = 0 then None else k_iomap K i (map_len K i))"
  by (simp_all add: map_single_bar_def Let_def log_call_def)

lemma map_single_rc:
  "fst (map_single_bar K i d) = (if pci_resource_len K i = 0 then 0
     else if k_iomap K i (map_len K i) = None then - 1 else uint (map_len K i))"
  by (simp add: map_single_bar_def Let_def)

lemma map_len_pos: "pci_resource_len K i \<noteq> 0 \<Longrightarrow> 0 < uint (map_len K i)"
proof -
  assume "pci_resource_len K i \<noteq> 0"
  then have "0 < map_len K i" by (auto simp: map_len_def INT_MAX_def word_neq_0_conv [symmetric])
  then show ?thesis by (simp add: word_less_def)
qed

definition cfg_ids :: "u32 \<Rightarrow> u32 \<Rightarrow> bool" where
  "cfg_ids a b \<longleftrightarrow> a AND 0xffff0000 = IRQ_BLOCK_ID \<and> b AND 0xffff0000 = CONFIG_BLOCK_ID"

lemma is_config_bar_Some:
  assumes "bar d i = Some a"
  shows "\<exists>d' v w. is_config_bar i d = Some (cfg_ids v w, d') \<and> klog d' = klog d \<and> bar d' = bar d \<and>
    config_bar_idx d' = config_bar_idx d \<and> user_bar_idx d' = user_bar_idx d \<and> bypass_bar_idx d' = bypass_bar_idx d \<and>
    resp (d_bus d') = resp (d_bus d) \<and> (\<exists>h. v = resp (d_bus d) h (ireg a I_identifier)) \<and>
    (\<exists>h. w = resp (d_bus d) h (creg a C_identifier))"
proof -
  have s: "user_bar_idx (snd (drd x y)) = user_bar_idx y" "bypass_bar_idx (snd (drd x y)) = bypass_bar_idx y" for x y
    by (simp_all add: drd_def Let_def split_beta)
  show ?thesis
    by (intro exI [of _ "snd (drd (creg a C_identifier) (snd (drd (ireg a I_identifier) d)))"]
        exI [of _ "fst (drd (ireg a I_identifier) d)"]
        exI [of _ "fst (drd (creg a C_identifier) (snd (drd (ireg a I_identifier) d)))"])
      (simp add: is_config_bar_def assms split_beta cfg_ids_def s, blast)
qed

text \<open>The loop always returns, and keeps the account of the mappings.\<close>

lemma map_loop_total:
  "distinct is \<Longrightarrow> (\<forall>i \<in> set is. bar d i = None) \<Longrightarrow>
   \<exists>ok ids' pos' d'. map_loop K is ids pos d = Some (ok, ids', pos', d') \<and> bars_held d' = bars_held d \<and>
     (\<forall>i. i \<notin> set is \<longrightarrow> bar d' i = bar d i) \<and>
     (config_bar_idx d' = config_bar_idx d \<or> (\<exists>i \<in> set is. config_bar_idx d' = int i \<and> bar d' i \<noteq> None))"
proof (induction "is" arbitrary: ids pos d)
  case (Cons i "is")
  obtain len d1 where d1: "map_single_bar K i d = (len, d1)" by (cases "map_single_bar K i d")
  have e: "config_bar_idx d1 = config_bar_idx d" "bar d1 = (bar d)(i := if pci_resource_len K i = 0 then None else k_iomap K i (map_len K i))"
    "bars_held d1 = bars_held d"
    using map_single_sel [of K i d] bars_held_map [of d i K] Cons.prems(2) unfolding d1 by simp_all
  have l: "len = (if pci_resource_len K i = 0 then 0 else if k_iomap K i (map_len K i) = None then - 1 else uint (map_len K i))"
    using map_single_rc [of K i d] unfolding d1 by simp
  have n: "distinct is" "i \<notin> set is" using Cons.prems(1) by simp_all
  have rec: "\<exists>ok ids' pos' d'. map_loop K is jds p d2 = Some (ok, ids', pos', d') \<and> bars_held d' = bars_held d \<and>
     (\<forall>j. j \<notin> set (i # is) \<longrightarrow> bar d' j = bar d j) \<and>
     (config_bar_idx d' = config_bar_idx d \<or> (\<exists>j \<in> set (i # is). config_bar_idx d' = int j \<and> bar d' j \<noteq> None))"
    if "klog d2 = klog d1" "bar d2 = bar d1" "config_bar_idx d2 = config_bar_idx d \<or> (config_bar_idx d2 = int i \<and> bar d1 i \<noteq> None)"
    for d2 jds p
  proof -
    have b: "\<forall>j \<in> set is. bar d2 j = None" using Cons.prems(2) n that(2) e(2) by auto
    obtain ok ids' pos' d' where r: "map_loop K is jds p d2 = Some (ok, ids', pos', d')" "bars_held d' = bars_held d2"
      "\<forall>j. j \<notin> set is \<longrightarrow> bar d' j = bar d2 j"
      "config_bar_idx d' = config_bar_idx d2 \<or> (\<exists>j \<in> set is. config_bar_idx d' = int j \<and> bar d' j \<noteq> None)"
      using Cons.IH [OF n(1) b] by blast
    have "bars_held d' = bars_held d" using r(2) bars_held_cong [OF that(1,2)] e(3) by simp
    moreover have "bar d' i = bar d1 i" using r(3) n(2) that(2) by auto
    moreover have "\<forall>j. j \<notin> set (i # is) \<longrightarrow> bar d' j = bar d j" using r(3) that(2) e(2) by auto
    ultimately show ?thesis using r(1,4) that(3) by auto
  qed
  show ?case
  proof (cases "pci_resource_len K i = 0")
    case True
    then show ?thesis using rec [of d1 ids pos] e(1) by (simp add: d1 l)
  next
    case pres: False
    show ?thesis
    proof (cases "k_iomap K i (map_len K i)")
      case None
      then show ?thesis using pres e by (intro exI [of _ False]) (simp add: d1 l)
    next
      case (Some a)
      then have b: "bar d1 i = Some a" using e(2) pres by simp
      obtain d2 v w where c: "is_config_bar i d1 = Some (cfg_ids v w, d2)" "klog d2 = klog d1" "bar d2 = bar d1"
        "config_bar_idx d2 = config_bar_idx d1" using is_config_bar_Some [OF b] by blast
      note r1 = rec [of d1 "ids @ [i]" pos] and r2 = rec [of d2 "ids @ [i]" pos]
        and r3 = rec [of "d2\<lparr>config_bar_idx := int i\<rparr>" "ids @ [i]" "length ids"]
      show ?thesis using r1 r2 r3 b c e(1) map_len_pos [OF pres] pres Some
        by (cases "cfg_ids v w") (simp_all add: d1 l)
    qed
  qed
qed (simp, blast)

lemma takeWhile_less_iff: "length (takeWhile (\<lambda>i. \<not> Q i) xs) < length xs \<longleftrightarrow> (\<exists>i \<in> set xs. Q i)"
  by (induction xs) auto

text \<open>The loop when every BAR that is present can be mapped and the identifiers do not change.\<close>

definition present :: "kapi \<Rightarrow> nat \<Rightarrow> bool" where
  "present K i \<longleftrightarrow> pci_resource_len K i \<noteq> 0"

definition is_cfg :: "kapi \<Rightarrow> (u64 \<Rightarrow> u32) \<Rightarrow> (nat \<Rightarrow> u64) \<Rightarrow> nat \<Rightarrow> bool" where
  "is_cfg K v A i \<longleftrightarrow> XDMA_BAR_SIZE \<le> map_len K i \<and> cfg_ids (v (ireg (A i) I_identifier)) (v (creg (A i) C_identifier))"

lemma map_loop_found:
  assumes "\<forall>i. present K i \<longrightarrow> k_iomap K i (map_len K i) = Some (A i)"
  shows "distinct is \<Longrightarrow> (\<forall>h a. resp (d_bus d) h a = v a) \<Longrightarrow> \<not> config_bar_idx d < 0 \<Longrightarrow>
    \<exists>d'. map_loop K is ids pos d = Some (True, ids @ filter (present K) is, pos, d') \<and>
      bar d' = (\<lambda>i. if i \<in> set is then (if present K i then Some (A i) else None) else bar d i) \<and>
      config_bar_idx d' = config_bar_idx d \<and> user_bar_idx d' = user_bar_idx d \<and> bypass_bar_idx d' = bypass_bar_idx d"
proof (induction "is" arbitrary: ids d)
  case (Cons i "is")
  define d1 where "d1 = snd (map_single_bar K i d)"
  have e: "config_bar_idx d1 = config_bar_idx d" "bar d1 = (bar d)(i := if present K i then Some (A i) else None)"
    "user_bar_idx d1 = user_bar_idx d" "bypass_bar_idx d1 = bypass_bar_idx d" "\<forall>h a. resp (d_bus d1) h a = v a"
    using Cons.prems(2) assms by (auto simp: d1_def present_def)
  have s: "map_single_bar K i d = (if present K i then uint (map_len K i) else 0, d1)"
    using assms map_single_rc [of K i d] by (auto simp: d1_def present_def prod_eq_iff)
  have st: "map_loop K (i # is) ids pos d = map_loop K is (if present K i then ids @ [i] else ids) pos d1"
    using map_len_pos [of K i] Cons.prems(3) e(1) by (cases "present K i") (auto simp: s present_def)
  have h: "distinct is" "\<not> config_bar_idx d1 < 0" using Cons.prems(1,3) e(1) by simp_all
  from Cons.IH [OF h(1) e(5) h(2)] obtain d' where
    "map_loop K is (if present K i then ids @ [i] else ids) pos d1 =
       Some (True, (if present K i then ids @ [i] else ids) @ filter (present K) is, pos, d')"
    "bar d' = (\<lambda>j. if j \<in> set is then (if present K j then Some (A j) else None) else bar d1 j)"
    "config_bar_idx d' = config_bar_idx d1" "user_bar_idx d' = user_bar_idx d1" "bypass_bar_idx d' = bypass_bar_idx d1"
    by blast
  then show ?case unfolding st using e Cons.prems(1) by (intro exI [of _ d']) (auto simp: fun_eq_iff)
qed simp

lemma map_loop_search:
  assumes "\<forall>i. present K i \<longrightarrow> k_iomap K i (map_len K i) = Some (A i)"
  shows "distinct is \<Longrightarrow> (\<forall>h a. resp (d_bus d) h a = v a) \<Longrightarrow> config_bar_idx d = - 1 \<Longrightarrow>
    P = filter (present K) is \<Longrightarrow> k = length (takeWhile (\<lambda>i. \<not> is_cfg K v A i) P) \<Longrightarrow>
    \<exists>d'. map_loop K is ids pos d = Some (True, ids @ P, if k < length P then length ids + k else pos, d') \<and>
      bar d' = (\<lambda>i. if i \<in> set is then (if present K i then Some (A i) else None) else bar d i) \<and>
      config_bar_idx d' = (if k < length P then int (P ! k) else - 1) \<and>
      user_bar_idx d' = user_bar_idx d \<and> bypass_bar_idx d' = bypass_bar_idx d"
proof (induction "is" arbitrary: ids d P k)
  case (Cons i "is")
  define d1 where "d1 = snd (map_single_bar K i d)"
  have e: "config_bar_idx d1 = - 1" "bar d1 = (bar d)(i := if present K i then Some (A i) else None)"
    "user_bar_idx d1 = user_bar_idx d" "bypass_bar_idx d1 = bypass_bar_idx d" "\<forall>h a. resp (d_bus d1) h a = v a"
    using Cons.prems(2,3) assms by (auto simp: d1_def present_def)
  have s: "map_single_bar K i d = (if present K i then uint (map_len K i) else 0, d1)"
    using assms map_single_rc [of K i d] by (auto simp: d1_def present_def prod_eq_iff)
  define Q where "Q = filter (present K) is"
  define m where "m = length (takeWhile (\<lambda>i. \<not> is_cfg K v A i) Q)"
  have dis: "distinct is" "i \<notin> set is" using Cons.prems(1) by simp_all
  have big: "uint XDMA_BAR_SIZE \<le> uint (map_len K i) \<longleftrightarrow> XDMA_BAR_SIZE \<le> map_len K i" by (simp add: word_le_def)
  have search: "\<exists>d'. map_loop K is jds pos d2 = Some (True, jds @ Q, if m < length Q then length jds + m else pos, d') \<and>
      bar d' = (\<lambda>j. if j \<in> set (i # is) then (if present K j then Some (A j) else None) else bar d j) \<and>
      config_bar_idx d' = (if m < length Q then int (Q ! m) else - 1) \<and>
      user_bar_idx d' = user_bar_idx d \<and> bypass_bar_idx d' = bypass_bar_idx d"
    if "bar d2 = bar d1" "config_bar_idx d2 = - 1" "user_bar_idx d2 = user_bar_idx d" "bypass_bar_idx d2 = bypass_bar_idx d"
      "\<forall>h a. resp (d_bus d2) h a = v a" for d2 jds
    using Cons.IH [OF dis(1) that(5,2) Q_def m_def, of jds] that(1,3,4) e(2) dis(2) by (auto simp: fun_eq_iff)
  show ?case
  proof (cases "present K i")
    case False
    then have "P = Q" "k = m" using Cons.prems(4,5) by (simp_all add: Q_def m_def)
    moreover have st: "map_loop K (i # is) ids pos d = map_loop K is ids pos d1" using False by (simp add: s)
    ultimately show ?thesis unfolding st using search [OF refl e(1,3-5), of ids] by (simp only: simp_thms)
  next
    case pres: True
    have b: "bar d1 i = Some (A i)" using e(2) pres by simp
    obtain d2 where c: "is_config_bar i d1 = Some (cfg_ids (v (ireg (A i) I_identifier)) (v (creg (A i) C_identifier)), d2)"
      "bar d2 = bar d1" "config_bar_idx d2 = - 1" "user_bar_idx d2 = user_bar_idx d" "bypass_bar_idx d2 = bypass_bar_idx d"
      "resp (d_bus d2) = resp (d_bus d1)" using is_config_bar_Some [OF b] e by (auto)
    have P: "P = i # Q" using Cons.prems(4) pres by (simp add: Q_def)
    show ?thesis
    proof (cases "is_cfg K v A i")
      case True
      let ?d = "d2\<lparr>config_bar_idx := int i\<rparr>"
      have st: "map_loop K (i # is) ids pos d = map_loop K is (ids @ [i]) (length ids) ?d"
        using True map_len_pos [of K i] pres c(1) e(1) by (simp add: s is_cfg_def big present_def)
      have "\<forall>h a. resp (d_bus ?d) h a = v a" "\<not> config_bar_idx ?d < 0" using c(6) e(5) by simp_all
      from map_loop_found [OF assms dis(1) this, of "ids @ [i]" "length ids"] obtain d' where
        "map_loop K is (ids @ [i]) (length ids) ?d = Some (True, (ids @ [i]) @ Q, length ids, d')"
        "bar d' = (\<lambda>j. if j \<in> set is then (if present K j then Some (A j) else None) else bar d2 j)"
        "config_bar_idx d' = int i" "user_bar_idx d' = user_bar_idx d" "bypass_bar_idx d' = bypass_bar_idx d"
        unfolding Q_def using c(4,5) by (auto cong: if_cong)
      then show ?thesis unfolding st using True Cons.prems(5) P c(2) e(2) dis(2) by (auto simp: fun_eq_iff)
    next
      case False
      have st: "map_loop K (i # is) ids pos d = map_loop K is (ids @ [i]) pos (if XDMA_BAR_SIZE \<le> map_len K i then d2 else d1)"
        using False map_len_pos [of K i] pres c(1) e(1) by (auto simp: s is_cfg_def big present_def)
      have "k = Suc m" using Cons.prems(5) P False by (simp add: m_def)
      then show ?thesis unfolding st
        using search [of "if XDMA_BAR_SIZE \<le> map_len K i then d2 else d1" "ids @ [i]"] c(2-6) e P by (auto split: if_splits)
    qed
  qed
qed simp

lemma map_bars_spec:
  assumes "\<forall>i. bar d i = None" "config_bar_idx d = - 1"
  shows "\<exists>rc d'. map_bars K d = Some (rc, d') \<and>
    (if rc = 0 then config_bar d' \<noteq> None \<and>
        (\<forall>r. held (klog d') r = held (klog d) r + (case r of R_bar j \<Rightarrow> (if bar d' j \<noteq> None then 1 else 0) | _ \<Rightarrow> 0))
     else (\<forall>i. bar d' i = None) \<and> held (klog d') = held (klog d)) \<and>
    (\<forall>i. bar (unmap_bars d') i = None) \<and> held (klog (unmap_bars d')) = held (klog d)"
proof -
  have "\<forall>i \<in> set [0..<XDMA_BAR_NUM]. bar d i = None" using assms(1) by simp
  from map_loop_total [OF distinct_upt this, of K "[]" 0] obtain ok ids pos d1 where
    d1: "map_loop K [0..<XDMA_BAR_NUM] [] 0 d = Some (ok, ids, pos, d1)" "bars_held d1 = bars_held d"
      "\<forall>i. i \<notin> set [0..<XDMA_BAR_NUM] \<longrightarrow> bar d1 i = bar d i"
      "config_bar_idx d1 = config_bar_idx d \<or> (\<exists>i \<in> set [0..<XDMA_BAR_NUM]. config_bar_idx d1 = int i \<and> bar d1 i \<noteq> None)"
    by blast
  have base: "bars_held d = held (klog d)" using assms(1) by (auto simp: fun_eq_iff bars_held_def split: kres.split)
  have un: "(\<forall>i. bar (unmap_bars e) i = None) \<and> held (klog (unmap_bars e)) = held (klog d)"
    if "bars_held e = bars_held d1" "bar e = bar d1" for e
  proof -
    have b: "\<forall>i. bar (unmap_bars e) i = None"
      using unmap_bars_fold [of "[0..<XDMA_BAR_NUM]" e] d1(3) assms(1) that(2) by (auto simp: unmap_bars_def)
    then have "held (klog (unmap_bars e)) = bars_held (unmap_bars e)"
      by (auto simp: fun_eq_iff bars_held_def split: kres.split)
    also have "\<dots> = held (klog d)"
      using unmap_bars_fold [of "[0..<XDMA_BAR_NUM]" e] that(1) d1(2) base by (simp add: unmap_bars_def)
    finally show ?thesis using b by blast
  qed
  show ?thesis
  proof (cases "ok \<and> \<not> config_bar_idx d1 < 0")
    case False
    have m: "map_bars K d = Some (- 1, unmap_bars d1)" using False d1(1) by (auto simp: map_bars_def)
    have "unmap_bars (unmap_bars d1) = unmap_bars d1"
    proof -
      have "fold unmap_bar is e = e" if "\<forall>i. bar e i = None" for "is" e
        using that by (induction "is") (simp_all add: unmap_bar_def)
      then show ?thesis using un [OF refl refl] by (simp add: unmap_bars_def)
    qed
    then show ?thesis using m un [OF refl refl] by simp
  next
    case True
    define e where "e = identify_bars ids pos d1"
    have e: "bar e = bar d1" "klog e = klog d1" "config_bar_idx e = config_bar_idx d1"
      by (simp_all add: e_def identify_bars_def)
    have "map_bars K d = Some (0, e)" using True d1(1) by (simp add: map_bars_def e_def)
    moreover have "config_bar e \<noteq> None" using True d1(4) assms(2) e by (auto simp: config_bar_def)
    moreover have "held (klog e) r = held (klog d) r + (case r of R_bar j \<Rightarrow> (if bar e j \<noteq> None then 1 else 0) | _ \<Rightarrow> 0)" for r
      using fun_cong [OF d1(2), of r] fun_cong [OF base, of r] e by (cases r) (simp_all add: bars_held_def)
    moreover have "bars_held e = bars_held d1" by (rule bars_held_cong) (simp_all add: e)
    ultimately show ?thesis using un [of e] e(1) by auto
  qed
qed

lemma map_bars_search:
  assumes "\<forall>i. present K i \<longrightarrow> k_iomap K i (map_len K i) = Some (A i)" "\<forall>h a. resp (d_bus d) h a = v a"
    and "config_bar_idx d = - 1" "user_bar_idx d = - 1" "bypass_bar_idx d = - 1" "\<forall>i. bar d i = None"
    and "P = filter (present K) [0..<XDMA_BAR_NUM]" "k = length (takeWhile (\<lambda>i. \<not> is_cfg K v A i) P)"
  shows "\<exists>rc d'. map_bars K d = Some (rc, d') \<and> (rc = 0 \<longleftrightarrow> (\<exists>i \<in> set P. is_cfg K v A i)) \<and>
    (rc = 0 \<longrightarrow> bar d' = (\<lambda>i. if i \<in> set P then Some (A i) else None) \<and> config_bar_idx d' = int (P ! k) \<and>
       user_bar_idx d' = (if (length P = 2 \<or> length P = 3) \<and> k = 1 then int (P ! 0) else - 1) \<and>
       bypass_bar_idx d' = (if length P = 2 \<and> k = 0 then int (P ! 1)
         else if length P = 3 \<and> k = 1 then int (P ! 2) else - 1))"
proof -
  obtain d1 where d1: "map_loop K [0..<XDMA_BAR_NUM] [] 0 d = Some (True, [] @ P, if k < length P then length ([] :: nat list) + k else 0, d1)"
    "bar d1 = (\<lambda>i. if i \<in> set [0..<XDMA_BAR_NUM] then (if present K i then Some (A i) else None) else bar d i)"
    "config_bar_idx d1 = (if k < length P then int (P ! k) else - 1)"
    "user_bar_idx d1 = - 1" "bypass_bar_idx d1 = - 1"
    using map_loop_search [OF assms(1) distinct_upt assms(2,3,7,8), of "[]" 0] unfolding assms(4,5) by blast
  have kP: "k < length P \<longleftrightarrow> (\<exists>i \<in> set P. is_cfg K v A i)" unfolding assms(8) by (rule takeWhile_less_iff)
  have b: "bar d1 = (\<lambda>i. if i \<in> set P then Some (A i) else None)"
    unfolding d1(2) assms(7) using assms(6) by (auto simp: fun_eq_iff)
  show ?thesis
  proof (cases "k < length P")
    case True
    have "map_bars K d = Some (0, identify_bars P k d1)" using True d1(1,3) by (simp add: map_bars_def)
    then show ?thesis using True kP b d1(3-5) by (simp add: identify_bars_def)
  next
    case False
    have "map_bars K d = Some (- 1, unmap_bars d1)" using False d1(1,3) by (simp add: map_bars_def)
    then show ?thesis using False kP by simp
  qed
qed

section \<open>Properties\<close>

text \<open>
  C22: when the present BARs can be mapped and the hardware answers consistently, mapping succeeds
  if and only if one of them is at least 32 KiB long and carries the two identifiers of the
  config block. The first such BAR becomes the config BAR; of two BARs the one before it is the
  user BAR and the one after it the bypass BAR, of three the config BAR must be the second one
  for the others to get a role; with any other number of BARs only the config BAR is used.
\<close>

theorem map_bars_roles:
  assumes "\<forall>i. present K i \<longrightarrow> k_iomap K i (map_len K i) = Some (A i)" "\<forall>h a. resp (d_bus d) h a = v a"
    and "config_bar_idx d = - 1" "user_bar_idx d = - 1" "bypass_bar_idx d = - 1" "\<forall>i. bar d i = None"
    and "P = filter (present K) [0..<XDMA_BAR_NUM]" "k = length (takeWhile (\<lambda>i. \<not> is_cfg K v A i) P)"
  shows "\<exists>rc d'. map_bars K d = Some (rc, d') \<and> (rc = 0 \<longleftrightarrow> (\<exists>i \<in> set P. is_cfg K v A i)) \<and>
    (rc = 0 \<longrightarrow> bar d' = (\<lambda>i. if i \<in> set P then Some (A i) else None) \<and> config_bar_idx d' = int (P ! k) \<and>
       user_bar_idx d' = (if (length P = 2 \<or> length P = 3) \<and> k = 1 then int (P ! 0) else - 1) \<and>
       bypass_bar_idx d' = (if length P = 2 \<and> k = 0 then int (P ! 1)
         else if length P = 3 \<and> k = 1 then int (P ! 2) else - 1))"
  using assms by (rule map_bars_search)

text \<open>
  Mapping is all or nothing, whatever the device and the kernel answer. If it fails, no BAR
  stays mapped and everything it mapped has been unmapped; if it succeeds, the config BAR is
  mapped and the mappings held are the ones \<open>lro->bar\<close> records; unmapping then releases them all.
\<close>

theorem map_bars_all_or_nothing:
  assumes "\<forall>i. bar d i = None" "config_bar_idx d = - 1"
  shows "\<exists>rc d'. map_bars K d = Some (rc, d') \<and>
    (if rc = 0 then config_bar d' \<noteq> None \<and>
        (\<forall>r. held (klog d') r = held (klog d) r + (case r of R_bar j \<Rightarrow> (if bar d' j \<noteq> None then 1 else 0) | _ \<Rightarrow> 0))
     else (\<forall>i. bar d' i = None) \<and> held (klog d') = held (klog d)) \<and>
    (\<forall>i. bar (unmap_bars d') i = None) \<and> held (klog (unmap_bars d')) = held (klog d)"
  using assms by (rule map_bars_spec)

lemma wrap_diff: "(a :: nat) < M \<Longrightarrow> \<not> a \<le> b \<Longrightarrow> b + M - a = M - (a - b)"
  by simp

lemma unat_diff_wrap:
  "unat (len - off :: u64) = (if unat off \<le> unat len then unat len - unat off else 2 ^ 64 - (unat off - unat len))"
proof -
  have len: "LENGTH(64) = (64 :: nat)" by simp
  have lt: "unat off < 2 ^ LENGTH(64)" by (rule unsigned_less)
  show ?thesis unfolding unat_sub_if' using wrap_diff [OF lt, of "unat len"] unfolding len by (rule if_cong [OF refl refl])
qed

text \<open>
  C23: a mapping of a BAR that starts inside it is granted if and only if it ends inside it. The
  offset itself is not checked: the size that remains is computed modulo \<open>2 ^ 64\<close>, so that behind
  the end of the BAR a mapping of practically any size is granted, and the process gets the
  physical memory that lies there.
\<close>

theorem bridge_mmap_bounds:
  assumes "c_magic ch = MAGIC_CHAR" "d_magic d = MAGIC_DEVICE" "\<forall>p n. remap p n = 0"
    and "start = pci_resource_start K (nat (c_bar ch))" "len = pci_resource_end K (nat (c_bar ch)) - start + 1"
    and "off = push_bit PAGE_SHIFT (vm_pgoff vma)" "vsize = vm_end vma - vm_start vma"
  shows "bridge_mmap K remap ch d vma =
    Some (if unat vsize \<le> (if unat off \<le> unat len then unat len - unat off else 2 ^ 64 - (unat off - unat len))
      then (0, Some (drop_bit PAGE_SHIFT (start + off), vsize)) else (- EINVAL, None))"
proof -
  define lim where "lim = (if unat off \<le> unat len then unat len - unat off else 2 ^ 64 - (unat off - unat len))"
  have lim: "vsize > len - off \<longleftrightarrow> \<not> unat vsize \<le> lim"
    by (simp only: word_less_nat_alt unat_diff_wrap lim_def [symmetric] not_le)
  have "bridge_mmap K remap ch d vma =
      (if vsize > len - off then Some (- EINVAL, None) else Some (0, Some (drop_bit PAGE_SHIFT (start + off), vsize)))"
    using assms(1-3) unfolding bridge_mmap_def Let_def assms(4-7) by simp
  then show ?thesis unfolding lim lim_def [symmetric] by (simp only: if_not_P if_P split: if_split) simp
qed

definition demo_kapi :: kapi where
  "demo_kapi = \<lparr>no_msi = False, bus_no_msi = [], pci_find_capability = (\<lambda>_. True), pci_irq = 11, interrupt_pin = 1,
     pci_resource_start = (\<lambda>i. if i < 2 then 0x10000 * of_nat (Suc i) else 0),
     pci_resource_end = (\<lambda>i. if i < 2 then 0x10000 * of_nat (Suc i) + 0xffff else 0),
     k_zalloc_dev = True, k_enable_device = 0, k_enable_msix = (\<lambda>_. 0), k_msix_vector = (\<lambda>i. of_nat (i mod 64 + 100)), k_enable_msi = 0,
     k_request_regions = 0, k_iomap = (\<lambda>i _. Some (0x10000 * of_nat (Suc i))), k_dma_mask = (\<lambda>_. True),
     k_request_irq = (\<lambda>_ _. 0), k_zalloc_engine = (\<lambda>_ _. True), k_writeback = (\<lambda>_ _. Some 0x1000),
     k_zalloc_char = (\<lambda>_ _ _. True), k_chrdev_major = 250, k_set_name = (\<lambda>_. 0), k_register_chrdev = (\<lambda>_. 0),
     k_cdev_add = (\<lambda>_. 0), k_device_create = (\<lambda>_. True), k_create_file = 0\<rparr>"

text \<open>Two BARs of 64 KiB; the second carries the identifiers of the config block.\<close>

definition demo_ids :: "u64 \<Rightarrow> u32" where
  "demo_ids a = (if a = 0x22000 then 0x1fc20003 else if a = 0x23000 then 0x1fc30003 else 0)"

definition fresh_dev :: xdma_dev where
  "fresh_dev = demo_dev\<lparr>bar := (\<lambda>_. None), config_bar_idx := - 1, d_bus := \<lparr>hist = [], resp = (\<lambda>_. demo_ids)\<rparr>\<rparr>"

lemma fresh_dev_sel [simp]:
  "bar fresh_dev = (\<lambda>_. None)" "config_bar_idx fresh_dev = - 1" "user_bar_idx fresh_dev = - 1" "bypass_bar_idx fresh_dev = - 1"
  "resp (d_bus fresh_dev) = (\<lambda>_. demo_ids)" "klog fresh_dev = []"
  by (simp_all add: fresh_dev_def demo_dev_def)

lemma demo_len: "pci_resource_len demo_kapi i = (if i < 2 then 0x10000 else 0)" "map_len demo_kapi i = (if i < 2 then 0x10000 else 0)"
  by (simp_all add: map_len_def pci_resource_len_def demo_kapi_def INT_MAX_def)

abbreviation demo_addr :: "nat \<Rightarrow> u64" where
  "demo_addr i \<equiv> (if i = 0 then 0x10000 else 0x20000)"

lemma demo_present: "present demo_kapi i \<longleftrightarrow> i < 2" "filter (present demo_kapi) [0..<XDMA_BAR_NUM] = [0, 1]"
  by (simp_all add: present_def demo_len XDMA_BAR_NUM_def upt_rec)

lemma demo_iomap: "i < 2 \<Longrightarrow> k_iomap demo_kapi i n = Some (demo_addr i)"
  by (auto simp: demo_kapi_def less_2_cases_iff)

lemma demo_cfg: "is_cfg demo_kapi demo_ids demo_addr 1" "\<not> is_cfg demo_kapi demo_ids demo_addr 0"
  by (simp_all add: is_cfg_def demo_len cfg_ids_def demo_ids_def ireg_def creg_def interrupt_regs_def config_regs_def
      XDMA_OFS_INT_CTRL_def XDMA_OFS_CONFIG_def XDMA_BAR_SIZE_def IRQ_BLOCK_ID_def CONFIG_BLOCK_ID_def)

theorem map_bars_roles_witness:
  "\<exists>d'. map_bars demo_kapi fresh_dev = Some (0, d') \<and> config_bar_idx d' = 1 \<and> user_bar_idx d' = 0 \<and> bypass_bar_idx d' = - 1"
proof -
  have P: "\<forall>i. present demo_kapi i \<longrightarrow> k_iomap demo_kapi i (map_len demo_kapi i) = Some (demo_addr i)"
    by (simp add: demo_present(1) demo_iomap)
  have k: "(1 :: nat) = length (takeWhile (\<lambda>i. \<not> is_cfg demo_kapi demo_ids demo_addr i) [0, 1])"
    using demo_cfg by simp
  obtain rc d' where "map_bars demo_kapi fresh_dev = Some (rc, d')"
    "rc = 0 \<longleftrightarrow> (\<exists>i \<in> set [0 :: nat, 1]. is_cfg demo_kapi demo_ids demo_addr i)"
    "rc = 0 \<longrightarrow> config_bar_idx d' = int ([0, 1] ! 1) \<and> user_bar_idx d' = int ([0, 1] ! 0) \<and> bypass_bar_idx d' = - 1"
    using map_bars_roles [OF P, of fresh_dev demo_ids, OF _ _ _ _ _ demo_present(2) [symmetric] k] by auto
  then show ?thesis using demo_cfg by auto
qed

theorem map_bars_all_or_nothing_witness:
  "\<forall>K. \<exists>rc d'. map_bars K fresh_dev = Some (rc, d') \<and> held (klog (unmap_bars d')) = held []"
proof
  fix K show "\<exists>rc d'. map_bars K fresh_dev = Some (rc, d') \<and> held (klog (unmap_bars d')) = held []"
    using map_bars_all_or_nothing [of fresh_dev K] by auto
qed

text \<open>The BAR ends at \<open>0x1ffff\<close>; a page at \<open>0x100000\<close> is mapped.\<close>

theorem bridge_mmap_bounds_witness:
  "bridge_mmap demo_kapi (\<lambda>_ _. 0) demo_char demo_dev \<lparr>vm_start = 0, vm_end = 0x1000, vm_pgoff = 0xf0\<rparr> = Some (0, Some (0x100, 0x1000))"
proof -
  have k: "0x10000 = pci_resource_start demo_kapi (nat (c_bar demo_char))"
    "0x10000 = pci_resource_end demo_kapi (nat (c_bar demo_char)) - 0x10000 + 1"
    by (simp_all add: demo_kapi_def demo_char_def)
  have o: "0xf0000 = push_bit PAGE_SHIFT (vm_pgoff \<lparr>vm_start = 0, vm_end = 0x1000, vm_pgoff = 0xf0\<rparr>)"
    "0x1000 = vm_end \<lparr>vm_start = 0, vm_end = 0x1000, vm_pgoff = 0xf0\<rparr> - vm_start \<lparr>vm_start = 0, vm_end = 0x1000, vm_pgoff = 0xf0\<rparr>"
    by (simp_all add: PAGE_SHIFT_def push_bit_eq_mult)
  have "drop_bit PAGE_SHIFT (0x10000 + 0xf0000 :: u64) = 0x100" by (simp add: PAGE_SHIFT_def)
  then show ?thesis
    using bridge_mmap_bounds [OF _ _ _ k o, of demo_dev "\<lambda>_ _. 0"] by (simp add: demo_char_def demo_dev_def)
qed

end
