(* ===== verification/RegRw.thy ===== *)
theory RegRw
  imports Virtex Bars
begin

text \<open>
  The program that reads and writes single registers, \<open>tests/reg_rw.c\<close>: it maps the file of a BAR and
  accesses the memory behind it. The mapping is the driver's \<open>bridge_mmap\<close>; physical memory is a store
  of bytes.
\<close>

unbundle bit_operations_syntax

section \<open>The program\<close>

definition MAP_SIZE :: nat where "MAP_SIZE = 32 * 1024"

text \<open>The third argument, the access width in bytes. Anything but \<open>b\<close> and \<open>h\<close> is a word.\<close>

definition access_bytes :: "char option \<Rightarrow> nat" where
  "access_bytes w =
    (if w = Some CHR ''b'' \<or> w = Some CHR ''B'' then 1
     else if w = Some CHR ''h'' \<or> w = Some CHR ''H'' then 2
     else 4)"

text \<open>
  \<open>main\<close> after the arguments have been converted; \<open>base\<close> is where \<open>mmap\<close> puts the mapping. Only reading
  a word returns what was read. An access outside the mapping is a fault.
\<close>

definition reg_rw ::
  "kapi \<Rightarrow> (u64 \<Rightarrow> u64 \<Rightarrow> int) \<Rightarrow> xdma_char \<Rightarrow> xdma_dev \<Rightarrow> u64 \<Rightarrow> u64 \<Rightarrow> char option \<Rightarrow> u32 option \<Rightarrow> (nat \<Rightarrow> u8) \<Rightarrow>
   (int \<times> (nat \<Rightarrow> u8)) option" where
  "reg_rw K remap ch d base target width data mem = do {
     (rc, range) \<leftarrow> bridge_mmap K remap ch d \<lparr>vm_start = base, vm_end = base + of_nat MAP_SIZE, vm_pgoff = 0\<rparr>;
     (case range of
        None \<Rightarrow> Some (1, mem)
      | Some (pfn, _) \<Rightarrow> do {
          let n = access_bytes width;
          BUG_ON (unat target + n > MAP_SIZE);
          let a = unat pfn * PAGE_SIZE + unat target;
          (case data of
             None \<Rightarrow> Some (if n = 4 then sint (le32 (window mem a 4) 0) else 0, mem)
           | Some v \<Rightarrow> Some (0, overlay a (take n (bytes32 v)) mem))
        })
   }"

section \<open>What it does\<close>

lemma mmap_start:
  assumes "c_magic ch = MAGIC_CHAR" "d_magic d = MAGIC_DEVICE" "\<forall>p n. remap p n = 0"
    and "start = pci_resource_start K (nat (c_bar ch))" "len = pci_resource_end K (nat (c_bar ch)) - start + 1"
  shows "bridge_mmap K remap ch d \<lparr>vm_start = base, vm_end = base + of_nat MAP_SIZE, vm_pgoff = 0\<rparr> =
    Some (if MAP_SIZE \<le> unat len then (0, Some (drop_bit PAGE_SHIFT start, of_nat MAP_SIZE)) else (- EINVAL, None))"
  using assms by (simp add: bridge_mmap_def MAP_SIZE_def word_less_nat_alt not_less)

text \<open>
  A register that is written is read back, in a BAR of at least 32 KiB. A write changes as many bytes
  as its width says, at the address behind the start of the BAR, and nothing else; a word read there
  afterwards is the result of the program. In a smaller BAR the program can access nothing, whatever
  the address.
\<close>

theorem reg_write_read:
  assumes "c_magic ch = MAGIC_CHAR" "d_magic d = MAGIC_DEVICE" "\<forall>p n. remap p n = 0"
    and "start = pci_resource_start K (nat (c_bar ch))" "len = pci_resource_end K (nat (c_bar ch)) - start + 1"
    and "unat start mod PAGE_SIZE = 0" "a = unat start + unat target" "unat target + access_bytes width \<le> MAP_SIZE"
  shows "if MAP_SIZE \<le> unat len
    then \<exists>mem'. reg_rw K remap ch d base target width (Some v) mem = Some (0, mem') \<and>
      window mem' a (access_bytes width) = take (access_bytes width) (bytes32 v) \<and>
      (\<forall>x. x < a \<or> a + access_bytes width \<le> x \<longrightarrow> mem' x = mem x) \<and>
      (access_bytes width = 4 \<longrightarrow> reg_rw K remap ch d base target width None mem' = Some (sint v, mem'))
    else reg_rw K remap ch d base target width data mem = Some (1, mem)"
proof (cases "MAP_SIZE \<le> unat len")
  case True
  let ?n = "access_bytes width"
  let ?m = "overlay a (take ?n (bytes32 v)) mem"
  have "unat start div 4096 * 4096 = unat start"
    using assms(6) div_mult_mod_eq [of "unat start" 4096] by (simp add: PAGE_SIZE_def)
  moreover have "unat (drop_bit PAGE_SHIFT start) = unat start div 4096"
    by (simp add: PAGE_SHIFT_def unat_drop_12)
  ultimately have a: "unat (drop_bit PAGE_SHIFT start) * PAGE_SIZE + unat target = a"
    using assms(7) by (simp add: PAGE_SIZE_def)
  note run = reg_rw_def mmap_start [OF assms(1-5)] Let_def True leD [OF assms(8)] a
  have l: "length (take ?n (bytes32 v)) = ?n" by (simp add: access_bytes_def)
  have w: "window ?m a ?n = take ?n (bytes32 v)" using window_overlay [of a "take ?n (bytes32 v)" mem] unfolding l .
  have "reg_rw K remap ch d base target width (Some v) mem = Some (0, ?m)" by (simp add: run)
  moreover have "?m x = mem x" if "x < a \<or> a + ?n \<le> x" for x using that l by (auto simp: overlay_def)
  moreover have "reg_rw K remap ch d base target width None ?m = Some (sint v, ?m)" if "?n = 4"
    using w that le32_bytes32 [of v] leD [OF assms(8)] by (simp add: run)
  ultimately show ?thesis using True w by auto
next
  case False
  then show ?thesis by (simp add: reg_rw_def mmap_start [OF assms(1-5)])
qed

theorem reg_write_read_witness:
  "\<exists>mem'. reg_rw demo_kapi (\<lambda>_ _. 0) demo_char demo_dev 0x7f0000000000 0x10 (Some CHR ''w'') (Some 42) (\<lambda>_. 0) = Some (0, mem') \<and>
    reg_rw demo_kapi (\<lambda>_ _. 0) demo_char demo_dev 0x7f0000000000 0x10 (Some CHR ''w'') None mem' = Some (42, mem')"
proof -
  have k: "0x10000 = pci_resource_start demo_kapi (nat (c_bar demo_char))"
    "0x10000 = pci_resource_end demo_kapi (nat (c_bar demo_char)) - 0x10000 + 1"
    by (simp_all add: demo_kapi_def demo_char_def)
  have "unat (0x10 :: u64) + access_bytes (Some CHR ''w'') \<le> MAP_SIZE" by (simp add: MAP_SIZE_def access_bytes_def)
  from reg_write_read [OF _ _ _ k _ refl this, of demo_dev "\<lambda>_ _. 0" "0x7f0000000000" 42 "\<lambda>_. 0"]
  show ?thesis by (force simp: demo_char_def demo_dev_def PAGE_SIZE_def MAP_SIZE_def access_bytes_def)
qed

end
