(* ===== verification/BoardUsers.thy ===== *)
theory BoardUsers
  imports Virtex
begin

text \<open>
  The programs that measure and try out the boards: \<open>old_driver/user.c\<close> (which \<open>driver-32bit\<close> repeats),
  \<open>test/user.c\<close>, and \<open>user_keisoku.c\<close> of the two boards with the driver \<open>FPGA.c\<close>. They run over the models
  of the drivers; reading the clock is left out. A store to memory that the process does not own is a
  fault.
\<close>

unbundle bit_operations_syntax

section \<open>Programs over a file with a position\<close>

text \<open>\<open>read\<close> or \<open>write\<close> of the file: buffer, size, and the position of the file.\<close>

type_synonym board_op = "u64 \<Rightarrow> nat \<Rightarrow> nat \<Rightarrow> virtex \<Rightarrow> (int \<times> nat \<times> virtex) option"

definition poke_bytes :: "u64 \<Rightarrow> u8 list \<Rightarrow> user_mem \<Rightarrow> user_mem option" where
  "poke_bytes a bs um = do { BUG_ON (\<not> owns um a (length bs)); Some (user_put a bs um) }"

definition set_buf :: "u64 \<Rightarrow> u8 list \<Rightarrow> virtex \<Rightarrow> virtex option" where
  "set_buf a bs w = do { um \<leftarrow> poke_bytes a bs (proc_mem w); Some (w\<lparr>proc_mem := um\<rparr>) }"

definition seek_start :: "nat \<Rightarrow> nat" where "seek_start pos = snd (pci_llseek 0 0 pos)"

text \<open>The result of a call is stored in an \<open>int\<close>. Besides the rest, these return what they print.\<close>

definition write_device :: "board_op \<Rightarrow> u64 \<Rightarrow> nat \<Rightarrow> nat \<Rightarrow> virtex \<Rightarrow> (string list \<times> nat \<times> virtex) option" where
  "write_device wr buf n pos w = do {
     (ret, pos, w) \<leftarrow> wr buf n pos w;
     Some (if signed_take_bit 31 ret < 0 then [''write error''] else [], pos, w)
   }"

definition read_device :: "board_op \<Rightarrow> u64 \<Rightarrow> nat \<Rightarrow> nat \<Rightarrow> virtex \<Rightarrow> (string list \<times> nat \<times> virtex) option" where
  "read_device rd buf n pos w = do { (ret, pos, w) \<leftarrow> rd buf n pos w; Some ([], pos, w) }"

definition test_read_device :: "board_op \<Rightarrow> u64 \<Rightarrow> nat \<Rightarrow> nat \<Rightarrow> virtex \<Rightarrow> (string list \<times> nat \<times> virtex) option" where
  "test_read_device rd buf n pos w = do {
     (ret, pos, w) \<leftarrow> rd buf n pos w;
     Some (if signed_take_bit 31 ret > 0 then [] else [''read error''], pos, w)
   }"

definition MMM :: nat where "MMM = 16384 * 8"

text \<open>The loops of \<open>old_driver/user.c\<close> over the words of its array.\<close>

fun each_word ::
  "(u64 \<Rightarrow> nat \<Rightarrow> virtex \<Rightarrow> (string list \<times> nat \<times> virtex) option) \<Rightarrow> u64 \<Rightarrow> nat list \<Rightarrow> nat \<Rightarrow> virtex \<Rightarrow>
   (string list \<times> nat \<times> virtex) option" where
  "each_word f buf [] pos w = Some ([], pos, w)"
| "each_word f buf (i # is) pos w = do {
     (out, pos, w) \<leftarrow> f (buf + of_nat (4 * i)) pos w;
     (out', pos, w) \<leftarrow> each_word f buf is pos w;
     Some (out @ out', pos, w)
   }"

definition mmio_test :: "board_op \<Rightarrow> board_op \<Rightarrow> u64 \<Rightarrow> nat \<Rightarrow> virtex \<Rightarrow> (string list \<times> nat \<times> virtex) option" where
  "mmio_test wr rd buf pos w = do {
     w \<leftarrow> set_buf buf (concat (replicate MMM (bytes32 0xAAAAAAAC))) w;
     let pos = seek_start pos;
     (out, pos, w) \<leftarrow> each_word (\<lambda>a. write_device wr a 1) buf [0..<MMM] pos w;
     let pos = seek_start pos;
     (out', pos, w) \<leftarrow> each_word (\<lambda>a. read_device rd a 1) buf [0..<MMM] pos w;
     Some (out @ out', pos, w)
   }"

text \<open>\<open>test/user.c\<close> moves one array of bytes at once.\<close>

definition MMIO_DATASIZE :: nat where "MMIO_DATASIZE = 262140"

definition test_mmio_test :: "board_op \<Rightarrow> board_op \<Rightarrow> u64 \<Rightarrow> nat \<Rightarrow> virtex \<Rightarrow> (string list \<times> nat \<times> virtex) option" where
  "test_mmio_test wr rd buf pos w = do {
     w \<leftarrow> set_buf buf (replicate MMIO_DATASIZE 0) w;
     (out1, pos, w) \<leftarrow> test_read_device rd buf MMIO_DATASIZE pos w;
     let pos = seek_start pos;
     w \<leftarrow> set_buf buf (replicate MMIO_DATASIZE 17) w;
     (out2, pos, w) \<leftarrow> write_device wr buf MMIO_DATASIZE pos w;
     let pos = seek_start pos;
     w \<leftarrow> set_buf buf (replicate MMIO_DATASIZE 0) w;
     (out3, pos, w) \<leftarrow> test_read_device rd buf MMIO_DATASIZE pos w;
     Some (out1 @ out2 @ out3, pos, w)
   }"

text \<open>
  \<open>main\<close> of both, with the body \<open>test\<close>: the exit code and the output. \<open>found\<close> is whether the device file
  can be opened, which starts at position 0; \<open>pci_open\<close> and \<open>pci_close\<close> always succeed.
\<close>

definition user_main ::
  "(u64 \<Rightarrow> nat \<Rightarrow> virtex \<Rightarrow> (string list \<times> nat \<times> virtex) option) \<Rightarrow> bool \<Rightarrow> u64 \<Rightarrow> virtex \<Rightarrow> (int \<times> string list \<times> virtex) option" where
  "user_main test found buf w =
    (if \<not> found \<or> fst (pci_open False) \<noteq> 0 then Some (1, [''can't open device: /dev/fpga'', ''mknod /dev/fpga c 246 0''], w)
     else do {
       (out, pos, w) \<leftarrow> test buf 0 w;
       Some (0, out, w)
     })"

section \<open>The memory of the process\<close>

lemma user_put_nth: "j < length bs \<Longrightarrow> length bs < 2 ^ 64 \<Longrightarrow> user_put a bs um (a + of_nat j) = Some (bs ! j)"
  by (rule user_put_bytes) simp_all

lemma user_put_update:
  assumes "k < length bs" "length bs < 2 ^ 64"
  shows "(user_put a bs um)(a + of_nat k := Some v) = user_put a (bs[k := v]) um"
proof
  fix x
  have k: "unat (of_nat k :: u64) = k" unfolding unsigned_of_nat using assms by (simp add: take_bit_nat_eq_self)
  have "x = a + of_nat k \<longleftrightarrow> unat (x - a) = k"
  proof
    assume "unat (x - a) = k"
    moreover have "of_nat (unat (x - a)) = x - a" by simp
    ultimately have "x - a = of_nat k" by simp
    then show "x = a + of_nat k" by (simp add: algebra_simps)
  qed (simp add: k)
  then show "((user_put a bs um)(a + of_nat k := Some v)) x = user_put a (bs[k := v]) um x"
    using assms(1) by (auto simp: user_put_def)
qed

lemma user_put_put:
  "length xs = length ys \<Longrightarrow> user_put a xs (user_put a ys um) = user_put a xs um"
  by (auto simp: user_put_def fun_eq_iff)

lemma user_put_put': "length bs \<le> 2 ^ 64 \<Longrightarrow> n = length bs \<Longrightarrow> user_bytes (user_put a bs um) a n = bs"
  by (simp add: user_bytes_put)

lemma length_concat_replicate [simp]: "length (concat (replicate n ys)) = n * length ys"
  by (induction n) simp_all

lemma nth_concat_replicate: "length ys = 4 \<Longrightarrow> k < n \<Longrightarrow> j < 4 \<Longrightarrow> concat (replicate n ys) ! (4 * k + j) = ys ! j"
proof (induction n arbitrary: k)
  case (Suc n)
  then show ?case by (cases k) (auto simp: nth_append)
qed simp

text \<open>The array of words whose first \<open>k\<close> words are \<open>xs\<close> and whose others are \<open>ys\<close>.\<close>

definition mixed :: "nat \<Rightarrow> nat \<Rightarrow> u8 list \<Rightarrow> u8 list \<Rightarrow> u8 list" where
  "mixed n k xs ys = concat (replicate k xs) @ concat (replicate (n - k) ys)"

lemma mixed_ends [simp]: "mixed n 0 xs ys = concat (replicate n ys)" "mixed n n xs ys = concat (replicate n xs)"
  by (simp_all add: mixed_def)

lemma length_mixed [simp]: "length xs = 4 \<Longrightarrow> length ys = 4 \<Longrightarrow> k \<le> n \<Longrightarrow> length (mixed n k xs ys) = 4 * n"
  by (simp add: mixed_def algebra_simps)

lemma concat_replicate_Suc: "concat (replicate (Suc k) xs) = concat (replicate k xs) @ xs"
  by (induction k) simp_all

lemma mixed_step:
  assumes "length ys = 4" "k < n"
  shows "(mixed n k (v # tl ys) ys)[4 * k := v] = mixed n (Suc k) (v # tl ys) ys"
proof -
  obtain y ys' where y: "ys = y # ys'" "length ys' = 3" using assms(1) by (cases ys) auto
  have "n - k = Suc (n - Suc k)" using assms(2) by simp
  then have "mixed n k (v # ys') ys = concat (replicate k (v # ys')) @ ys @ concat (replicate (n - Suc k) ys)"
    by (simp add: mixed_def)
  then have "(mixed n k (v # ys') ys)[4 * k := v] = concat (replicate k (v # ys')) @ (v # ys') @ concat (replicate (n - Suc k) ys)"
    using y by (simp add: list_update_append)
  then show ?thesis using y(1) concat_replicate_Suc [of k "v # ys'"] by (simp add: mixed_def del: replicate_Suc)
qed

section \<open>The loops over the words\<close>

text \<open>Writes that change the static array at most.\<close>

lemma each_word_keeps:
  assumes "\<And>a pos w. \<exists>d. f a pos w = Some (out, pos, w\<lparr>data_buf := d\<rparr>)"
  shows "\<exists>d. each_word f buf is pos w = Some (concat (replicate (length is) out), pos, w\<lparr>data_buf := d\<rparr>)"
proof (induction "is" arbitrary: w)
  case Nil
  show ?case by (simp add: exI [of _ "data_buf w"])
next
  case (Cons i "is")
  obtain d where d: "f (buf + of_nat (4 * i)) pos w = Some (out, pos, w\<lparr>data_buf := d\<rparr>)" using assms by blast
  obtain d' where "each_word f buf is pos (w\<lparr>data_buf := d\<rparr>) = Some (concat (replicate (length is) out), pos, w\<lparr>data_buf := d\<rparr>\<lparr>data_buf := d'\<rparr>)"
    using Cons.IH [of "w\<lparr>data_buf := d\<rparr>"] by blast
  then show ?case by (auto simp: d simp del: of_nat_mult)
qed

text \<open>Reads that put one byte \<open>v\<close> into the first byte of every word.\<close>

lemma each_word_reads:
  assumes "\<And>k um. k < n \<Longrightarrow> um (buf + of_nat (4 * k)) \<noteq> None \<Longrightarrow>
      f (buf + of_nat (4 * k)) (s * k) (w\<lparr>proc_mem := um\<rparr>) = Some ([], s * Suc k, w\<lparr>proc_mem := um(buf + of_nat (4 * k) := Some v)\<rparr>)"
    and "length ys = 4" "4 * n < 2 ^ 64" "k \<le> n"
  shows "each_word f buf [k..<n] (s * k) (w\<lparr>proc_mem := user_put buf (mixed n k (v # tl ys) ys) um\<rparr>) =
    Some ([], s * n, w\<lparr>proc_mem := user_put buf (concat (replicate n (v # tl ys))) um\<rparr>)"
  using assms(4)
proof (induction "n - k" arbitrary: k)
  case 0
  then show ?case by simp
next
  case (Suc m)
  then have k: "k < n" "[k..<n] = k # [Suc k..<n]" "m = n - Suc k" "Suc k \<le> n" by (auto simp: upt_conv_Cons)
  let ?bs = "mixed n k (v # tl ys) ys"
  have len: "length ?bs = 4 * n" using assms(2) k(1) by simp
  have "user_put buf ?bs um (buf + of_nat (4 * k)) \<noteq> None" using user_put_nth [of "4 * k" ?bs] len k(1) assms(3) by simp
  moreover have "(user_put buf ?bs um)(buf + of_nat (4 * k) := Some v) = user_put buf (mixed n (Suc k) (v # tl ys) ys) um"
    using user_put_update [of "4 * k" ?bs] mixed_step [OF assms(2) k(1)] len k(1) assms(3) by simp
  ultimately have "f (buf + of_nat (4 * k)) (s * k) (w\<lparr>proc_mem := user_put buf ?bs um\<rparr>) =
      Some ([], s * Suc k, w\<lparr>proc_mem := user_put buf (mixed n (Suc k) (v # tl ys) ys) um\<rparr>)"
    using assms(1) [OF k(1)] by simp
  then show ?case using Suc.hyps(1) [OF k(3,4)] by (simp add: k(2) del: of_nat_mult mult_Suc_right)
qed

text \<open>One byte of a file that is moved in whole words: nothing reaches the board or comes from it.\<close>

lemma one_byte_write: "\<exists>d. write_copy a 1 w = Some (w\<lparr>data_buf := d\<rparr>) \<and> write_out 1 pos (w\<lparr>data_buf := d\<rparr>) = Some (w\<lparr>data_buf := d\<rparr>)"
  by (rule exI [of _ "overlay 0 (copy_in (proc_mem w) a 1) (data_buf w)"]) (simp add: write_copy_def write_out_def DATA_WORDS_def)

lemma one_byte_read: "proc_mem w a \<noteq> None \<Longrightarrow> pci_read a 1 pos w = Some (1, pos, w\<lparr>proc_mem := (proc_mem w)(a := Some (value_buf w 0))\<rparr>)"
  by (auto simp: pci_read_def DATA_WORDS_def window_def)

lemma old_one_byte_read:
  "proc_mem w a \<noteq> None \<Longrightarrow> old_pci_read junk a 1 pos w = Some (junk, pos, w\<lparr>proc_mem := (proc_mem w)(a := Some (value_buf w 0))\<rparr>)"
  by (auto simp: old_pci_read_def DATA_WORDS_def window_def)

lemma write_device_one:
  "\<exists>d. write_device pci_write a 1 pos w = Some ([], pos, w\<lparr>data_buf := d\<rparr>)"
  "\<exists>d. write_device (old_pci_write junk) a 1 pos w =
    Some (if signed_take_bit 31 junk < 0 then [''write error''] else [], pos, w\<lparr>data_buf := d\<rparr>)"
  using one_byte_write [of a w pos] by (auto simp: write_device_def pci_write_def old_pci_write_def)

lemma mmio_test_idle:
  assumes "\<And>a pos w. \<exists>d. write_device wr a 1 pos w = Some (out, pos, w\<lparr>data_buf := d\<rparr>)"
    and "\<And>a pos w. proc_mem w a \<noteq> None \<Longrightarrow> \<exists>ret. rd a 1 pos w = Some (ret, pos, w\<lparr>proc_mem := (proc_mem w)(a := Some (value_buf w 0))\<rparr>)"
    and "owns (proc_mem w) buf (4 * MMM)"
  shows "\<exists>d. mmio_test wr rd buf pos w = Some (concat (replicate MMM out), 0,
    w\<lparr>data_buf := d, proc_mem := user_put buf (concat (replicate MMM [value_buf w 0, 0xAA, 0xAA, 0xAA])) (proc_mem w)\<rparr>)"
proof -
  let ?ys = "bytes32 0xAAAAAAAC"
  have ys: "?ys = [0xAC, 0xAA, 0xAA, 0xAA]" by code_simp
  let ?w = "w\<lparr>proc_mem := user_put buf (concat (replicate MMM ?ys)) (proc_mem w)\<rparr>"
  have set: "set_buf buf (concat (replicate MMM ?ys)) w = Some ?w"
    using assms(3) by (simp add: set_buf_def poke_bytes_def mult.commute)
  obtain d where d: "each_word (\<lambda>a. write_device wr a 1) buf [0..<MMM] 0 ?w = Some (concat (replicate MMM out), 0, ?w\<lparr>data_buf := d\<rparr>)"
    using each_word_keeps [of "\<lambda>a. write_device wr a 1" out, OF assms(1), of buf "[0..<MMM]" 0 ?w] by auto
  have rd: "read_device rd (buf + of_nat (4 * k)) 1 (0 * k) (w\<lparr>data_buf := d, proc_mem := um\<rparr>) =
      Some ([], 0 * Suc k, w\<lparr>data_buf := d, proc_mem := um(buf + of_nat (4 * k) := Some (value_buf w 0))\<rparr>)"
    if "um (buf + of_nat (4 * k)) \<noteq> None" for k um
    using assms(2) [of "w\<lparr>data_buf := d, proc_mem := um\<rparr>" "buf + of_nat (4 * k)" 0] that by (auto simp: read_device_def)
  have swap: "?w\<lparr>data_buf := d\<rparr> = w\<lparr>data_buf := d, proc_mem := user_put buf (concat (replicate MMM ?ys)) (proc_mem w)\<rparr>" by simp
  have "4 * MMM < 2 ^ 64" by (simp add: MMM_def)
  then have "each_word (\<lambda>a. read_device rd a 1) buf [0..<MMM] 0 (?w\<lparr>data_buf := d\<rparr>) =
      Some ([], 0, w\<lparr>data_buf := d, proc_mem := user_put buf (concat (replicate MMM [value_buf w 0, 0xAA, 0xAA, 0xAA])) (proc_mem w)\<rparr>)"
    using each_word_reads [of MMM buf "\<lambda>a. read_device rd a 1" 0 "w\<lparr>data_buf := d\<rparr>" "value_buf w 0" ?ys 0 "proc_mem w"] rd
    unfolding swap by (simp add: ys)
  then show ?thesis using d by (auto simp: mmio_test_def set seek_start_def pci_llseek_def)
qed

section \<open>The file of test/driver.c\<close>

text \<open>There every byte of the process is a word of the board.\<close>

definition sign_words :: "u8 list \<Rightarrow> u8 list" where
  "sign_words bs = concat (map (\<lambda>b. bytes32 (scast b)) bs)"

lemma length_sign_words [simp]: "length (sign_words bs) = 4 * length bs"
  by (induction bs) (simp_all add: sign_words_def)

lemma ucast_le32_window: "ucast (le32 (window f off 4) 0) = f off"
proof -
  have "bytes32 (le32 (window f off 4) 0) ! 0 = window f off 4 ! 0" by (simp add: bytes32_le32)
  then show ?thesis by (simp add: bytes32_def)
qed

lemma test_read_words:
  "\<lbrakk>owns (proc_mem w) (buf + of_nat m) n; in_map (dev_data w) pos (4 * n)\<rbrakk> \<Longrightarrow>
   test_read_loop buf m n pos w = Some (m + n, pos + 4 * n,
     w\<lparr>proc_mem := copy_out (proc_mem w) (buf + of_nat m) (map (\<lambda>j. board w (pos + 4 * j)) [0..<n])\<rparr>)"
proof (induction n arbitrary: m pos w)
  case (Suc n)
  let ?a = "buf + of_nat m"
  let ?w = "w\<lparr>proc_mem := (proc_mem w)(?a := Some (board w pos))\<rparr>"
  have o: "proc_mem w ?a \<noteq> None" "owns (proc_mem ?w) (buf + of_nat (m + 1)) n"
    using Suc.prems(1) by (auto simp: owns_Suc add.commute add.left_commute owns_def)
  moreover have "in_map (dev_data w) pos 4" "in_map (dev_data w) (pos + 4) (4 * n)"
    by (rule in_map_part [OF Suc.prems(2)]; simp)+
  moreover have "map (\<lambda>j. board w (pos + 4 * j)) [0..<Suc n] = board w pos # map (\<lambda>j. board w (pos + 4 + 4 * j)) [0..<n]"
    by (simp add: upt_conv_Cons map_Suc_upt [symmetric] comp_def add.assoc del: upt_Suc)
  ultimately show ?case using Suc.IH [of ?w "m + 1" "pos + 4"]
    by (auto simp: ioread32_def ucast_le32_window Let_def add.commute add.left_commute simp del: fun_upd_apply upt_Suc)
qed simp

lemma test_write_in:
  assumes "owns (proc_mem w) buf n" "in_map (dev_data w) pos (4 * n)"
  shows "test_pci_write buf n pos w = Some (int n, pos + 4 * n, w\<lparr>board := overlay pos (sign_words (user_bytes (proc_mem w) buf n)) (board w)\<rparr>)"
  using test_write_loop_in [of w buf 0 n n pos] assms by (simp add: test_pci_write_def sign_words_def)

lemma test_read_in:
  assumes "owns (proc_mem w) buf n" "in_map (dev_data w) pos (4 * n)" "n < 2 ^ 64"
  shows "test_pci_read buf n pos w = Some (int n, pos + 4 * n,
    w\<lparr>proc_mem := user_put buf (map (\<lambda>j. board w (pos + 4 * j)) [0..<n]) (proc_mem w)\<rparr>)"
  using test_read_words [of w buf 0 n pos] copy_out_owns [of "proc_mem w" buf "map (\<lambda>j. board w (pos + 4 * j)) [0..<n]"] assms
  by (simp add: test_pci_read_def)

text \<open>The lowest bytes of the words are the bytes written.\<close>

lemma sign_words_low: "j < length bs \<Longrightarrow> overlay pos (sign_words bs) f (pos + 4 * j) = bs ! j"
proof (induction bs arbitrary: j pos f)
  case (Cons b bs)
  have o: "overlay pos (sign_words (b # bs)) f = overlay (pos + 4) (sign_words bs) (overlay pos (bytes32 (scast b)) f)"
    using overlay_append [of pos "bytes32 (scast b)" "sign_words bs"] by (simp add: sign_words_def)
  have b: "bytes32 (scast b) ! 0 = b" for b :: u8 by (rule bit_word_eqI) (simp add: bytes32_def bit_simps)
  show ?case
  proof (cases j)
    case 0
    then show ?thesis by (simp add: o, simp add: overlay_def b)
  next
    case (Suc i)
    then show ?thesis using Cons.IH [of i "pos + 4"] Cons.prems by (simp add: o add.assoc)
  qed
qed simp

lemma sign_words_read:
  "length bs = n \<Longrightarrow> map (\<lambda>j. overlay pos (sign_words bs) f (pos + 4 * j)) [0..<n] = bs"
  by (rule nth_equalityI) (simp_all add: sign_words_low)

text \<open>The measurement writes its array out word by word, so the words of the board are its lowest bytes.\<close>

lemma each_word_test_writes:
  assumes "\<And>k. k < n \<Longrightarrow> proc_mem w (buf + of_nat (4 * k)) = Some b" "in_map (dev_data w) 0 (4 * n)" "k \<le> n"
  shows "each_word (\<lambda>a. write_device test_pci_write a 1) buf [k..<n] (4 * k) (w\<lparr>board := overlay 0 (sign_words (replicate k b)) bd\<rparr>) =
    Some ([], 4 * n, w\<lparr>board := overlay 0 (sign_words (replicate n b)) bd\<rparr>)"
  using assms(3)
proof (induction "n - k" arbitrary: k)
  case 0
  then show ?case by simp
next
  case (Suc m)
  then have k: "k < n" "[k..<n] = k # [Suc k..<n]" "m = n - Suc k" "Suc k \<le> n" by (auto simp: upt_conv_Cons)
  let ?w = "w\<lparr>board := overlay 0 (sign_words (replicate k b)) bd\<rparr>"
  have a: "proc_mem w (buf + of_nat (4 * k)) = Some b" using assms(1) k(1) .
  then have own: "owns (proc_mem ?w) (buf + of_nat (4 * k)) 1" and one: "user_bytes (proc_mem ?w) (buf + of_nat (4 * k)) 1 = [b]"
    by (simp_all add: owns_def user_bytes_def)
  have "in_map (dev_data ?w) (4 * k) (4 * 1)" using assms(2) k(1) by (simp add: in_map_def)
  from test_write_in [OF own this] have "test_pci_write (buf + of_nat (4 * k)) 1 (4 * k) ?w =
      Some (1, 4 * k + 4, w\<lparr>board := overlay (4 * k) (sign_words [b]) (overlay 0 (sign_words (replicate k b)) bd)\<rparr>)"
    unfolding one by simp
  moreover have "overlay (4 * k) (sign_words [b]) (overlay 0 (sign_words (replicate k b)) bd) = overlay 0 (sign_words (replicate (Suc k) b)) bd"
    using overlay_append [of 0 "sign_words (replicate k b)" "sign_words [b]" bd]
    by (simp add: sign_words_def concat_replicate_Suc mult.commute [of k 4] del: replicate_Suc)
  ultimately have "write_device test_pci_write (buf + of_nat (4 * k)) 1 (4 * k) ?w =
      Some ([], 4 * Suc k, w\<lparr>board := overlay 0 (sign_words (replicate (Suc k) b)) bd\<rparr>)"
    by (simp add: write_device_def)
  then show ?case using Suc.hyps(1) [OF k(3,4)] by (simp add: k(2) del: of_nat_mult mult_Suc_right replicate_Suc)
qed

lemma mmio_test_words:
  assumes "owns (proc_mem w) buf (4 * MMM)" "in_map (dev_data w) 0 (4 * MMM)"
  shows "mmio_test test_pci_write test_pci_read buf pos w = Some ([], 4 * MMM,
    w\<lparr>board := overlay 0 (sign_words (replicate MMM 0xAC)) (board w),
      proc_mem := user_put buf (concat (replicate MMM (bytes32 0xAAAAAAAC))) (proc_mem w)\<rparr>)"
proof -
  let ?ys = "bytes32 0xAAAAAAAC" and ?bd = "overlay 0 (sign_words (replicate MMM 0xAC)) (board w)"
  let ?um = "user_put buf (concat (replicate MMM ?ys)) (proc_mem w)"
  have ys: "?ys = 0xAC # tl ?ys" by code_simp
  have M: "4 * MMM < 2 ^ 64" by (simp add: MMM_def)
  have set: "set_buf buf (concat (replicate MMM ?ys)) w = Some (w\<lparr>proc_mem := ?um\<rparr>)"
    using assms(1) by (simp add: set_buf_def poke_bytes_def mult.commute)
  have byte: "?um (buf + of_nat (4 * k)) = Some 0xAC" if "k < MMM" for k
    using user_put_nth [of "4 * k" "concat (replicate MMM ?ys)" buf] nth_concat_replicate [of ?ys k MMM 0] that M
    by (simp add: bytes32_def)
  have wr: "each_word (\<lambda>a. write_device test_pci_write a 1) buf [0..<MMM] 0 (w\<lparr>proc_mem := ?um\<rparr>) =
      Some ([], 4 * MMM, w\<lparr>proc_mem := ?um, board := ?bd\<rparr>)"
    using each_word_test_writes [of MMM "w\<lparr>proc_mem := ?um\<rparr>" buf "0xAC" 0 "board w"] byte assms(2) by (simp add: sign_words_def)
  have rd: "read_device test_pci_read (buf + of_nat (4 * k)) 1 (4 * k) (w\<lparr>board := ?bd, proc_mem := um\<rparr>) =
      Some ([], 4 * Suc k, w\<lparr>board := ?bd, proc_mem := um(buf + of_nat (4 * k) := Some 0xAC)\<rparr>)"
    if "k < MMM" "um (buf + of_nat (4 * k)) \<noteq> None" for k um
  proof -
    let ?a = "buf + of_nat (4 * k)"
    have "user_put ?a [0xAC] um = um(?a := Some 0xAC)" by (auto simp: user_put_def fun_eq_iff unat_eq_zero)
    moreover have "?bd (4 * k) = 0xAC" using sign_words_low [of k "replicate MMM 0xAC" 0 "board w"] that(1) by simp
    moreover have "in_map (dev_data w) (4 * k) 4" using assms(2) that(1) by (simp add: in_map_def)
    ultimately show ?thesis
      using test_read_in [of "w\<lparr>board := ?bd, proc_mem := um\<rparr>" ?a 1 "4 * k"] that(2)
      by (simp add: read_device_def owns_def)
  qed
  have "each_word (\<lambda>a. read_device test_pci_read a 1) buf [0..<MMM] 0 (w\<lparr>board := ?bd, proc_mem := ?um\<rparr>) =
      Some ([], 4 * MMM, w\<lparr>board := ?bd, proc_mem := ?um\<rparr>)"
    using each_word_reads [of MMM buf "\<lambda>a. read_device test_pci_read a 1" 4 "w\<lparr>board := ?bd\<rparr>" "0xAC" ?ys 0 "proc_mem w"] rd M
    by (simp add: ys [symmetric])
  moreover have "w\<lparr>proc_mem := ?um, board := ?bd\<rparr> = w\<lparr>board := ?bd, proc_mem := ?um\<rparr>" by simp
  ultimately show ?thesis using wr unfolding \<open>_ = w\<lparr>board := ?bd, proc_mem := ?um\<rparr>\<close>
    by (simp add: mmio_test_def set seek_start_def pci_llseek_def)
qed

section \<open>The trial of test/user.c\<close>

lemma set_buf_owned: "owns (proc_mem w) a (length bs) \<Longrightarrow> set_buf a bs w = Some (w\<lparr>proc_mem := user_put a bs (proc_mem w)\<rparr>)"
  by (simp add: set_buf_def poke_bytes_def)

lemma ret_int:
  assumes "n < 2 ^ 31"
  shows "signed_take_bit 31 (int n) = int n" "\<not> bit (int n) 31"
proof -
  show t: "signed_take_bit 31 (int n) = int n" using assms by (simp add: signed_take_bit_int_eq_self_iff)
  show "\<not> bit (int n) 31" using signed_take_bit_negative_iff [of 31 "int n"] unfolding t by simp
qed

lemma test_device_moves:
  assumes "owns (proc_mem w) buf n" "in_map (dev_data w) pos (4 * n)" "0 < n" "n < 2 ^ 31"
  shows "write_device test_pci_write buf n pos w =
      Some ([], pos + 4 * n, w\<lparr>board := overlay pos (sign_words (user_bytes (proc_mem w) buf n)) (board w)\<rparr>)"
    and "test_read_device test_pci_read buf n pos w =
      Some ([], pos + 4 * n, w\<lparr>proc_mem := user_put buf (map (\<lambda>j. board w (pos + 4 * j)) [0..<n]) (proc_mem w)\<rparr>)"
  using assms test_write_in [OF assms(1,2)] test_read_in [OF assms(1,2)] ret_int [of n]
  by (simp_all add: write_device_def test_read_device_def)

lemma word_device_moves:
  assumes "owns (proc_mem w) buf n" "in_map (dev_data w) pos n" "n mod 4 = 0" "0 < n" "n \<le> 4 * DATA_WORDS"
  shows "\<exists>d. write_device pci_write buf n pos w =
      Some ([], pos, w\<lparr>data_buf := d, board := overlay pos (user_bytes (proc_mem w) buf n) (board w)\<rparr>)"
    and "\<exists>v. test_read_device pci_read buf n pos w =
      Some ([], pos, w\<lparr>value_buf := v, proc_mem := user_put buf (window (board w) pos n) (proc_mem w)\<rparr>)"
proof -
  have n: "4 * (n div 4) = n" "n < 2 ^ 31" using assms(3,5) by (auto simp: DATA_WORDS_def)
  have m: "in_map (dev_data w) pos (4 * (n div 4))" using assms(2) n(1) by simp
  show "\<exists>d. write_device pci_write buf n pos w =
      Some ([], pos, w\<lparr>data_buf := d, board := overlay pos (user_bytes (proc_mem w) buf n) (board w)\<rparr>)"
    using pci_write_in [OF m assms(5,1)] ret_int [OF n(2)]
    by (auto simp: write_device_def n(1))
  obtain v where "pci_read buf n pos w = Some (int n, pos, w\<lparr>value_buf := v, proc_mem := user_put buf (window (board w) pos n) (proc_mem w)\<rparr>)"
    using pci_read_in [OF m assms(5,1)] assms(3) n(1) by (auto simp: window_def)
  then show "\<exists>v. test_read_device pci_read buf n pos w =
      Some ([], pos, w\<lparr>value_buf := v, proc_mem := user_put buf (window (board w) pos n) (proc_mem w)\<rparr>)"
    using ret_int [OF n(2)] assms(4) by (auto simp: test_read_device_def)
qed

text \<open>
  What the trial relies on: a file whose \<open>write\<close> puts the bytes of the process, encoded by \<open>enc\<close>, at the
  start of the board, and whose \<open>read\<close> decodes what is there with \<open>dec\<close>.
\<close>

locale board_file =
  fixes wr rd :: board_op and ready :: "virtex \<Rightarrow> bool" and enc :: "u8 list \<Rightarrow> u8 list" and dec :: "(nat \<Rightarrow> u8) \<Rightarrow> u8 list"
  assumes ready_same: "ready w \<Longrightarrow> dev_data w' = dev_data w \<Longrightarrow> ready w'"
    and writes: "ready w \<Longrightarrow> owns (proc_mem w) buf MMIO_DATASIZE \<Longrightarrow>
      \<exists>d pos. write_device wr buf MMIO_DATASIZE 0 w =
        Some ([], pos, w\<lparr>data_buf := d, board := overlay 0 (enc (user_bytes (proc_mem w) buf MMIO_DATASIZE)) (board w)\<rparr>)"
    and reads: "ready w \<Longrightarrow> owns (proc_mem w) buf MMIO_DATASIZE \<Longrightarrow>
      \<exists>v pos. test_read_device rd buf MMIO_DATASIZE 0 w =
        Some ([], pos, w\<lparr>value_buf := v, proc_mem := user_put buf (dec (board w)) (proc_mem w)\<rparr>)"
    and dec_length: "length (dec f) = MMIO_DATASIZE"
    and dec_enc: "length bs = MMIO_DATASIZE \<Longrightarrow> dec (overlay 0 (enc bs) f) = bs"
begin

lemma fill_and_write:
  assumes "ready w" "owns (proc_mem w) buf MMIO_DATASIZE" "length bs = MMIO_DATASIZE"
  shows "set_buf buf bs w = Some (w\<lparr>proc_mem := user_put buf bs (proc_mem w)\<rparr>)"
    and "\<exists>d pos. write_device wr buf MMIO_DATASIZE 0 (w\<lparr>proc_mem := user_put buf bs (proc_mem w)\<rparr>) =
      Some ([], pos, w\<lparr>proc_mem := user_put buf bs (proc_mem w), data_buf := d, board := overlay 0 (enc bs) (board w)\<rparr>)"
proof -
  let ?w = "w\<lparr>proc_mem := user_put buf bs (proc_mem w)\<rparr>"
  show "set_buf buf bs w = Some ?w" using assms(2,3) by (simp add: set_buf_owned)
  have "user_bytes (proc_mem ?w) buf MMIO_DATASIZE = bs" using assms(3) by (simp add: user_put_put' MMIO_DATASIZE_def)
  then show "\<exists>d pos. write_device wr buf MMIO_DATASIZE 0 ?w =
      Some ([], pos, w\<lparr>proc_mem := user_put buf bs (proc_mem w), data_buf := d, board := overlay 0 (enc bs) (board w)\<rparr>)"
    using writes [of ?w buf] assms(1,2) ready_same [of w ?w] by (auto simp: owns_put)
qed

lemma fill_and_read:
  assumes "ready w" "owns (proc_mem w) buf MMIO_DATASIZE" "length bs = MMIO_DATASIZE"
  shows "\<exists>v pos. test_read_device rd buf MMIO_DATASIZE 0 (w\<lparr>proc_mem := user_put buf bs (proc_mem w)\<rparr>) =
    Some ([], pos, w\<lparr>value_buf := v, proc_mem := user_put buf (dec (board w)) (proc_mem w)\<rparr>)"
proof -
  let ?w = "w\<lparr>proc_mem := user_put buf bs (proc_mem w)\<rparr>"
  have "user_put buf (dec (board w)) (user_put buf bs (proc_mem w)) = user_put buf (dec (board w)) (proc_mem w)"
    by (rule user_put_put) (simp add: dec_length assms(3))
  then show ?thesis using reads [of ?w buf] assms(1,2) ready_same [of w ?w] by (auto simp: owns_put)
qed

lemma trial:
  assumes "ready w" "owns (proc_mem w) buf MMIO_DATASIZE"
  shows "\<exists>d v pos. test_mmio_test wr rd buf 0 w = Some ([], pos, w\<lparr>data_buf := d, value_buf := v,
    board := overlay 0 (enc (replicate MMIO_DATASIZE 17)) (board w), proc_mem := user_put buf (replicate MMIO_DATASIZE 17) (proc_mem w)\<rparr>)"
proof -
  let ?z = "replicate MMIO_DATASIZE 0" and ?s = "replicate MMIO_DATASIZE 17"
  note fill = fill_and_write(1) [OF _ _ length_replicate]
  obtain v1 p1 where 1: "test_read_device rd buf MMIO_DATASIZE 0 (w\<lparr>proc_mem := user_put buf ?z (proc_mem w)\<rparr>) =
      Some ([], p1, w\<lparr>value_buf := v1, proc_mem := user_put buf (dec (board w)) (proc_mem w)\<rparr>)"
    using fill_and_read [OF assms, of ?z] by auto
  define w1 where "w1 = w\<lparr>value_buf := v1, proc_mem := user_put buf (dec (board w)) (proc_mem w)\<rparr>"
  have r1: "ready w1" "owns (proc_mem w1) buf MMIO_DATASIZE"
    using ready_same [OF assms(1), of w1] owns_put [OF assms(2)] by (simp_all add: w1_def)
  obtain d2 p2 where 2: "write_device wr buf MMIO_DATASIZE 0 (w1\<lparr>proc_mem := user_put buf ?s (proc_mem w1)\<rparr>) =
      Some ([], p2, w1\<lparr>proc_mem := user_put buf ?s (proc_mem w1), data_buf := d2, board := overlay 0 (enc ?s) (board w1)\<rparr>)"
    using fill_and_write(2) [OF r1, of ?s] by auto
  define w2 where "w2 = w1\<lparr>proc_mem := user_put buf ?s (proc_mem w1), data_buf := d2, board := overlay 0 (enc ?s) (board w1)\<rparr>"
  have r2: "ready w2" "owns (proc_mem w2) buf MMIO_DATASIZE"
    using ready_same [OF r1(1), of w2] owns_put [OF r1(2)] by (simp_all add: w2_def)
  have d: "dec (board w2) = ?s" by (simp add: w2_def dec_enc)
  obtain v3 p3 where 3: "test_read_device rd buf MMIO_DATASIZE 0 (w2\<lparr>proc_mem := user_put buf ?z (proc_mem w2)\<rparr>) =
      Some ([], p3, w2\<lparr>value_buf := v3, proc_mem := user_put buf ?s (proc_mem w2)\<rparr>)"
    using fill_and_read [OF r2, of ?z] unfolding d by auto
  have mem: "user_put buf ?s (proc_mem w2) = user_put buf ?s (proc_mem w)"
    by (simp add: w2_def w1_def user_put_put dec_length)
  have "w2\<lparr>value_buf := v3, proc_mem := user_put buf ?s (proc_mem w2)\<rparr> =
      w\<lparr>data_buf := d2, value_buf := v3, board := overlay 0 (enc ?s) (board w), proc_mem := user_put buf ?s (proc_mem w)\<rparr>"
    unfolding mem by (simp add: w2_def w1_def)
  with 3 have "test_mmio_test wr rd buf 0 w = Some ([], p3,
      w\<lparr>data_buf := d2, value_buf := v3, board := overlay 0 (enc ?s) (board w), proc_mem := user_put buf ?s (proc_mem w)\<rparr>)"
    using 1 2 fill [OF assms, of 0] fill [OF r1, of 17] fill [OF r2, of 0]
    by (simp add: test_mmio_test_def seek_start_def pci_llseek_def w1_def [symmetric] w2_def [symmetric])
  then show ?thesis by blast
qed

end

interpretation words: board_file pci_write pci_read "\<lambda>w. in_map (dev_data w) 0 MMIO_DATASIZE" "\<lambda>bs. bs" "\<lambda>f. window f 0 MMIO_DATASIZE"
proof
  have n: "MMIO_DATASIZE mod 4 = 0" "0 < MMIO_DATASIZE" "MMIO_DATASIZE \<le> 4 * DATA_WORDS"
    by (simp_all add: MMIO_DATASIZE_def DATA_WORDS_def)
  fix w :: virtex and buf
  assume "in_map (dev_data w) 0 MMIO_DATASIZE" "owns (proc_mem w) buf MMIO_DATASIZE"
  note m = word_device_moves [OF this(2,1) n]
  show "\<exists>d pos. write_device pci_write buf MMIO_DATASIZE 0 w =
      Some ([], pos, w\<lparr>data_buf := d, board := overlay 0 (user_bytes (proc_mem w) buf MMIO_DATASIZE) (board w)\<rparr>)"
    using m(1) by blast
  show "\<exists>v pos. test_read_device pci_read buf MMIO_DATASIZE 0 w =
      Some ([], pos, w\<lparr>value_buf := v, proc_mem := user_put buf (window (board w) 0 MMIO_DATASIZE) (proc_mem w)\<rparr>)"
    using m(2) by blast
qed (auto, metis window_overlay)

interpretation bytes: board_file test_pci_write test_pci_read "\<lambda>w. in_map (dev_data w) 0 (4 * MMIO_DATASIZE)" sign_words
  "\<lambda>f. map (\<lambda>j. f (4 * j)) [0..<MMIO_DATASIZE]"
proof
  fix w :: virtex and buf
  assume a: "in_map (dev_data w) 0 (4 * MMIO_DATASIZE)" "owns (proc_mem w) buf MMIO_DATASIZE"
  have n: "0 < MMIO_DATASIZE" "MMIO_DATASIZE < 2 ^ 31" by (simp_all add: MMIO_DATASIZE_def)
  note m = test_device_moves [OF a(2,1) n]
  show "\<exists>d pos. write_device test_pci_write buf MMIO_DATASIZE 0 w =
      Some ([], pos, w\<lparr>data_buf := d, board := overlay 0 (sign_words (user_bytes (proc_mem w) buf MMIO_DATASIZE)) (board w)\<rparr>)"
    by (rule exI [of _ "data_buf w"]) (simp add: m(1))
  show "\<exists>v pos. test_read_device test_pci_read buf MMIO_DATASIZE 0 w =
      Some ([], pos, w\<lparr>value_buf := v, proc_mem := user_put buf (map (\<lambda>j. board w (4 * j)) [0..<MMIO_DATASIZE]) (proc_mem w)\<rparr>)"
    by (rule exI [of _ "value_buf w"]) (simp add: m(2))
next
  fix bs :: "u8 list" and f
  assume "length bs = MMIO_DATASIZE"
  then show "map (\<lambda>j. overlay 0 (sign_words bs) f (4 * j)) [0..<MMIO_DATASIZE] = bs"
    using sign_words_read [of bs MMIO_DATASIZE 0 f] by simp
qed simp_all

section \<open>Properties\<close>

text \<open>
  C39: the measurement of \<open>old_driver/user.c\<close> measures no transfer. It writes and reads its words with calls
  of one byte, of which the drivers that move whole words move none: the board keeps its contents, and
  need not even be mapped. The program ends with success; with the old driver it may call every
  write an error, as that returns what happens to be in a register. All that the reads do is to replace
  the first byte of every word by an old byte of the driver. Only the driver of \<open>test\<close>, to which a byte is
  a word, writes the array: of each word its lowest byte, with the sign extended.
\<close>

theorem measurement_moves_nothing:
  assumes "owns (proc_mem w) buf (4 * MMM)"
  defines "read_back w' \<equiv> user_bytes (proc_mem w') buf (4 * MMM)"
  defines "stale \<equiv> concat (replicate MMM [value_buf w 0, 0xAA, 0xAA, 0xAA])"
  shows "(\<exists>w'. user_main (mmio_test pci_write pci_read) True buf w = Some (0, [], w') \<and> board w' = board w \<and> read_back w' = stale) \<and>
    (\<exists>w'. user_main (mmio_test (old_pci_write junk) (old_pci_read junk)) True buf w =
        Some (0, if signed_take_bit 31 junk < 0 then replicate MMM ''write error'' else [], w') \<and>
      board w' = board w \<and> read_back w' = stale) \<and>
    (in_map (dev_data w) 0 (4 * MMM) \<longrightarrow>
      (\<exists>w'. user_main (mmio_test test_pci_write test_pci_read) True buf w = Some (0, [], w') \<and>
        window (board w') 0 (4 * MMM) = concat (replicate MMM (bytes32 0xFFFFFFAC)) \<and>
        read_back w' = concat (replicate MMM (bytes32 0xAAAAAAAC))))"
proof -
  have M: "n = 4 * MMM \<Longrightarrow> n \<le> 2 ^ 64" for n by (simp add: MMM_def)
  have len: "length (concat (replicate MMM xs)) = 4 * MMM" if "length xs = 4" for xs :: "u8 list" using that by simp
  have rb: "user_bytes (user_put buf (concat (replicate MMM xs)) um) buf (4 * MMM) = concat (replicate MMM xs)" if "length xs = 4" for xs um
    using user_put_put' [OF M [OF len [OF that]] len [OF that, symmetric]] .
  have o: "fst (pci_open False) = 0" by (simp add: pci_open_def)
  have one: "concat (replicate n [x]) = replicate n x" "concat (replicate n []) = []" for n and x :: string by (induction n) simp_all
  obtain d where "mmio_test pci_write pci_read buf 0 w = Some ([], 0, w\<lparr>data_buf := d, proc_mem := user_put buf stale (proc_mem w)\<rparr>)"
    using mmio_test_idle [OF write_device_one(1) _ assms(1), of pci_read 0] one_byte_read by (auto simp: stale_def)
  then have 1: "\<exists>w'. user_main (mmio_test pci_write pci_read) True buf w = Some (0, [], w') \<and> board w' = board w \<and> read_back w' = stale"
    using rb by (simp add: user_main_def o stale_def read_back_def)
  obtain d where "mmio_test (old_pci_write junk) (old_pci_read junk) buf 0 w =
      Some (if signed_take_bit 31 junk < 0 then replicate MMM ''write error'' else [], 0, w\<lparr>data_buf := d, proc_mem := user_put buf stale (proc_mem w)\<rparr>)"
    using mmio_test_idle [OF write_device_one(2) _ assms(1), of "old_pci_read junk" junk 0] old_one_byte_read
    by (auto simp: stale_def one)
  then have 2: "\<exists>w'. user_main (mmio_test (old_pci_write junk) (old_pci_read junk)) True buf w =
        Some (0, if signed_take_bit 31 junk < 0 then replicate MMM ''write error'' else [], w') \<and> board w' = board w \<and> read_back w' = stale"
    using rb by (simp add: user_main_def o stale_def read_back_def)
  have c: "scast (0xAC :: u8) = (0xFFFFFFAC :: u32)" by code_simp
  have s: "sign_words (replicate n 0xAC) = concat (replicate n (bytes32 0xFFFFFFAC))" for n
    unfolding sign_words_def map_replicate c ..
  have 3: "\<exists>w'. user_main (mmio_test test_pci_write test_pci_read) True buf w = Some (0, [], w') \<and>
        window (board w') 0 (4 * MMM) = concat (replicate MMM (bytes32 0xFFFFFFAC)) \<and>
        read_back w' = concat (replicate MMM (bytes32 0xAAAAAAAC))" if "in_map (dev_data w) 0 (4 * MMM)"
    using mmio_test_words [OF assms(1) that, of 0] rb [of "bytes32 0xAAAAAAAC"]
      window_overlay [of 0 "concat (replicate MMM (bytes32 0xFFFFFFAC))" "board w"]
    by (simp add: user_main_def o s read_back_def mult.commute)
  show ?thesis using 1 2 3 by blast
qed

definition unmapped_board :: virtex where
  "unmapped_board = \<lparr>dev_data = \<lparr>mmio_base = 0, mmio_length = 0, mmio_addr = None, cdev = Allocated True\<rparr>,
     pci_devt = True, testClass = NoClass, board = \<lambda>_. 0, data_buf = \<lambda>_. 0, value_buf = \<lambda>_. 0, proc_mem = \<lambda>_. Some 1\<rparr>"

theorem measurement_moves_nothing_witness:
  "\<exists>w'. user_main (mmio_test pci_write pci_read) True 0x1000 unmapped_board = Some (0, [], w') \<and>
     user_bytes (proc_mem w') 0x1000 (4 * MMM) = concat (replicate MMM [0, 0xAA, 0xAA, 0xAA]) \<and> board w' = (\<lambda>_. 0)"
proof -
  have "owns (proc_mem unmapped_board) 0x1000 (4 * MMM)" "value_buf unmapped_board 0 = 0" "board unmapped_board = (\<lambda>_. 0)"
    by (simp_all add: unmapped_board_def owns_def)
  then show ?thesis using measurement_moves_nothing [of unmapped_board "0x1000" 0] by auto
qed

text \<open>
  The trial of \<open>test/user.c\<close> reads back what it has written. With the driver it was written for, every
  byte takes a word of the board, and with the driver of \<open>vc707\<close> a byte; in both cases the board is
  changed there and nowhere else.
\<close>

theorem trial_reads_back:
  assumes "owns (proc_mem w) buf MMIO_DATASIZE"
  shows "(in_map (dev_data w) 0 (4 * MMIO_DATASIZE) \<longrightarrow>
      (\<exists>w'. user_main (test_mmio_test test_pci_write test_pci_read) True buf w = Some (0, [], w') \<and>
        user_bytes (proc_mem w') buf MMIO_DATASIZE = replicate MMIO_DATASIZE 17 \<and>
        board w' = overlay 0 (concat (replicate MMIO_DATASIZE (bytes32 17))) (board w))) \<and>
    (in_map (dev_data w) 0 MMIO_DATASIZE \<longrightarrow>
      (\<exists>w'. user_main (test_mmio_test pci_write pci_read) True buf w = Some (0, [], w') \<and>
        user_bytes (proc_mem w') buf MMIO_DATASIZE = replicate MMIO_DATASIZE 17 \<and>
        board w' = overlay 0 (replicate MMIO_DATASIZE 17) (board w)))"
proof -
  have o: "fst (pci_open False) = 0" by (simp add: pci_open_def)
  have c: "scast (17 :: u8) = (17 :: u32)" by code_simp
  have s: "sign_words (replicate n 17) = concat (replicate n (bytes32 17))" for n
    unfolding sign_words_def map_replicate c ..
  have "n = MMIO_DATASIZE \<Longrightarrow> n \<le> 2 ^ 64" for n by (simp add: MMIO_DATASIZE_def)
  then have b: "user_bytes (user_put buf (replicate MMIO_DATASIZE 17) um) buf MMIO_DATASIZE = replicate MMIO_DATASIZE 17" for um
    by (intro user_put_put') simp_all
  show ?thesis
    using bytes.trial [OF _ assms] words.trial [OF _ assms] by (fastforce simp: user_main_def o s b)
qed

theorem trial_reads_back_witness:
  "\<exists>w'. user_main (test_mmio_test test_pci_write test_pci_read) True 0x1000
      (unmapped_board\<lparr>dev_data := \<lparr>mmio_base = 0, mmio_length = 0x100000, mmio_addr = Some 0xffff0000, cdev = Allocated True\<rparr>\<rparr>) = Some (0, [], w') \<and>
    user_bytes (proc_mem w') 0x1000 MMIO_DATASIZE = replicate MMIO_DATASIZE 17"
proof -
  let ?w = "unmapped_board\<lparr>dev_data := \<lparr>mmio_base = 0, mmio_length = 0x100000, mmio_addr = Some 0xffff0000, cdev = Allocated True\<rparr>\<rparr>"
  have "owns (proc_mem ?w) 0x1000 MMIO_DATASIZE" "in_map (dev_data ?w) 0 (4 * MMIO_DATASIZE)"
    by (simp_all add: unmapped_board_def owns_def in_map_def MMIO_DATASIZE_def)
  then show ?thesis using trial_reads_back [of ?w "0x1000"] by blast
qed

end
