(* ===== verification/Keisoku.thy ===== *)
theory Keisoku
  imports BoardUsers
begin

text \<open>
  The measurement program of the two boards with a command interface, \<open>user_keisoku.c\<close>, over the driver
  \<open>FPGA.c\<close>. The two copies differ in the size of the transfer and the number of rounds. Where the program's
  variables lie in its memory is an argument; the clock and the output are left out.
\<close>

unbundle bit_operations_syntax

section \<open>The program\<close>

definition bytes64 :: "u64 \<Rightarrow> u8 list" where
  "bytes64 v = map (\<lambda>k. ucast (drop_bit (8 * k) v)) [0..<8]"

text \<open>\<open>IOCmd_t iocmd = {0,0,0,0}\<close> at the address \<open>c\<close>; the gaps between the fields keep what was there.\<close>

definition init_iocmd :: "u64 \<Rightarrow> user_mem \<Rightarrow> user_mem option" where
  "init_iocmd c um = do {
     um \<leftarrow> poke_bytes c (bytes32 0) um;
     um \<leftarrow> poke_bytes (c + 4) [0] um;
     um \<leftarrow> poke_bytes (c + 8) (bytes32 0) um;
     poke_bytes (c + 16) (bytes64 0) um
   }"

text \<open>
  One round: \<open>v1\<close> and \<open>v2\<close> are the data of \<open>testVec\<close> and \<open>testVec2\<close>, vectors of \<open>amount\<close> integers; the number
  of bytes transferred is their number of elements. What \<open>write\<close> and \<open>read\<close> return is not looked at.
\<close>

definition keisoku_round :: "nat \<Rightarrow> u64 \<Rightarrow> u64 \<Rightarrow> u64 \<Rightarrow> fpga \<Rightarrow> fpga option" where
  "keisoku_round amount c v1 v2 w = do {
     um \<leftarrow> init_iocmd c (user w);
     um \<leftarrow> poke_bytes (c + 8) (bytes32 0) um;
     um \<leftarrow> poke_bytes (c + 16) (bytes64 v1) um;
     (_, w) \<leftarrow> fpga_write False c amount (w\<lparr>user := um\<rparr>);
     um \<leftarrow> poke_bytes v2 (replicate (4 * amount) 0) (user w);
     um \<leftarrow> poke_bytes (c + 16) (bytes64 v2) um;
     (_, w) \<leftarrow> fpga_read False c amount (w\<lparr>user := um\<rparr>);
     Some w
   }"

fun keisoku_rounds :: "nat \<Rightarrow> u64 \<Rightarrow> u64 \<Rightarrow> u64 list \<Rightarrow> fpga \<Rightarrow> fpga option" where
  "keisoku_rounds amount c v1 [] w = Some w"
| "keisoku_rounds amount c v1 (v2 # vs) w = do { w \<leftarrow> keisoku_round amount c v1 v2 w; keisoku_rounds amount c v1 vs w }"

definition pattern :: "nat \<Rightarrow> u8 list" where
  "pattern amount = concat (replicate amount (bytes32 0x11111112))"

definition keisoku_test :: "nat \<Rightarrow> nat \<Rightarrow> u64 \<Rightarrow> u64 \<Rightarrow> (nat \<Rightarrow> u64) \<Rightarrow> fpga \<Rightarrow> fpga option" where
  "keisoku_test amount rounds c v1 alloc w = do {
     um \<leftarrow> poke_bytes v1 (pattern amount) (user w);
     keisoku_rounds amount c v1 (map alloc [0..<rounds]) (w\<lparr>user := um\<rparr>)
   }"

text \<open>
  \<open>main\<close>; \<open>found\<close> is whether there is a device file, and no signal arrives while the driver waits.
  \<open>close\<close> does not report what the driver's function returns.
\<close>

definition keisoku_main :: "nat \<Rightarrow> nat \<Rightarrow> bool \<Rightarrow> int \<Rightarrow> u64 \<Rightarrow> u64 \<Rightarrow> (nat \<Rightarrow> u64) \<Rightarrow> fpga \<Rightarrow> (int \<times> fpga) option" where
  "keisoku_main amount rounds found pid c v1 alloc w =
    (if \<not> found then Some (1, w)
     else do {
       (rc, D) \<leftarrow> fpga_open False False pid (dev_info w);
       let w = w\<lparr>dev_info := D\<rparr>;
       (if rc \<noteq> 0 then Some (1, w)
        else do {
          w \<leftarrow> keisoku_test amount rounds c v1 alloc w;
          (_, D) \<leftarrow> fpga_close False (dev_info w);
          Some (0, w\<lparr>dev_info := D\<rparr>)
        })
     })"

definition vc707_keisoku :: "bool \<Rightarrow> int \<Rightarrow> u64 \<Rightarrow> u64 \<Rightarrow> (nat \<Rightarrow> u64) \<Rightarrow> fpga \<Rightarrow> (int \<times> fpga) option" where
  "vc707_keisoku = keisoku_main (65536 * 4) 10"

definition vcu108_keisoku :: "bool \<Rightarrow> int \<Rightarrow> u64 \<Rightarrow> u64 \<Rightarrow> (nat \<Rightarrow> u64) \<Rightarrow> fpga \<Rightarrow> (int \<times> fpga) option" where
  "vcu108_keisoku = keisoku_main 4100 1"

section \<open>The memory of the process\<close>

text \<open>Two ranges of addresses that do not wrap around and do not meet.\<close>

definition apart :: "u64 \<Rightarrow> nat \<Rightarrow> u64 \<Rightarrow> nat \<Rightarrow> bool" where
  "apart a n b m \<longleftrightarrow> unat a + n \<le> 2 ^ 64 \<and> unat b + m \<le> 2 ^ 64 \<and> (unat a + n \<le> unat b \<or> unat b + m \<le> unat a)"

lemma apart_sym: "apart a n b m \<Longrightarrow> apart b m a n"
  by (auto simp: apart_def)

lemma unat_offset: "unat a + n \<le> 2 ^ 64 \<Longrightarrow> j < n \<Longrightarrow> unat (a + of_nat j) = unat a + j" for a :: u64
  by (simp add: unat_word_ariths unsigned_of_nat take_bit_nat_eq_self)

lemma user_put_apart:
  assumes "apart a (length bs) b n" "j < n"
  shows "user_put a bs um (b + of_nat j) = um (b + of_nat j)"
proof -
  have u: "unat (b + of_nat j) = unat b + j" using assms by (intro unat_offset [of _ n]) (simp_all add: apart_def)
  have "\<not> unat (b + of_nat j - a) < length bs"
    using assms unfolding unat_sub_if' u by (auto simp: apart_def)
  then show ?thesis by (simp add: user_put_def)
qed

lemma user_bytes_apart: "apart a (length bs) b n \<Longrightarrow> user_bytes (user_put a bs um) b n = user_bytes um b n"
  by (rule nth_equalityI) (simp_all add: user_bytes_def user_put_apart)

lemma user_bytes_put_prefix:
  assumes "length bs \<le> n" "n < 2 ^ 64"
  shows "user_bytes (user_put a bs um) a n = bs @ drop (length bs) (user_bytes um a n)"
proof (rule nth_equalityI)
  fix j assume "j < length (user_bytes (user_put a bs um) a n)"
  then have j: "j < n" "unat (of_nat j :: u64) = j" using assms(2) by (simp_all add: unsigned_of_nat take_bit_nat_eq_self)
  then show "user_bytes (user_put a bs um) a n ! j = (bs @ drop (length bs) (user_bytes um a n)) ! j"
    using assms(1) by (auto simp: user_bytes_def user_put_def nth_append)
qed (use assms(1) in simp)

lemma bytes64_le64: "le64 (bytes64 v) 0 = v"
  by (rule bit_word_eqI) (auto simp: le64_def bit_horner_bytes bytes64_def bit_simps)

lemma length_bytes64 [simp]: "length (bytes64 v) = 8"
  by (simp add: bytes64_def)

lemma length_pattern [simp]: "length (pattern n) = 4 * n"
  by (simp add: pattern_def)

lemma poke_bytes_owns: "owns um a (length bs) \<Longrightarrow> poke_bytes a bs um = Some (user_put a bs um)"
  by (simp add: poke_bytes_def)

text \<open>The fields of a command block, at their places.\<close>

lemma iocmd_fields:
  assumes "owns um c 24"
  shows "iocmd_of (copy_in um c 24) =
    \<lparr>barNum = user_bytes um (c + 4) 1 ! 0, devAddr = le32 (user_bytes um (c + 8) 4) 0, userAddr = le64 (user_bytes um (c + 16) 8) 0\<rparr>"
proof -
  have part: "take m (drop d (user_bytes um c 24)) = user_bytes um (c + of_nat d) m" if "d + m \<le> 24" for d m
  proof -
    have "user_bytes um c 24 = user_bytes um c d @ user_bytes um (c + of_nat d) m @ user_bytes um (c + of_nat d + of_nat m) (24 - d - m)"
      using that user_bytes_append [of um c d "24 - d"] user_bytes_append [of um "c + of_nat d" m "24 - d - m"] by simp
    then show ?thesis by simp
  qed
  have "user_bytes um c 24 ! 4 = user_bytes um (c + 4) 1 ! 0" by (simp add: user_bytes_def)
  then show ?thesis using part [of 8 4] part [of 16 8] assms
    by (simp add: iocmd_of_def copy_in_owns le32_def le64_def)
qed

lemma owns_at: "owns um c n \<Longrightarrow> unat k + m \<le> n \<Longrightarrow> owns um (c + k) m"
  using owns_part [of um c n "unat k" m] by simp

text \<open>The addresses of the fields of a block that does not wrap around, and the ranges apart from it.\<close>

lemma unat_field: "unat c + 24 \<le> 2 ^ 64 \<Longrightarrow> unat k < 24 \<Longrightarrow> unat (c + k) = unat c + unat k" for c k :: u64
  using unat_offset [of c 24 "unat k"] by simp

lemma apart_field: "apart c 24 b m \<Longrightarrow> unat k + n \<le> 24 \<Longrightarrow> 0 < n \<Longrightarrow> apart (c + k) n b m"
  using unat_field [of c k] by (auto simp: apart_def)

lemma apart_fields:
  "unat c + 24 \<le> 2 ^ 64 \<Longrightarrow> unat k + n \<le> unat l \<or> unat l + m \<le> unat k \<Longrightarrow> unat k + n \<le> 24 \<Longrightarrow> unat l + m \<le> 24 \<Longrightarrow>
   0 < n \<Longrightarrow> 0 < m \<Longrightarrow> apart (c + k) n (c + l) m"
  using unat_field [of c k] unat_field [of c l] by (auto simp: apart_def)

section \<open>The command block\<close>

text \<open>Setting a block up for an address, and changing the address afterwards.\<close>

definition names :: "user_mem \<Rightarrow> u64 \<Rightarrow> u64 \<Rightarrow> bool" where
  "names um c v \<longleftrightarrow> iocmd_of (copy_in um c 24) = \<lparr>barNum = 0, devAddr = 0, userAddr = v\<rparr>"

text \<open>What a store elsewhere keeps.\<close>

lemma names_apart: "names um c v \<Longrightarrow> owns um c 24 \<Longrightarrow> apart a (length bs) c 24 \<Longrightarrow> names (user_put a bs um) c v"
  by (simp add: names_def copy_in_owns owns_put user_bytes_apart)

lemma names_set:
  assumes "owns um c 24" "unat c + 24 \<le> 2 ^ 64" "names um c v"
  shows "names (user_put (c + 16) (bytes64 v') um) c v'"
proof -
  let ?um = "user_put (c + 16) (bytes64 v') um"
  have "user_bytes ?um (c + 16) 8 = bytes64 v'" by (rule user_put_put') simp_all
  moreover have "user_bytes ?um (c + 8) 4 = user_bytes um (c + 8) 4" "user_bytes ?um (c + 4) 1 = user_bytes um (c + 4) 1"
    by (rule user_bytes_apart, use apart_fields [OF assms(2), of 16 8] in simp)+
  ultimately show ?thesis using assms(1,3) by (simp add: names_def iocmd_fields owns_put bytes64_le64)
qed

text \<open>What \<open>init_iocmd\<close> and the two assignments after it do to the memory.\<close>

lemma command_set_up:
  assumes "owns um c 24" "unat c + 24 \<le> 2 ^ 64"
  shows "\<exists>um'. do { um \<leftarrow> init_iocmd c um; um \<leftarrow> poke_bytes (c + 8) (bytes32 0) um; poke_bytes (c + 16) (bytes64 v) um } = Some um' \<and>
    names um' c v \<and> (\<forall>a n. owns um a n \<longrightarrow> owns um' a n) \<and>
    (\<forall>b n. apart c 24 b n \<longrightarrow> user_bytes um' b n = user_bytes um b n)"
proof -
  define u1 where "u1 = user_put c (bytes32 0) um"
  define u2 where "u2 = user_put (c + 4) [0] u1"
  define u3 where "u3 = user_put (c + 8) (bytes32 0) u2"
  define u4 where "u4 = user_put (c + 16) (bytes64 0) u3"
  define u5 where "u5 = user_put (c + 8) (bytes32 0) u4"
  define u6 where "u6 = user_put (c + 16) (bytes64 v) u5"
  note us = u1_def u2_def u3_def u4_def u5_def u6_def
  have o: "owns um a n \<Longrightarrow> owns u6 a n" for a n by (simp add: us owns_put)
  have at: "owns um c 4" "owns um (c + 4) 1" "owns um (c + 8) 4" "owns um (c + 16) 8"
    using owns_at [OF assms(1), of 0] owns_at [OF assms(1), of 4] owns_at [OF assms(1), of 8] owns_at [OF assms(1), of 16] by simp_all
  have run: "do { um \<leftarrow> init_iocmd c um; um \<leftarrow> poke_bytes (c + 8) (bytes32 0) um; poke_bytes (c + 16) (bytes64 v) um } = Some u6"
    using at by (simp add: init_iocmd_def poke_bytes_owns us owns_put)
  note f = apart_fields [OF assms(2)]
  have "user_bytes u6 (c + 16) 8 = bytes64 v" unfolding u6_def by (rule user_put_put') simp_all
  moreover have "user_bytes u6 (c + 8) 4 = bytes32 0"
  proof -
    have "user_bytes u6 (c + 8) 4 = user_bytes u5 (c + 8) 4" unfolding u6_def by (rule user_bytes_apart) (use f [of 16 8 8 4] in simp)
    also have "\<dots> = bytes32 0" unfolding u5_def by (rule user_put_put') simp_all
    finally show ?thesis .
  qed
  moreover have "user_bytes u6 (c + 4) 1 = [0]"
  proof -
    have "user_bytes u6 (c + 4) 1 = user_bytes u2 (c + 4) 1"
      unfolding u6_def u5_def u4_def u3_def
      using f [of 16 8 4 1] f [of 8 4 4 1] by (simp add: user_bytes_apart)
    also have "\<dots> = [0]" unfolding u2_def by (rule user_put_put') simp_all
    finally show ?thesis .
  qed
  moreover have "le32 (bytes32 0) 0 = 0" by (rule le32_bytes32)
  ultimately have "names u6 c v" using o [OF assms(1)] by (simp add: names_def iocmd_fields bytes64_le64)
  moreover have "user_bytes u6 b n = user_bytes um b n" if "apart c 24 b n" for b n
    using apart_field [OF that, of 0 4] apart_field [OF that, of 4 1] apart_field [OF that, of 8 4] apart_field [OF that, of 16 8]
    unfolding us by (simp add: user_bytes_apart)
  ultimately show ?thesis using run o by blast
qed

section \<open>Rounds\<close>

text \<open>The process owns the block and two vectors of \<open>n\<close> bytes, all in different places.\<close>

definition vectors_at :: "user_mem \<Rightarrow> nat \<Rightarrow> u64 \<Rightarrow> u64 \<Rightarrow> u64 \<Rightarrow> bool" where
  "vectors_at um n c v1 v2 \<longleftrightarrow> owns um c 24 \<and> owns um v1 n \<and> owns um v2 n \<and> apart c 24 v1 n \<and> apart c 24 v2 n \<and> apart v1 n v2 n"

lemma vectors_at_owns: "vectors_at um n c v1 v2 \<Longrightarrow> \<forall>a m. owns um a m \<longrightarrow> owns um' a m \<Longrightarrow> vectors_at um' n c v1 v2"
  by (simp add: vectors_at_def)

definition board_up :: "fpga \<Rightarrow> nat \<Rightarrow> bool" where
  "board_up w n \<longleftrightarrow> f_sem (dev_info w) \<noteq> 0 \<and> f_buffer (dev_info w) \<and> in_bar (dev_info w) 0 0 n"

lemma apart_less: "apart a n b m \<Longrightarrow> k \<le> n \<Longrightarrow> apart a k b m"
  by (auto simp: apart_def)

lemma user_bytes_take: "m \<le> n \<Longrightarrow> user_bytes um a m = take m (user_bytes um a n)"
  using user_bytes_append [of um a m "n - m"] by (metis append_eq_conv_conj length_user_bytes le_add_diff_inverse)

lemma bar_put_user: "bar_put i off bs (w\<lparr>user := um\<rparr>) = (bar_put i off bs w)\<lparr>user := um\<rparr>"
  by (rule fpga.equality) (auto simp: bar_put_def fun_eq_iff)

lemma bar_put_again: "bar_put i off bs (bar_put i off bs w) = bar_put i off bs w"
  by (rule fpga.equality) (auto simp: bar_put_def fun_eq_iff)

lemma keisoku_round_moves:
  assumes "board_up w A" "vectors_at (user w) (4 * A) c v1 v2" "4 * A < 2 ^ 64" "user_bytes (user w) v1 (4 * A) = xs"
  shows "\<exists>um. keisoku_round A c v1 v2 w = Some ((bar_put 0 0 (take A xs) w)\<lparr>user := um\<rparr>) \<and>
    user_bytes um v2 (4 * A) = take A xs @ replicate (3 * A) 0 \<and> user_bytes um v1 (4 * A) = xs \<and>
    (\<forall>a n. owns (user w) a n \<longrightarrow> owns um a n)"
proof -
  note v = assms(2) [unfolded vectors_at_def] and b = assms(1) [unfolded board_up_def]
  have c: "unat c + 24 \<le> 2 ^ 64" "owns (user w) c 24" using v by (simp_all add: apart_def)
  obtain um1 where run1: "do { um \<leftarrow> init_iocmd c (user w); um \<leftarrow> poke_bytes (c + 8) (bytes32 0) um; poke_bytes (c + 16) (bytes64 v1) um } = Some um1"
    and um1: "names um1 c v1" "\<forall>a n. owns (user w) a n \<longrightarrow> owns um1 a n"
      "\<forall>b n. apart c 24 b n \<longrightarrow> user_bytes um1 b n = user_bytes (user w) b n"
    using command_set_up [OF c(2,1)] by blast
  have o1: "owns um1 c 24" "owns um1 v1 (4 * A)" "owns um1 v2 (4 * A)" using v um1(2) by simp_all
  have x1: "user_bytes um1 v1 (4 * A) = xs" using um1(3) v assms(4) by simp
  let ?w2 = "bar_put 0 0 (take A xs) (w\<lparr>user := um1\<rparr>)"
  have "user_bytes um1 v1 A = take A xs" using user_bytes_take [of A "4 * A" um1 v1] x1 by simp
  moreover have "owns um1 v1 A" using owns_part [OF o1(2), of 0 A] by simp
  ultimately have run2: "fpga_write False c A (w\<lparr>user := um1\<rparr>) = Some (int A, ?w2)"
    using fpga_write_in [of "w\<lparr>user := um1\<rparr>" 0 A c v1] b um1(1) by (simp add: names_def)
  define um2 where "um2 = user_put v2 (replicate (4 * A) 0) um1"
  define um3 where "um3 = user_put (c + 16) (bytes64 v2) um2"
  have run3: "poke_bytes v2 (replicate (4 * A) 0) um1 = Some um2" "poke_bytes (c + 16) (bytes64 v2) um2 = Some um3"
    using o1 owns_at [OF o1(1), of 16 8] by (simp_all add: poke_bytes_owns um2_def um3_def owns_put)
  have "names um2 c v1" unfolding um2_def
    by (rule names_apart [OF um1(1) o1(1)]) (use v in \<open>simp add: apart_sym\<close>)
  then have n3: "names um3 c v2" unfolding um3_def
    by (intro names_set [OF _ c(1)]) (simp_all add: um2_def owns_put o1)
  have o3: "owns um3 a n" if "owns um1 a n" for a n using that by (simp add: um3_def um2_def owns_put)
  define um4 where "um4 = user_put v2 (take A xs) um3"
  have len: "length xs = 4 * A" using assms(4) by auto
  have "bar_bytes (?w2\<lparr>user := um3\<rparr>) 0 0 A = take A xs" using bar_bytes_put [of 0 0 "take A xs" "w\<lparr>user := um1\<rparr>"] len by simp
  moreover have "owns um3 v2 A" using owns_part [OF o3 [OF o1(3)], of 0 A] by simp
  ultimately have run4: "fpga_read False c A (?w2\<lparr>user := um3\<rparr>) = Some (int A, ?w2\<lparr>user := um4\<rparr>)"
    using fpga_read_in [of "?w2\<lparr>user := um3\<rparr>" 0 A c v2] b n3 assms(3) by (simp add: names_def um4_def)
  have f: "apart (c + 16) 8 v1 (4 * A)" "apart (c + 16) 8 v2 (4 * A)" "apart v2 (4 * A) v1 (4 * A)" "apart v2 A v1 (4 * A)"
    using v apart_field [of c v1 "4 * A" 16 8] apart_field [of c v2 "4 * A" 16 8] apart_sym [of v1 "4 * A" v2 "4 * A"]
      apart_less [of v2 "4 * A" v1 "4 * A" A] by simp_all
  have "user_bytes um3 v2 (4 * A) = user_bytes um2 v2 (4 * A)" using f(2) by (simp add: um3_def user_bytes_apart)
  also have "\<dots> = replicate (4 * A) 0" unfolding um2_def by (rule user_put_put') (use assms(3) in simp_all)
  finally have "user_bytes um4 v2 (4 * A) = take A xs @ replicate (3 * A) 0"
    using user_bytes_put_prefix [of "take A xs" "4 * A" v2 um3] assms(3) len by (simp add: um4_def)
  moreover have "user_bytes um4 v1 (4 * A) = xs" using f x1 len by (simp add: um4_def um3_def um2_def user_bytes_apart)
  moreover have "\<forall>a n. owns (user w) a n \<longrightarrow> owns um4 a n" using um1(2) o3 by (simp add: um4_def owns_put)
  moreover have "keisoku_round A c v1 v2 w = Some ((bar_put 0 0 (take A xs) w)\<lparr>user := um4\<rparr>)"
  proof -
    obtain ua ub where "init_iocmd c (user w) = Some ua" "poke_bytes (c + 8) (bytes32 0) ua = Some ub" "poke_bytes (c + 16) (bytes64 v1) ub = Some um1"
      using run1 by (auto split: bind_splits)
    then show ?thesis using run2 run3 run4 by (simp add: keisoku_round_def bar_put_user)
  qed
  ultimately show ?thesis by blast
qed

lemma keisoku_rounds_move:
  "\<lbrakk>board_up w A; vs \<noteq> []; \<forall>v2 \<in> set vs. vectors_at (user w) (4 * A) c v1 v2; 4 * A < 2 ^ 64; user_bytes (user w) v1 (4 * A) = xs\<rbrakk> \<Longrightarrow>
   \<exists>um. keisoku_rounds A c v1 vs w = Some ((bar_put 0 0 (take A xs) w)\<lparr>user := um\<rparr>) \<and>
     user_bytes um (last vs) (4 * A) = take A xs @ replicate (3 * A) 0"
proof (induction vs arbitrary: w)
  case (Cons v2 vs)
  obtain um where r: "keisoku_round A c v1 v2 w = Some ((bar_put 0 0 (take A xs) w)\<lparr>user := um\<rparr>)"
      "user_bytes um v2 (4 * A) = take A xs @ replicate (3 * A) 0" "user_bytes um v1 (4 * A) = xs" "\<forall>a n. owns (user w) a n \<longrightarrow> owns um a n"
    using keisoku_round_moves [OF Cons.prems(1) _ Cons.prems(4,5), of c v2] Cons.prems(3) by auto
  show ?case
  proof (cases "vs = []")
    case False
    have "board_up ((bar_put 0 0 (take A xs) w)\<lparr>user := um\<rparr>) A" using Cons.prems(1) by (simp add: board_up_def)
    then show ?thesis
      using Cons.IH [of "(bar_put 0 0 (take A xs) w)\<lparr>user := um\<rparr>"] False Cons.prems(3,4) r vectors_at_owns [OF _ r(4)]
      by (simp add: bar_put_user bar_put_again)
  qed (use r in auto)
qed simp

text \<open>A transfer that does not fit into the BAR ends the first round with a fault.\<close>

lemma keisoku_round_faults:
  assumes "f_sem (dev_info w) \<noteq> 0" "f_buffer (dev_info w)" "\<not> in_bar (dev_info w) 0 0 A" "A \<noteq> 0"
    and "owns (user w) c 24" "unat c + 24 \<le> 2 ^ 64"
  shows "keisoku_round A c v1 v2 w = None"
proof -
  obtain um1 where run1: "do { um \<leftarrow> init_iocmd c (user w); um \<leftarrow> poke_bytes (c + 8) (bytes32 0) um; poke_bytes (c + 16) (bytes64 v1) um } = Some um1"
    and n: "names um1 c v1"
    using command_set_up [OF assms(5,6)] by blast
  have "rw_loop False 0 0 v1 A 0 (w\<lparr>user := um1\<rparr>) = None"
    using rw_loop_total [where w = "w\<lparr>user := um1\<rparr>" and c = A and rw = False and i = 0 and addr = 0 and ua = v1 and d = 0] assms(2-4) by (auto split: option.splits)
  then have "fpga_write False c A (w\<lparr>user := um1\<rparr>) = None"
    using n by (simp add: fpga_write_def rw_dispatcher_def names_def NUM_BARS_def)
  moreover obtain ua ub where "init_iocmd c (user w) = Some ua" "poke_bytes (c + 8) (bytes32 0) ua = Some ub" "poke_bytes (c + 16) (bytes64 v1) ub = Some um1"
    using run1 by (auto split: bind_splits)
  ultimately show ?thesis by (simp add: keisoku_round_def)
qed

section \<open>Property\<close>

text \<open>
  C40: the measurement of a board ends, and moves a quarter of its vector. If \<open>amount\<close> bytes fit into the
  BAR, the program returns 0 after any number of rounds; the first \<open>amount\<close> bytes of the board are
  those of the pattern and no other byte has changed, and the vector of the last round holds the same
  bytes, and zeros in the three quarters after them, which are never transferred. On a smaller BAR the
  program never returns: the first write faults in the driver.
\<close>

theorem keisoku_moves_quarter:
  fixes pid :: int
  assumes "f_sem (dev_info w) \<noteq> 0" "f_buffer (dev_info w)" "0 < amount" "4 * amount < 2 ^ 64"
    and "\<forall>r \<le> rounds. vectors_at (user w) (4 * amount) c v1 (alloc r)"
  defines "result \<equiv> keisoku_main amount (Suc rounds) True pid c v1 alloc w"
  shows "if in_bar (dev_info w) 0 0 amount
    then \<exists>w'. result = Some (0, w') \<and> bar_bytes w' 0 0 amount = take amount (pattern amount) \<and>
      (\<forall>x \<ge> amount. bar_mem w' 0 x = bar_mem w 0 x) \<and>
      user_bytes (user w') (alloc rounds) (4 * amount) = take amount (pattern amount) @ replicate (3 * amount) 0
    else result = None"
proof -
  define um where "um = user_put v1 (pattern amount) (user w)"
  define wp where "wp = w\<lparr>dev_info := (dev_info w)\<lparr>userPID := pid\<rparr>, user := um\<rparr>"
  let ?vs = "map alloc [0..<Suc rounds]"
  have v: "vectors_at (user w) (4 * amount) c v1 (alloc 0)" using assms(5) by simp
  then have "poke_bytes v1 (pattern amount) (user w) = Some um" by (simp add: vectors_at_def poke_bytes_owns um_def)
  then have run: "result = do {
      w \<leftarrow> keisoku_rounds amount c v1 ?vs wp; (_, D) \<leftarrow> fpga_close False (dev_info w); Some (0, w\<lparr>dev_info := D\<rparr>) }"
    using assms(1) by (simp add: result_def keisoku_main_def keisoku_test_def fpga_open_def wp_def del: upt_Suc)
  have o: "\<forall>a m. owns (user w) a m \<longrightarrow> owns um a m" by (simp add: um_def owns_put)
  have wp: "user wp = um" "f_sem (dev_info wp) = f_sem (dev_info w)" "f_buffer (dev_info wp) = f_buffer (dev_info w)"
    "in_bar (dev_info wp) 0 0 n = in_bar (dev_info w) 0 0 n" "bar_mem wp = bar_mem w" for n
    by (simp_all add: wp_def in_bar_def)
  show ?thesis
  proof (cases "in_bar (dev_info w) 0 0 amount")
    case True
    have up: "board_up wp amount" using assms(1,2) True by (simp add: board_up_def wp)
    have "user_bytes um v1 (4 * amount) = pattern amount" unfolding um_def by (rule user_put_put') (use assms(4) in simp_all)
    moreover have "\<forall>v2 \<in> set ?vs. vectors_at (user wp) (4 * amount) c v1 v2"
      using assms(5) vectors_at_owns [OF _ o] by (auto simp: wp less_Suc_eq_le simp del: upt_Suc)
    ultimately obtain um' where r: "keisoku_rounds amount c v1 ?vs wp = Some ((bar_put 0 0 (take amount (pattern amount)) wp)\<lparr>user := um'\<rparr>)"
        "user_bytes um' (last ?vs) (4 * amount) = take amount (pattern amount) @ replicate (3 * amount) 0"
      using keisoku_rounds_move [OF up, of ?vs c v1 "pattern amount"] assms(4) by (auto simp: wp simp del: upt_Suc)
    let ?w = "(bar_put 0 0 (take amount (pattern amount)) wp)\<lparr>user := um'\<rparr>"
    have "result = Some (0, ?w)" using assms(1) unfolding run r(1) by (simp add: fpga_close_def wp)
    moreover have "bar_bytes ?w 0 0 amount = take amount (pattern amount)"
      using bar_bytes_put [of 0 0 "take amount (pattern amount)" wp] by simp
    moreover have "\<forall>x \<ge> amount. bar_mem ?w 0 x = bar_mem w 0 x" by (simp add: bar_put_def wp)
    moreover have "last ?vs = alloc rounds" by simp
    ultimately show ?thesis using True r(2) by auto
  next
    case False
    have "owns (user wp) c 24" "unat c + 24 \<le> 2 ^ 64" using v o by (simp_all add: vectors_at_def apart_def wp)
    then have "keisoku_round amount c v1 (alloc 0) wp = None"
      using keisoku_round_faults [of wp amount c v1 "alloc 0"] assms(1-3) False by (simp add: wp)
    then show ?thesis using False run by (simp add: upt_conv_Cons del: upt_Suc)
  qed
qed

text \<open>The two programs, on a board whose BAR holds 4100 bytes.\<close>

definition small_board :: fpga where
  "small_board = \<lparr>dev_info = \<lparr>f_bar = [Some 0xffff0000], barLengths = [4100], f_buffer = True, f_sem = 1, userPID = - 1\<rparr>,
     bar_mem = \<lambda>_ _. 0, user = \<lambda>_. Some 0\<rparr>"

theorem keisoku_moves_quarter_witness:
  "vc707_keisoku True 7 0x1000 0x1000000 (\<lambda>_. 0x2000000) small_board = None \<and>
   (\<exists>w'. vcu108_keisoku True 7 0x1000 0x1000000 (\<lambda>_. 0x2000000) small_board = Some (0, w') \<and>
     bar_bytes w' 0 0 4100 = take 4100 (pattern 4100))"
proof -
  have v: "vectors_at (user small_board) (4 * n) 0x1000 0x1000000 0x2000000" if "n \<le> 65536 * 4" for n
    using that by (simp add: vectors_at_def apart_def owns_def small_board_def)
  have b: "f_sem (dev_info small_board) \<noteq> 0" "f_buffer (dev_info small_board)" "in_bar (dev_info small_board) 0 0 n \<longleftrightarrow> n \<le> 4100" for n
    by (simp_all add: small_board_def in_bar_def)
  show ?thesis
    using keisoku_moves_quarter [OF b(1,2), of "65536 * 4" 9 "0x1000" "0x1000000" "\<lambda>_. 0x2000000" 7] v [of "65536 * 4"]
      keisoku_moves_quarter [OF b(1,2), of 4100 0 "0x1000" "0x1000000" "\<lambda>_. 0x2000000" 7] v [of 4100]
    by (auto simp: b(3) vc707_keisoku_def vcu108_keisoku_def)
qed

end
