(* ===== verification/Engines.thy ===== *)
theory Engines
  imports Bars
begin

text \<open>
  Finding and creating the engines of a device at probe time, and removing them
  (\<open>probe_engines\<close>, \<open>engine_create\<close>, \<open>remove_engines\<close> and their parts in \<open>driver/xdma-core.c\<close>).
  \<open>poll\<close> is the module parameter \<open>poll_mode\<close>.
\<close>

unbundle bit_operations_syntax

definition XDMA_ID_H2C :: u32 where "XDMA_ID_H2C = 0x1fc0"
definition XDMA_ID_C2H :: u32 where "XDMA_ID_C2H = 0x1fc1"
definition H2C_CHANNEL_OFFSET :: u64 where "H2C_CHANNEL_OFFSET = 0x1000"
definition CHANNEL_SPACING :: u64 where "CHANNEL_SPACING = 0x100"
definition SGDMA_OFFSET_FROM_CHANNEL :: u64 where "SGDMA_OFFSET_FROM_CHANNEL = 0x4000"
definition BYPASS_MODE_SPACING :: nat where "BYPASS_MODE_SPACING = 0x100"

section \<open>Identification\<close>

definition get_engine_type :: "u64 \<Rightarrow> xdma_dev \<Rightarrow> bool \<times> xdma_dev" where
  "get_engine_type a d = (let (v, d) = drd (ereg a E_identifier) d in (v AND 0x8000 \<noteq> 0, d))"

definition get_engine_channel_id :: "u64 \<Rightarrow> xdma_dev \<Rightarrow> u32 \<times> xdma_dev" where
  "get_engine_channel_id a d = (let (v, d) = drd (ereg a E_identifier) d in (drop_bit 8 (v AND 0xf00), d))"

definition get_engine_id :: "u64 \<Rightarrow> xdma_dev \<Rightarrow> u32 \<times> xdma_dev" where
  "get_engine_id a d = (let (v, d) = drd (ereg a E_identifier) d in (drop_bit 16 (v AND 0xffff0000), d))"

section \<open>Creation\<close>

text \<open>What \<open>kzalloc\<close> returns.\<close>

definition engine_zero :: dev_engine where
  "engine_zero = \<lparr>e_magic = 0, e_regs = 0, e_sgdma_regs = 0, e_shutdown = 0, e_running = False, e_streaming = False,
     e_non_incr_addr = False, e_dir_to_dev = False, e_addr_align = 0, e_len_granularity = 0, e_addr_bits = 0, e_channel = 0,
     e_number_in_channel = 0, e_desc_dequeued = 0, e_status = 0, e_ie_mask = 0, transfer_list = [], rx_tail = 0, rx_head = 0,
     rx_overrun = False, rx_buffer = None, rx_cyclic = None, rx_result = None, rx_result_bus = 0, poll_wb = 0, poll_bus = 0,
     e_locked = False, e_irq_bitmask = 0, e_perf = None, eop_found = False, user_buffer_index = 0, msix_irq_line = 0,
     bypass_offset = 0, poll_virt = False\<rparr>"

text \<open>\<open>engine_alignments\<close> works on the engine and the bus alone.\<close>

definition no_pages :: page_world where
  "no_pages = \<lparr>p_refs = \<lambda>_. 0, p_dirty = \<lambda>_. False, p_reserved = \<lambda>_. False\<rparr>"

definition dev_alignments :: "dev_engine \<Rightarrow> xdma_dev \<Rightarrow> dev_engine \<times> xdma_dev" where
  "dev_alignments e d =
    (let s = engine_alignments \<lparr>s_poll_mode = False, s_credit_mp = 0, s_msix = msix_enabled d, s_cfg_bar = 0,
               en = xdma_engine.truncate e, heap = (\<lambda>_. None), s_bus = d_bus d, s_pages = no_pages, wakes = []\<rparr>
     in (e\<lparr>e_addr_align := e_addr_align (en s), e_len_granularity := e_len_granularity (en s),
           e_addr_bits := e_addr_bits (en s)\<rparr>, d\<lparr>d_bus := s_bus s\<rparr>))"

definition engine_msix_setup :: "kapi \<Rightarrow> nat \<Rightarrow> nat \<Rightarrow> dev_engine \<Rightarrow> xdma_dev \<Rightarrow> int \<times> dev_engine \<times> xdma_dev" where
  "engine_msix_setup K c k e d =
    (let vector = entry_vector d (engines_num d + MAX_USER_IRQ);
         (rc, d) = request_irq K vector (H_channel c k) d
     in (rc, if rc = 0 then e\<lparr>msix_irq_line := vector\<rparr> else e, d))"

definition engine_msix_teardown :: "nat \<Rightarrow> nat \<Rightarrow> dev_engine \<Rightarrow> xdma_dev \<Rightarrow> xdma_dev" where
  "engine_msix_teardown c k e d = (if msix_irq_line e \<noteq> 0 then free_irq (msix_irq_line e) (H_channel c k) d else d)"

definition engine_writeback_setup :: "kapi \<Rightarrow> nat \<Rightarrow> nat \<Rightarrow> dev_engine \<Rightarrow> xdma_dev \<Rightarrow> int \<times> dev_engine \<times> xdma_dev" where
  "engine_writeback_setup K c k e d =
    (case k_writeback K c k of
       None \<Rightarrow> (- 1, e, d)
     | Some b \<Rightarrow>
         let e = e\<lparr>poll_virt := True, poll_bus := b\<rparr>;
             d = log_call (Get (R_wb c k)) d;
             e = e\<lparr>poll_wb := 0\<rparr>;
             d = dwr (PCI_DMA_L (poll_bus e)) (ereg (e_regs e) E_poll_mode_wb_lo) d;
             d = dwr (PCI_DMA_H (poll_bus e)) (ereg (e_regs e) E_poll_mode_wb_hi) d
         in (0, e, d))"

definition engine_writeback_teardown :: "nat \<Rightarrow> nat \<Rightarrow> dev_engine \<Rightarrow> xdma_dev \<Rightarrow> xdma_dev" where
  "engine_writeback_teardown c k e d = (if poll_virt e then log_call (Put (R_wb c k)) d else d)"

definition engine_ie_mask :: "bool \<Rightarrow> dev_engine \<Rightarrow> u32" where
  "engine_ie_mask poll e =
    XDMA_CTRL_IE_DESC_ALIGN_MISMATCH OR XDMA_CTRL_IE_MAGIC_STOPPED OR XDMA_CTRL_IE_READ_ERROR OR XDMA_CTRL_IE_DESC_ERROR OR
    (if poll then 0
     else XDMA_CTRL_IE_DESC_STOPPED OR XDMA_CTRL_IE_DESC_COMPLETED OR
       (if e_streaming e \<and> \<not> e_dir_to_dev e then XDMA_CTRL_IE_IDLE_STOPPED else 0))"

text \<open>The fields \<open>engine_create\<close> fills in before it touches the hardware.\<close>

definition engine_init :: "u64 \<Rightarrow> u64 \<Rightarrow> bool \<Rightarrow> nat \<Rightarrow> nat \<Rightarrow> nat \<Rightarrow> dev_engine" where
  "engine_init cfg offset dir_to_dev c k num =
    engine_zero\<lparr>e_magic := MAGIC_ENGINE, e_channel := c, e_number_in_channel := k,
      e_irq_bitmask := push_bit num 1, bypass_offset := of_nat (num * BYPASS_MODE_SPACING),
      e_regs := cfg + offset, e_sgdma_regs := cfg + (offset + SGDMA_OFFSET_FROM_CHANNEL), e_dir_to_dev := dir_to_dev\<rparr>"

text \<open>
  The part after the interrupt of the engine is set up. A new engine has no receive transfer, so
  that the transfer \<open>engine_create\<close> would queue at its end does not exist.
\<close>

definition engine_finish ::
  "kapi \<Rightarrow> bool \<Rightarrow> nat \<Rightarrow> nat \<Rightarrow> dev_engine \<Rightarrow> xdma_dev \<Rightarrow> dev_engine option \<times> xdma_dev" where
  "engine_finish K poll c k e d =
    (let d = d\<lparr>engines_num := engines_num d + 1\<rparr>;
         d = dwr XDMA_CTRL_NON_INCR_ADDR (ereg (e_regs e) E_control_w1c) d;
         (e, d) = dev_alignments e d;
         (rc, e, d) = (if poll then engine_writeback_setup K c k e d else (0, e, d))
     in if rc \<noteq> 0 then (None, log_call (Put (R_engine c k)) (engine_msix_teardown c k e d))
        else (Some e, dwr (engine_ie_mask poll e) (ereg (e_regs e) E_interrupt_enable_mask) d))"

definition engine_create ::
  "kapi \<Rightarrow> bool \<Rightarrow> u64 \<Rightarrow> bool \<Rightarrow> nat \<Rightarrow> xdma_dev \<Rightarrow> (dev_engine option \<times> xdma_dev) option" where
  "engine_create K poll offset dir_to_dev c d =
    (let k = (if dir_to_dev then 0 else 1) in
     if \<not> k_zalloc_engine K c k then Some (None, d)
     else do {
       let d = log_call (Get (R_engine c k)) d;
       cfg \<leftarrow> config_bar d;
       let e = engine_init cfg offset dir_to_dev c k (engines_num d);
       let (st, d) = get_engine_type (e_regs e) d;
       let e = e\<lparr>e_streaming := st\<rparr>;
       let (rc, e, d) = (if msix_enabled d then engine_msix_setup K c k e d else (0, e, d));
       Some (if rc \<noteq> 0 then (None, log_call (Put (R_engine c k)) d) else engine_finish K poll c k e d)
     })"

definition engine_destroy :: "bool \<Rightarrow> nat \<Rightarrow> nat \<Rightarrow> dev_engine \<Rightarrow> xdma_dev \<Rightarrow> xdma_dev" where
  "engine_destroy poll c k e d =
    (let d = dwr 0 (ereg (e_regs e) E_interrupt_enable_mask) d;
         d = engine_msix_teardown c k e d;
         d = (if poll then engine_writeback_teardown c k e d else d);
         d = log_call (Put (R_engine c k)) d
     in d\<lparr>engines_num := engines_num d - 1\<rparr>)"

definition remove_engine :: "bool \<Rightarrow> nat \<times> nat \<Rightarrow> xdma_dev \<Rightarrow> xdma_dev" where
  "remove_engine poll p d = (case engine d (fst p) (snd p) of None \<Rightarrow> d | Some e \<Rightarrow> engine_destroy poll (fst p) (snd p) e d)"

definition engine_slots :: "(nat \<times> nat) list" where
  "engine_slots = concat (map (\<lambda>c. [(c, 0), (c, 1)]) [0..<XDMA_CHANNEL_NUM_MAX])"

definition remove_engines :: "bool \<Rightarrow> xdma_dev \<Rightarrow> xdma_dev" where
  "remove_engines poll d = fold (remove_engine poll) engine_slots d"

section \<open>Probing\<close>

definition probe_for_engine :: "kapi \<Rightarrow> bool \<Rightarrow> bool \<Rightarrow> nat \<Rightarrow> xdma_dev \<Rightarrow> (int \<times> xdma_dev) option" where
  "probe_for_engine K poll dir_to_dev c d = do {
     let offset = (if dir_to_dev then 0 else H2C_CHANNEL_OFFSET) + of_nat c * CHANNEL_SPACING;
     cfg \<leftarrow> config_bar d;
     let expected = (if dir_to_dev then XDMA_ID_H2C else XDMA_ID_C2H);
     let (engine_id, d) = get_engine_id (cfg + offset) d;
     let (channel_id, d) = get_engine_channel_id (cfg + offset) d;
     (if engine_id \<noteq> expected then Some (0, d)
      else if channel_id \<noteq> of_nat c then Some (0, d)
      else do {
        (e, d) \<leftarrow> engine_create K poll offset dir_to_dev c d;
        let d = d\<lparr>engine := (engine d)(c := (engine d c)((if dir_to_dev then 0 else 1) := e))\<rparr>;
        Some (if e = None then - 1 else 0, d)
      })
   }"

fun probe_channels :: "kapi \<Rightarrow> bool \<Rightarrow> bool \<Rightarrow> nat list \<Rightarrow> xdma_dev \<Rightarrow> (int \<times> xdma_dev) option" where
  "probe_channels K poll dir [] d = Some (0, d)"
| "probe_channels K poll dir (c # cs) d = do {
     (rc, d) \<leftarrow> probe_for_engine K poll dir c d;
     (if rc \<noteq> 0 then Some (rc, d) else probe_channels K poll dir cs d)
   }"

text \<open>A failure among the read channels removes all engines, one among the write channels does not.\<close>

definition probe_engines :: "kapi \<Rightarrow> bool \<Rightarrow> xdma_dev \<Rightarrow> (int \<times> xdma_dev) option" where
  "probe_engines K poll d = do {
     (rc, d) \<leftarrow> probe_channels K poll True [0..<XDMA_CHANNEL_NUM_MAX] d;
     (if rc \<noteq> 0 then Some (rc, remove_engines poll d)
      else probe_channels K poll False [0..<XDMA_CHANNEL_NUM_MAX] d)
   }"

section \<open>What the operations leave alone\<close>

definition eng_rest where
  "eng_rest d = (config_bar d, entry_vector d, msix_enabled d, bar d, config_bar_idx d, user_bar_idx d, bypass_bar_idx d,
     irq_line d, msi_enabled d, got_regions d, regions_in_use d,
     d_major d, d_magic d, d_instance d, user_irq d, user_char_dev d, ctrl_char_dev d, bypass_char_dev d, bypass_char_dev_base d, sgdma_char_dev d, events_char_dev d)"

lemma eng_rest_sel:
  assumes "eng_rest d' = eng_rest d"
  shows "config_bar d' = config_bar d" "entry_vector d' = entry_vector d" "msix_enabled d' = msix_enabled d"
    "bar d' = bar d" "config_bar_idx d' = config_bar_idx d" "user_bar_idx d' = user_bar_idx d"
    "bypass_bar_idx d' = bypass_bar_idx d" "irq_line d' = irq_line d" "msi_enabled d' = msi_enabled d"
    "got_regions d' = got_regions d" "regions_in_use d' = regions_in_use d" "d_major d' = d_major d"
    "d_magic d' = d_magic d" "d_instance d' = d_instance d" "user_irq d' = user_irq d"
    "user_char_dev d' = user_char_dev d" "ctrl_char_dev d' = ctrl_char_dev d" "bypass_char_dev d' = bypass_char_dev d"
    "bypass_char_dev_base d' = bypass_char_dev_base d" "sgdma_char_dev d' = sgdma_char_dev d"
    "events_char_dev d' = events_char_dev d"
  using assms unfolding eng_rest_def by simp_all

lemma eng_rest_prim [simp]:
  "eng_rest (log_call x d) = eng_rest d" "eng_rest (dwr v a d) = eng_rest d" "eng_rest (snd (drd a d)) = eng_rest d"
  "eng_rest (d\<lparr>engines_num := n\<rparr>) = eng_rest d" "eng_rest (d\<lparr>engine := g\<rparr>) = eng_rest d" "eng_rest (d\<lparr>d_bus := b\<rparr>) = eng_rest d"
  by (simp_all add: eng_rest_def log_call_def dwr_def drd_def Let_def split_beta config_bar_def)

text \<open>The vectors the kernel handed out are not 0, which is no interrupt number.\<close>

definition vectors_ok :: "xdma_dev \<Rightarrow> bool" where
  "vectors_ok d \<longleftrightarrow> (msix_enabled d \<longrightarrow> (\<forall>i. entry_vector d i \<noteq> 0))"

lemma vectors_ok_rest: "eng_rest d' = eng_rest d \<Longrightarrow> vectors_ok d' = vectors_ok d"
  using eng_rest_sel(2,3) [of d' d] by (simp add: vectors_ok_def)

text \<open>The resources an engine holds.\<close>

definition res_of :: "bool \<Rightarrow> nat \<Rightarrow> nat \<Rightarrow> dev_engine \<Rightarrow> kres list" where
  "res_of poll c k e = R_engine c k # (if msix_irq_line e \<noteq> 0 then [R_irq (msix_irq_line e) (H_channel c k)] else []) @
     (if poll \<and> poll_virt e then [R_wb c k] else [])"

definition eng_res :: "bool \<Rightarrow> xdma_dev \<Rightarrow> nat \<times> nat \<Rightarrow> kres list" where
  "eng_res poll d p = (case engine d (fst p) (snd p) of None \<Rightarrow> [] | Some e \<Rightarrow> res_of poll (fst p) (snd p) e)"

definition num :: "kres list \<Rightarrow> kres \<Rightarrow> int" where
  "num l r = int (count_list l r)"

lemma num_simps [simp]: "num [] r = 0" "num (x # l) r = (if x = r then 1 else 0) + num l r" "num (l @ m) r = num l r + num m r"
  by (simp_all add: num_def)

lemma dev_alignments_sel:
  "dev_alignments e d = (e', d') \<Longrightarrow> klog d' = klog d \<and> engine d' = engine d \<and> engines_num d' = engines_num d \<and>
     eng_rest d' = eng_rest d \<and> e_irq_bitmask e' = e_irq_bitmask e \<and> e_channel e' = e_channel e \<and>
     e_number_in_channel e' = e_number_in_channel e \<and> msix_irq_line e' = msix_irq_line e \<and> poll_virt e' = poll_virt e \<and>
     e_regs e' = e_regs e \<and> e_magic e' = e_magic e \<and> e_dir_to_dev e' = e_dir_to_dev e"
  by (auto simp: dev_alignments_def Let_def)

lemma type_sel:
  "get_engine_type a d = (st, d') \<Longrightarrow> klog d' = klog d \<and> engine d' = engine d \<and> engines_num d' = engines_num d \<and>
     eng_rest d' = eng_rest d"
  by (auto simp: get_engine_type_def Let_def split_beta)

lemma msix_setup_spec:
  "engine_msix_setup K c k e d = (rc, e', d') \<Longrightarrow> entry_vector d (engines_num d + MAX_USER_IRQ) \<noteq> 0 \<Longrightarrow> msix_irq_line e = 0 \<Longrightarrow>
     engine d' = engine d \<and> engines_num d' = engines_num d \<and> eng_rest d' = eng_rest d \<and>
     e_irq_bitmask e' = e_irq_bitmask e \<and> e_channel e' = e_channel e \<and> e_number_in_channel e' = e_number_in_channel e \<and>
     e_magic e' = e_magic e \<and> poll_virt e' = poll_virt e \<and> (rc \<noteq> 0 \<longrightarrow> klog d' = klog d) \<and>
     (rc = 0 \<longrightarrow> msix_irq_line e' \<noteq> 0 \<and> klog d' = klog d @ [Get (R_irq (msix_irq_line e') (H_channel c k))])"
  by (auto simp: engine_msix_setup_def request_irq_def Let_def split: if_splits)

lemma writeback_setup_spec:
  "engine_writeback_setup K c k e d = (rc, e', d') \<Longrightarrow> \<not> poll_virt e \<Longrightarrow>
     engine d' = engine d \<and> engines_num d' = engines_num d \<and> eng_rest d' = eng_rest d \<and> msix_irq_line e' = msix_irq_line e \<and>
     e_irq_bitmask e' = e_irq_bitmask e \<and> e_channel e' = e_channel e \<and> e_number_in_channel e' = e_number_in_channel e \<and>
     e_magic e' = e_magic e \<and> (rc \<noteq> 0 \<longrightarrow> klog d' = klog d \<and> \<not> poll_virt e') \<and> (rc = 0 \<longrightarrow> poll_virt e' \<and> klog d' = klog d @ [Get (R_wb c k)])"
  by (auto simp: engine_writeback_setup_def Let_def split: option.splits)

text \<open>What the last part of \<open>engine_create\<close> adds to, or takes from, what is held.\<close>

definition irq_of :: "nat \<Rightarrow> nat \<Rightarrow> dev_engine \<Rightarrow> kres list" where
  "irq_of c k e = (if msix_irq_line e \<noteq> 0 then [R_irq (msix_irq_line e) (H_channel c k)] else [])"

lemma engine_finish_spec:
  assumes "engine_finish K poll c k e d = (eo, d')" "\<not> poll_virt e"
  shows "eng_rest d' = eng_rest d \<and> engine d' = engine d \<and> engines_num d' = engines_num d + 1 \<and>
    (case eo of None \<Rightarrow> (\<forall>r. held (klog d') r = held (klog d) r - num (R_engine c k # irq_of c k e) r)
     | Some e' \<Rightarrow> e_irq_bitmask e' = e_irq_bitmask e \<and> e_channel e' = e_channel e \<and> e_number_in_channel e' = e_number_in_channel e \<and>
         e_magic e' = e_magic e \<and>
         (\<forall>r. held (klog d') r = held (klog d) r + num (res_of poll c k e') r - num (R_engine c k # irq_of c k e) r))"
proof -
  define d1 where "d1 = dwr XDMA_CTRL_NON_INCR_ADDR (ereg (e_regs e) E_control_w1c) (d\<lparr>engines_num := engines_num d + 1\<rparr>)"
  obtain e2 d2 where d2: "dev_alignments e d1 = (e2, d2)" by (cases "dev_alignments e d1")
  obtain rc e3 d3 where d3: "(if poll then engine_writeback_setup K c k e2 d2 else (0, e2, d2)) = (rc, e3, d3)"
    by (cases "if poll then engine_writeback_setup K c k e2 d2 else (0, e2, d2)")
  have r: "(eo, d') = (if rc \<noteq> 0 then (None, log_call (Put (R_engine c k)) (engine_msix_teardown c k e3 d3))
      else (Some e3, dwr (engine_ie_mask poll e3) (ereg (e_regs e3) E_interrupt_enable_mask) d3))"
    using assms(1) unfolding engine_finish_def Let_def d1_def [symmetric] d2 by (simp add: d3)
  have f1: "klog d1 = klog d" "engine d1 = engine d" "engines_num d1 = engines_num d + 1" "eng_rest d1 = eng_rest d"
    by (simp_all add: d1_def)
  note f2 = dev_alignments_sel [OF d2]
  have np: "\<not> poll_virt e2" using f2 assms(2) by simp
  have f3: "(engine d3 = engine d) \<and>
      (engines_num d3 = engines_num d + 1) \<and>
      (eng_rest d3 = eng_rest d) \<and>
      (msix_irq_line e3 = msix_irq_line e) \<and>
      (e_irq_bitmask e3 = e_irq_bitmask e) \<and>
      (e_channel e3 = e_channel e) \<and>
      (e_number_in_channel e3 = e_number_in_channel e) \<and>
      (e_magic e3 = e_magic e) \<and>
      (rc \<noteq> 0 \<longrightarrow> klog d3 = klog d) \<and>
      (rc = 0 \<longrightarrow> klog d3 = klog d @ (if poll \<and> poll_virt e3 then [Get (R_wb c k)] else []))"
  proof (cases poll)
    case True
    then have w: "engine_writeback_setup K c k e2 d2 = (rc, e3, d3)" using d3 by simp
    show ?thesis using writeback_setup_spec [OF w np] f1 f2 True by simp
  next
    case False
    then show ?thesis using d3 f1 f2 by simp
  qed
  show ?thesis
  proof (cases "rc = 0")
    case True
    then have "eo = Some e3" "d' = dwr (engine_ie_mask poll e3) (ereg (e_regs e3) E_interrupt_enable_mask) d3" using r by simp_all
    then show ?thesis using f3 True by (auto simp: res_of_def irq_of_def)
  next
    case False
    then have "eo = None" "d' = log_call (Put (R_engine c k)) (engine_msix_teardown c k e3 d3)" using r by simp_all
    then show ?thesis using f3 False by (auto simp: irq_of_def engine_msix_teardown_def free_irq_def)
  qed
qed

lemma engine_create_spec:
  assumes "engine_create K poll off dir c d = Some (eo, d')" "vectors_ok d" "k = (if dir then 0 else 1)"
  shows "eng_rest d' = eng_rest d \<and> engine d' = engine d \<and>
    (case eo of None \<Rightarrow> engines_num d \<le> engines_num d' \<and> held (klog d') = held (klog d)
     | Some e \<Rightarrow> engines_num d' = engines_num d + 1 \<and> e_irq_bitmask e = push_bit (engines_num d) 1 \<and> e_channel e = c \<and>
         e_number_in_channel e = k \<and> e_magic e = MAGIC_ENGINE \<and>
         (\<forall>r. held (klog d') r = held (klog d) r + num (res_of poll c k e) r))"
proof (cases "k_zalloc_engine K c k")
  case False
  then have "eo = None" "d' = d" using assms(1,3) by (simp_all add: engine_create_def)
  then show ?thesis by simp
next
  case True
  let ?d0 = "log_call (Get (R_engine c k)) d"
  obtain cfg where cfg: "config_bar d = Some cfg"
    using assms(1,3) True by (auto simp: engine_create_def Let_def bind_eq_Some_conv)
  define e0 where "e0 = engine_init cfg off dir c k (engines_num d)"
  obtain st d1 where d1: "get_engine_type (e_regs e0) ?d0 = (st, d1)" by fastforce
  define e1 where "e1 = e0\<lparr>e_streaming := st\<rparr>"
  obtain rc e2 d2 where d2: "(if msix_enabled d1 then engine_msix_setup K c k e1 d1 else (0, e1, d1)) = (rc, e2, d2)"
    by (cases "if msix_enabled d1 then engine_msix_setup K c k e1 d1 else (0, e1, d1)")
  have r: "(eo, d') = (if rc \<noteq> 0 then (None, log_call (Put (R_engine c k)) d2) else engine_finish K poll c k e2 d2)"
    using assms(1) True cfg unfolding engine_create_def assms(3) [symmetric]
    by (simp add: e0_def [symmetric] d1 e1_def [symmetric] d2 split: if_splits)
  have e1: "e_irq_bitmask e1 = push_bit (engines_num d) 1" "e_channel e1 = c" "e_number_in_channel e1 = k"
    "e_magic e1 = MAGIC_ENGINE" "msix_irq_line e1 = 0" "\<not> poll_virt e1"
    by (simp_all add: e1_def e0_def engine_init_def engine_zero_def)
  have f1: "klog d1 = klog d @ [Get (R_engine c k)]" "engine d1 = engine d" "engines_num d1 = engines_num d" "eng_rest d1 = eng_rest d"
    using type_sel [OF d1] by simp_all
  have v: "msix_enabled d1 \<Longrightarrow> entry_vector d1 i \<noteq> 0" for i
    using vectors_ok_rest [OF f1(4)] assms(2) by (simp add: vectors_ok_def)
  have f2: "(engine d2 = engine d) \<and>
      (engines_num d2 = engines_num d) \<and>
      (eng_rest d2 = eng_rest d) \<and>
      (rc \<noteq> 0 \<longrightarrow> klog d2 = klog d1) \<and>
      (rc = 0 \<longrightarrow> klog d2 = klog d1 @ map Get (irq_of c k e2)) \<and>
      (e_irq_bitmask e2 = e_irq_bitmask e1) \<and>
      (e_channel e2 = c) \<and>
      (e_number_in_channel e2 = k) \<and>
      (e_magic e2 = MAGIC_ENGINE) \<and>
      (\<not> poll_virt e2)"
  proof (cases "msix_enabled d1")
    case True
    then have w: "engine_msix_setup K c k e1 d1 = (rc, e2, d2)" using d2 by simp
    show ?thesis using msix_setup_spec [OF w v [OF True] e1(5)] f1 e1 by (simp add: irq_of_def)
  next
    case False
    then show ?thesis using d2 f1 e1 by (auto simp: irq_of_def)
  qed
  show ?thesis
  proof (cases "rc = 0")
    case False
    then show ?thesis using r f1 f2 by (auto simp: fun_eq_iff)
  next
    case True
    then have fin: "engine_finish K poll c k e2 d2 = (eo, d')" using r by simp
    have "held (klog d2) r = held (klog d) r + num (R_engine c k # irq_of c k e2) r" for r
      using f1 f2 True by (simp add: irq_of_def)
    then show ?thesis using engine_finish_spec [OF fin] f2 e1 by (auto simp: fun_eq_iff split: option.splits)
  qed
qed

lemma engine_create_total: "config_bar d = Some cfg \<Longrightarrow> \<exists>eo d'. engine_create K poll off dir c d = Some (eo, d')"
  by (auto simp: engine_create_def Let_def split_beta)

section \<open>Probing and removing all engines\<close>

text \<open>
  What probing establishes: every engine found so far has its place, its own interrupt bit below
  \<open>engines_num\<close>, and what is held has grown by exactly what the engines hold.
\<close>

definition eng_ok :: "bool \<Rightarrow> (kres \<Rightarrow> int) \<Rightarrow> xdma_dev \<Rightarrow> bool" where
  "eng_ok poll base d \<longleftrightarrow>
     (\<forall>c k e. engine d c k = Some e \<longrightarrow> (c, k) \<in> set engine_slots \<and> e_channel e = c \<and> e_number_in_channel e = k \<and> e_magic e = MAGIC_ENGINE \<and>
        (\<exists>n < engines_num d. e_irq_bitmask e = push_bit n 1)) \<and>
     (\<forall>c k e c' k' e'. engine d c k = Some e \<and> engine d c' k' = Some e' \<and> (c, k) \<noteq> (c', k') \<longrightarrow>
        e_irq_bitmask e AND e_irq_bitmask e' = 0) \<and>
     (\<forall>r. held (klog d) r = base r + (\<Sum>p\<leftarrow>engine_slots. num (eng_res poll d p) r))"

lemma slots_distinct: "distinct engine_slots"
  by (simp add: engine_slots_def XDMA_CHANNEL_NUM_MAX_def upt_rec)

lemma slots_iff: "(c, k) \<in> set engine_slots \<longleftrightarrow> c < 4 \<and> k < 2"
  by (auto simp: engine_slots_def XDMA_CHANNEL_NUM_MAX_def less_2_cases_iff)

lemma sum_list_upd:
  assumes "distinct xs" "p \<in> set xs" "\<And>q. q \<noteq> p \<Longrightarrow> f q = g q" "g p = (0 :: int)"
  shows "(\<Sum>q\<leftarrow>xs. f q) = (\<Sum>q\<leftarrow>xs. g q) + f p"
proof -
  have "(\<Sum>q\<leftarrow>xs. f q) = (\<Sum>q\<in>set xs. f q)" "(\<Sum>q\<leftarrow>xs. g q) = (\<Sum>q\<in>set xs. g q)"
    using assms(1) by (simp_all add: sum_list_distinct_conv_sum_set)
  moreover have "sum f (set xs - {p}) = sum g (set xs - {p})" by (rule sum.cong) (auto intro: assms(3))
  ultimately show ?thesis using assms(2,4) by (simp add: sum.remove [of "set xs" p])
qed

lemma bits_disjoint: "n \<noteq> m \<Longrightarrow> (push_bit n 1 :: u32) AND push_bit m 1 = 0"
proof (rule bit_eqI)
  fix i assume "n \<noteq> m"
  then show "bit ((push_bit n 1 :: u32) AND push_bit m 1) i \<longleftrightarrow> bit (0 :: u32) i"
    by (auto simp only: bit_and_iff bit_push_bit_iff bit_1_iff) simp_all
qed

lemma eng_ok_cong:
  assumes "eng_ok poll base d" "engine d' = engine d" "engines_num d \<le> engines_num d'" "held (klog d') = held (klog d)"
  shows "eng_ok poll base d'"
proof -
  have r: "eng_res poll d' = eng_res poll d" by (simp add: fun_eq_iff eng_res_def assms(2))
  have "\<exists>n < engines_num d'. e_irq_bitmask e = push_bit n 1" if "\<exists>n < engines_num d. e_irq_bitmask e = push_bit n 1" for e :: dev_engine
    using that assms(3) by (meson order_less_le_trans)
  then show ?thesis using assms(1) unfolding eng_ok_def assms(2,4) r by blast
qed

lemma eng_ok_add:
  assumes "eng_ok poll base d" "engine d c k = None" "engine d' = (engine d)(c := (engine d c)(k := Some e))"
    and "engines_num d' = engines_num d + 1" "e_irq_bitmask e = push_bit (engines_num d) 1" "c < 4" "k < 2"
    and "e_channel e = c" "e_number_in_channel e = k" "e_magic e = MAGIC_ENGINE"
    and "\<forall>r. held (klog d') r = held (klog d) r + num (res_of poll c k e) r"
  shows "eng_ok poll base d'"
proof -
  have old: "engine d c' k' = Some f \<Longrightarrow> (c', k') \<in> set engine_slots \<and> e_channel f = c' \<and> e_number_in_channel f = k' \<and>
      e_magic f = MAGIC_ENGINE \<and> (\<exists>n < engines_num d. e_irq_bitmask f = push_bit n 1)" for c' k' f
    using assms(1) unfolding eng_ok_def by blast
  have new: "engine d' c' k' = Some f \<longleftrightarrow> (if (c', k') = (c, k) then f = e else engine d c' k' = Some f)" for c' k' f
    using assms(2,3) by auto
  have 1: "engine d' c' k' = Some f \<longrightarrow> (c', k') \<in> set engine_slots \<and> e_channel f = c' \<and> e_number_in_channel f = k' \<and>
      e_magic f = MAGIC_ENGINE \<and> (\<exists>n < engines_num d'. e_irq_bitmask f = push_bit n 1)" for c' k' f
    using old [of c' k' f] assms(4-10) unfolding new by (auto simp: slots_iff intro: less_SucI)
  have 2: "e_irq_bitmask f AND e_irq_bitmask f' = 0"
    if "engine d' c1 k1 = Some f" "engine d' c2 k2 = Some f'" "(c1, k1) \<noteq> (c2, k2)" for c1 k1 f c2 k2 f'
  proof -
    show ?thesis
    proof (cases "(c1, k1) = (c, k)")
      case True
      then have "f = e" "engine d c2 k2 = Some f'" using that unfolding new by auto
      then show ?thesis using old [of c2 k2 f'] bits_disjoint [of "engines_num d"] assms(5) by auto
    next
      case c1: False
      then have f: "engine d c1 k1 = Some f" using that unfolding new by auto
      show ?thesis
      proof (cases "(c2, k2) = (c, k)")
        case True
        then have "f' = e" using that unfolding new by auto
        then show ?thesis using f old [of c1 k1 f] bits_disjoint [of _ "engines_num d"] assms(5) by auto
      next
        case False
        then have "engine d c2 k2 = Some f'" using that unfolding new by auto
        then show ?thesis using f assms(1) that(3) unfolding eng_ok_def by blast
      qed
    qed
  qed
  have 3: "held (klog d') r = base r + (\<Sum>p\<leftarrow>engine_slots. num (eng_res poll d' p) r)" for r
  proof -
    have "(\<Sum>p\<leftarrow>engine_slots. num (eng_res poll d' p) r) = (\<Sum>p\<leftarrow>engine_slots. num (eng_res poll d p) r) + num (eng_res poll d' (c, k)) r"
    proof (rule sum_list_upd [OF slots_distinct])
      show "num (eng_res poll d' q) r = num (eng_res poll d q) r" if "q \<noteq> (c, k)" for q
        using that by (cases q) (auto simp: eng_res_def assms(3))
    qed (simp_all add: eng_res_def assms(2,6,7) slots_iff)
    then show ?thesis using assms(1,11) by (simp add: eng_ok_def eng_res_def assms(3))
  qed
  show ?thesis unfolding eng_ok_def using 1 2 3 by blast
qed

lemma probe_for_engine_spec:
  assumes "eng_ok poll base d" "engine d c k = None" "k = (if dir then 0 else 1)" "c < 4"
    and "vectors_ok d" "config_bar d = Some cfg"
  shows "\<exists>rc d'. probe_for_engine K poll dir c d = Some (rc, d') \<and> eng_rest d' = eng_rest d \<and>
    eng_ok poll base d' \<and> (\<forall>c' k'. (c', k') \<noteq> (c, k) \<longrightarrow> engine d' c' k' = engine d c' k')"
proof -
  define off where "off = (if dir then 0 else H2C_CHANNEL_OFFSET) + of_nat c * CHANNEL_SPACING"
  define d1 where "d1 = snd (get_engine_id (cfg + off) d)"
  define d2 where "d2 = snd (get_engine_channel_id (cfg + off) d1)"
  have f: "klog d2 = klog d \<and> engine d2 = engine d \<and> engines_num d2 = engines_num d \<and> eng_rest d2 = eng_rest d"
    by (simp add: d2_def d1_def get_engine_id_def get_engine_channel_id_def Let_def split_beta)
  have ok2: "eng_ok poll base d2" by (rule eng_ok_cong [OF assms(1)]) (use f in simp_all)
  have c2: "config_bar d2 = Some cfg" "vectors_ok d2"
    using eng_rest_sel(1) [of d2 d] vectors_ok_rest [of d2 d] f assms(5,6) by simp_all
  obtain eo d3 where d3: "engine_create K poll off dir c d2 = Some (eo, d3)" using engine_create_total [OF c2(1)] by blast
  note s = engine_create_spec [OF d3 c2(2) assms(3)]
  define d4 where "d4 = d3\<lparr>engine := (engine d3)(c := (engine d3 c)(k := eo))\<rparr>"
  have r: "probe_for_engine K poll dir c d =
      (if fst (get_engine_id (cfg + off) d) \<noteq> (if dir then XDMA_ID_H2C else XDMA_ID_C2H) \<or>
          fst (get_engine_channel_id (cfg + off) d1) \<noteq> of_nat c
       then Some (0, d2) else Some (if eo = None then - 1 else 0, d4))"
    using d3 unfolding probe_for_engine_def assms(6) assms(3) [symmetric] Let_def off_def [symmetric]
    by (simp add: split_beta d1_def d2_def d4_def)
  have "eng_rest d4 = eng_rest d \<and> eng_ok poll base d4 \<and> (\<forall>c' k'. (c', k') \<noteq> (c, k) \<longrightarrow> engine d4 c' k' = engine d c' k')"
  proof (cases eo)
    case None
    have "engine d4 = engine d" using s f assms(2) by (auto simp: d4_def None fun_eq_iff)
    moreover have "engines_num d \<le> engines_num d4" "held (klog d4) = held (klog d)" using s f by (simp_all add: d4_def None)
    ultimately show ?thesis using eng_ok_cong [OF assms(1), of d4] s f by (simp add: d4_def)
  next
    case (Some e)
    have "eng_ok poll base d4"
    proof (rule eng_ok_add [OF assms(1,2) _ _ _ assms(4)])
      show "engine d4 = (engine d)(c := (engine d c)(k := Some e))" using s f Some by (simp add: d4_def)
      show "k < 2" using assms(3) by simp
    qed (use s f Some in \<open>simp_all add: d4_def\<close>)
    then show ?thesis using s f Some by (auto simp: d4_def)
  qed
  then show ?thesis unfolding r using f ok2 by auto
qed

lemma probe_channels_spec:
  "eng_ok poll base d \<Longrightarrow> distinct cs \<Longrightarrow> (\<forall>c \<in> set cs. c < 4 \<and> engine d c k = None) \<Longrightarrow> k = (if dir then 0 else 1) \<Longrightarrow>
   vectors_ok d \<Longrightarrow> config_bar d = Some cfg \<Longrightarrow>
   \<exists>rc d'. probe_channels K poll dir cs d = Some (rc, d') \<and> eng_rest d' = eng_rest d \<and> eng_ok poll base d' \<and>
     (\<forall>c' k'. k' \<noteq> k \<longrightarrow> engine d' c' k' = engine d c' k')"
proof (induction cs arbitrary: d)
  case (Cons c cs)
  have h: "engine d c k = None" "c < 4" using Cons.prems(3) by simp_all
  obtain rc d1 where d1: "probe_for_engine K poll dir c d = Some (rc, d1)" "eng_rest d1 = eng_rest d" "eng_ok poll base d1"
    "\<forall>c' k'. (c', k') \<noteq> (c, k) \<longrightarrow> engine d1 c' k' = engine d c' k'"
    using probe_for_engine_spec [OF Cons.prems(1) h(1) Cons.prems(4) h(2) Cons.prems(5,6)] by blast
  have n: "\<forall>c' \<in> set cs. c' < 4 \<and> engine d1 c' k = None"
    using Cons.prems(2,3) d1(4) by (metis Pair_inject distinct.simps(2) list.set_intros(2))
  have m: "vectors_ok d1" "config_bar d1 = Some cfg"
    using eng_rest_sel(1) [OF d1(2)] vectors_ok_rest [OF d1(2)] Cons.prems(5,6) by simp_all
  show ?case
  proof (cases "rc = 0")
    case True
    have "distinct cs" using Cons.prems(2) by simp
    from Cons.IH [OF d1(3) this n Cons.prems(4) m] obtain rc' d' where
      "probe_channels K poll dir cs d1 = Some (rc', d')" "eng_rest d' = eng_rest d1" "eng_ok poll base d'"
      "\<forall>c' k'. k' \<noteq> k \<longrightarrow> engine d' c' k' = engine d1 c' k'" by blast
    then show ?thesis using d1 True by auto
  next
    case False
    then show ?thesis using d1 by auto
  qed
qed simp

text \<open>Probing the channels of a direction succeeds if nothing their creation needs is refused.\<close>

definition engines_granted :: "kapi \<Rightarrow> bool \<Rightarrow> nat \<Rightarrow> bool" where
  "engines_granted K poll k \<longleftrightarrow>
     (\<forall>c. k_zalloc_engine K c k \<and> (\<forall>v. k_request_irq K v (H_channel c k) = 0) \<and> (poll \<longrightarrow> k_writeback K c k \<noteq> None))"

lemma engine_finish_granted: "(poll \<longrightarrow> k_writeback K c k \<noteq> None) \<Longrightarrow> fst (engine_finish K poll c k e d) \<noteq> None"
  by (cases poll) (auto simp: engine_finish_def engine_writeback_setup_def Let_def split_beta)

lemma engine_create_granted:
  assumes "engines_granted K poll k" "k = (if dir then 0 else 1)"
  shows "engine_create K poll off dir c d \<noteq> Some (None, d')"
proof
  assume "engine_create K poll off dir c d = Some (None, d')"
  then obtain e d1 where "engine_finish K poll c k e d1 = (None, d')"
    using assms(1) unfolding engine_create_def assms(2) [symmetric]
    by (auto simp: engines_granted_def engine_msix_setup_def request_irq_def Let_def split_beta bind_eq_Some_conv
        split: if_splits)
  then show False using engine_finish_granted [of poll K c k e d1] assms(1) by (simp add: engines_granted_def)
qed

lemma probe_channels_granted:
  "engines_granted K poll k \<Longrightarrow> k = (if dir then 0 else 1) \<Longrightarrow> probe_channels K poll dir cs d = Some (rc, d') \<Longrightarrow> rc = 0"
proof (induction cs arbitrary: d)
  case (Cons c cs)
  obtain rc1 d1 where p: "probe_for_engine K poll dir c d = Some (rc1, d1)"
    "(if rc1 \<noteq> 0 then Some (rc1, d1) else probe_channels K poll dir cs d1) = Some (rc, d')"
    using Cons.prems(3) by (auto simp: bind_eq_Some_conv)
  have "rc1 = 0" using p(1) engine_create_granted [OF Cons.prems(1,2)]
    by (auto simp: probe_for_engine_def Let_def split_beta bind_eq_Some_conv split: if_splits)
  then show ?case using p(2) Cons.IH [OF Cons.prems(1,2)] by simp
qed simp

lemma probe_engines_granted:
  assumes "engines_granted K poll 0" "engines_granted K poll 1" "probe_engines K poll d = Some (rc, d')"
  shows "rc = 0"
proof -
  obtain rc1 d1 where p: "probe_channels K poll True [0..<XDMA_CHANNEL_NUM_MAX] d = Some (rc1, d1)"
    "(if rc1 \<noteq> 0 then Some (rc1, remove_engines poll d1) else probe_channels K poll False [0..<XDMA_CHANNEL_NUM_MAX] d1) = Some (rc, d')"
    using assms(3) by (auto simp: probe_engines_def bind_eq_Some_conv)
  have "rc1 = 0" using probe_channels_granted [OF assms(1) _ p(1)] by simp
  then show ?thesis using p(2) probe_channels_granted [OF assms(2), of False] by auto
qed

text \<open>Removing gives back what the engines hold.\<close>

lemma remove_engine_spec:
  "eng_rest (remove_engine poll p d) = eng_rest d \<and> engine (remove_engine poll p d) = engine d \<and>
   (\<forall>r. held (klog (remove_engine poll p d)) r = held (klog d) r - num (eng_res poll d p) r)"
  by (auto simp: remove_engine_def engine_destroy_def eng_res_def res_of_def engine_msix_teardown_def free_irq_def
      engine_writeback_teardown_def Let_def split: option.splits)

lemma remove_engines_fold:
  "eng_rest (fold (remove_engine poll) ps d) = eng_rest d \<and> engine (fold (remove_engine poll) ps d) = engine d \<and>
   (\<forall>r. held (klog (fold (remove_engine poll) ps d)) r = held (klog d) r - (\<Sum>p\<leftarrow>ps. num (eng_res poll d p) r))"
proof (induction ps arbitrary: d)
  case (Cons p ps)
  have "eng_res poll (remove_engine poll p d) = eng_res poll d" by (simp add: fun_eq_iff eng_res_def remove_engine_spec)
  then show ?case using Cons.IH [of "remove_engine poll p d"] remove_engine_spec [of poll p d] by simp
qed simp

lemma remove_engines_held:
  "eng_ok poll base d \<Longrightarrow> held (klog (remove_engines poll d)) = base"
  by (simp add: eng_ok_def remove_engines_def remove_engines_fold fun_eq_iff)

lemma eng_ok_start: "\<forall>c k. engine d c k = None \<Longrightarrow> eng_ok poll (held (klog d)) d"
  by (simp add: eng_ok_def eng_res_def engine_slots_def upt_rec XDMA_CHANNEL_NUM_MAX_def)

lemma probe_engines_spec:
  assumes "\<forall>c k. engine d c k = None" "vectors_ok d" "config_bar d = Some cfg"
  shows "\<exists>rc d'. probe_engines K poll d = Some (rc, d') \<and> eng_rest d' = eng_rest d \<and> (rc = 0 \<longrightarrow> eng_ok poll (held (klog d)) d') \<and>
    (rc \<noteq> 0 \<and> engines_granted K poll 1 \<longrightarrow> held (klog d') = held (klog d))"
proof -
  have dis: "distinct [0..<XDMA_CHANNEL_NUM_MAX]" by simp
  have ch: "\<forall>c \<in> set [0..<XDMA_CHANNEL_NUM_MAX]. c < 4 \<and> engine d c 0 = None" using assms(1) by (simp add: XDMA_CHANNEL_NUM_MAX_def)
  obtain rc d1 where d1: "probe_channels K poll True [0..<XDMA_CHANNEL_NUM_MAX] d = Some (rc, d1)" "eng_rest d1 = eng_rest d"
    "eng_ok poll (held (klog d)) d1" "\<forall>c' k'. k' \<noteq> 0 \<longrightarrow> engine d1 c' k' = engine d c' k'"
    using probe_channels_spec [OF eng_ok_start [OF assms(1), of poll] dis ch _ assms(2,3), of True K] by auto
  show ?thesis
  proof (cases "rc = 0")
    case False
    then show ?thesis using d1 remove_engines_held [OF d1(3)] by (simp add: probe_engines_def remove_engines_def remove_engines_fold)
  next
    case True
    have m: "vectors_ok d1" "config_bar d1 = Some cfg"
      using eng_rest_sel(1) [OF d1(2)] vectors_ok_rest [OF d1(2)] assms(2,3) by simp_all
    have "\<forall>c \<in> set [0..<XDMA_CHANNEL_NUM_MAX]. c < 4 \<and> engine d1 c 1 = None" using assms(1) d1(4) by (simp add: XDMA_CHANNEL_NUM_MAX_def)
    from probe_channels_spec [OF d1(3) dis this _ m, of False K] obtain rc' d' where
      "probe_channels K poll False [0..<XDMA_CHANNEL_NUM_MAX] d1 = Some (rc', d')" "eng_rest d' = eng_rest d1"
      "eng_ok poll (held (klog d)) d'" by auto
    then show ?thesis using d1 True probe_channels_granted [of K poll 1 False "[0..<XDMA_CHANNEL_NUM_MAX]" d1 rc' d'] by (auto simp: probe_engines_def)
  qed
qed

section \<open>Properties\<close>

text \<open>
  C24: probing the engines of a fresh device always returns. If it succeeds, every engine it created
  sits at its channel and direction and has one interrupt bit, below the number of engines, that no
  other engine has, so that the interrupt handler never takes one engine for another; and removing
  the engines gives back every engine, interrupt line and writeback buffer that probing took.
\<close>

theorem probe_engines_own_bits:
  assumes "\<forall>c k. engine d c k = None" "vectors_ok d" "config_bar d = Some cfg"
  shows "\<exists>rc d'. probe_engines K poll d = Some (rc, d') \<and>
    (rc = 0 \<longrightarrow>
       (\<forall>c k e. engine d' c k = Some e \<longrightarrow> c < 4 \<and> k < 2 \<and> e_channel e = c \<and> e_number_in_channel e = k \<and>
          (\<exists>n < engines_num d'. e_irq_bitmask e = push_bit n 1)) \<and>
       (\<forall>c k e c' k' e'. engine d' c k = Some e \<and> engine d' c' k' = Some e' \<and> (c, k) \<noteq> (c', k') \<longrightarrow>
          e_irq_bitmask e AND e_irq_bitmask e' = 0) \<and>
       held (klog (remove_engines poll d')) = held (klog d))"
proof -
  obtain rc d' where r: "probe_engines K poll d = Some (rc, d')" "rc = 0 \<longrightarrow> eng_ok poll (held (klog d)) d'"
    using probe_engines_spec [OF assms] by blast
  have "eng_ok poll (held (klog d)) d' \<Longrightarrow> held (klog (remove_engines poll d')) = held (klog d)" by (rule remove_engines_held)
  moreover have "eng_ok poll (held (klog d)) d' \<Longrightarrow>
      (\<forall>c k e. engine d' c k = Some e \<longrightarrow> c < 4 \<and> k < 2 \<and> e_channel e = c \<and> e_number_in_channel e = k \<and>
        (\<exists>n < engines_num d'. e_irq_bitmask e = push_bit n 1)) \<and>
      (\<forall>c k e c' k' e'. engine d' c k = Some e \<and> engine d' c' k' = Some e' \<and> (c, k) \<noteq> (c', k') \<longrightarrow>
        e_irq_bitmask e AND e_irq_bitmask e' = 0)"
    unfolding eng_ok_def slots_iff by blast
  ultimately show ?thesis using r by blast
qed

theorem probe_engines_own_bits_witness:
  "\<exists>d'. probe_engines demo_kapi False (demo_dev\<lparr>entry_vector := \<lambda>_. 7\<rparr>) = Some (0, d') \<and>
     held (klog (remove_engines False d')) = held []"
proof -
  have h: "\<forall>c k. engine (demo_dev\<lparr>entry_vector := \<lambda>_. 7\<rparr>) c k = None" "vectors_ok (demo_dev\<lparr>entry_vector := \<lambda>_. 7\<rparr>)"
    "config_bar (demo_dev\<lparr>entry_vector := \<lambda>_. 7\<rparr>) = Some 0x10000" "klog (demo_dev\<lparr>entry_vector := \<lambda>_. 7\<rparr>) = []"
    by (simp_all add: config_bar_def demo_dev_def XDMA_BAR_NUM_def vectors_ok_def)
  have "engines_granted demo_kapi False 0" "engines_granted demo_kapi False 1"
    by (simp_all add: engines_granted_def demo_kapi_def)
  then have "\<And>rc d'. probe_engines demo_kapi False (demo_dev\<lparr>entry_vector := \<lambda>_. 7\<rparr>) = Some (rc, d') \<Longrightarrow> rc = 0"
    by (rule probe_engines_granted)
  with probe_engines_own_bits [OF h(1-3), of demo_kapi False] h(4) show ?thesis by fastforce
qed

end
