(* ===== verification/CharDev.thy ===== *)
theory CharDev
  imports Engines
begin

text \<open>
  The character devices of a device instance: creation and destruction of one
  (\<open>create_sg_char\<close>, \<open>destroy_sg_char\<close> and their parts in \<open>driver/xdma-core.c\<close>) and of all of them
  (\<open>create_interfaces\<close>, \<open>destroy_interfaces\<close>).

  The module's global variables are a record of their own: the parameter \<open>major\<close>, the table
  \<open>dev_present\<close> of instance numbers in use, and whether the device class exists.
\<close>

unbundle bit_operations_syntax

definition MAX_XDMA_DEVICES :: nat where "MAX_XDMA_DEVICES = 64"
definition XDMA_MINOR_BASE :: nat where "XDMA_MINOR_BASE = 0"
definition XDMA_MINOR_COUNT :: nat where "XDMA_MINOR_COUNT = 255"

record globals =
  g_major :: nat
  dev_present :: "nat \<Rightarrow> bool"
  g_xdma_class :: bool

type_synonym gdev = "globals \<times> xdma_dev"

section \<open>Numbers, operations, names\<close>

text \<open>\<open>alloc_chrdev_region\<close> yields no number (0 stays in place) if it fails; its result is ignored.\<close>

definition gen_dev_major :: "kapi \<Rightarrow> gdev \<Rightarrow> nat \<times> gdev" where
  "gen_dev_major K gd = (case gd of (g, d) \<Rightarrow>
     if g_major g = 0 then
       (k_chrdev_major K, g,
        if k_chrdev_major K \<noteq> 0 then log_call (Get (R_chrdev (k_chrdev_major K, XDMA_MINOR_BASE) XDMA_MINOR_COUNT)) d else d)
     else (g_major g, g\<lparr>g_major := g_major g - 1\<rparr>, d))"

definition gen_dev_minor :: "dev_engine option \<Rightarrow> chardev_type \<Rightarrow> int \<Rightarrow> int option" where
  "gen_dev_minor eng type event_id =
    (if type = CHAR_XDMA_H2C \<or> type = CHAR_XDMA_C2H then do {
       e \<leftarrow> eng;
       BUG_ON (e_number_in_channel e \<ge> 2);
       Some (32 + int (e_number_in_channel e * 4) + int (e_channel e))
     } else if type = CHAR_BYPASS_H2C \<or> type = CHAR_BYPASS_C2H then do {
       e \<leftarrow> eng;
       BUG_ON (e_number_in_channel e \<ge> 2);
       Some (64 + int (e_number_in_channel e * 4) + int (e_channel e))
     } else if type = CHAR_BYPASS then Some 100
     else if type = CHAR_EVENTS then Some (10 + event_id)
     else Some (if type = CHAR_USER then 0 else 1))"

datatype fops = sg_polled_fops | sg_interrupt_fops | ctrl_fops | events_fops | bypass_fops

definition select_file_ops :: "bool \<Rightarrow> chardev_type \<Rightarrow> fops" where
  "select_file_ops poll type =
    (case type of
       CHAR_XDMA_H2C \<Rightarrow> if poll then sg_polled_fops else sg_interrupt_fops
     | CHAR_XDMA_C2H \<Rightarrow> if poll then sg_polled_fops else sg_interrupt_fops
     | CHAR_USER \<Rightarrow> ctrl_fops
     | CHAR_CTRL \<Rightarrow> ctrl_fops
     | CHAR_EVENTS \<Rightarrow> events_fops
     | CHAR_BYPASS_H2C \<Rightarrow> bypass_fops
     | CHAR_BYPASS_C2H \<Rightarrow> bypass_fops
     | CHAR_BYPASS \<Rightarrow> bypass_fops)"

lemma fops_of_types:
  "\<forall>poll type. (select_file_ops poll type = events_fops \<longleftrightarrow> type = CHAR_EVENTS) \<and>
     (select_file_ops poll type = bypass_fops \<longleftrightarrow> type \<in> {CHAR_BYPASS_H2C, CHAR_BYPASS_C2H, CHAR_BYPASS}) \<and>
     (select_file_ops poll type \<in> {sg_polled_fops, sg_interrupt_fops} \<longleftrightarrow> type \<in> {CHAR_XDMA_H2C, CHAR_XDMA_C2H})"
  by code_simp

text \<open>The files of an engine need one; the result is the one of \<open>kobject_set_name\<close>.\<close>

definition config_kobject :: "kapi \<Rightarrow> xdma_char \<Rightarrow> chardev_type \<Rightarrow> int option" where
  "config_kobject K ch type = do {
     BUG_ON (type \<in> {CHAR_XDMA_H2C, CHAR_XDMA_C2H, CHAR_BYPASS_H2C, CHAR_BYPASS_C2H} \<and> c_engine ch = None);
     Some (k_set_name K (cdevno ch))
   }"

text \<open>
  A failing \<open>device_create\<close> yields an error pointer, which passes the test for null: \<open>create_dev\<close>
  reports success, and the number has no device.
\<close>

definition create_dev :: "kapi \<Rightarrow> xdma_char \<Rightarrow> xdma_dev \<Rightarrow> int \<times> xdma_char \<times> xdma_dev" where
  "create_dev K ch d =
    (let ch = ch\<lparr>c_sys_device := (if k_device_create K (cdevno ch) then Dev_ptr else Err_ptr)\<rparr>;
         d = (if k_device_create K (cdevno ch) then log_call (Get (R_device (cdevno ch))) d else d)
     in (if c_sys_device ch = Null_ptr then - 1 else 0, ch, d))"

section \<open>One character device\<close>

text \<open>
  The first free instance number. The loop reads one byte behind the table when all are taken;
  whatever it reads, it stops there.
\<close>

definition first_free :: "(nat \<Rightarrow> bool) \<Rightarrow> nat" where
  "first_free p = length (takeWhile p [0..<MAX_XDMA_DEVICES])"

text \<open>
  \<open>unregister_chrdev_region\<close> of the kernel looks for a registered range with just this first number and this
  length; if there is none, it does nothing.
\<close>

definition unregister_chrdev_region :: "nat \<times> nat \<Rightarrow> nat \<Rightarrow> xdma_dev \<Rightarrow> xdma_dev" where
  "unregister_chrdev_region n count d = (if 0 < held (klog d) (R_chrdev n count) then log_call (Put (R_chrdev n count)) d else d)"

text \<open>Releasing the memory of a character device.\<close>

definition free_char :: "chardev_type \<Rightarrow> int \<Rightarrow> (nat \<times> nat) option \<Rightarrow> xdma_dev \<Rightarrow> xdma_dev" where
  "free_char type b eng d = log_call (Put (R_char type b eng)) d"

text \<open>The part of \<open>create_sg_char\<close> from the registration of the number on.\<close>

definition register_char ::
  "kapi \<Rightarrow> xdma_char \<Rightarrow> gdev \<Rightarrow> xdma_char option \<times> gdev" where
  "register_char K ch gd = (case gd of (g, d) \<Rightarrow>
     let free = free_char (c_type ch) (c_bar ch) (c_engine ch);
         rc = (if g_major g \<noteq> 0 then k_register_chrdev K (cdevno ch) else 0);
         d = (if g_major g \<noteq> 0 \<and> 0 \<le> rc then log_call (Get (R_chrdev (cdevno ch) 1)) d else d)
     in if rc < 0 then (None, g, free d)
        else if k_cdev_add K (cdevno ch) < 0
          then (None, g, free (unregister_chrdev_region (cdevno ch) XDMA_MINOR_COUNT d))
        else let d = log_call (Get (R_cdev (cdevno ch))) d
          in if \<not> g_xdma_class g then (Some ch, g, d)
             else let (rc, ch, d) = create_dev K ch d
               in if rc < 0 then (None, g, free (unregister_chrdev_region (cdevno ch) XDMA_MINOR_COUNT
                                                  (log_call (Put (R_cdev (cdevno ch))) d)))
                  else (Some ch, g, d))"

text \<open>The first character device of an instance gives it its numbers.\<close>

definition new_instance :: "kapi \<Rightarrow> gdev \<Rightarrow> bool \<times> gdev" where
  "new_instance K gd = (case gd of (g, d) \<Rightarrow>
     let i = first_free (dev_present g)
     in if d_major d \<noteq> 0 then (True, g, d)
        else if i = MAX_XDMA_DEVICES then (False, g, d)
        else let g = g\<lparr>dev_present := (dev_present g)(i := True)\<rparr>;
                 d = log_call (Get (R_slot i)) (d\<lparr>d_instance := i\<rparr>);
                 (m, g, d) = gen_dev_major K (g, d)
             in (True, g, d\<lparr>d_major := int m\<rparr>))"

definition new_char :: "chardev_type \<Rightarrow> int \<Rightarrow> (nat \<times> nat) option \<Rightarrow> int \<Rightarrow> int \<Rightarrow> xdma_char" where
  "new_char type b eng maj minor =
    \<lparr>c_magic = MAGIC_CHAR, cdevno = (nat maj, nat minor), c_bar = b, c_engine = eng,
     c_user_irq = (if type = CHAR_EVENTS then Some (nat b) else None), c_type = type, c_sys_device = Null_ptr\<rparr>"

definition create_sg_char ::
  "kapi \<Rightarrow> int \<Rightarrow> (nat \<times> nat) option \<Rightarrow> chardev_type \<Rightarrow> gdev \<Rightarrow> (xdma_char option \<times> gdev) option" where
  "create_sg_char K b eng type gd = (case gd of (g, d) \<Rightarrow>
     if \<not> k_zalloc_char K type b eng then Some (None, g, d)
     else do {
       let (ok, g, d) = new_instance K (g, log_call (Get (R_char type b eng)) d);
       (if \<not> ok then Some (None, g, free_char type b eng d)
        else do {
          minor \<leftarrow> gen_dev_minor (Option.bind eng (\<lambda>(c, k). engine d c k)) type b;
          let ch = new_char type b eng (d_major d) minor;
          rc \<leftarrow> config_kobject K ch type;
          Some (if rc \<noteq> 0 then (None, g, free_char type b eng d) else register_char K ch (g, d))
        })
     })"

text \<open>\<open>device_destroy\<close> finds the device by its number; there is none if it could not be created.\<close>

definition destroy_sg_char :: "xdma_char \<Rightarrow> gdev \<Rightarrow> gdev option" where
  "destroy_sg_char ch gd = (case gd of (g, d) \<Rightarrow> do {
     BUG_ON (c_magic ch \<noteq> MAGIC_CHAR);
     BUG_ON (\<not> g_xdma_class g);
     BUG_ON (c_sys_device ch = Null_ptr);
     let d = (if c_sys_device ch = Dev_ptr then log_call (Put (R_device (cdevno ch))) d else d);
     let d = log_call (Put (R_cdev (cdevno ch))) d;
     let d = unregister_chrdev_region (cdevno ch) 1 d;
     Some (g, free_char (c_type ch) (c_bar ch) (c_engine ch) d)
   })"

section \<open>All of them\<close>

text \<open>The pointers of \<open>struct xdma_dev\<close> to its character devices.\<close>

datatype char_slot = At_user | At_ctrl | At_event nat | At_sg nat nat | At_bypass nat nat | At_base

fun char_at :: "char_slot \<Rightarrow> xdma_dev \<Rightarrow> xdma_char option" where
  "char_at At_user d = user_char_dev d"
| "char_at At_ctrl d = ctrl_char_dev d"
| "char_at (At_event i) d = events_char_dev d i"
| "char_at (At_sg c k) d = sgdma_char_dev d c k"
| "char_at (At_bypass c k) d = bypass_char_dev d c k"
| "char_at At_base d = bypass_char_dev_base d"

fun set_char :: "char_slot \<Rightarrow> xdma_char option \<Rightarrow> xdma_dev \<Rightarrow> xdma_dev" where
  "set_char At_user x d = d\<lparr>user_char_dev := x\<rparr>"
| "set_char At_ctrl x d = d\<lparr>ctrl_char_dev := x\<rparr>"
| "set_char (At_event i) x d = d\<lparr>events_char_dev := (events_char_dev d)(i := x)\<rparr>"
| "set_char (At_sg c k) x d = d\<lparr>sgdma_char_dev := (sgdma_char_dev d)(c := (sgdma_char_dev d c)(k := x))\<rparr>"
| "set_char (At_bypass c k) x d = d\<lparr>bypass_char_dev := (bypass_char_dev d)(c := (bypass_char_dev d c)(k := x))\<rparr>"
| "set_char At_base x d = d\<lparr>bypass_char_dev_base := x\<rparr>"

text \<open>The order of \<open>destroy_interfaces\<close>.\<close>

definition char_slots :: "char_slot list" where
  "char_slots = concat (map (\<lambda>c. [At_sg c 0, At_sg c 1, At_bypass c 0, At_bypass c 1]) [0..<XDMA_CHANNEL_NUM_MAX]) @
     [At_base] @ map At_event [0..<MAX_USER_IRQ] @ [At_ctrl, At_user]"

fun destroy_slots :: "char_slot list \<Rightarrow> gdev \<Rightarrow> gdev option" where
  "destroy_slots [] gd = Some gd"
| "destroy_slots (p # ps) gd = do {
     gd \<leftarrow> (case char_at p (snd gd) of None \<Rightarrow> Some gd | Some ch \<Rightarrow> destroy_sg_char ch gd);
     destroy_slots ps gd
   }"

definition destroy_interfaces :: "gdev \<Rightarrow> gdev option" where
  "destroy_interfaces gd = destroy_slots char_slots gd"

text \<open>Creating a character device and storing the pointer; the flag says whether there is one.\<close>

definition create_at ::
  "kapi \<Rightarrow> char_slot \<Rightarrow> int \<Rightarrow> (nat \<times> nat) option \<Rightarrow> chardev_type \<Rightarrow> gdev \<Rightarrow> (bool \<times> gdev) option" where
  "create_at K p b eng type gd = do {
     (x, g, d) \<leftarrow> create_sg_char K b eng type gd;
     Some (x \<noteq> None, g, set_char p x d)
   }"

definition create_engine_interface :: "kapi \<Rightarrow> nat \<Rightarrow> bool \<Rightarrow> gdev \<Rightarrow> (bool \<times> gdev) option" where
  "create_engine_interface K c dir_to_dev gd =
    (let k = (if dir_to_dev then 0 else 1)
     in create_at K (At_sg c k) (- 1) (Some (c, k)) (if dir_to_dev then CHAR_XDMA_H2C else CHAR_XDMA_C2H) gd)"

definition create_bypass_interface :: "kapi \<Rightarrow> nat \<Rightarrow> bool \<Rightarrow> gdev \<Rightarrow> (bool \<times> gdev) option" where
  "create_bypass_interface K c dir_to_dev gd =
    (let k = (if dir_to_dev then 0 else 1)
     in create_at K (At_bypass c k) (bypass_bar_idx (snd gd)) (Some (c, k))
          (if dir_to_dev then CHAR_BYPASS_H2C else CHAR_BYPASS_C2H) gd)"

text \<open>
  The steps of \<open>create_interfaces\<close> in order. A step that fails ends the sequence. The test after
  an event device looks at the address of the array, which is never null, and the result of the
  last step is not looked at: these steps cannot fail.
\<close>

fun run_steps :: "(gdev \<Rightarrow> (bool \<times> gdev) option) list \<Rightarrow> gdev \<Rightarrow> (bool \<times> gdev) option" where
  "run_steps [] gd = Some (True, gd)"
| "run_steps (f # fs) gd = do {
     (ok, gd) \<leftarrow> f gd;
     (if ok then run_steps fs gd else Some (False, gd))
   }"

definition never_fails :: "(gdev \<Rightarrow> (bool \<times> gdev) option) \<Rightarrow> gdev \<Rightarrow> (bool \<times> gdev) option" where
  "never_fails f gd = map_option (\<lambda>(_, gd). (True, gd)) (f gd)"

definition only_if :: "(xdma_dev \<Rightarrow> bool) \<Rightarrow> (gdev \<Rightarrow> (bool \<times> gdev) option) \<Rightarrow> gdev \<Rightarrow> (bool \<times> gdev) option" where
  "only_if p f gd = (if p (snd gd) then f gd else Some (True, gd))"

definition user_step :: "kapi \<Rightarrow> gdev \<Rightarrow> (bool \<times> gdev) option" where
  "user_step K gd =
    (if user_bar_idx (snd gd) < 0 then Some (True, fst gd, (snd gd)\<lparr>user_char_dev := None\<rparr>)
     else create_at K At_user (user_bar_idx (snd gd)) None CHAR_USER gd)"

definition base_step :: "kapi \<Rightarrow> gdev \<Rightarrow> (bool \<times> gdev) option" where
  "base_step K gd =
    (if bypass_bar_idx (snd gd) < 0 then Some (True, fst gd, (snd gd)\<lparr>bypass_char_dev_base := None\<rparr>)
     else never_fails (create_at K At_base (bypass_bar_idx (snd gd)) None CHAR_BYPASS) gd)"

definition interface_steps :: "kapi \<Rightarrow> (gdev \<Rightarrow> (bool \<times> gdev) option) list" where
  "interface_steps K =
     user_step K #
     (\<lambda>gd. create_at K At_ctrl (config_bar_idx (snd gd)) None CHAR_CTRL gd) #
     map (\<lambda>i. never_fails (create_at K (At_event i) (int i) None CHAR_EVENTS)) [0..<MAX_USER_IRQ] @
     map (\<lambda>c. only_if (\<lambda>d. engine d c 0 \<noteq> None) (create_engine_interface K c True)) [0..<XDMA_CHANNEL_NUM_MAX] @
     map (\<lambda>c. only_if (\<lambda>d. engine d c 1 \<noteq> None) (create_engine_interface K c False)) [0..<XDMA_CHANNEL_NUM_MAX] @
     map (\<lambda>c. only_if (\<lambda>d. engine d c 0 \<noteq> None \<and> bypass_bar_idx d \<ge> 0) (create_bypass_interface K c True)) [0..<XDMA_CHANNEL_NUM_MAX] @
     map (\<lambda>c. only_if (\<lambda>d. engine d c 1 \<noteq> None \<and> bypass_bar_idx d \<ge> 0) (create_bypass_interface K c False)) [0..<XDMA_CHANNEL_NUM_MAX] @
     [base_step K]"

definition create_interfaces :: "kapi \<Rightarrow> gdev \<Rightarrow> (int \<times> gdev) option" where
  "create_interfaces K gd = do {
     (ok, gd) \<leftarrow> run_steps (interface_steps K) gd;
     (if ok then Some (0, gd) else map_option (\<lambda>gd. (- 1, gd)) (destroy_interfaces gd))
   }"

section \<open>What the operations leave alone\<close>

definition chr_rest where
  "chr_rest d = (config_bar d, entry_vector d, msix_enabled d, bar d, config_bar_idx d, user_bar_idx d, bypass_bar_idx d,
     irq_line d, msi_enabled d, got_regions d, regions_in_use d, d_magic d, engine d, engines_num d, d_bus d)"

lemma chr_rest_sel:
  assumes "chr_rest d' = chr_rest d"
  shows "config_bar d' = config_bar d" "entry_vector d' = entry_vector d" "msix_enabled d' = msix_enabled d" "bar d' = bar d"
    "config_bar_idx d' = config_bar_idx d" "user_bar_idx d' = user_bar_idx d" "bypass_bar_idx d' = bypass_bar_idx d"
    "irq_line d' = irq_line d" "msi_enabled d' = msi_enabled d" "got_regions d' = got_regions d"
    "regions_in_use d' = regions_in_use d" "d_magic d' = d_magic d" "engine d' = engine d" "engines_num d' = engines_num d"
    "d_bus d' = d_bus d"
  using assms unfolding chr_rest_def by simp_all

lemma chr_rest_prim [simp]:
  "chr_rest (log_call l d) = chr_rest d" "chr_rest (set_char p x d) = chr_rest d" "chr_rest (d\<lparr>d_major := m\<rparr>) = chr_rest d"
  "chr_rest (d\<lparr>d_instance := i\<rparr>) = chr_rest d"
  by (simp_all add: chr_rest_def log_call_def config_bar_def) (cases p; auto simp: config_bar_def)

lemma char_at_set [simp]: "char_at q (set_char p x d) = (if q = p then x else char_at q d)"
  by (cases p; cases q) auto

lemma char_at_prim [simp]:
  "char_at p (log_call x d) = char_at p d" "char_at p (d\<lparr>d_major := m\<rparr>) = char_at p d" "char_at p (d\<lparr>d_instance := i\<rparr>) = char_at p d"
  by (cases p; simp add: log_call_def)+

lemma set_char_sel [simp]: "klog (set_char p x d) = klog d" "d_major (set_char p x d) = d_major d" "d_instance (set_char p x d) = d_instance d"
  by (cases p; simp)+

lemma log_major [simp]: "d_major (log_call x d) = d_major d" "d_instance (log_call x d) = d_instance d"
  by (simp_all add: log_call_def)

section \<open>The account of the character devices\<close>

text \<open>
  The registered ranges of numbers are accounted for separately, below: the driver does not give them
  back the way it took them. So is the instance number, which a character device does not give back.
\<close>

definition plain_res :: "kres \<Rightarrow> bool" where
  "plain_res r \<longleftrightarrow> (\<forall>p n. r \<noteq> R_chrdev p n) \<and> (\<forall>i. r \<noteq> R_slot i)"

lemma plain_res_simps [simp]: "\<not> plain_res (R_chrdev p n)" "\<not> plain_res (R_slot i)"
  by (simp_all add: plain_res_def)

lemma plain_res_neq [simp]: "plain_res r \<Longrightarrow> R_chrdev p n \<noteq> r" "plain_res r \<Longrightarrow> R_slot i \<noteq> r"
  by auto

lemma kres_cases: "plain_res r \<or> (\<exists>i. r = R_slot i) \<or> (\<exists>n c. r = R_chrdev n c)"
  by (auto simp: plain_res_def)

definition char_res :: "xdma_char \<Rightarrow> kres list" where
  "char_res ch = [R_char (c_type ch) (c_bar ch) (c_engine ch), R_cdev (cdevno ch)] @
     (if c_sys_device ch = Dev_ptr then [R_device (cdevno ch)] else [])"

definition slot_res :: "xdma_dev \<Rightarrow> kres list" where
  "slot_res d = (if d_major d \<noteq> 0 then [R_slot (d_instance d)] else [])"

lemma slot_res_log [simp]: "slot_res (log_call x d) = slot_res d" "slot_res (set_char p y d) = slot_res d"
  by (simp_all add: slot_res_def)

lemma unregister_held:
  "held (klog (unregister_chrdev_region n c d)) r =
     held (klog d) r - (if r = R_chrdev n c \<and> 0 < held (klog d) r then 1 else 0)"
  by (auto simp: unregister_chrdev_region_def)

lemma unregister_frames [simp]:
  "chr_rest (unregister_chrdev_region n c d) = chr_rest d" "char_at p (unregister_chrdev_region n c d) = char_at p d"
  "d_major (unregister_chrdev_region n c d) = d_major d" "d_instance (unregister_chrdev_region n c d) = d_instance d"
  by (simp_all add: unregister_chrdev_region_def)

text \<open>What becomes of the ranges of numbers when the character device \<open>ch\<close> is registered.\<close>

definition regs_after :: "kapi \<Rightarrow> globals \<Rightarrow> xdma_char \<Rightarrow> bool \<Rightarrow> xdma_dev \<Rightarrow> xdma_dev \<Rightarrow> bool" where
  "regs_after K g ch made d d' \<longleftrightarrow> (made \<longrightarrow> 0 \<le> k_cdev_add K (cdevno ch)) \<and>
     (\<forall>n c. let h = held (klog d) (R_chrdev n c); h' = held (klog d') (R_chrdev n c)
       in if n \<noteq> cdevno ch then h' = h
          else if c = 1 then
            (if g_major g = 0 then h' = h else if 0 \<le> k_cdev_add K n then h' = h + (if made then 1 else 0) else True)
          else if c = XDMA_MINOR_COUNT \<and> k_cdev_add K n < 0 then h' = h \<or> h' = h - 1 \<and> 0 < h
          else h' = h)"

lemma register_char_spec:
  assumes "register_char K ch (g, d) = (x, g', d')" "g_xdma_class g"
  shows "g' = g \<and> chr_rest d' = chr_rest d \<and> (\<forall>p. char_at p d' = char_at p d) \<and> d_major d' = d_major d \<and> d_instance d' = d_instance d \<and>
    (\<forall>ch'. x = Some ch' \<longrightarrow> (\<exists>p. p \<noteq> Null_ptr \<and> ch' = ch\<lparr>c_sys_device := p\<rparr>)) \<and> (\<forall>i. held (klog d') (R_slot i) = held (klog d) (R_slot i)) \<and>
    (\<forall>r. plain_res r \<longrightarrow> held (klog d') r = held (klog d) r - (if R_char (c_type ch) (c_bar ch) (c_engine ch) = r then 1 else 0) +
       (case x of None \<Rightarrow> 0 | Some ch' \<Rightarrow> num (char_res ch') r))"
  using assms
  by (auto simp: register_char_def create_dev_def free_char_def char_res_def unregister_held Let_def split: if_splits)

lemma register_char_regs:
  assumes "register_char K ch (g, d) = (x, g', d')" "g_xdma_class g"
  shows "regs_after K g ch (x \<noteq> None) d d'"
  using assms
  by (auto simp: register_char_def create_dev_def free_char_def regs_after_def unregister_held XDMA_MINOR_COUNT_def Let_def split: if_splits)

lemma destroy_sg_char_spec:
  assumes "c_magic ch = MAGIC_CHAR" "c_sys_device ch \<noteq> Null_ptr" "g_xdma_class g"
  shows "\<exists>d'. destroy_sg_char ch (g, d) = Some (g, d') \<and> chr_rest d' = chr_rest d \<and> (\<forall>p. char_at p d' = char_at p d) \<and>
    d_major d' = d_major d \<and> d_instance d' = d_instance d \<and> (\<forall>i. held (klog d') (R_slot i) = held (klog d) (R_slot i)) \<and>
    (\<forall>r. plain_res r \<longrightarrow> held (klog d') r = held (klog d) r - num (char_res ch) r) \<and>
    (\<forall>n c. held (klog d') (R_chrdev n c) = held (klog d) (R_chrdev n c) -
       (if n = cdevno ch \<and> c = 1 \<and> 0 < held (klog d) (R_chrdev n c) then 1 else 0))"
  using assms by (cases "c_sys_device ch = Dev_ptr") (simp_all add: destroy_sg_char_def free_char_def char_res_def unregister_held)

text \<open>The minor number of each character device.\<close>

fun minor_of :: "char_slot \<Rightarrow> nat" where
  "minor_of At_user = 0"
| "minor_of At_ctrl = 1"
| "minor_of (At_event i) = 10 + i"
| "minor_of (At_sg c k) = 32 + k * 4 + c"
| "minor_of (At_bypass c k) = 64 + k * 4 + c"
| "minor_of At_base = 100"

text \<open>The types and arguments a place is created with; the engines are at their places.\<close>

fun fits :: "char_slot \<Rightarrow> int \<Rightarrow> (nat \<times> nat) option \<Rightarrow> chardev_type \<Rightarrow> xdma_dev \<Rightarrow> bool" where
  "fits At_user b eng type d \<longleftrightarrow> type = CHAR_USER \<and> eng = None"
| "fits At_ctrl b eng type d \<longleftrightarrow> type = CHAR_CTRL \<and> eng = None"
| "fits (At_event i) b eng type d \<longleftrightarrow> type = CHAR_EVENTS \<and> b = int i \<and> eng = None"
| "fits (At_sg c k) b eng type d \<longleftrightarrow>
     type = (if k = 0 then CHAR_XDMA_H2C else CHAR_XDMA_C2H) \<and> eng = Some (c, k) \<and> engine d c k \<noteq> None"
| "fits (At_bypass c k) b eng type d \<longleftrightarrow>
     type = (if k = 0 then CHAR_BYPASS_H2C else CHAR_BYPASS_C2H) \<and> eng = Some (c, k) \<and> engine d c k \<noteq> None"
| "fits At_base b eng type d \<longleftrightarrow> type = CHAR_BYPASS \<and> eng = None"

definition typed :: "xdma_dev \<Rightarrow> char_slot \<Rightarrow> xdma_char \<Rightarrow> bool" where
  "typed d p ch \<longleftrightarrow> fits p (c_bar ch) (c_engine ch) (c_type ch) d \<and>
     c_user_irq ch = (if c_type ch = CHAR_EVENTS then Some (nat (c_bar ch)) else None)"

lemma typed_cong: "engine d' = engine d \<Longrightarrow> typed d' = typed d"
  by (intro ext) (case_tac x; simp add: typed_def)

lemma typed_log [simp]: "typed (log_call l d) = typed d"
  by (rule typed_cong) simp

definition placed :: "xdma_dev \<Rightarrow> bool" where
  "placed d \<longleftrightarrow> (\<forall>c k e. engine d c k = Some e \<longrightarrow> c < 4 \<and> k < 2 \<and> e_channel e = c \<and> e_number_in_channel e = k)"

lemma placedD: "placed d \<Longrightarrow> engine d c k = Some e \<Longrightarrow> c < 4 \<and> k < 2 \<and> e_channel e = c \<and> e_number_in_channel e = k"
  by (simp add: placed_def)

lemma minor_fits:
  "fits p b eng type d \<Longrightarrow> placed d \<Longrightarrow> gen_dev_minor (Option.bind eng (\<lambda>(c, k). engine d c k)) type b = Some (int (minor_of p))"
  by (cases p) (auto simp: gen_dev_minor_def dest: placedD split: if_splits)

lemma kobject_fits: "fits p b eng type d \<Longrightarrow> config_kobject K (ch\<lparr>c_engine := eng\<rparr>) type = Some (k_set_name K (cdevno ch))"
  by (cases p) (auto simp: config_kobject_def)

text \<open>
  The kernel grants all that a character device needs. A failing \<open>device_create\<close> goes unnoticed and
  is not among the conditions.
\<close>

definition chars_granted :: "kapi \<Rightarrow> bool" where
  "chars_granted K \<longleftrightarrow> (\<forall>t b e. k_zalloc_char K t b e) \<and> (\<forall>n. k_set_name K n = 0) \<and> (\<forall>n. 0 \<le> k_register_chrdev K n) \<and>
     (\<forall>n. 0 \<le> k_cdev_add K n) \<and> k_chrdev_major K \<noteq> 0"

text \<open>The instance has its numbers, or there is one left for it.\<close>

definition room :: "gdev \<Rightarrow> bool" where
  "room gd \<longleftrightarrow> d_major (snd gd) \<noteq> 0 \<or> first_free (dev_present (fst gd)) \<noteq> MAX_XDMA_DEVICES"

lemma register_char_granted:
  assumes "chars_granted K" "register_char K ch (g, d) = (x, g', d')"
  shows "x \<noteq> None \<and> d_major d' = d_major d \<and> g' = g"
proof -
  have "\<not> k_register_chrdev K (cdevno ch) < 0" "\<not> k_cdev_add K (cdevno ch) < 0"
    using assms(1) unfolding chars_granted_def not_less by blast+
  then show ?thesis using assms(2) by (auto simp: register_char_def create_dev_def Let_def split: if_splits)
qed

lemma new_instance_granted:
  "chars_granted K \<Longrightarrow> room gd \<Longrightarrow> new_instance K gd = (ok, g', d') \<Longrightarrow> ok \<and> d_major d' \<noteq> 0"
  by (auto simp: chars_granted_def room_def new_instance_def gen_dev_major_def Let_def split_beta split: if_splits)

text \<open>The ways \<open>create_sg_char\<close> can take.\<close>

lemma new_instance_frame:
  assumes "new_instance K (g, d) = (ok, g1, d1)" "k_chrdev_major K \<noteq> 0"
  shows "g_xdma_class g1 = g_xdma_class g \<and> chr_rest d1 = chr_rest d \<and> (\<forall>q. char_at q d1 = char_at q d) \<and>
    (d_major d \<noteq> 0 \<longrightarrow> d_major d1 = d_major d \<and> d_instance d1 = d_instance d) \<and> (ok \<longrightarrow> d_major d1 \<noteq> 0) \<and>
    (\<forall>i. held (klog d1) (R_slot i) - num (slot_res d1) (R_slot i) = held (klog d) (R_slot i) - num (slot_res d) (R_slot i)) \<and>
    (\<forall>r. plain_res r \<longrightarrow> held (klog d1) r = held (klog d) r)"
proof -
  have "d_major d = 0 \<and> ok \<longrightarrow> d_major d1 \<noteq> 0"
    using assms by (auto simp: new_instance_def gen_dev_major_def Let_def split: if_splits)
  moreover have "d_major d \<noteq> 0 \<longrightarrow> (ok, g1, d1) = (True, g, d)" using assms(1) by (auto simp: new_instance_def Let_def)
  ultimately show ?thesis using assms(1)
    by (auto simp: new_instance_def gen_dev_major_def slot_res_def Let_def split: if_splits)
qed

lemma create_sg_char_cases:
  assumes "fits p b eng type d" "placed d" "k_chrdev_major K \<noteq> 0"
    and "new_instance K (g, log_call (Get (R_char type b eng)) d) = (ok, g1, d1)"
  shows "\<exists>x g' d'. create_sg_char K b eng type (g, d) = Some (x, g', d') \<and>
    ((x, g', d') = (None, g, d) \<and> \<not> k_zalloc_char K type b eng \<or>
     (x, g', d') = (None, g1, free_char type b eng d1) \<and> \<not> (ok \<and> k_set_name K (nat (d_major d1), minor_of p) = 0) \<or>
     ok \<and> register_char K (new_char type b eng (d_major d1) (int (minor_of p))) (g1, d1) = (x, g', d'))"
proof (cases "k_zalloc_char K type b eng")
  case False
  then show ?thesis by (simp add: create_sg_char_def)
next
  case alloc: True
  define ch where "ch = new_char type b eng (d_major d1) (int (minor_of p))"
  have eng: "engine d1 = engine d" using chr_rest_sel(13) [of d1 d] new_instance_frame [OF assms(4,3)] by simp
  have m: "gen_dev_minor (Option.bind eng (\<lambda>(c, k). engine d1 c k)) type b = Some (int (minor_of p))"
    using minor_fits [OF assms(1,2)] unfolding eng .
  have k: "config_kobject K ch type = Some (k_set_name K (cdevno ch))"
    using kobject_fits [OF assms(1), of K ch] by (simp add: ch_def new_char_def)
  have "cdevno ch = (nat (d_major d1), minor_of p)" by (simp add: ch_def new_char_def)
  moreover obtain x g' d' where "register_char K ch (g1, d1) = (x, g', d')" by (cases "register_char K ch (g1, d1)")
  ultimately show ?thesis using alloc assms(4) m k
    by (cases ok; cases "k_set_name K (cdevno ch) = 0") (auto simp: create_sg_char_def ch_def [symmetric] split: prod.split)
qed

lemma create_sg_char_spec:
  assumes "fits p b eng type d" "placed d" "g_xdma_class g" "k_chrdev_major K \<noteq> 0"
  shows "\<exists>x g' d'. create_sg_char K b eng type (g, d) = Some (x, g', d') \<and> g_xdma_class g' \<and> chr_rest d' = chr_rest d \<and>
    (\<forall>q. char_at q d' = char_at q d) \<and> (d_major d \<noteq> 0 \<longrightarrow> d_major d' = d_major d \<and> d_instance d' = d_instance d) \<and>
    (\<forall>ch. x = Some ch \<longrightarrow> c_magic ch = MAGIC_CHAR \<and> c_sys_device ch \<noteq> Null_ptr \<and> cdevno ch = (nat (d_major d'), minor_of p) \<and>
      d_major d' \<noteq> 0 \<and> typed d p ch) \<and>
    (\<forall>i. held (klog d') (R_slot i) - num (slot_res d') (R_slot i) = held (klog d) (R_slot i) - num (slot_res d) (R_slot i)) \<and>
    (\<forall>r. plain_res r \<longrightarrow> held (klog d') r = held (klog d) r + (case x of None \<Rightarrow> 0 | Some ch \<Rightarrow> num (char_res ch) r))"
proof -
  define d0 where "d0 = log_call (Get (R_char type b eng)) d"
  obtain ok g1 d1 where n: "new_instance K (g, d0) = (ok, g1, d1)" by (cases "new_instance K (g, d0)")
  note s1 = new_instance_frame [OF n assms(4)]
  have d0: "chr_rest d0 = chr_rest d" "\<And>q. char_at q d0 = char_at q d" "d_major d0 = d_major d" "d_instance d0 = d_instance d"
    "slot_res d0 = slot_res d" "\<And>r. held (klog d0) r = held (klog d) r + (if R_char type b eng = r then 1 else 0)"
    by (simp_all add: d0_def)
  define ch where "ch = new_char type b eng (d_major d1) (int (minor_of p))"
  obtain x g' d' where r: "create_sg_char K b eng type (g, d) = Some (x, g', d')"
    "(x, g', d') = (None, g, d) \<or> (x, g', d') = (None, g1, free_char type b eng d1) \<or> ok \<and> register_char K ch (g1, d1) = (x, g', d')"
    using create_sg_char_cases [OF assms(1,2,4) n [unfolded d0_def]] unfolding ch_def by blast
  from r(2) show ?thesis
  proof (elim disjE conjE)
    assume "(x, g', d') = (None, g, d)"
    then show ?thesis using r(1) assms(3) by simp
  next
    assume "(x, g', d') = (None, g1, free_char type b eng d1)"
    then show ?thesis using r(1) s1 assms(3) by (simp add: d0 free_char_def slot_res_log)
  next
    assume ok: ok and reg: "register_char K ch (g1, d1) = (x, g', d')"
    have "g_xdma_class g1" using s1 assms(3) by simp
    note rs = register_char_spec [OF reg this]
    have ty: "typed d p (ch\<lparr>c_sys_device := q\<rparr>)" for q using assms(1) by (simp add: ch_def new_char_def typed_def)
    have "slot_res d' = slot_res d1" using rs by (simp add: slot_res_def)
    moreover have "x = Some ch' \<Longrightarrow> c_magic ch' = MAGIC_CHAR \<and> c_sys_device ch' \<noteq> Null_ptr \<and>
      cdevno ch' = (nat (d_major d1), minor_of p) \<and> typed d p ch'" for ch'
      using rs ty by (auto simp: ch_def new_char_def)
    ultimately show ?thesis using r(1) rs s1 ok assms(3) by (auto simp: d0 ch_def new_char_def)
  qed
qed

definition at_res :: "xdma_dev \<Rightarrow> char_slot \<Rightarrow> kres list" where
  "at_res d p = (case char_at p d of None \<Rightarrow> [] | Some ch \<Rightarrow> char_res ch)"

definition chars_ok :: "(kres \<Rightarrow> int) \<Rightarrow> gdev \<Rightarrow> bool" where
  "chars_ok base gd \<longleftrightarrow> (case gd of (g, d) \<Rightarrow> g_xdma_class g \<and> placed d \<and>
     (\<forall>p ch. char_at p d = Some ch \<longrightarrow> p \<in> set char_slots \<and> c_magic ch = MAGIC_CHAR \<and> c_sys_device ch \<noteq> Null_ptr \<and>
        cdevno ch = (nat (d_major d), minor_of p) \<and> d_major d \<noteq> 0 \<and> typed d p ch) \<and>
     (\<forall>i. held (klog d) (R_slot i) = base (R_slot i) + num (slot_res d) (R_slot i)) \<and>
     (\<forall>r. plain_res r \<longrightarrow> held (klog d) r = base r + (\<Sum>p\<leftarrow>char_slots. num (at_res d p) r)))"

lemma slots_char_iff:
  "p \<in> set char_slots \<longleftrightarrow> (case p of At_event i \<Rightarrow> i < 16 | At_sg c k \<Rightarrow> c < 4 \<and> k < 2 | At_bypass c k \<Rightarrow> c < 4 \<and> k < 2 | _ \<Rightarrow> True)"
  by (cases p) (auto simp: char_slots_def XDMA_CHANNEL_NUM_MAX_def MAX_USER_IRQ_def less_2_cases_iff)

lemma char_slots_distinct: "distinct char_slots"
  by (simp add: char_slots_def XDMA_CHANNEL_NUM_MAX_def MAX_USER_IRQ_def upt_rec)

lemma minors_distinct: "distinct (map minor_of char_slots)"
  by (simp add: char_slots_def XDMA_CHANNEL_NUM_MAX_def MAX_USER_IRQ_def upt_rec)

lemma minor_inj: "p \<in> set char_slots \<Longrightarrow> q \<in> set char_slots \<Longrightarrow> minor_of p = minor_of q \<Longrightarrow> p = q"
  using minors_distinct by (auto simp: distinct_map dest: inj_onD)

lemma placed_rest:
  assumes "chr_rest d' = chr_rest d"
  shows "placed d' = placed d"
  unfolding placed_def chr_rest_sel(13) [OF assms] ..

section \<open>The account of the numbers\<close>

definition has_number :: "xdma_dev \<Rightarrow> nat \<times> nat \<Rightarrow> bool" where
  "has_number d n \<longleftrightarrow> (\<exists>p ch. char_at p d = Some ch \<and> cdevno ch = n)"

text \<open>
  \<open>maj\<close> is the module's major number when the instance began. If it is 0, the kernel hands out a major
  number, with the range of all minors; nothing else is registered. Otherwise every character device
  registers its own number (unless the module's major was 1, and is 0 from then on); one that
  \<open>cdev_add\<close> refuses may stay registered.
\<close>

definition range_ok :: "kapi \<Rightarrow> nat \<Rightarrow> xdma_dev \<Rightarrow> bool \<Rightarrow> nat \<times> nat \<Rightarrow> nat \<Rightarrow> int \<Rightarrow> bool" where
  "range_ok K maj d used n c h \<longleftrightarrow>
     (if maj = 0 then
        if n = (k_chrdev_major K, XDMA_MINOR_BASE) \<and> c = XDMA_MINOR_COUNT
        then (if d_major d = 0 then h = 0 else user_bar_idx d < 0 \<or> 0 \<le> k_cdev_add K n \<longrightarrow> h = 1)
        else h = 0
      else if c = 1 \<and> fst n = maj then 0 \<le> k_cdev_add K n \<longrightarrow> h = (if maj \<noteq> 1 \<and> used then 1 else 0)
      else h = 0)"

lemma range_ok_cong: "d_major d' = d_major d \<Longrightarrow> user_bar_idx d' = user_bar_idx d \<Longrightarrow> range_ok K maj d' = range_ok K maj d"
  by (intro ext) (simp add: range_ok_def)

definition nums_ok :: "kapi \<Rightarrow> nat \<Rightarrow> xdma_dev \<Rightarrow> bool" where
  "nums_ok K maj d \<longleftrightarrow> (d_major d \<noteq> 0 \<longrightarrow> d_major d = int (if maj = 0 then k_chrdev_major K else maj)) \<and>
     (\<forall>p ch. char_at p d = Some ch \<longrightarrow> 0 \<le> k_cdev_add K (cdevno ch)) \<and>
     (\<forall>n c. range_ok K maj d (has_number d n) n c (held (klog d) (R_chrdev n c)))"

definition nums_at :: "kapi \<Rightarrow> nat \<Rightarrow> gdev \<Rightarrow> bool" where
  "nums_at K maj gd \<longleftrightarrow> nums_ok K maj (snd gd) \<and>
     g_major (fst gd) = (if maj = 0 \<or> d_major (snd gd) = 0 then maj else maj - 1)"

lemma nums_ok_cong:
  assumes "d_major d' = d_major d" "\<And>p. char_at p d' = char_at p d" "user_bar_idx d' = user_bar_idx d"
    "\<And>n c. held (klog d') (R_chrdev n c) = held (klog d) (R_chrdev n c)"
  shows "nums_ok K maj d' = nums_ok K maj d"
  by (simp add: nums_ok_def has_number_def assms range_ok_cong [OF assms(1,3)])

lemma new_instance_nums:
  assumes "nums_at K maj (g, d)" "new_instance K (g, d) = (ok, g1, d1)"
  shows "nums_at K maj (g1, d1)"
proof (cases "d_major d = 0 \<and> first_free (dev_present g) \<noteq> MAX_XDMA_DEVICES")
  case False
  then have "g1 = g" "d1 = d" using assms(2) by (auto simp: new_instance_def Let_def split: if_splits)
  then show ?thesis using assms(1) by simp
next
  case True
  define d2 where "d2 = log_call (Get (R_slot (first_free (dev_present g)))) (d\<lparr>d_instance := first_free (dev_present g)\<rparr>)"
  have d2: "char_at p d2 = char_at p d" "held (klog d2) (R_chrdev n c) = held (klog d) (R_chrdev n c)" for p n c
    by (simp_all add: d2_def)
  have ub: "user_bar_idx d2 = user_bar_idx d" by (simp add: d2_def log_call_def)
  show ?thesis
  proof (cases "maj = 0")
    case z: True
    then have "g_major g1 = 0" and d1: "d1 = (if k_chrdev_major K \<noteq> 0 then
        log_call (Get (R_chrdev (k_chrdev_major K, XDMA_MINOR_BASE) XDMA_MINOR_COUNT)) d2 else d2)\<lparr>d_major := int (k_chrdev_major K)\<rparr>"
      using assms True by (auto simp: new_instance_def gen_dev_major_def nums_at_def d2_def Let_def)
    moreover have "user_bar_idx (log_call c d2) = user_bar_idx d2" for c by (simp add: log_call_def)
    ultimately show ?thesis using assms(1) True z by (auto simp: nums_at_def nums_ok_def range_ok_def d2 ub Let_def)
  next
    case False
    then have "g_major g1 = maj - 1" "d1 = d2\<lparr>d_major := int maj\<rparr>"
      using assms True by (auto simp: new_instance_def gen_dev_major_def nums_at_def d2_def Let_def)
    moreover have "has_number (d2\<lparr>d_major := int maj\<rparr>) = has_number d" by (simp add: fun_eq_iff has_number_def d2)
    moreover have "range_ok K maj (d2\<lparr>d_major := int maj\<rparr>) = range_ok K maj d"
      using False by (intro ext) (simp add: range_ok_def)
    ultimately show ?thesis using assms(1) True False by (simp add: nums_at_def nums_ok_def d2)
  qed
qed

lemma regs_after_nums:
  assumes "regs_after K g ch (x \<noteq> None) d d'" "nums_at K maj (g, d)" "d_major d \<noteq> 0" "cdevno ch = (nat (d_major d), m)"
    and "m = 0 \<longrightarrow> 0 \<le> user_bar_idx d" "\<not> has_number d (cdevno ch)" "char_at p d = None" "\<forall>q. char_at q d' = char_at q d"
    and "user_bar_idx d' = user_bar_idx d" "d_major d' = d_major d" "\<forall>ch'. x = Some ch' \<longrightarrow> cdevno ch' = cdevno ch"
  shows "nums_at K maj (g, set_char p x d')"
proof -
  let ?e = "set_char p x d'"
  have ub: "user_bar_idx ?e = user_bar_idx d" using chr_rest_sel(6) [of ?e d'] assms(9) by simp
  have pr: "has_number ?e n \<longleftrightarrow> has_number d n \<or> x \<noteq> None \<and> n = cdevno ch" for n
    using assms(7,8,11) by (auto simp: has_number_def split: if_splits) (metis option.distinct(1))+
  have mj: "d_major d = int (if maj = 0 then k_chrdev_major K else maj)" "g_major g = (if maj = 0 then 0 else maj - 1)"
    using assms(2,3) by (simp_all add: nums_at_def nums_ok_def)
  then have cn: "cdevno ch = (if maj = 0 then k_chrdev_major K else maj, m)" using assms(4) by simp
  have ch: "0 \<le> k_cdev_add K (cdevno ch')" if "char_at q ?e = Some ch'" for q ch'
    using that assms(1,2,8,11) by (auto simp: nums_at_def nums_ok_def regs_after_def split: if_splits)
  note old = assms(2) [unfolded nums_at_def nums_ok_def, THEN conjunct1, THEN conjunct2, THEN conjunct2, simplified snd_conv, rule_format]
  note upd = assms(1) [unfolded regs_after_def, THEN conjunct2, rule_format]
  have "range_ok K maj d (has_number ?e n) n c (held (klog ?e) (R_chrdev n c))" for n c
  proof (cases "n = cdevno ch")
    case False
    then show ?thesis using old [of n c] upd [of n c] by (simp add: pr Let_def)
  next
    case n: True
    show ?thesis
    proof (cases "maj = 0")
      case True
      then show ?thesis using old [of n c] upd [of n c] n cn mj(2) assms(3,5)
        by (auto simp: range_ok_def Let_def XDMA_MINOR_BASE_def XDMA_MINOR_COUNT_def split: if_splits)
    next
      case False
      then show ?thesis using old [of n c] upd [of n c] n cn mj(2) assms(6)
        by (cases "maj = 1") (auto simp: range_ok_def Let_def pr XDMA_MINOR_COUNT_def split: if_splits)
    qed
  qed
  moreover have "range_ok K maj ?e = range_ok K maj d" by (rule range_ok_cong) (simp_all add: assms(10) ub)
  ultimately show ?thesis using ch mj assms(3,10) by (simp add: nums_at_def nums_ok_def)
qed

lemma nums_at_cong:
  assumes "d_major d' = d_major d" "\<And>p. char_at p d' = char_at p d" "user_bar_idx d' = user_bar_idx d"
    "\<And>n c. held (klog d') (R_chrdev n c) = held (klog d) (R_chrdev n c)"
  shows "nums_at K maj (g, d') = nums_at K maj (g, d)"
  by (simp add: nums_at_def nums_ok_cong [OF assms] assms(1))

lemma user_bar_log [simp]: "user_bar_idx (log_call c d) = user_bar_idx d" "user_bar_idx (set_char p x d) = user_bar_idx d"
  using chr_rest_sel(6) [of "set_char p x d" d] by (simp_all add: log_call_def)

section \<open>Which files there are\<close>

text \<open>
  The files that \<open>create_interfaces\<close> tries to create, and those among them without which it fails: the
  results for the files of the events and for that of the whole bypass BAR are not looked at.
\<close>

fun wanted :: "char_slot \<Rightarrow> xdma_dev \<Rightarrow> bool" where
  "wanted At_user d \<longleftrightarrow> 0 \<le> user_bar_idx d"
| "wanted At_ctrl d \<longleftrightarrow> True"
| "wanted (At_event i) d \<longleftrightarrow> i < MAX_USER_IRQ"
| "wanted (At_sg c k) d \<longleftrightarrow> engine d c k \<noteq> None"
| "wanted (At_bypass c k) d \<longleftrightarrow> engine d c k \<noteq> None \<and> 0 \<le> bypass_bar_idx d"
| "wanted At_base d \<longleftrightarrow> 0 \<le> bypass_bar_idx d"

definition required :: "char_slot \<Rightarrow> xdma_dev \<Rightarrow> bool" where
  "required p d \<longleftrightarrow> wanted p d \<and> p \<noteq> At_base \<and> (\<forall>i. p \<noteq> At_event i)"

lemma required_simps [simp]:
  "\<not> required (At_event i) d" "\<not> required At_base d" "required At_user d = wanted At_user d" "required At_ctrl d"
  "required (At_sg c k) d = wanted (At_sg c k) d" "required (At_bypass c k) d = wanted (At_bypass c k) d"
  by (simp_all add: required_def)

lemma wanted_cong:
  assumes "chr_rest d' = chr_rest d"
  shows "wanted p d' = wanted p d"
  by (cases p) (simp_all add: chr_rest_sel [OF assms])

lemma required_cong:
  assumes "chr_rest d' = chr_rest d"
  shows "required p d' = required p d"
  by (simp add: required_def wanted_cong [OF assms])

section \<open>The steps\<close>

text \<open>
  A step that creates at most the character device at \<open>p\<close> keeps the accounts (that of the numbers, if
  the major number the instance began with is given). The device is there only if it
  is wanted; if it is required and the step did not fail, or if the kernel refuses nothing, it is there.
\<close>

definition acct :: "kapi \<Rightarrow> nat option \<Rightarrow> (kres \<Rightarrow> int) \<Rightarrow> gdev \<Rightarrow> bool" where
  "acct K maj base gd \<longleftrightarrow> chars_ok base gd \<and> (\<forall>m. maj = Some m \<longrightarrow> nums_at K m gd)"

definition keeps :: "kapi \<Rightarrow> nat option \<Rightarrow> (kres \<Rightarrow> int) \<Rightarrow> char_slot \<Rightarrow> gdev \<Rightarrow> bool \<times> gdev \<Rightarrow> bool" where
  "keeps K maj base p gd res \<longleftrightarrow> acct K maj base (snd res) \<and> chr_rest (snd (snd res)) = chr_rest (snd gd) \<and>
     (\<forall>q. q \<noteq> p \<longrightarrow> char_at q (snd (snd res)) = char_at q (snd gd)) \<and>
     (char_at p (snd (snd res)) \<noteq> None \<longrightarrow> wanted p (snd gd)) \<and>
     (fst res \<and> required p (snd gd) \<longrightarrow> char_at p (snd (snd res)) \<noteq> None) \<and>
     (chars_granted K \<and> room gd \<longrightarrow> room (snd res) \<and> (wanted p (snd gd) \<longrightarrow> char_at p (snd (snd res)) \<noteq> None))"

lemma no_number:
  assumes "chars_ok base (g, d)" "char_at p d = None" "p \<in> set char_slots"
  shows "\<not> has_number d (m, minor_of p)"
proof
  assume "has_number d (m, minor_of p)"
  then obtain q ch where q: "char_at q d = Some ch" "cdevno ch = (m, minor_of p)" by (auto simp: has_number_def)
  then have "q \<in> set char_slots" "minor_of q = minor_of p" using assms(1) by (auto simp: chars_ok_def)
  then have "q = p" using minor_inj assms(3) by blast
  then show False using q(1) assms(2) by simp
qed

lemma create_sg_char_nums:
  assumes "chars_ok base (g, d)" "char_at p d = None" "fits p b eng type d" "p \<in> set char_slots" "wanted p d"
    "k_chrdev_major K \<noteq> 0" "create_sg_char K b eng type (g, d) = Some (x, g', d')"
  shows "(nums_at K maj (g, d) \<longrightarrow> nums_at K maj (g', set_char p x d')) \<and> (chars_granted K \<and> room (g, d) \<longrightarrow> x \<noteq> None \<and> d_major d' \<noteq> 0)"
proof -
  define d0 where "d0 = log_call (Get (R_char type b eng)) d"
  have i: "g_xdma_class g" "placed d" using assms(1) by (simp_all add: chars_ok_def)
  obtain ok g1 d1 where n: "new_instance K (g, d0) = (ok, g1, d1)" by (cases "new_instance K (g, d0)")
  note f1 = new_instance_frame [OF n assms(6)]
  define ch where "ch = new_char type b eng (d_major d1) (int (minor_of p))"
  have "nums_at K maj (g, d0) = nums_at K maj (g, d)" by (rule nums_at_cong) (simp_all add: d0_def)
  then have n1: "nums_at K maj (g, d) \<Longrightarrow> nums_at K maj (g1, d1)" using new_instance_nums [OF _ n] by simp
  have p1: "char_at p d1 = None" using f1 assms(2) by (simp add: d0_def)
  have "room (g, d0)" if "room (g, d)" using that by (simp add: room_def d0_def)
  then have gr: "ok \<and> d_major d1 \<noteq> 0" if "chars_granted K" "room (g, d)" using new_instance_granted [OF that(1) _ n] that(2) by simp
  have "(x, g', d') = (None, g, d) \<and> \<not> k_zalloc_char K type b eng \<or>
     (x, g', d') = (None, g1, free_char type b eng d1) \<and> \<not> (ok \<and> k_set_name K (nat (d_major d1), minor_of p) = 0) \<or>
     ok \<and> register_char K ch (g1, d1) = (x, g', d')"
    using create_sg_char_cases [OF assms(3) i(2) assms(6) n [unfolded d0_def]] assms(7) unfolding ch_def by auto
  then show ?thesis
  proof (elim disjE conjE)
    assume r: "(x, g', d') = (None, g, d)" "\<not> k_zalloc_char K type b eng"
    have "nums_at K maj (g, set_char p None d) = nums_at K maj (g, d)" using assms(2) by (intro nums_at_cong) simp_all
    moreover have "\<not> chars_granted K" using r(2) unfolding chars_granted_def by blast
    ultimately show ?thesis using r by simp
  next
    assume r: "(x, g', d') = (None, g1, free_char type b eng d1)" "\<not> (ok \<and> k_set_name K (nat (d_major d1), minor_of p) = 0)"
    have "nums_at K maj (g1, set_char p None (free_char type b eng d1)) = nums_at K maj (g1, d1)"
      using p1 by (intro nums_at_cong) (simp_all add: free_char_def)
    moreover have "\<not> (chars_granted K \<and> room (g, d))" using r(2) gr unfolding chars_granted_def by blast
    ultimately show ?thesis using r n1 by simp
  next
    assume r: ok "register_char K ch (g1, d1) = (x, g', d')"
    have c: "g_xdma_class g1" "d_major d1 \<noteq> 0" "user_bar_idx d1 = user_bar_idx d" using f1 r(1) i(1) chr_rest_sel(6) [of d1 d]
      by (simp_all add: d0_def)
    note rs = register_char_spec [OF r(2) c(1)]
    have cn: "cdevno ch = (nat (d_major d1), minor_of p)" by (simp add: ch_def new_char_def)
    have z: "minor_of p = 0 \<longrightarrow> 0 \<le> user_bar_idx d1"
      using minor_inj [OF assms(4), of At_user] assms(5) c(3) by (cases "p = At_user") (auto simp: slots_char_iff)
    have "has_number d1 = has_number d" using f1 by (simp add: fun_eq_iff has_number_def d0_def)
    then have hn: "\<not> has_number d1 (cdevno ch)" using no_number [OF assms(1,2,4)] unfolding cn by simp
    have ub: "user_bar_idx d' = user_bar_idx d1" using rs chr_rest_sel(6) [of d' d1] by simp
    have "nums_at K maj (g1, set_char p x d')" if "nums_at K maj (g, d)"
      by (rule regs_after_nums [OF register_char_regs [OF r(2) c(1)] n1 [OF that] c(2) cn z hn p1]) (use rs ub in auto)
    then show ?thesis using rs c(2) register_char_granted [OF _ r(2)] by simp
  qed
qed

lemma create_at_keeps:
  assumes "acct K maj base gd" "char_at p (snd gd) = None" "fits p b eng type (snd gd)" "p \<in> set char_slots" "wanted p (snd gd)"
    "k_chrdev_major K \<noteq> 0"
  shows "\<exists>res. create_at K p b eng type gd = Some res \<and> keeps K maj base p gd res"
proof -
  obtain g d where gd: "gd = (g, d)" by (cases gd)
  have ok: "chars_ok base (g, d)" using assms(1) by (simp add: acct_def gd)
  then have i: "g_xdma_class g" "placed d" by (simp_all add: chars_ok_def)
  obtain x g' d' where r: "create_sg_char K b eng type (g, d) = Some (x, g', d')" "g_xdma_class g'" "chr_rest d' = chr_rest d"
    "\<forall>q. char_at q d' = char_at q d" "d_major d \<noteq> 0 \<longrightarrow> d_major d' = d_major d \<and> d_instance d' = d_instance d"
    "\<forall>ch. x = Some ch \<longrightarrow> c_magic ch = MAGIC_CHAR \<and> c_sys_device ch \<noteq> Null_ptr \<and> cdevno ch = (nat (d_major d'), minor_of p) \<and> d_major d' \<noteq> 0 \<and> typed d p ch"
    "\<forall>i. held (klog d') (R_slot i) - num (slot_res d') (R_slot i) = held (klog d) (R_slot i) - num (slot_res d) (R_slot i)"
    "\<forall>r. plain_res r \<longrightarrow> held (klog d') r = held (klog d) r + (case x of None \<Rightarrow> 0 | Some ch \<Rightarrow> num (char_res ch) r)"
    using create_sg_char_spec [OF assms(3) [unfolded gd snd_conv] i(2,1) assms(6)] by blast
  have a: "at_res (set_char p x d') q = (if q = p then (case x of None \<Rightarrow> [] | Some ch \<Rightarrow> char_res ch) else at_res d q)" for q
    using r(4) by (simp add: at_res_def)
  have "(\<Sum>q\<leftarrow>char_slots. num (at_res (set_char p x d') q) t) = (\<Sum>q\<leftarrow>char_slots. num (at_res d q) t) + num (at_res (set_char p x d') p) t" for t
    by (rule sum_list_upd [OF char_slots_distinct assms(4)]) (use assms(2) in \<open>simp_all add: a gd, simp add: at_res_def\<close>)
  then have h: "held (klog (set_char p x d')) t = base t + (\<Sum>q\<leftarrow>char_slots. num (at_res (set_char p x d') q) t)" if "plain_res t" for t
    using ok that r(8) by (simp add: chars_ok_def a split: option.splits)
  have ty: "typed (set_char p x d') = typed d"
    using chr_rest_sel(13) [of "set_char p x d'" d] r(3) by (intro typed_cong) simp
  have c: "q \<in> set char_slots \<and> c_magic ch = MAGIC_CHAR \<and> c_sys_device ch \<noteq> Null_ptr \<and> cdevno ch = (nat (d_major d'), minor_of q) \<and> d_major d' \<noteq> 0 \<and> typed d q ch"
    if "char_at q (set_char p x d') = Some ch" for q ch
  proof (cases "q = p")
    case True
    then show ?thesis using that r(6) assms(4) by simp
  next
    case False
    then have "char_at q d = Some ch" using that r(4) by simp
    then show ?thesis using ok r(5) by (auto simp: chars_ok_def)
  qed
  have s: "held (klog d') (R_slot i) = base (R_slot i) + num (slot_res d') (R_slot i)" for i
    using ok spec [OF r(7), of i] by (simp add: chars_ok_def)
  have "chars_ok base (g', set_char p x d')"
    unfolding chars_ok_def split using r(2) i(2) placed_rest [of "set_char p x d'" d] r(3) c s h by (simp add: ty)
  then show ?thesis
    using r(1,3,4) assms(1,5) create_sg_char_nums [OF ok assms(2,3) [unfolded gd snd_conv] assms(4)
        assms(5) [unfolded gd snd_conv] assms(6) r(1)]
    by (intro exI [of _ "(x \<noteq> None, g', set_char p x d')"]) (simp add: create_at_def gd keeps_def acct_def room_def)
qed

lemma keeps_refl: "acct K maj base gd \<Longrightarrow> char_at p (snd gd) = None \<Longrightarrow> \<not> wanted p (snd gd) \<Longrightarrow> keeps K maj base p gd (ok, gd)"
  by (simp add: keeps_def required_def)

definition step_at :: "kapi \<Rightarrow> nat option \<Rightarrow> (kres \<Rightarrow> int) \<Rightarrow> (gdev \<Rightarrow> (bool \<times> gdev) option) \<Rightarrow> char_slot \<Rightarrow> bool" where
  "step_at K maj base f p \<longleftrightarrow> (\<forall>gd. acct K maj base gd \<and> char_at p (snd gd) = None \<longrightarrow> (\<exists>res. f gd = Some res \<and> keeps K maj base p gd res))"

lemma step_never_fails: "step_at K maj base f p \<Longrightarrow> (\<And>d. \<not> required p d) \<Longrightarrow> step_at K maj base (never_fails f) p"
  unfolding step_at_def never_fails_def keeps_def by fastforce

lemma step_only_if:
  assumes "\<And>gd. acct K maj base gd \<Longrightarrow> char_at p (snd gd) = None \<Longrightarrow> P (snd gd) \<Longrightarrow> \<exists>res. f gd = Some res \<and> keeps K maj base p gd res"
    and "\<And>d. wanted p d \<Longrightarrow> P d"
  shows "step_at K maj base (only_if P f) p"
  unfolding step_at_def only_if_def
proof (intro allI impI, elim conjE)
  fix gd assume a: "acct K maj base gd" "char_at p (snd gd) = None"
  show "\<exists>res. (if P (snd gd) then f gd else Some (True, gd)) = Some res \<and> keeps K maj base p gd res"
    using assms(1) [OF a] keeps_refl [OF a] assms(2) by (cases "P (snd gd)") auto
qed

lemma run_steps_keeps:
  "list_all2 (step_at K maj base) fs ps \<Longrightarrow> distinct ps \<Longrightarrow> acct K maj base gd \<Longrightarrow> (\<forall>p \<in> set ps. char_at p (snd gd) = None) \<Longrightarrow>
   \<exists>ok gd'. run_steps fs gd = Some (ok, gd') \<and> acct K maj base gd' \<and> chr_rest (snd gd') = chr_rest (snd gd) \<and>
     (\<forall>q. q \<notin> set ps \<longrightarrow> char_at q (snd gd') = char_at q (snd gd)) \<and>
     (\<forall>q \<in> set ps. char_at q (snd gd') \<noteq> None \<longrightarrow> wanted q (snd gd)) \<and>
     (ok \<longrightarrow> (\<forall>q \<in> set ps. required q (snd gd) \<longrightarrow> char_at q (snd gd') \<noteq> None)) \<and>
     (ok \<and> chars_granted K \<and> room gd \<longrightarrow> (\<forall>q \<in> set ps. wanted q (snd gd) \<longrightarrow> char_at q (snd gd') \<noteq> None))"
proof (induction fs ps arbitrary: gd rule: list_all2_induct)
  case (Cons f fs p ps)
  have p: "p \<notin> set ps" "distinct ps" "char_at p (snd gd) = None" using Cons.prems by simp_all
  then obtain ok gd1 where f: "f gd = Some (ok, gd1)" "keeps K maj base p gd (ok, gd1)"
    using Cons.hyps(1) Cons.prems(2) unfolding step_at_def by (metis prod.collapse)
  have k: "acct K maj base gd1" "chr_rest (snd gd1) = chr_rest (snd gd)" "\<And>q. q \<noteq> p \<Longrightarrow> char_at q (snd gd1) = char_at q (snd gd)"
    "char_at p (snd gd1) \<noteq> None \<longrightarrow> wanted p (snd gd)" "ok \<and> required p (snd gd) \<longrightarrow> char_at p (snd gd1) \<noteq> None"
    "chars_granted K \<and> room gd \<longrightarrow> room gd1 \<and> (wanted p (snd gd) \<longrightarrow> char_at p (snd gd1) \<noteq> None)"
    using f(2) by (simp_all add: keeps_def)
  have n: "\<forall>q \<in> set ps. char_at q (snd gd1) = None"
  proof
    fix q assume "q \<in> set ps"
    then show "char_at q (snd gd1) = None" using k(3) [of q] p(1) Cons.prems(3) by (cases "q = p") simp_all
  qed
  note w = wanted_cong [OF k(2)] required_cong [OF k(2)]
  obtain ok' gd' where r: "run_steps fs gd1 = Some (ok', gd')" "acct K maj base gd'" "chr_rest (snd gd') = chr_rest (snd gd1)"
    "\<forall>q. q \<notin> set ps \<longrightarrow> char_at q (snd gd') = char_at q (snd gd1)"
    "\<forall>q \<in> set ps. char_at q (snd gd') \<noteq> None \<longrightarrow> wanted q (snd gd)"
    "ok' \<longrightarrow> (\<forall>q \<in> set ps. required q (snd gd) \<longrightarrow> char_at q (snd gd') \<noteq> None)"
    "ok' \<and> chars_granted K \<and> room gd1 \<longrightarrow> (\<forall>q \<in> set ps. wanted q (snd gd) \<longrightarrow> char_at q (snd gd') \<noteq> None)"
    using Cons.IH [OF p(2) k(1) n] unfolding w by blast
  have same: "char_at p (snd gd') = char_at p (snd gd1)" using r(4) p(1) by blast
  show ?case
  proof (cases ok)
    case True
    then have run: "run_steps (f # fs) gd = Some (ok', gd')" using f(1) r(1) by simp
    have "chr_rest (snd gd') = chr_rest (snd gd)" using r(3) k(2) by (rule trans)
    moreover have "\<forall>q. q \<notin> set (p # ps) \<longrightarrow> char_at q (snd gd') = char_at q (snd gd)" using r(4) k(3) by simp
    moreover have "\<forall>q \<in> set (p # ps). char_at q (snd gd') \<noteq> None \<longrightarrow> wanted q (snd gd)" using r(5) k(4) same by simp
    moreover have "ok' \<longrightarrow> (\<forall>q \<in> set (p # ps). required q (snd gd) \<longrightarrow> char_at q (snd gd') \<noteq> None)"
      using r(6) k(5) True same by simp
    moreover have "ok' \<and> chars_granted K \<and> room gd \<longrightarrow> (\<forall>q \<in> set (p # ps). wanted q (snd gd) \<longrightarrow> char_at q (snd gd') \<noteq> None)"
      using r(7) k(6) same by simp
    ultimately show ?thesis using run r(2) by blast
  next
    case False
    then have run: "run_steps (f # fs) gd = Some (False, gd1)" using f(1) by simp
    have "\<forall>q. q \<notin> set (p # ps) \<longrightarrow> char_at q (snd gd1) = char_at q (snd gd)" using k(3) by simp
    moreover have "\<forall>q \<in> set (p # ps). char_at q (snd gd1) \<noteq> None \<longrightarrow> wanted q (snd gd)" using n k(4) by simp
    ultimately show ?thesis using run k(1,2) by blast
  qed
qed (simp, blast)

definition step_slots :: "char_slot list" where
  "step_slots = At_user # At_ctrl # map At_event [0..<MAX_USER_IRQ] @
     map (\<lambda>c. At_sg c 0) [0..<XDMA_CHANNEL_NUM_MAX] @ map (\<lambda>c. At_sg c 1) [0..<XDMA_CHANNEL_NUM_MAX] @
     map (\<lambda>c. At_bypass c 0) [0..<XDMA_CHANNEL_NUM_MAX] @ map (\<lambda>c. At_bypass c 1) [0..<XDMA_CHANNEL_NUM_MAX] @ [At_base]"

lemma step_slots_distinct: "distinct step_slots"
  by (simp add: step_slots_def XDMA_CHANNEL_NUM_MAX_def MAX_USER_IRQ_def upt_rec)

lemma step_slots_set: "set step_slots = set char_slots"
  by (auto simp: step_slots_def char_slots_def XDMA_CHANNEL_NUM_MAX_def)

lemma user_base_steps:
  assumes "k_chrdev_major K \<noteq> 0"
  shows "step_at K maj base (user_step K) At_user" "step_at K maj base (base_step K) At_base"
proof -
  have n: "user_char_dev d = None \<Longrightarrow> d\<lparr>user_char_dev := None\<rparr> = d" "bypass_char_dev_base d = None \<Longrightarrow> d\<lparr>bypass_char_dev_base := None\<rparr> = d"
    for d :: xdma_dev by simp_all
  have p: "At_user \<in> set char_slots" "At_base \<in> set char_slots" by (simp_all add: slots_char_iff)
  show "step_at K maj base (user_step K) At_user"
    unfolding step_at_def
  proof (intro allI impI, elim conjE)
    fix gd assume c: "acct K maj base gd" "char_at At_user (snd gd) = None"
    show "\<exists>res. user_step K gd = Some res \<and> keeps K maj base At_user gd res"
    proof (cases "user_bar_idx (snd gd) < 0")
      case True
      then have "user_step K gd = Some (True, gd)" using c(2) by (simp add: user_step_def n)
      then show ?thesis using keeps_refl [OF c] True by simp
    next
      case False
      then show ?thesis using create_at_keeps [OF c _ p(1) _ assms, of "user_bar_idx (snd gd)" None CHAR_USER]
        by (simp add: user_step_def)
    qed
  qed
  show "step_at K maj base (base_step K) At_base"
    unfolding step_at_def
  proof (intro allI impI, elim conjE)
    fix gd assume c: "acct K maj base gd" "char_at At_base (snd gd) = None"
    show "\<exists>res. base_step K gd = Some res \<and> keeps K maj base At_base gd res"
    proof (cases "bypass_bar_idx (snd gd) < 0")
      case True
      then have "base_step K gd = Some (True, gd)" using c(2) by (simp add: base_step_def n)
      then show ?thesis using keeps_refl [OF c] True by simp
    next
      case False
      obtain res where "create_at K At_base (bypass_bar_idx (snd gd)) None CHAR_BYPASS gd = Some res" "keeps K maj base At_base gd res"
        using create_at_keeps [OF c _ p(2) _ assms, of "bypass_bar_idx (snd gd)" None CHAR_BYPASS] False by auto
      then show ?thesis using False
        by (intro exI [of _ "(True, snd res)"]) (simp add: base_step_def never_fails_def keeps_def split_beta)
    qed
  qed
qed

lemma interface_steps_ok:
  assumes "k_chrdev_major K \<noteq> 0"
  shows "list_all2 (step_at K maj base) (interface_steps K) step_slots"
proof -
  have ctrl: "step_at K maj base (\<lambda>gd. create_at K At_ctrl (config_bar_idx (snd gd)) None CHAR_CTRL gd) At_ctrl"
    using create_at_keeps [OF _ _ _ _ _ assms] by (simp add: step_at_def slots_char_iff)
  have ev: "step_at K maj base (never_fails (create_at K (At_event i) (int i) None CHAR_EVENTS)) (At_event i)" if "i < 16" for i
    using create_at_keeps [OF _ _ _ _ _ assms] that
    by (intro step_never_fails) (simp_all add: step_at_def slots_char_iff MAX_USER_IRQ_def)
  have eng: "step_at K maj base (only_if (\<lambda>d. engine d c k \<noteq> None) (create_engine_interface K c (k = 0))) (At_sg c k)" if "c < 4" "k < 2" for c k
  proof (rule step_only_if)
    fix gd assume g: "acct K maj base gd" "char_at (At_sg c k) (snd gd) = None" "engine (snd gd) c k \<noteq> None"
    show "\<exists>res. create_engine_interface K c (k = 0) gd = Some res \<and> keeps K maj base (At_sg c k) gd res"
      using create_at_keeps [OF g(1,2) _ _ _ assms, of "- 1" "Some (c, k)"] g(3) that less_2_cases [OF that(2)]
      by (elim disjE) (simp_all add: create_engine_interface_def slots_char_iff)
  qed simp
  have byp: "step_at K maj base (only_if (\<lambda>d. engine d c k \<noteq> None \<and> bypass_bar_idx d \<ge> 0) (create_bypass_interface K c (k = 0))) (At_bypass c k)"
    if "c < 4" "k < 2" for c k
  proof (rule step_only_if)
    fix gd assume g: "acct K maj base gd" "char_at (At_bypass c k) (snd gd) = None" "engine (snd gd) c k \<noteq> None \<and> bypass_bar_idx (snd gd) \<ge> 0"
    show "\<exists>res. create_bypass_interface K c (k = 0) gd = Some res \<and> keeps K maj base (At_bypass c k) gd res"
      using create_at_keeps [OF g(1,2) _ _ _ assms, of "bypass_bar_idx (snd gd)" "Some (c, k)"] g(3) that less_2_cases [OF that(2)]
      by (elim disjE) (simp_all add: create_bypass_interface_def slots_char_iff)
  qed simp
  show ?thesis unfolding interface_steps_def step_slots_def
    using ctrl ev eng [of _ 0] eng [of _ 1] byp [of _ 0] byp [of _ 1] user_base_steps [OF assms]
    by (auto intro!: list_all2_appendI simp: list_all2_map1 list_all2_map2 list_all2_same MAX_USER_IRQ_def XDMA_CHANNEL_NUM_MAX_def)
qed

section \<open>Destruction\<close>

text \<open>The numbers that stay registered when the character devices are gone, and what does stay.\<close>

definition chrdev_kept :: "kapi \<Rightarrow> nat \<Rightarrow> kres \<Rightarrow> bool" where
  "chrdev_kept K maj r \<longleftrightarrow>
     (if maj = 0 then r = R_chrdev (k_chrdev_major K, XDMA_MINOR_BASE) XDMA_MINOR_COUNT
      else \<exists>m. r = R_chrdev (maj, m) 1 \<and> k_cdev_add K (maj, m) < 0)"

definition leaves :: "kapi \<Rightarrow> nat \<Rightarrow> (kres \<Rightarrow> int) \<Rightarrow> xdma_dev \<Rightarrow> bool" where
  "leaves K maj base d \<longleftrightarrow> (\<forall>r. held (klog d) r = base r + num (slot_res d) r \<or> chrdev_kept K maj r) \<and>
     (maj = 0 \<and> d_major d \<noteq> 0 \<and> (user_bar_idx d < 0 \<or> 0 \<le> k_cdev_add K (k_chrdev_major K, XDMA_MINOR_BASE)) \<longrightarrow>
        held (klog d) (R_chrdev (k_chrdev_major K, XDMA_MINOR_BASE) XDMA_MINOR_COUNT) = 1)"

definition at_num :: "xdma_dev \<Rightarrow> char_slot \<Rightarrow> (nat \<times> nat) list" where
  "at_num d p = (case char_at p d of None \<Rightarrow> [] | Some ch \<Rightarrow> [cdevno ch])"

lemma at_num_iff: "n \<in> set (at_num d p) \<longleftrightarrow> (\<exists>ch. char_at p d = Some ch \<and> cdevno ch = n)"
  by (cases "char_at p d") (auto simp: at_num_def)

lemma at_num_distinct:
  assumes "chars_ok base (g, d)"
  shows "distinct ps \<Longrightarrow> distinct (concat (map (at_num d) ps))"
proof (induction ps)
  case (Cons p ps)
  have "n \<notin> set (at_num d q)" if n: "n \<in> set (at_num d p)" and q: "q \<in> set ps" for n q
  proof
    assume "n \<in> set (at_num d q)"
    then obtain ch' where "char_at q d = Some ch'" "cdevno ch' = n" unfolding at_num_iff by blast
    moreover obtain ch where "char_at p d = Some ch" "cdevno ch = n" using n unfolding at_num_iff by blast
    ultimately have c: "char_at p d = Some ch" "char_at q d = Some ch'" "cdevno ch = cdevno ch'" by simp_all
    then have "p \<in> set char_slots" "q \<in> set char_slots" "minor_of p = minor_of q" using assms by (auto simp: chars_ok_def)
    then have "p = q" by (rule minor_inj)
    then show False using q Cons.prems by simp
  qed
  moreover have "distinct (at_num d p)" by (simp add: at_num_def split: option.split)
  ultimately show ?case using Cons by auto
qed simp

lemma destroy_slots_spec:
  assumes "g_xdma_class g" "\<forall>p ch. char_at p d = Some ch \<longrightarrow> c_magic ch = MAGIC_CHAR \<and> c_sys_device ch \<noteq> Null_ptr"
    "distinct (concat (map (at_num d) ps))"
  shows "\<exists>d'. destroy_slots ps (g, d) = Some (g, d') \<and> chr_rest d' = chr_rest d \<and> (\<forall>p. char_at p d' = char_at p d) \<and>
    d_major d' = d_major d \<and> d_instance d' = d_instance d \<and> (\<forall>i. held (klog d') (R_slot i) = held (klog d) (R_slot i)) \<and>
    (\<forall>r. plain_res r \<longrightarrow> held (klog d') r = held (klog d) r - (\<Sum>p\<leftarrow>ps. num (at_res d p) r)) \<and>
    (\<forall>n c. held (klog d') (R_chrdev n c) = held (klog d) (R_chrdev n c) -
       (if n \<in> set (concat (map (at_num d) ps)) \<and> c = 1 \<and> 0 < held (klog d) (R_chrdev n c) then 1 else 0))"
  using assms(2,3)
proof (induction ps arbitrary: d)
  case (Cons p ps)
  obtain d1 where d1: "(case char_at p d of None \<Rightarrow> Some (g, d) | Some ch \<Rightarrow> destroy_sg_char ch (g, d)) = Some (g, d1)"
    "chr_rest d1 = chr_rest d" "\<forall>q. char_at q d1 = char_at q d" "d_major d1 = d_major d" "d_instance d1 = d_instance d"
    "\<forall>i. held (klog d1) (R_slot i) = held (klog d) (R_slot i)"
    "\<forall>r. plain_res r \<longrightarrow> held (klog d1) r = held (klog d) r - num (at_res d p) r"
    "\<forall>n c. held (klog d1) (R_chrdev n c) = held (klog d) (R_chrdev n c) -
       (if n \<in> set (at_num d p) \<and> c = 1 \<and> 0 < held (klog d) (R_chrdev n c) then 1 else 0)"
  proof (cases "char_at p d")
    case None
    then show ?thesis by (intro that [of d]) (simp_all add: at_res_def at_num_def)
  next
    case (Some ch)
    then have "c_magic ch = MAGIC_CHAR" "c_sys_device ch \<noteq> Null_ptr" using Cons.prems(1) by auto
    from destroy_sg_char_spec [OF this assms(1), of d] obtain d1 where d1:
      "destroy_sg_char ch (g, d) = Some (g, d1)" "chr_rest d1 = chr_rest d" "\<forall>q. char_at q d1 = char_at q d"
      "d_major d1 = d_major d" "d_instance d1 = d_instance d" "\<forall>i. held (klog d1) (R_slot i) = held (klog d) (R_slot i)"
      "\<forall>r. plain_res r \<longrightarrow> held (klog d1) r = held (klog d) r - num (char_res ch) r"
      "\<forall>n c. held (klog d1) (R_chrdev n c) = held (klog d) (R_chrdev n c) -
         (if n = cdevno ch \<and> c = 1 \<and> 0 < held (klog d) (R_chrdev n c) then 1 else 0)" by blast
    then show ?thesis using Some by (intro that [of d1]) (simp_all add: at_res_def at_num_def)
  qed
  have e: "at_res d1 = at_res d" "at_num d1 = at_num d" using d1(3) by (simp_all add: fun_eq_iff at_res_def at_num_def)
  have "\<forall>p ch. char_at p d1 = Some ch \<longrightarrow> c_magic ch = MAGIC_CHAR \<and> c_sys_device ch \<noteq> Null_ptr"
    "distinct (concat (map (at_num d1) ps))" using Cons.prems d1(3) by (simp_all add: e)
  from Cons.IH [OF this] obtain d' where r: "destroy_slots ps (g, d1) = Some (g, d')" "chr_rest d' = chr_rest d"
    "\<forall>p. char_at p d' = char_at p d" "d_major d' = d_major d" "d_instance d' = d_instance d"
    "\<forall>i. held (klog d') (R_slot i) = held (klog d) (R_slot i)"
    "\<forall>r. plain_res r \<longrightarrow> held (klog d') r = held (klog d1) r - (\<Sum>p\<leftarrow>ps. num (at_res d p) r)"
    "\<forall>n c. held (klog d') (R_chrdev n c) = held (klog d1) (R_chrdev n c) -
       (if n \<in> set (concat (map (at_num d) ps)) \<and> c = 1 \<and> 0 < held (klog d1) (R_chrdev n c) then 1 else 0)"
    unfolding e d1(2-6) by (auto simp: d1(3-6))
  have "held (klog d') (R_chrdev n c) = held (klog d) (R_chrdev n c) -
       (if n \<in> set (concat (map (at_num d) (p # ps))) \<and> c = 1 \<and> 0 < held (klog d) (R_chrdev n c) then 1 else 0)" for n c
    using r(8) [rule_format, of n c] d1(8) [rule_format, of n c] Cons.prems(2) by (cases "n \<in> set (at_num d p)") auto
  moreover have "\<forall>r. plain_res r \<longrightarrow> held (klog d') r = held (klog d) r - (\<Sum>p\<leftarrow>p # ps. num (at_res d p) r)"
    using r(7) d1(7) by simp
  moreover have "destroy_slots (p # ps) (g, d) = Some (g, d')" using d1(1) r(1) by simp
  ultimately show ?case using r(2-6) by blast
qed simp

lemma destroy_interfaces_spec:
  assumes "chars_ok base (g, d)"
  shows "\<exists>d'. destroy_interfaces (g, d) = Some (g, d') \<and> chr_rest d' = chr_rest d \<and> d_major d' = d_major d \<and>
    d_instance d' = d_instance d \<and>
    (\<forall>K maj. nums_ok K maj d \<and> (\<forall>n c. base (R_chrdev n c) = 0) \<longrightarrow> leaves K maj base d')"
proof -
  have c: "g_xdma_class g" "\<forall>p ch. char_at p d = Some ch \<longrightarrow> c_magic ch = MAGIC_CHAR \<and> c_sys_device ch \<noteq> Null_ptr"
    using assms by (simp_all add: chars_ok_def)
  obtain d' where d': "destroy_slots char_slots (g, d) = Some (g, d')" "chr_rest d' = chr_rest d" "\<forall>p. char_at p d' = char_at p d"
    "d_major d' = d_major d" "d_instance d' = d_instance d" "\<forall>i. held (klog d') (R_slot i) = held (klog d) (R_slot i)"
    "\<forall>r. plain_res r \<longrightarrow> held (klog d') r = held (klog d) r - (\<Sum>p\<leftarrow>char_slots. num (at_res d p) r)"
    "\<forall>n c. held (klog d') (R_chrdev n c) = held (klog d) (R_chrdev n c) -
       (if n \<in> set (concat (map (at_num d) char_slots)) \<and> c = 1 \<and> 0 < held (klog d) (R_chrdev n c) then 1 else 0)"
    using destroy_slots_spec [OF c at_num_distinct [OF assms char_slots_distinct]] by blast
  have sl: "slot_res d' = slot_res d" using d'(4,5) by (simp add: slot_res_def)
  have ub: "user_bar_idx d' = user_bar_idx d" using chr_rest_sel(6) [OF d'(2)] .
  have hn: "n \<in> set (concat (map (at_num d) char_slots)) \<longleftrightarrow> has_number d n" for n
  proof
    assume "has_number d n"
    then obtain p ch where "char_at p d = Some ch" "cdevno ch = n" by (auto simp: has_number_def)
    moreover from this have "p \<in> set char_slots" using assms by (auto simp: chars_ok_def)
    ultimately show "n \<in> set (concat (map (at_num d) char_slots))" by (auto simp: at_num_iff)
  qed (auto simp: at_num_iff has_number_def)
  have "leaves K maj base d'" if n: "nums_ok K maj d" and b: "\<forall>n c. base (R_chrdev n c) = 0" for K maj
  proof -
    have rg: "range_ok K maj d (has_number d n) n c (held (klog d) (R_chrdev n c))" for n c using n unfolding nums_ok_def by blast
    note hd = d'(8) [unfolded hn, rule_format]
    have "held (klog d') (R_chrdev n c) = 0 \<or> chrdev_kept K maj (R_chrdev n c)" for n c
      using rg [of n c] hd [of n c] by (cases n) (auto simp: range_ok_def chrdev_kept_def split: if_splits)
    then have k: "held (klog d') r = base r + num (slot_res d) r \<or> chrdev_kept K maj r" if "r = R_chrdev n c" for r n c
    proof -
      have "base r = 0" "num (slot_res d) r = 0" using b unfolding that by (blast, simp add: slot_res_def)
      then show ?thesis using \<open>\<And>n c. held (klog d') (R_chrdev n c) = 0 \<or> chrdev_kept K maj (R_chrdev n c)\<close> [of n c] that by simp
    qed
    have p: "held (klog d') r = base r + num (slot_res d) r" if "plain_res r" for r
      using that d'(7) assms by (auto simp: chars_ok_def slot_res_def)
    have s: "held (klog d') r = base r + num (slot_res d) r" if "r = R_slot i" for r i
      using d'(6) assms unfolding that by (simp add: chars_ok_def)
    have "held (klog d') r = base r + num (slot_res d) r \<or> chrdev_kept K maj r" for r
      using kres_cases [of r] k p s by blast
    moreover have "held (klog d') (R_chrdev (k_chrdev_major K, XDMA_MINOR_BASE) XDMA_MINOR_COUNT) = 1"
      if "maj = 0" "d_major d \<noteq> 0" "user_bar_idx d < 0 \<or> 0 \<le> k_cdev_add K (k_chrdev_major K, XDMA_MINOR_BASE)"
      using rg [of "(k_chrdev_major K, XDMA_MINOR_BASE)" XDMA_MINOR_COUNT] that hd
      by (simp add: range_ok_def) (simp add: XDMA_MINOR_COUNT_def)
    ultimately show ?thesis by (simp add: leaves_def sl d'(4) ub)
  qed
  then show ?thesis using d'(1,2,4,5) unfolding destroy_interfaces_def by blast
qed

lemma wanted_slot: "placed d \<Longrightarrow> wanted p d \<Longrightarrow> p \<in> set char_slots"
  by (cases p) (auto simp: slots_char_iff MAX_USER_IRQ_def dest: placedD)

lemma create_interfaces_spec:
  assumes "acct K maj base gd" "\<forall>p. char_at p (snd gd) = None" "k_chrdev_major K \<noteq> 0"
  shows "\<exists>rc gd'. create_interfaces K gd = Some (rc, gd') \<and> chr_rest (snd gd') = chr_rest (snd gd) \<and>
    (rc = 0 \<longrightarrow> acct K maj base gd' \<and> (\<forall>p. required p (snd gd) \<longrightarrow> char_at p (snd gd') \<noteq> None) \<and>
       (\<forall>p. char_at p (snd gd') \<noteq> None \<longrightarrow> wanted p (snd gd)) \<and>
       (chars_granted K \<and> room gd \<longrightarrow> (\<forall>p. wanted p (snd gd) \<longrightarrow> char_at p (snd gd') \<noteq> None))) \<and>
    (\<forall>m. rc \<noteq> 0 \<and> maj = Some m \<and> (\<forall>n c. base (R_chrdev n c) = 0) \<longrightarrow> leaves K m base (snd gd'))"
proof -
  have n: "\<forall>p \<in> set step_slots. char_at p (snd gd) = None" using assms(2) by blast
  obtain ok gd1 where run: "run_steps (interface_steps K) gd = Some (ok, gd1)" "acct K maj base gd1" "chr_rest (snd gd1) = chr_rest (snd gd)"
    and o: "\<forall>q. q \<notin> set char_slots \<longrightarrow> char_at q (snd gd1) = char_at q (snd gd)"
    and s: "\<forall>q \<in> set char_slots. char_at q (snd gd1) \<noteq> None \<longrightarrow> wanted q (snd gd)"
      "ok \<longrightarrow> (\<forall>q \<in> set char_slots. required q (snd gd) \<longrightarrow> char_at q (snd gd1) \<noteq> None)"
      "ok \<and> chars_granted K \<and> room gd \<longrightarrow> (\<forall>q \<in> set char_slots. wanted q (snd gd) \<longrightarrow> char_at q (snd gd1) \<noteq> None)"
    using run_steps_keeps [OF interface_steps_ok [OF assms(3)] step_slots_distinct assms(1) n] unfolding step_slots_set by blast
  obtain g1 d1 where gd1: "gd1 = (g1, d1)" by (cases gd1)
  note r = run [unfolded gd1 snd_conv] and s = s [unfolded gd1 snd_conv]
  have o: "char_at q d1 = None" if "q \<notin> set char_slots" for q using o that assms(2) gd1 by simp
  have pl: "placed (snd gd)" using assms(1) by (auto simp: acct_def chars_ok_def)
  then have w: "wanted p (snd gd) \<Longrightarrow> p \<in> set char_slots" for p by (rule wanted_slot)
  then have q: "required p (snd gd) \<Longrightarrow> p \<in> set char_slots" for p by (simp add: required_def)
  show ?thesis
  proof (cases ok)
    case True
    have "create_interfaces K gd = Some (0, g1, d1)" using r(1) True by (simp add: create_interfaces_def)
    moreover have "wanted p (snd gd)" if p: "char_at p d1 \<noteq> None" for p
    proof -
      have "p \<in> set char_slots" by (rule ccontr) (use o [of p] p in simp)
      with s(1) p show ?thesis by blast
    qed
    moreover have "\<forall>p. required p (snd gd) \<longrightarrow> char_at p d1 \<noteq> None" using s(2) True q by blast
    moreover have "chars_granted K \<and> room gd \<longrightarrow> (\<forall>p. wanted p (snd gd) \<longrightarrow> char_at p d1 \<noteq> None)" using s(3) True w by blast
    ultimately show ?thesis using r(2,3) by (intro exI [of _ 0] exI [of _ "(g1, d1)"], unfold snd_conv) blast
  next
    case False
    have "chars_ok base (g1, d1)" using r(2) by (simp add: acct_def)
    then obtain d2 where "destroy_interfaces (g1, d1) = Some (g1, d2)" "chr_rest d2 = chr_rest d1"
      "\<forall>K m. nums_ok K m d1 \<and> (\<forall>n c. base (R_chrdev n c) = 0) \<longrightarrow> leaves K m base d2"
      using destroy_interfaces_spec by blast
    moreover have "\<forall>m. maj = Some m \<longrightarrow> nums_ok K m d1" using r(2) by (simp add: acct_def nums_at_def)
    ultimately show ?thesis using r(1,3) False by (intro exI [of _ "- 1"] exI [of _ "(g1, d2)"]) (simp add: create_interfaces_def)
  qed
qed

lemma created_ok:
  assumes "g_xdma_class g" "placed d" "\<forall>p. char_at p d = None" "d_major d = 0" "k_chrdev_major K \<noteq> 0"
    "create_interfaces K (g, d) = Some (0, g', d')"
  shows "chars_ok (held (klog d)) (g', d')"
proof -
  have "acct K None (held (klog d)) (g, d)" using assms(1-4) by (simp add: acct_def chars_ok_def at_res_def slot_res_def)
  from create_interfaces_spec [OF this _ assms(5)] show ?thesis using assms(3,6) by (simp add: acct_def)
qed

section \<open>What all steps have in common\<close>

text \<open>
  A relation between the states before and after a step, and its result. If it holds of every step that
  creates a character device, it holds of all steps, provided that doing nothing is in it and that it does
  not depend on a failure being reported.
\<close>

definition every :: "(gdev \<Rightarrow> bool \<Rightarrow> gdev \<Rightarrow> bool) \<Rightarrow> (gdev \<Rightarrow> (bool \<times> gdev) option) \<Rightarrow> bool" where
  "every R f \<longleftrightarrow> (\<forall>gd ok gd'. f gd = Some (ok, gd') \<longrightarrow> R gd ok gd')"

locale step_relation =
  fixes R :: "gdev \<Rightarrow> bool \<Rightarrow> gdev \<Rightarrow> bool"
  assumes stay: "R gd True gd"
    and no_user: "R gd True (fst gd, (snd gd)\<lparr>user_char_dev := None\<rparr>)"
    and no_base: "R gd True (fst gd, (snd gd)\<lparr>bypass_char_dev_base := None\<rparr>)"
    and weaken: "R gd ok gd' \<Longrightarrow> R gd True gd'"
begin

lemma every_never_fails: "every R f \<Longrightarrow> every R (never_fails f)"
  unfolding every_def never_fails_def using weaken by fastforce

lemma every_only_if: "every R f \<Longrightarrow> every R (only_if p f)"
  unfolding every_def only_if_def using stay by auto

lemma every_at: "(\<And>b. every R (f b)) \<Longrightarrow> every R (\<lambda>gd. f (h gd) gd)"
  unfolding every_def by blast

lemma interface_steps_every:
  assumes a: "\<And>p b eng type. every R (create_at K p b eng type)"
  shows "list_all (every R) (interface_steps K)"
proof -
  have "every R (\<lambda>gd. create_at K At_ctrl (config_bar_idx (snd gd)) None CHAR_CTRL gd)"
    by (rule every_at) (rule a)
  moreover have "every R (create_engine_interface K c dir)" for c dir
    using a by (simp add: create_engine_interface_def [abs_def] Let_def)
  moreover have "every R (create_bypass_interface K c dir)" for c dir
    unfolding create_bypass_interface_def [abs_def] Let_def by (rule every_at) (rule a)
  moreover have "every R (user_step K)"
    using a no_user by (fastforce simp: every_def user_step_def)
  moreover have "every R (base_step K)"
    using every_never_fails [OF a] no_base by (fastforce simp: every_def base_step_def)
  ultimately show ?thesis using every_never_fails [OF a] every_only_if
    by (simp add: interface_steps_def list_all_iff ball_Un)
qed

end

section \<open>The number of an instance\<close>

text \<open>
  Where an instance stands that started with the globals \<open>g0\<close>: it has no number yet, or it has the
  first free one and has marked it.
\<close>

definition numbered :: "globals \<Rightarrow> gdev \<Rightarrow> bool" where
  "numbered g0 gd \<longleftrightarrow> (case gd of (g, d) \<Rightarrow> g_xdma_class g = g_xdma_class g0 \<and>
     (if d_major d = 0 then dev_present g = dev_present g0
      else d_instance d = first_free (dev_present g0) \<and> first_free (dev_present g0) < MAX_XDMA_DEVICES \<and>
        dev_present g = (dev_present g0)(first_free (dev_present g0) := True)))"

definition numbers :: "gdev \<Rightarrow> bool \<Rightarrow> gdev \<Rightarrow> bool" where
  "numbers gd ok gd' \<longleftrightarrow> (\<forall>g0. numbered g0 gd \<longrightarrow> numbered g0 gd') \<and> (d_major (snd gd) \<noteq> 0 \<longrightarrow> d_major (snd gd') \<noteq> 0)"

interpretation numbering: step_relation numbers
  by unfold_locales (auto simp: numbers_def numbered_def)

lemma first_free_le: "first_free p \<le> MAX_XDMA_DEVICES"
  using length_takeWhile_le [of p "[0..<MAX_XDMA_DEVICES]"] by (simp add: first_free_def)

lemma first_free_free: "first_free p < MAX_XDMA_DEVICES \<Longrightarrow> \<not> p (first_free p)"
  using nth_length_takeWhile [of p "[0..<MAX_XDMA_DEVICES]"] by (simp add: first_free_def)

lemma new_instance_numbers:
  "k_chrdev_major K \<noteq> 0 \<Longrightarrow> new_instance K gd = (ok, gd') \<Longrightarrow> numbers gd ok gd' \<and> (ok \<longrightarrow> d_major (snd gd') \<noteq> 0)"
  using le_neq_trans [OF first_free_le]
  by (auto simp: new_instance_def gen_dev_major_def numbers_def numbered_def Let_def split_beta split: if_splits)

lemma register_char_numbers:
  "register_char K ch (g, d) = (x, g', d') \<Longrightarrow> g' = g \<and> d_major d' = d_major d \<and> d_instance d' = d_instance d"
  by (auto simp: register_char_def create_dev_def free_char_def Let_def split: if_splits)

lemma numbered_frames [simp]:
  "numbered g0 (g, set_char p y d) = numbered g0 (g, d)" "numbered g0 (g, log_call c d) = numbered g0 (g, d)"
  "numbered g0 (g, free_char t b e d) = numbered g0 (g, d)" "d_major (free_char t b e d) = d_major d"
  by (simp_all add: numbered_def free_char_def)

lemma create_at_numbers:
  assumes "k_chrdev_major K \<noteq> 0" "create_at K p b eng type gd = Some (ok, gd')"
  shows "numbers gd ok gd' \<and> (ok \<longrightarrow> d_major (snd gd') \<noteq> 0)"
proof -
  obtain g d where gd: "gd = (g, d)" by fastforce
  obtain f g1 d1 where n: "new_instance K (g, log_call (Get (R_char type b eng)) d) = (f, g1, d1)"
    by (cases "new_instance K (g, log_call (Get (R_char type b eng)) d)")
  have same: "numbers (g, log_call c d) ok x = numbers gd ok x" for c ok x by (simp add: gd numbers_def)
  show ?thesis
  proof (cases "k_zalloc_char K type b eng")
    case False
    then show ?thesis using assms(2) by (auto simp: create_at_def create_sg_char_def gd numbers_def)
  next
    case True
    have k: "numbers gd f (g1, d1)" "f \<longrightarrow> d_major d1 \<noteq> 0" using new_instance_numbers [OF assms(1) n] by (simp_all add: same)
    obtain x g2 d2 where r: "create_sg_char K b eng type gd = Some (x, g2, d2)" "ok = (x \<noteq> None)" "gd' = (g2, set_char p x d2)"
      using assms(2) by (auto simp: create_at_def bind_eq_Some_conv)
    have shape: "(x, g2, d2) = (None, g1, free_char type b eng d1) \<or> f \<and> (\<exists>ch. register_char K ch (g1, d1) = (x, g2, d2))"
      using r(1) True by (auto simp: create_sg_char_def gd n bind_eq_Some_conv Let_def split: if_splits)
    then have e: "g2 = g1 \<and> d_major d2 = d_major d1 \<and> d_instance d2 = d_instance d1"
      using register_char_numbers by (auto simp: free_char_def)
    then have "numbered g0 (g2, d2) = numbered g0 (g1, d1)" for g0 by (simp add: numbered_def)
    then show ?thesis using k e shape r(2,3) by (auto simp: numbers_def)
  qed
qed


lemma run_steps_numbers: "list_all (every numbers) fs \<Longrightarrow> run_steps fs gd = Some (ok, gd') \<Longrightarrow> numbers gd ok gd'"
proof (induction fs arbitrary: gd)
  case (Cons f fs)
  obtain ok1 gd1 where f: "f gd = Some (ok1, gd1)" "(if ok1 then run_steps fs gd1 else Some (False, gd1)) = Some (ok, gd')"
    using Cons.prems(2) by (auto simp: bind_eq_Some_conv)
  have "numbers gd ok1 gd1" using Cons.prems(1) f(1) unfolding list.pred_inject(2) every_def by blast
  moreover have "numbers gd1 ok gd'" if ok1 using Cons.IH [of gd1] Cons.prems(1) f(2) that by simp
  ultimately show ?case using f(2) by (cases ok1) (auto simp: numbers_def)
qed (simp add: numbers_def)

lemma destroy_slots_numbers: "destroy_slots ps (g, d) = Some (g', d') \<Longrightarrow> g' = g \<and> d_major d' = d_major d \<and> d_instance d' = d_instance d"
proof (induction ps arbitrary: d)
  case (Cons p ps)
  have "\<exists>d1. x = (g, d1) \<and> d_major d1 = d_major d \<and> d_instance d1 = d_instance d"
    if "(case char_at p d of None \<Rightarrow> Some (g, d) | Some ch \<Rightarrow> destroy_sg_char ch (g, d)) = Some x" for x
    using that by (auto simp: destroy_sg_char_def free_char_def Let_def split: option.splits if_splits)
  then show ?case using Cons by (fastforce simp: bind_eq_Some_conv)
qed simp

text \<open>An instance whose character devices have been created has the number that was free.\<close>

lemma create_interfaces_numbers:
  assumes "k_chrdev_major K \<noteq> 0" "d_major d = 0" "create_interfaces K (g, d) = Some (rc, g', d')"
  shows "numbered g (g', d') \<and> (rc = 0 \<longrightarrow> d_major d' \<noteq> 0)"
proof -
  obtain ok g1 d1 where r: "run_steps (interface_steps K) (g, d) = Some (ok, g1, d1)"
    "(if ok then Some (0, g1, d1) else map_option (\<lambda>gd. (- 1, gd)) (destroy_interfaces (g1, d1))) = Some (rc, g', d')"
    using assms(3) by (auto simp: create_interfaces_def bind_eq_Some_conv)
  note at = create_at_numbers [OF assms(1)]
  then have every: "list_all (every numbers) (interface_steps K)"
    by (intro numbering.interface_steps_every) (auto simp: every_def)
  have "numbered g (g, d)" using assms(2) by (simp add: numbered_def)
  then have n1: "numbered g (g1, d1)" using run_steps_numbers [OF every r(1)] by (simp add: numbers_def)
  have "d_major d1 \<noteq> 0" if ok: ok
  proof -
    define rest where "rest = drop 2 (interface_steps K)"
    obtain gd2 gd3 where s: "user_step K (g, d) = Some (True, gd2)"
      "create_at K At_ctrl (config_bar_idx (snd gd2)) None CHAR_CTRL gd2 = Some (True, gd3)" "run_steps rest gd3 = Some (True, g1, d1)"
      using r(1) ok by (auto simp: interface_steps_def rest_def bind_eq_Some_conv split: if_splits)
    have "d_major (snd gd3) \<noteq> 0" using at [OF s(2)] by simp
    moreover have "list_all (every numbers) rest" using every by (simp add: rest_def interface_steps_def)
    ultimately show ?thesis using run_steps_numbers [OF _ s(3)] by (simp add: numbers_def)
  qed
  moreover have "g' = g1 \<and> d_major d' = d_major d1 \<and> d_instance d' = d_instance d1"
    using r(2) destroy_slots_numbers [of char_slots g1 d1 g' d'] by (auto simp: destroy_interfaces_def split: if_splits)
  moreover have "rc = 0 \<Longrightarrow> ok" using r(2) by (auto split: if_splits)
  ultimately show ?thesis using n1 by (auto simp: numbered_def)
qed

section \<open>Nothing refused\<close>

definition grants :: "gdev \<Rightarrow> bool \<Rightarrow> gdev \<Rightarrow> bool" where
  "grants gd ok gd' \<longleftrightarrow> (room gd \<longrightarrow> ok \<and> room gd')"

interpretation granting: step_relation grants
  by unfold_locales (auto simp: grants_def room_def)

lemma create_at_granted:
  assumes "chars_granted K"
  shows "every grants (create_at K p b eng type)"
  unfolding every_def grants_def
proof (intro allI impI)
  fix gd ok gd' assume r: "room gd" "create_at K p b eng type gd = Some (ok, gd')"
  obtain g d where gd: "gd = (g, d)" by fastforce
  define d0 where "d0 = log_call (Get (R_char type b eng)) d"
  have "room (g, d0)" using r(1) by (simp add: room_def gd d0_def)
  obtain f g1 d1 where n: "new_instance K (g, d0) = (f, g1, d1)" by (cases "new_instance K (g, d0)")
  have f: f "d_major d1 \<noteq> 0" using new_instance_granted [OF assms \<open>room (g, d0)\<close> n] by simp_all
  obtain m c where m: "gen_dev_minor (Option.bind eng (\<lambda>(c, k). engine d1 c k)) type b = Some m"
    "config_kobject K (new_char type b eng (d_major d1) m) type = Some c"
    using r(2) assms f(1)
    by (auto simp: create_at_def create_sg_char_def gd d0_def [symmetric] n chars_granted_def bind_eq_Some_conv Let_def)
  define ch where "ch = new_char type b eng (d_major d1) m"
  have "k_set_name K (cdevno ch) = 0" using assms unfolding chars_granted_def by blast
  then have "c = 0" using m(2) by (auto simp: config_kobject_def bind_eq_Some_conv ch_def split: if_splits)
  then have c: "create_sg_char K b eng type gd = Some (register_char K ch (g1, d1))"
    using f(1) m assms by (simp add: create_sg_char_def gd d0_def [symmetric] n chars_granted_def ch_def)
  obtain x g2 d2 where x: "register_char K ch (g1, d1) = (x, g2, d2)" by (cases "register_char K ch (g1, d1)")
  show "ok \<and> room gd'" using register_char_granted [OF assms x] f(2) c r(2) by (auto simp: create_at_def x room_def)
qed

lemma run_steps_granted:
  "list_all (every grants) fs \<Longrightarrow> room gd \<Longrightarrow> run_steps fs gd = Some (ok, gd') \<Longrightarrow> ok"
proof (induction fs arbitrary: gd)
  case (Cons f fs)
  obtain ok1 gd1 where f: "f gd = Some (ok1, gd1)" "(if ok1 then run_steps fs gd1 else Some (False, gd1)) = Some (ok, gd')"
    using Cons.prems(3) by (auto simp: bind_eq_Some_conv)
  have "ok1 \<and> room gd1" using Cons.prems(1,2) f(1) unfolding list.pred_inject(2) every_def grants_def by blast
  then show ?case using f(2) Cons.IH [of gd1] Cons.prems(1) by simp
qed simp

lemma create_interfaces_granted:
  assumes "chars_granted K" "room gd" "create_interfaces K gd = Some (rc, gd')"
  shows "rc = 0"
proof -
  obtain ok gd1 where "run_steps (interface_steps K) gd = Some (ok, gd1)"
    "(if ok then Some (0, gd1) else map_option (\<lambda>gd. (- 1, gd)) (destroy_interfaces gd1)) = Some (rc, gd')"
    using assms(3) by (auto simp: create_interfaces_def bind_eq_Some_conv)
  then show ?thesis using run_steps_granted [OF granting.interface_steps_every [OF create_at_granted [OF assms(1)]] assms(2)] by auto
qed

definition demo_globals :: globals where
  "demo_globals = \<lparr>g_major = 0, dev_present = (\<lambda>_. False), g_xdma_class = True\<rparr>"

lemma demo_granted: "chars_granted demo_kapi" "room (demo_globals, d)"
  by (simp_all add: chars_granted_def demo_kapi_def room_def demo_globals_def first_free_def MAX_XDMA_DEVICES_def upt_rec)

section \<open>Properties\<close>

lemma acct_start:
  assumes "g_xdma_class g" "placed d" "\<forall>p. char_at p d = None" "d_major d = 0" "\<forall>n c. held (klog d) (R_chrdev n c) = 0"
  shows "acct K (Some (g_major g)) (held (klog d)) (g, d)"
  using assms by (simp add: acct_def chars_ok_def at_res_def slot_res_def nums_at_def nums_ok_def range_ok_def has_number_def)



text \<open>
  C35: the files are of the types their operations expect, with one exception. After a successful
  creation every character device has its magic number; a file with the operations of a channel or of
  a bypass channel refers to an engine that exists, of its own direction; a file with the operations
  of events refers to one of the user interrupts. So the \<open>BUG_ON\<close> tests of the operations hold
  back nothing, except for the file of the whole bypass BAR: it has the operations of a bypass
  channel but no engine, and reading it panics.
\<close>

theorem char_files_typed:
  assumes "g_xdma_class g" "placed d" "\<forall>p. char_at p d = None" "d_major d = 0" "k_chrdev_major K \<noteq> 0"
    and "create_interfaces K (g, d) = Some (0, g', d')" "char_at p d' = Some ch"
  shows "c_magic ch = MAGIC_CHAR \<and>
    (select_file_ops poll (c_type ch) \<in> {sg_polled_fops, sg_interrupt_fops} \<longrightarrow>
       (\<exists>c k. c_engine ch = Some (c, k) \<and> engine d' c k \<noteq> None \<and> c_type ch = (if k = 0 then CHAR_XDMA_H2C else CHAR_XDMA_C2H))) \<and>
    (select_file_ops poll (c_type ch) = events_fops \<longrightarrow> (\<exists>i. c_user_irq ch = Some i \<and> i < MAX_USER_IRQ)) \<and>
    (select_file_ops poll (c_type ch) = bypass_fops \<longrightarrow>
       (if p = At_base then char_bypass_read fault ch d' s buf count = None
        else \<exists>c k. c_engine ch = Some (c, k) \<and> engine d' c k \<noteq> None))"
proof -
  have "chars_ok (held (klog d)) (g', d')" using created_ok [OF assms(1-6)] .
  then have t: "typed d' p ch" "c_magic ch = MAGIC_CHAR" "p \<in> set char_slots" using assms(7) by (simp_all add: chars_ok_def)
  have "char_bypass_read fault ch d' s buf count = None" if "c_engine ch = None"
    using that t(2) by (cases "d_magic d' = MAGIC_DEVICE") (simp_all add: char_bypass_read_def bypass_guard_def)
  then show ?thesis using t unfolding slots_char_iff
    by (cases p) (auto simp: typed_def fops_of_types [rule_format, simplified] MAX_USER_IRQ_def split: if_splits)
qed

definition bypass_dev :: xdma_dev where
  "bypass_dev = demo_dev\<lparr>bypass_bar_idx := 0\<rparr>"

lemma bypass_created:
  "case create_interfaces demo_kapi (demo_globals, bypass_dev) of None \<Rightarrow> False
   | Some (rc, g, d) \<Rightarrow> rc = 0 \<and> map_option c_type (char_at At_base d) = Some CHAR_BYPASS"
  by code_simp

theorem char_files_typed_witness:
  "\<exists>g' d' ch. create_interfaces demo_kapi (demo_globals, bypass_dev) = Some (0, g', d') \<and> char_at At_base d' = Some ch \<and>
     c_magic ch = MAGIC_CHAR \<and> char_bypass_read (\<lambda>_. False) ch d' (demo_est (\<lambda>_ _. 0)) True 4 = None"
proof -
  obtain g' d' ch where r: "create_interfaces demo_kapi (demo_globals, bypass_dev) = Some (0, g', d')" "char_at At_base d' = Some ch"
    "c_type ch = CHAR_BYPASS" using bypass_created by (auto split: option.splits)
  have h: "g_xdma_class demo_globals" "placed bypass_dev" "d_major bypass_dev = 0" "k_chrdev_major demo_kapi \<noteq> 0"
    by (simp_all add: demo_globals_def placed_def bypass_dev_def demo_dev_def demo_kapi_def)
  have "char_at p bypass_dev = None" for p by (cases p) (simp_all add: bypass_dev_def demo_dev_def)
  then have "\<forall>p. char_at p bypass_dev = None" ..
  from char_files_typed [OF h(1,2) this h(3,4) r(1,2), of True "\<lambda>_. False" "demo_est (\<lambda>_ _. 0)" True 4] r
  show ?thesis by (auto simp: select_file_ops_def)
qed

end
