(* ===== verification/Probe.thy ===== *)
theory Probe
  imports CharDev
begin

text \<open>
  Bringing a device up and taking it down: \<open>probe\<close> and \<open>remove\<close> of \<open>driver/xdma-core.c\<close>, with the
  parts that deal with the PCI device. The labels of \<open>probe\<close> that undo its steps fall through from
  one to the next; each is a definition that calls the one after it.
\<close>

unbundle bit_operations_syntax

section \<open>The PCI device\<close>

text \<open>The driver's own \<open>arch_msi_check_device\<close> always answers 0.\<close>

definition msi_msix_capable :: "kapi \<Rightarrow> cap \<Rightarrow> bool" where
  "msi_msix_capable K type = (\<not> no_msi K \<and> \<not> list_ex id (bus_no_msi K) \<and> pci_find_capability K type)"

text \<open>The bus is what the driver will see of the hardware.\<close>

definition alloc_dev_instance :: "kapi \<Rightarrow> bus \<Rightarrow> xdma_dev option" where
  "alloc_dev_instance K b =
    (if k_zalloc_dev K
     then Some \<lparr>d_magic = MAGIC_DEVICE, d_major = 0, d_instance = 0, user_char_dev = None, ctrl_char_dev = None,
       bypass_char_dev = (\<lambda>_ _. None), bypass_char_dev_base = None, sgdma_char_dev = (\<lambda>_ _. None),
       events_char_dev = (\<lambda>_. None), bar = (\<lambda>_. None), user_bar_idx = - 1, config_bar_idx = - 1,
       bypass_bar_idx = - 1, regions_in_use = False, got_regions = False, irq_count = 0, irq_line = - 1,
       msi_enabled = False, msix_enabled = False, entry_vector = (\<lambda>_. 0), user_irq = (\<lambda>_. \<lparr>events_irq = 0\<rparr>),
       engines_num = 0, engine = (\<lambda>_ _. None), d_bus = b, klog = [Get R_dev]\<rparr>
     else None)"

text \<open>Vectors are handed out, and MSI or MSI-X enabled, only if the call returns 0.\<close>

definition probe_scan_for_msi :: "kapi \<Rightarrow> xdma_dev \<Rightarrow> int \<times> xdma_dev" where
  "probe_scan_for_msi K d =
    (if msi_msix_capable K PCI_CAP_ID_MSIX then
       let rc = k_enable_msix K (MAX_NUM_ENGINES + MAX_USER_IRQ);
           d = (if rc = 0 then log_call (Get R_msix) (d\<lparr>entry_vector := k_msix_vector K\<rparr>) else d)
       in (rc, d\<lparr>msix_enabled := True\<rparr>)
     else if msi_msix_capable K PCI_CAP_ID_MSI then
       let rc = k_enable_msi K;
           d = (if rc = 0 then log_call (Get R_msi) d else d)
       in (rc, d\<lparr>msi_enabled := True\<rparr>)
     else (0, d))"

definition request_regions :: "kapi \<Rightarrow> xdma_dev \<Rightarrow> int \<times> xdma_dev" where
  "request_regions K d =
    (let rc = k_request_regions K
     in (rc, if rc \<noteq> 0 then d\<lparr>regions_in_use := True\<rparr> else (log_call (Get R_regions) d)\<lparr>got_regions := True\<rparr>))"

definition set_dma_mask :: "kapi \<Rightarrow> int" where
  "set_dma_mask K = (if k_dma_mask K 64 then 0 else if k_dma_mask K 32 then 0 else - 1)"

section \<open>Undoing\<close>

definition err_enable :: "xdma_dev \<Rightarrow> xdma_dev" where
  "err_enable d = log_call (Put R_dev) d"

definition err_scan_msi :: "xdma_dev \<Rightarrow> xdma_dev" where
  "err_scan_msi d = err_enable (if \<not> regions_in_use d then log_call (Put R_pci) d else d)"

definition err_regions :: "xdma_dev \<Rightarrow> xdma_dev" where
  "err_regions d = err_scan_msi (if msi_enabled d then log_call (Put R_msi) d else d)"

definition err_map :: "xdma_dev \<Rightarrow> xdma_dev" where
  "err_map d = err_regions (if got_regions d then log_call (Put R_regions) d else d)"

definition err_mask :: "xdma_dev \<Rightarrow> xdma_dev" where
  "err_mask d = err_map (unmap_bars d)"

definition err_engines :: "xdma_dev \<Rightarrow> xdma_dev" where
  "err_engines d = err_mask (irq_teardown d)"

definition err_interfaces :: "bool \<Rightarrow> xdma_dev \<Rightarrow> xdma_dev" where
  "err_interfaces poll d = err_engines (remove_engines poll d)"

section \<open>Probe\<close>

text \<open>From the interfaces on: the character devices, the interrupts, the file of the device.\<close>

definition probe_interfaces :: "kapi \<Rightarrow> bool \<Rightarrow> gdev \<Rightarrow> (int \<times> gdev) option" where
  "probe_interfaces K poll gd = do {
     (rc, g, d) \<leftarrow> create_interfaces K gd;
     (if rc \<noteq> 0 then Some (rc, g, err_interfaces poll d)
      else do {
        cfg \<leftarrow> config_bar d;
        let d = d\<lparr>d_bus := user_interrupts_enable cfg (NOT 0) (d_bus d)\<rparr>;
        let d = (if \<not> poll then d\<lparr>d_bus := channel_interrupts_enable cfg (NOT 0) (d_bus d)\<rparr> else d);
        let d = d\<lparr>d_bus := snd (read_interrupts cfg (d_bus d))\<rparr>;
        (if k_create_file K \<noteq> 0 then Some (k_create_file K, g, err_interfaces poll d)
         else Some (0, g, log_call (Get R_attr) d))
      })
   }"

text \<open>From the interrupts on; the credit feature needs an odd module parameter and a streaming design.\<close>

definition probe_irq :: "kapi \<Rightarrow> bool \<Rightarrow> u32 \<Rightarrow> gdev \<Rightarrow> (int \<times> gdev) option" where
  "probe_irq K poll credit gd = (case gd of (g, d) \<Rightarrow> do {
     (rc, d) \<leftarrow> irq_setup K d;
     (if rc \<noteq> 0 then Some (rc, g, err_mask d)
      else do {
        cfg \<leftarrow> config_bar d;
        let (w, d) = drd cfg d;
        let stream = (if w AND 0x8000 \<noteq> 0 then 1 else 0);
        d \<leftarrow> (if credit AND stream \<noteq> 0 then enable_credit_feature d else Some d);
        (rc, d) \<leftarrow> probe_engines K poll d;
        (if rc \<noteq> 0 then Some (rc, g, err_engines d) else probe_interfaces K poll (g, d))
      })
   })"

definition probe_regions :: "kapi \<Rightarrow> bool \<Rightarrow> u32 \<Rightarrow> gdev \<Rightarrow> (int \<times> gdev) option" where
  "probe_regions K poll credit gd = (case gd of (g, d) \<Rightarrow>
     let (rc, d) = request_regions K d
     in if rc \<noteq> 0 then Some (rc, g, err_regions d)
        else do {
          (rc, d) \<leftarrow> map_bars K d;
          (if rc \<noteq> 0 then Some (rc, g, err_map d)
           else if set_dma_mask K \<noteq> 0 then Some (set_dma_mask K, g, err_mask d)
           else probe_irq K poll credit (g, d))
        })"

text \<open>The device instance is nothing if it could not be allocated.\<close>

definition probe :: "kapi \<Rightarrow> bool \<Rightarrow> u32 \<Rightarrow> bus \<Rightarrow> globals \<Rightarrow> (int \<times> globals \<times> xdma_dev option) option" where
  "probe K poll credit b g =
    (case alloc_dev_instance K b of
       None \<Rightarrow> Some (0, g, None)
     | Some d \<Rightarrow>
         map_option (\<lambda>(rc, g, d). (rc, g, Some d))
           (if k_enable_device K \<noteq> 0 then Some (k_enable_device K, g, err_enable d)
            else let (rc, d) = probe_scan_for_msi K (log_call (Get R_pci) d)
              in if rc < 0 then Some (rc, g, err_scan_msi d) else probe_regions K poll credit (g, d)))"

section \<open>Remove\<close>

definition release_pci :: "xdma_dev \<Rightarrow> xdma_dev" where
  "release_pci d =
    (let d = (if got_regions d then log_call (Put R_regions) d else d);
         d = (if msix_enabled d then (log_call (Put R_msix) d)\<lparr>msix_enabled := False\<rparr>
              else if msi_enabled d then (log_call (Put R_msi) d)\<lparr>msi_enabled := False\<rparr> else d)
     in if \<not> regions_in_use d then log_call (Put R_pci) d else d)"

definition remove :: "bool \<Rightarrow> gdev \<Rightarrow> gdev option" where
  "remove poll gd = (case gd of (g, d) \<Rightarrow> do {
     cfg \<leftarrow> config_bar d;
     let d = d\<lparr>d_bus := channel_interrupts_disable cfg (NOT 0) (d_bus d)\<rparr>;
     let d = d\<lparr>d_bus := user_interrupts_disable cfg (NOT 0) (d_bus d)\<rparr>;
     let d = d\<lparr>d_bus := snd (read_interrupts cfg (d_bus d))\<rparr>;
     (g, d) \<leftarrow> destroy_interfaces (g, d);
     let d = release_pci (unmap_bars (irq_teardown (remove_engines poll d)));
     let g = g\<lparr>dev_present := (dev_present g)(d_instance d := False)\<rparr>;
     let d = log_call (Put (R_slot (d_instance d))) d;
     let d = log_call (Put R_attr) d;
     Some (g, log_call (Put R_dev) d)
   })"

section \<open>The account of a device\<close>

text \<open>What the labels from \<open>err_map\<close> on give back, and what they do not.\<close>

definition pci_res :: "xdma_dev \<Rightarrow> kres list" where
  "pci_res d = R_dev # (if regions_in_use d then [] else [R_pci]) @ (if msi_enabled d then [R_msi] else []) @
     (if got_regions d then [R_regions] else [])"

definition left_over :: "xdma_dev \<Rightarrow> kres \<Rightarrow> int" where
  "left_over d r = (if msix_enabled d \<and> r = R_msix then 1 else 0)"

definition bar_res :: "xdma_dev \<Rightarrow> kres \<Rightarrow> int" where
  "bar_res d r = (case r of R_bar j \<Rightarrow> (if bar d j \<noteq> None then 1 else 0) | _ \<Rightarrow> 0)"

lemma bar_res_cong: "bar d' = bar d \<Longrightarrow> bar_res d' = bar_res d"
  by (intro ext) (simp add: bar_res_def split: kres.split)

definition irq_res :: "xdma_dev \<Rightarrow> kres list" where
  "irq_res d = (if msix_enabled d then map (\<lambda>i. R_irq (entry_vector d i) (H_user i)) [0..<MAX_USER_IRQ]
     else if irq_line d \<noteq> - 1 then [R_irq (word_of_int (irq_line d)) H_isr] else [])"

definition low_res :: "xdma_dev \<Rightarrow> kres \<Rightarrow> int" where
  "low_res d r = num (pci_res d) r + left_over d r + bar_res d r"

lemma err_map_held: "held (klog (err_map d)) r = held (klog d) r - num (pci_res d) r"
  by (simp add: err_map_def err_regions_def err_scan_msi_def err_enable_def pci_res_def log_call_def)

lemma unmap_bars_spec:
  "bars_held (unmap_bars d) = bars_held d \<and> bar (unmap_bars d) = (\<lambda>i. if i < XDMA_BAR_NUM then None else bar d i)"
  using unmap_bars_fold [of "[0..<XDMA_BAR_NUM]" d] by (simp add: unmap_bars_def)

lemma unmap_fold_sel:
  "regions_in_use (fold unmap_bar is d) = regions_in_use d \<and> msi_enabled (fold unmap_bar is d) = msi_enabled d \<and>
   got_regions (fold unmap_bar is d) = got_regions d \<and> msix_enabled (fold unmap_bar is d) = msix_enabled d \<and>
   d_instance (fold unmap_bar is d) = d_instance d"
  by (induction "is" arbitrary: d) (simp_all add: unmap_bar_def log_call_def)

lemma unmap_bars_sel [simp]:
  "regions_in_use (unmap_bars d) = regions_in_use d" "msi_enabled (unmap_bars d) = msi_enabled d"
  "got_regions (unmap_bars d) = got_regions d" "msix_enabled (unmap_bars d) = msix_enabled d" "d_instance (unmap_bars d) = d_instance d"
  using unmap_fold_sel by (simp_all add: unmap_bars_def)

lemma unmap_bars_held:
  assumes "\<forall>i. XDMA_BAR_NUM \<le> i \<longrightarrow> bar d i = None"
  shows "held (klog (unmap_bars d)) r = held (klog d) r - bar_res d r"
proof -
  have "bar (unmap_bars d) = (\<lambda>_. None)" using assms unmap_bars_spec [of d] by (auto simp: fun_eq_iff)
  then have "held (klog (unmap_bars d)) r = bars_held (unmap_bars d) r" by (simp add: bars_held_def split: kres.split)
  also have "\<dots> = bars_held d r" using unmap_bars_spec [of d] by simp
  finally show ?thesis by (simp add: bars_held_def bar_res_def)
qed

lemma err_mask_held:
  assumes "\<forall>i. XDMA_BAR_NUM \<le> i \<longrightarrow> bar d i = None" "held (klog d) r = low_res d r + x"
  shows "held (klog (err_mask d)) r = left_over d r + x"
proof -
  have "pci_res (unmap_bars d) = pci_res d" by (simp add: pci_res_def)
  then show ?thesis using assms by (simp add: err_mask_def err_map_held unmap_bars_held low_res_def)
qed

lemma free_fold:
  "klog (fold (\<lambda>i d. free_irq (entry_vector d i) (H_user i) d) is d) =
     klog d @ map (\<lambda>i. Put (R_irq (entry_vector d i) (H_user i))) is"
  by (induction "is" arbitrary: d) (simp_all add: free_irq_def)

lemma fold_free_sel:
  "let d' = fold (\<lambda>i d. free_irq (entry_vector d i) (H_user i) d) is d
   in regions_in_use d' = regions_in_use d \<and> msi_enabled d' = msi_enabled d \<and> got_regions d' = got_regions d \<and>
     msix_enabled d' = msix_enabled d \<and> bar d' = bar d \<and> d_instance d' = d_instance d"
  by (induction "is" arbitrary: d) (simp_all add: free_irq_def log_call_def Let_def)

lemma num_map: "num (map f is) r = held (map (\<lambda>i. Get (f i)) is) r"
  by (induction "is") simp_all

lemma irq_teardown_spec:
  "regions_in_use (irq_teardown d) = regions_in_use d \<and> msi_enabled (irq_teardown d) = msi_enabled d \<and>
   got_regions (irq_teardown d) = got_regions d \<and> msix_enabled (irq_teardown d) = msix_enabled d \<and>
   bar (irq_teardown d) = bar d \<and> d_instance (irq_teardown d) = d_instance d \<and>
   held (klog (irq_teardown d)) r = held (klog d) r - num (irq_res d) r"
  using fold_free_sel [of "[0..<MAX_USER_IRQ]" d]
  by (simp add: irq_teardown_def irq_res_def free_fold Let_def num_map held_map_Get held_map_Put)
    (simp add: free_irq_def log_call_def)

lemma err_engines_held:
  assumes "\<forall>i. XDMA_BAR_NUM \<le> i \<longrightarrow> bar d i = None" "held (klog d) r = low_res d r + num (irq_res d) r + x"
  shows "held (klog (err_engines d)) r = left_over d r + x"
proof -
  note t = irq_teardown_spec [of d r]
  have "low_res (irq_teardown d) r = low_res d r" "left_over (irq_teardown d) r = left_over d r"
    using t bar_res_cong [of "irq_teardown d" d] by (simp_all add: low_res_def pci_res_def left_over_def)
  then show ?thesis using err_mask_held [of "irq_teardown d" r x] t assms by (simp add: err_engines_def)
qed

definition all_eng_res :: "bool \<Rightarrow> xdma_dev \<Rightarrow> kres \<Rightarrow> int" where
  "all_eng_res poll d r = (\<Sum>p\<leftarrow>engine_slots. num (eng_res poll d p) r)"

lemma eng_rest_res:
  assumes "eng_rest d' = eng_rest d"
  shows "low_res d' = low_res d" "irq_res d' = irq_res d" "left_over d' = left_over d"
  by (simp_all add: fun_eq_iff low_res_def pci_res_def left_over_def bar_res_cong [OF eng_rest_sel(4) [OF assms]] irq_res_def
      eng_rest_sel [OF assms])

lemma err_interfaces_held:
  assumes "\<forall>i. XDMA_BAR_NUM \<le> i \<longrightarrow> bar d i = None"
    "held (klog d) r = low_res d r + num (irq_res d) r + all_eng_res poll d r + x"
  shows "held (klog (err_interfaces poll d)) r = left_over d r + x"
proof -
  have e: "eng_rest (remove_engines poll d) = eng_rest d"
    "held (klog (remove_engines poll d)) r = held (klog d) r - all_eng_res poll d r"
    by (simp_all add: remove_engines_def remove_engines_fold all_eng_res_def)
  show ?thesis unfolding err_interfaces_def eng_rest_res(3) [OF e(1), symmetric]
    by (rule err_engines_held) (use assms e(2) in \<open>simp_all add: eng_rest_sel(4) [OF e(1)] eng_rest_res [OF e(1)]\<close>)
qed

lemma chr_rest_res:
  assumes "chr_rest d' = chr_rest d"
  shows "low_res d' = low_res d" "irq_res d' = irq_res d" "left_over d' = left_over d" "all_eng_res poll d' = all_eng_res poll d"
  by (simp_all add: fun_eq_iff low_res_def pci_res_def left_over_def bar_res_cong [OF chr_rest_sel(4) [OF assms]] irq_res_def
      all_eng_res_def eng_res_def chr_rest_sel [OF assms])

lemma eng_rest_char_at:
  assumes "eng_rest d' = eng_rest d"
  shows "char_at p d' = char_at p d"
  by (cases p) (simp_all add: eng_rest_sel [OF assms])

text \<open>What the undoing leaves alone, and the resources that are none of the stages'.\<close>

definition id_part where
  "id_part d = (d_major d, d_instance d, user_bar_idx d)"

lemma idp_sel:
  assumes "id_part d' = id_part d"
  shows "d_major d' = d_major d" "d_instance d' = d_instance d" "user_bar_idx d' = user_bar_idx d" "slot_res d' = slot_res d"
  using assms by (simp_all add: id_part_def slot_res_def)

lemma idp_log [simp]: "id_part (log_call c d) = id_part d" "id_part (d\<lparr>d_bus := b\<rparr>) = id_part d"
  by (simp_all add: id_part_def)

lemma idp_unmap: "id_part (unmap_bars d) = id_part d"
proof -
  have "id_part (fold unmap_bar is d) = id_part d" for "is"
    by (induction "is" arbitrary: d) (simp_all add: unmap_bar_def, simp_all add: id_part_def log_call_def)
  then show ?thesis by (simp add: unmap_bars_def)
qed

lemma idp_teardown: "id_part (irq_teardown d) = id_part d"
proof -
  have "id_part (fold (\<lambda>i d. free_irq (entry_vector d i) (H_user i) d) is d) = id_part d" for "is"
    by (induction "is" arbitrary: d) (simp_all add: free_irq_def)
  then show ?thesis by (simp add: irq_teardown_def free_irq_def)
qed

lemma idp_err [simp]:
  "id_part (err_map d) = id_part d" "id_part (err_mask d) = id_part d" "id_part (err_engines d) = id_part d" "id_part (err_interfaces poll d) = id_part d"
proof -
  show m: "id_part (err_map d) = id_part d" for d by (simp add: err_map_def err_regions_def err_scan_msi_def err_enable_def)
  show k: "id_part (err_mask d) = id_part d" for d by (simp add: err_mask_def m idp_unmap)
  show e: "id_part (err_engines d) = id_part d" for d by (simp add: err_engines_def k idp_teardown)
  have "eng_rest (remove_engines poll d) = eng_rest d" by (simp add: remove_engines_def remove_engines_fold)
  then have "id_part (remove_engines poll d) = id_part d" by (simp add: id_part_def eng_rest_def)
  then show "id_part (err_interfaces poll d) = id_part d" by (simp add: err_interfaces_def e)
qed

lemma stage_res_other [simp]:
  "low_res d (R_chrdev n c) = 0" "num (irq_res d) (R_chrdev n c) = 0" "all_eng_res poll d (R_chrdev n c) = 0" "left_over d (R_chrdev n c) = 0"
  "low_res d (R_slot i) = 0" "num (irq_res d) (R_slot i) = 0" "all_eng_res poll d (R_slot i) = 0" "left_over d (R_slot i) = 0"
proof -
  have "num (eng_res poll d p) (R_chrdev n c) = 0" "num (eng_res poll d p) (R_slot i) = 0" for p
    by (simp_all add: eng_res_def res_of_def split: option.split)
  then show "all_eng_res poll d (R_chrdev n c) = 0" "all_eng_res poll d (R_slot i) = 0" by (simp_all add: all_eng_res_def)
  have "filter (\<lambda>i. False) xs = []" for xs :: "nat list" by simp
  then show "num (irq_res d) (R_chrdev n c) = 0" "num (irq_res d) (R_slot i) = 0"
    by (simp_all add: irq_res_def num_map held_map_Get)
qed (simp_all add: low_res_def pci_res_def left_over_def bar_res_def)

lemma leavesI: "(\<And>r. held (klog d) r = base r) \<Longrightarrow> d_major d = 0 \<Longrightarrow> leaves K maj base d"
  by (simp add: leaves_def slot_res_def)

lemma err_interfaces_leaves:
  assumes "\<forall>i. XDMA_BAR_NUM \<le> i \<longrightarrow> bar d i = None"
    "leaves K maj (\<lambda>r. low_res d r + num (irq_res d) r + all_eng_res poll d r) d"
  shows "leaves K maj (left_over d) (err_interfaces poll d)"
proof -
  define base where "base = (\<lambda>r. low_res d r + num (irq_res d) r + all_eng_res poll d r)"
  have h: "held (klog (err_interfaces poll d)) r = left_over d r + (held (klog d) r - base r)" for r
    by (rule err_interfaces_held [OF assms(1)]) (simp add: base_def)
  note i = idp_sel [of "err_interfaces poll d" d, OF idp_err(4)]
  have l: "held (klog d) r = base r + num (slot_res d) r \<or> chrdev_kept K maj r" for r
    using assms(2) unfolding leaves_def base_def by blast
  have "held (klog (err_interfaces poll d)) r = left_over d r + num (slot_res (err_interfaces poll d)) r \<or> chrdev_kept K maj r" for r
    using l [of r] h [of r] unfolding i by auto
  moreover have "held (klog (err_interfaces poll d)) (R_chrdev n c) = held (klog d) (R_chrdev n c)" for n c
    unfolding h by (simp add: base_def)
  ultimately show ?thesis using assms(2) unfolding leaves_def i by simp
qed

text \<open>The numbers of a device that is up: its instance number and those of its files.\<close>

definition up_nums :: "kapi \<Rightarrow> nat \<Rightarrow> xdma_dev \<Rightarrow> bool" where
  "up_nums K maj d \<longleftrightarrow> nums_ok K maj d \<and> d_major d \<noteq> 0 \<and>
     (user_bar_idx d < 0 \<or> 0 \<le> k_cdev_add K (nat (d_major d), XDMA_MINOR_BASE))"

lemma up_nums_frames [simp]:
  "up_nums K maj (d\<lparr>d_bus := b\<rparr>) = up_nums K maj d" "up_nums K maj (log_call (Get R_attr) d) = up_nums K maj d"
proof -
  have "nums_ok K maj (d\<lparr>d_bus := b\<rparr>) = nums_ok K maj d"
    by (rule nums_ok_cong) (simp_all, (case_tac p; simp)?)
  then show "up_nums K maj (d\<lparr>d_bus := b\<rparr>) = up_nums K maj d" by (simp add: up_nums_def)
  have "nums_ok K maj (log_call (Get R_attr) d) = nums_ok K maj d" by (rule nums_ok_cong) simp_all
  then show "up_nums K maj (log_call (Get R_attr) d) = up_nums K maj d" by (simp add: up_nums_def)
qed

text \<open>The instance number is marked if and only if one was handed out.\<close>

definition marked :: "globals \<Rightarrow> globals \<Rightarrow> xdma_dev \<Rightarrow> bool" where
  "marked g g' d \<longleftrightarrow> dev_present g' = (if d_major d = 0 then dev_present g else (dev_present g)(d_instance d := True))"

text \<open>What the setup of the interrupts leaves alone.\<close>

definition irq_rest where
  "irq_rest d = (config_bar d, entry_vector d, msix_enabled d, bar d, config_bar_idx d, user_bar_idx d, bypass_bar_idx d,
     msi_enabled d, got_regions d, regions_in_use d, d_major d, d_instance d, engine d, engines_num d, (\<lambda>p. char_at p d))"

lemma char_at_bus [simp]:
  "char_at p (d\<lparr>irq_line := l\<rparr>) = char_at p d" "char_at p (d\<lparr>d_bus := b\<rparr>) = char_at p d"
  by (cases p; simp)+

lemma irq_rest_bus [simp]: "irq_rest (d\<lparr>d_bus := b\<rparr>) = irq_rest d" "irq_rest (d\<lparr>irq_line := l\<rparr>) = irq_rest d"
  by (simp_all add: irq_rest_def config_bar_def)

lemma irq_rest_prim [simp]:
  "irq_rest (log_call x d) = irq_rest d" "irq_rest (dwr v a d) = irq_rest d" "irq_rest (snd (drd a d)) = irq_rest d"
proof -
  show "irq_rest (log_call x d) = irq_rest d"
    unfolding irq_rest_def char_at_prim log_call_sel log_major by (simp add: log_call_def)
qed (simp_all add: dwr_def drd_def Let_def split_beta)

lemma irq_rest_sel:
  assumes "irq_rest d' = irq_rest d"
  shows "config_bar d' = config_bar d" "entry_vector d' = entry_vector d" "msix_enabled d' = msix_enabled d" "bar d' = bar d"
    "msi_enabled d' = msi_enabled d" "got_regions d' = got_regions d" "regions_in_use d' = regions_in_use d"
    "d_major d' = d_major d" "engine d' = engine d" "char_at p d' = char_at p d"
  using assms unfolding irq_rest_def by (simp_all add: fun_eq_iff)

lemma irq_rest_res:
  assumes "irq_rest d' = irq_rest d"
  shows "low_res d' = low_res d" "left_over d' = left_over d" "irq_line d' = irq_line d \<Longrightarrow> irq_res d' = irq_res d"
  by (simp_all add: fun_eq_iff low_res_def pci_res_def left_over_def bar_res_cong [OF irq_rest_sel(4) [OF assms]] irq_res_def
      irq_rest_sel [OF assms])

lemma request_rest: "request_user_irqs K n i d = (rc, j, d') \<Longrightarrow> irq_rest d' = irq_rest d"
  by (induction n arbitrary: i d) (auto simp: request_irq_def Let_def split: if_splits)

lemma free_rest: "irq_rest (free_user_irqs n d) = irq_rest d"
  by (induction n arbitrary: d) (simp_all add: free_irq_def)

lemma write_vectors_rest: "write_msix_vectors d = Some d' \<Longrightarrow> irq_rest d' = irq_rest d"
  by (auto simp: write_msix_vectors_def bind_eq_Some_conv)

lemma legacy_vectors_spec:
  "config_bar d = Some cfg \<Longrightarrow> \<exists>d'. legacy_vectors v d = Some d' \<and> irq_rest d' = irq_rest d \<and> klog d' = klog d"
  by (auto simp: legacy_vectors_def Let_def)

lemma irq_setup_spec:
  assumes "config_bar d = Some cfg" "sint (pci_irq K) \<noteq> - 1"
  shows "\<exists>rc d'. irq_setup K d = Some (rc, d') \<and> irq_rest d' = irq_rest d \<and>
    (\<forall>r. held (klog d') r = held (klog d) r + (if rc = 0 then num (irq_res d') r else 0))"
proof (cases "msix_enabled d")
  case True
  obtain rc d' where r: "msix_irq_setup K d = Some (rc, d')"
    "\<forall>r. held (klog d') r = held (klog d) r +
       (if rc = 0 then int (length (filter (\<lambda>i. R_irq (entry_vector d i) (H_user i) = r) [0..<MAX_USER_IRQ])) else 0)"
    using msix_irq_setup_spec [OF assms(1), of K] by blast
  have rest: "irq_rest d' = irq_rest d"
  proof -
    obtain d1 where d1: "write_msix_vectors d = Some d1" using r(1) by (auto simp: msix_irq_setup_def bind_eq_Some_conv)
    obtain rc1 j d2 where d2: "request_user_irqs K MAX_USER_IRQ 0 d1 = (rc1, j, d2)" by (cases "request_user_irqs K MAX_USER_IRQ 0 d1")
    have "d' = (if rc1 \<noteq> 0 then free_user_irqs j d2 else d2)" using r(1) by (auto simp: msix_irq_setup_def d1 d2)
    then show ?thesis using request_rest [OF d2] free_rest [of j d2] write_vectors_rest [OF d1] by (cases "rc1 = 0") simp_all
  qed
  have "num (irq_res d') t = int (length (filter (\<lambda>i. R_irq (entry_vector d i) (H_user i) = t) [0..<MAX_USER_IRQ]))" for t
    using True irq_rest_sel(2,3) [OF rest] by (simp add: irq_res_def num_map held_map_Get)
  then show ?thesis using r rest True by (simp add: irq_setup_def)
next
  case False
  obtain d1 where d1: "(if \<not> msi_enabled d \<and> interrupt_pin K > 1 then legacy_vectors (interrupt_pin K) d else Some d) = Some d1"
    "irq_rest d1 = irq_rest d" "klog d1 = klog d"
    using legacy_vectors_spec [OF assms(1), of "interrupt_pin K"] by (metis (full_types))
  let ?d = "d1\<lparr>irq_line := sint (pci_irq K)\<rparr>"
  obtain rc d' where r: "request_irq K (pci_irq K) H_isr ?d = (rc, d')" by fastforce
  have rest: "irq_rest d' = irq_rest d"
    using r d1(2) by (auto simp: request_irq_def Let_def split: if_splits)
  have "irq_line d' = sint (pci_irq K)" using r by (auto simp: request_irq_def Let_def log_call_def split: if_splits)
  then have "num (irq_res d') t = (if R_irq (pci_irq K) H_isr = t then 1 else 0)" for t
    using False irq_rest_sel(3) [OF rest] assms(2) by (simp add: irq_res_def)
  moreover have "held (klog d') t = held (klog d) t + (if rc = 0 then (if R_irq (pci_irq K) H_isr = t then 1 else 0) else 0)" for t
    using r d1(3) by (auto simp: request_irq_def Let_def split: if_splits)
  ultimately show ?thesis using False d1(1) r rest by (simp add: irq_setup_def)
qed

section \<open>The stages\<close>

text \<open>A device that is up: what it holds is accounted for by its engines, interrupts, BARs and files.\<close>

definition up :: "bool \<Rightarrow> globals \<Rightarrow> xdma_dev \<Rightarrow> bool" where
  "up poll g d \<longleftrightarrow> chars_ok (\<lambda>r. low_res d r + num (irq_res d) r + all_eng_res poll d r + (if r = R_attr then 1 else 0)) (g, d) \<and>
     (\<forall>i. XDMA_BAR_NUM \<le> i \<longrightarrow> bar d i = None) \<and> config_bar d \<noteq> None \<and> \<not> (msix_enabled d \<and> msi_enabled d)"

definition stage :: "xdma_dev \<Rightarrow> (kres \<Rightarrow> int) \<Rightarrow> bool" where
  "stage d x \<longleftrightarrow> \<not> (msix_enabled d \<and> msi_enabled d) \<and> (\<forall>p. char_at p d = None) \<and> d_major d = 0 \<and> (\<forall>i. XDMA_BAR_NUM \<le> i \<longrightarrow> bar d i = None) \<and>
     (\<forall>r. held (klog d) r = low_res d r + x r)"

lemma chars_ok_cong: "(\<And>r. base r = base' r) \<Longrightarrow> chars_ok base gd = chars_ok base' gd"
  by (simp add: chars_ok_def)

text \<open>The registers are written while the accounts stand still.\<close>

lemma bar_res_frames [simp]: "bar_res (d\<lparr>d_bus := b\<rparr>) = bar_res d" "bar_res (log_call c d) = bar_res d"
  by (rule bar_res_cong; simp)+

lemma bus_frames [simp]:
  "chr_rest (d\<lparr>klog := l\<rparr>) = chr_rest d" "low_res (d\<lparr>d_bus := b\<rparr>) = low_res d" "irq_res (d\<lparr>d_bus := b\<rparr>) = irq_res d"
  "left_over (d\<lparr>d_bus := b\<rparr>) = left_over d" "all_eng_res poll (d\<lparr>d_bus := b\<rparr>) = all_eng_res poll d"
  "config_bar (d\<lparr>d_bus := b\<rparr>) = config_bar d" "placed (d\<lparr>d_bus := b\<rparr>) = placed d" "slot_res (d\<lparr>d_bus := b\<rparr>) = slot_res d"
  "at_res (d\<lparr>d_bus := b\<rparr>) = at_res d"
  by (simp_all add: chr_rest_def fun_eq_iff low_res_def pci_res_def left_over_def irq_res_def all_eng_res_def eng_res_def
      config_bar_def placed_def slot_res_def at_res_def)

lemma chars_ok_bus [simp]: "chars_ok base (g, d\<lparr>d_bus := b\<rparr>) = chars_ok base (g, d)"
  using typed_cong [of "d\<lparr>d_bus := b\<rparr>" d] by (simp add: chars_ok_def)

lemma attr_frames [simp]:
  "low_res (log_call c d) = low_res d" "irq_res (log_call c d) = irq_res d" "left_over (log_call c d) = left_over d"
  "all_eng_res poll (log_call c d) = all_eng_res poll d" "placed (log_call c d) = placed d" "at_res (log_call c d) = at_res d"
  "msi_enabled (log_call c d) = msi_enabled d" "got_regions (log_call c d) = got_regions d"
  "regions_in_use (log_call c d) = regions_in_use d"
  by (simp_all add: fun_eq_iff low_res_def pci_res_def left_over_def irq_res_def all_eng_res_def eng_res_def
      placed_def at_res_def) (simp_all add: log_call_def)

text \<open>What a stage does to the numbers of the instances; an instance that is up has one.\<close>

definition numbers_from :: "globals \<Rightarrow> int \<Rightarrow> globals \<Rightarrow> xdma_dev \<Rightarrow> bool" where
  "numbers_from g rc g' d' \<longleftrightarrow> g_xdma_class g' = g_xdma_class g \<and> (\<forall>i. dev_present g i \<longrightarrow> dev_present g' i) \<and>
     (rc = 0 \<longrightarrow> d_instance d' = first_free (dev_present g) \<and> first_free (dev_present g) < MAX_XDMA_DEVICES \<and>
       dev_present g' = (dev_present g)(first_free (dev_present g) := True))"

lemma numbers_from_same [simp]: "rc \<noteq> 0 \<Longrightarrow> numbers_from g rc g d"
  by (simp add: numbers_from_def)

lemma numbers_fromI:
  assumes "numbered g (g', d')" "rc = 0 \<longrightarrow> d_major d' \<noteq> 0 \<and> d_instance d'' = d_instance d'"
  shows "numbers_from g rc g' d''"
  using assms by (auto simp: numbered_def numbers_from_def split: if_splits)

lemma probe_interfaces_spec:
  assumes "stage d (\<lambda>r. num (irq_res d) r + all_eng_res poll d r)" "g_xdma_class g" "placed d" "k_chrdev_major K \<noteq> 0"
    and "config_bar d = Some cfg"
  shows "\<exists>rc g' d'. probe_interfaces K poll (g, d) = Some (rc, g', d') \<and> numbers_from g rc g' d' \<and>
    (rc = 0 \<longrightarrow> up poll g' d' \<and> up_nums K (g_major g) d') \<and>
    (rc \<noteq> 0 \<and> k_create_file K = 0 \<longrightarrow> leaves K (g_major g) (left_over d) d' \<and> marked g g' d')"
proof -
  define base where "base = (\<lambda>r. low_res d r + num (irq_res d) r + all_eng_res poll d r)"
  have st: "\<forall>p. char_at p d = None" "d_major d = 0" "\<forall>i. XDMA_BAR_NUM \<le> i \<longrightarrow> bar d i = None" "held (klog d) = base"
    "\<not> (msix_enabled d \<and> msi_enabled d)"
    using assms(1) by (simp_all add: stage_def base_def fun_eq_iff)
  have b0: "\<forall>n c. held (klog d) (R_chrdev n c) = 0" by (simp add: st(4) base_def)
  have c0: "acct K (Some (g_major g)) base (g, d)" using acct_start [OF assms(2,3) st(1,2) b0] by (simp add: st(4))
  obtain rc g1 d1 where r: "create_interfaces K (g, d) = Some (rc, g1, d1)" "chr_rest d1 = chr_rest d"
    "rc = 0 \<longrightarrow> acct K (Some (g_major g)) base (g1, d1)" "rc = 0 \<longrightarrow> (\<forall>p. required p d \<longrightarrow> char_at p d1 \<noteq> None)"
    "rc \<noteq> 0 \<longrightarrow> leaves K (g_major g) base d1"
    using create_interfaces_spec [OF c0 _ assms(4)] st(1,4) b0 by auto
  note e = chr_rest_sel [OF r(2)] chr_rest_res [OF r(2)]
  note n = create_interfaces_numbers [OF assms(4) st(2) r(1)]
  show ?thesis
  proof (cases "rc = 0")
    case False
    have "numbers_from g rc g1 (err_interfaces poll d1)" by (rule numbers_fromI [of _ _ d1]) (use n False in auto)
    moreover have "leaves K (g_major g) (left_over d) (err_interfaces poll d1)"
      using err_interfaces_leaves [of d1 K "g_major g" poll] r(5) False st(3) by (simp add: e base_def)
    moreover have "marked g g1 (err_interfaces poll d1)"
      using n idp_sel(1,2) [of "err_interfaces poll d1" d1] by (simp add: marked_def numbered_def split: if_splits)
    ultimately show ?thesis using r(1) False by (intro exI [of _ rc] exI [of _ g1]) (simp add: probe_interfaces_def)
  next
    case True
    define b where "b = (let b = user_interrupts_enable cfg (NOT 0) (d_bus d1);
        b = (if \<not> poll then channel_interrupts_enable cfg (NOT 0) b else b) in snd (read_interrupts cfg b))"
    define d2 where "d2 = d1\<lparr>d_bus := b\<rparr>"
    have p: "probe_interfaces K poll (g, d) = (if k_create_file K \<noteq> 0 then Some (k_create_file K, g1, err_interfaces poll d2)
        else Some (0, g1, log_call (Get R_attr) d2))"
      using r(1) True assms(5) by (simp add: probe_interfaces_def e d2_def b_def Let_def)
    have c1: "chars_ok base (g1, d1)" and m1: "nums_ok K (g_major g) d1" using r(3) True by (simp_all add: acct_def nums_at_def)
    then have c: "chars_ok base (g1, d2)" by (simp add: d2_def)
    have "up poll g1 (log_call (Get R_attr) d2)"
      using c st(3,5) assms(5) by (auto simp: up_def d2_def e chars_ok_def base_def)
    moreover have "up_nums K (g_major g) d1"
    proof -
      have "0 \<le> k_cdev_add K (nat (d_major d1), XDMA_MINOR_BASE)" if u: "\<not> user_bar_idx d1 < 0"
      proof -
        have "required At_user d" using u by (simp add: e)
        then obtain ch where "char_at At_user d1 = Some ch" using r(4) True by blast
        then have "0 \<le> k_cdev_add K (cdevno ch)" "cdevno ch = (nat (d_major d1), minor_of At_user)"
          using m1 c1 unfolding nums_ok_def chars_ok_def by blast+
        then show ?thesis by (simp add: XDMA_MINOR_BASE_def)
      qed
      then show ?thesis using m1 n True by (auto simp: up_nums_def)
    qed
    moreover have "numbers_from g (if k_create_file K \<noteq> 0 then k_create_file K else 0) g1
        (if k_create_file K \<noteq> 0 then err_interfaces poll d2 else log_call (Get R_attr) d2)"
      by (rule numbers_fromI [of _ _ d1]) (use n True in \<open>auto simp: d2_def\<close>)
    ultimately show ?thesis unfolding p by (auto simp: d2_def)
  qed
qed

lemma probe_irq_spec:
  assumes "stage d (\<lambda>_. 0)" "g_xdma_class g" "\<forall>c k. engine d c k = None" "k_chrdev_major K \<noteq> 0"
    and "config_bar d = Some cfg" "vectors_ok d" "sint (pci_irq K) \<noteq> - 1"
  shows "\<exists>rc g' d'. probe_irq K poll credit (g, d) = Some (rc, g', d') \<and> numbers_from g rc g' d' \<and>
    (rc = 0 \<longrightarrow> up poll g' d' \<and> up_nums K (g_major g) d') \<and>
    (rc \<noteq> 0 \<and> k_create_file K = 0 \<and> engines_granted K poll 1 \<longrightarrow> leaves K (g_major g) (left_over d) d' \<and> marked g g' d')"
proof -
  obtain rc d1 where d1: "irq_setup K d = Some (rc, d1)" "irq_rest d1 = irq_rest d"
    "\<forall>r. held (klog d1) r = held (klog d) r + (if rc = 0 then num (irq_res d1) r else 0)"
    using irq_setup_spec [OF assms(5,7)] by blast
  note e = irq_rest_sel [OF d1(2)] irq_rest_res(1,2) [OF d1(2)]
  have st: "\<forall>p. char_at p d = None" "d_major d = 0" "\<forall>i. XDMA_BAR_NUM \<le> i \<longrightarrow> bar d i = None" "\<forall>r. held (klog d) r = low_res d r"
    "\<not> (msix_enabled d \<and> msi_enabled d)"
    using assms(1) by (simp_all add: stage_def)
  show ?thesis
  proof (cases "rc = 0")
    case False
    have z: "d_major (err_mask d1) = 0" using st(2) idp_sel(1) [of "err_mask d1" d1] by (simp add: e)
    have "held (klog (err_mask d1)) t = left_over d t" for t
      using err_mask_held [of d1 t 0] False d1(3) st(3,4) by (simp add: e)
    then have "leaves K (g_major g) (left_over d) (err_mask d1)" using z by (rule leavesI)
    then show ?thesis using d1(1) False z by (intro exI [of _ rc] exI [of _ g]) (simp add: probe_irq_def marked_def)
  next
    case True
    have cfg: "config_bar d1 = Some cfg" using assms(5) by (simp add: e)
    obtain w d2 where d2: "drd cfg d1 = (w, d2)" by fastforce
    define stream where "stream = (if w AND 0x8000 \<noteq> 0 then 1 else 0 :: u32)"
    define d3 where "d3 = (if credit AND stream \<noteq> 0
      then dwr 0xF0000 (cfg + 0x6000 + of_nat (offsetof sgdma_common_regs G_credit_feature_enable)) d2 else d2)"
    have f2: "klog d2 = klog d1 \<and> irq_rest d2 = irq_rest d1 \<and> irq_line d2 = irq_line d1"
      using d2 by (auto simp: drd_def Let_def split_beta)
    have f3: "klog d3 = klog d1 \<and> irq_rest d3 = irq_rest d1 \<and> irq_line d3 = irq_line d1"
      using f2 by (auto simp: d3_def) (simp_all add: dwr_def)
    note e3 = irq_rest_sel [OF conjunct1 [OF conjunct2 [OF f3]]] irq_rest_res [OF conjunct1 [OF conjunct2 [OF f3]]]
    have feat: "(if credit AND stream \<noteq> 0 then enable_credit_feature d2 else Some d2) = Some d3"
      using cfg irq_rest_sel(1) [of d2 d1] f2 by (auto simp: enable_credit_feature_def d3_def)
    have v3: "\<forall>c k. engine d3 c k = None" "vectors_ok d3" "config_bar d3 = Some cfg"
      using assms(3,6) cfg by (simp_all add: e3 e vectors_ok_def)
    obtain rc4 d4 where d4: "probe_engines K poll d3 = Some (rc4, d4)" "eng_rest d4 = eng_rest d3"
      "rc4 = 0 \<longrightarrow> eng_ok poll (held (klog d3)) d4" "rc4 \<noteq> 0 \<and> engines_granted K poll 1 \<longrightarrow> held (klog d4) = held (klog d3)"
      using probe_engines_spec [OF v3] by blast
    note e4 = eng_rest_sel [OF d4(2)] eng_rest_res [OF d4(2)] eng_rest_char_at [OF d4(2)]
    have p: "probe_irq K poll credit (g, d) = (if rc4 \<noteq> 0 then Some (rc4, g, err_engines d4) else probe_interfaces K poll (g, d4))"
      using d1(1) True cfg d2 feat d4(1) by (simp add: probe_irq_def stream_def [symmetric])
    have h3: "held (klog d3) t = low_res d t + num (irq_res d3) t" for t
      using f3 d1(3) True st(4) e3(13) by simp
    show ?thesis
    proof (cases "rc4 = 0")
      case False
      have z: "d_major (err_engines d4) = 0" using st(2) idp_sel(1) [of "err_engines d4" d4] by (simp add: e4 e3 e)
      have "held (klog (err_engines d4)) t = left_over d t" if "engines_granted K poll 1" for t
        using err_engines_held [of d4 t 0] False that d4(4) h3 st(3) by (simp add: e4 e3 e)
      then have "leaves K (g_major g) (left_over d) (err_engines d4)" if "engines_granted K poll 1"
        using that z by (intro leavesI) simp_all
      then show ?thesis unfolding p using False z by (simp add: marked_def)
    next
      case ok: True
      have "stage d4 (\<lambda>r. num (irq_res d4) r + all_eng_res poll d4 r)"
        using st(1-3,5) d4(3) ok h3 by (simp add: stage_def e4 e3 e eng_ok_def all_eng_res_def)
      moreover have "placed d4" using d4(3) ok unfolding eng_ok_def placed_def slots_iff by blast
      moreover have "config_bar d4 = Some cfg" using v3(3) by (simp add: e4)
      ultimately obtain rc g' d' where "probe_interfaces K poll (g, d4) = Some (rc, g', d')" "numbers_from g rc g' d'"
        "rc = 0 \<longrightarrow> up poll g' d' \<and> up_nums K (g_major g) d'"
        "rc \<noteq> 0 \<and> k_create_file K = 0 \<longrightarrow> leaves K (g_major g) (left_over d4) d' \<and> marked g g' d'"
        using probe_interfaces_spec [OF _ assms(2) _ assms(4)] by blast
      then show ?thesis unfolding p using ok by (simp add: e4 e3 e)
    qed
  qed
qed

text \<open>What mapping the BARs leaves alone.\<close>

definition map_rest where
  "map_rest d = (entry_vector d, msix_enabled d, msi_enabled d, got_regions d, regions_in_use d, d_major d, engine d, irq_line d,
     (\<lambda>p. char_at p d))"

lemma char_at_bars [simp]:
  "char_at p (d\<lparr>bar := x\<rparr>) = char_at p d" "char_at p (d\<lparr>config_bar_idx := i\<rparr>) = char_at p d"
  "char_at p (d\<lparr>user_bar_idx := i\<rparr>) = char_at p d" "char_at p (d\<lparr>bypass_bar_idx := i\<rparr>) = char_at p d"
  by (cases p; simp)+

lemma map_rest_prim [simp]:
  "map_rest (log_call c d) = map_rest d" "map_rest (d\<lparr>d_bus := b\<rparr>) = map_rest d" "map_rest (d\<lparr>bar := x\<rparr>) = map_rest d"
  "map_rest (d\<lparr>config_bar_idx := i\<rparr>) = map_rest d" "map_rest (d\<lparr>user_bar_idx := i\<rparr>) = map_rest d"
  "map_rest (d\<lparr>bypass_bar_idx := i\<rparr>) = map_rest d"
  by (simp_all add: map_rest_def) (simp_all add: log_call_def)

lemma map_rest_ops:
  "map_rest (snd (drd a d)) = map_rest d" "map_rest (snd (map_single_bar K i d)) = map_rest d"
  "map_rest (identify_bars ids pos d) = map_rest d"
  by (simp_all add: drd_def map_single_bar_def identify_bars_def Let_def split_beta)

lemma map_rest_config: "is_config_bar i d = Some (f, d') \<Longrightarrow> map_rest d' = map_rest d"
  by (auto simp: is_config_bar_def Let_def split_beta bind_eq_Some_conv map_rest_ops)

lemma map_rest_loop: "map_loop K is ids pos d = Some (ok, ids', pos', d') \<Longrightarrow> map_rest d' = map_rest d"
proof (induction "is" arbitrary: ids pos d)
  case (Cons i "is")
  obtain len d1 where d1: "map_single_bar K i d = (len, d1)" by fastforce
  have f: "map_rest d1 = map_rest d" using map_rest_ops(2) [of K i d] by (simp add: d1)
  show ?case using Cons.prems f
    by (auto simp: d1 bind_eq_Some_conv dest!: Cons.IH map_rest_config split: if_splits)
qed simp

lemma map_bars_rest: "map_bars K d = Some (rc, d') \<Longrightarrow> map_rest d' = map_rest d"
proof -
  have "map_rest (unmap_bar i e) = map_rest e" for i e by (simp add: unmap_bar_def)
  then have "map_rest (fold unmap_bar is e) = map_rest e" for "is" e by (induction "is" arbitrary: e) simp_all
  then have "map_rest (unmap_bars e) = map_rest e" for e by (simp add: unmap_bars_def)
  then show "map_bars K d = Some (rc, d') \<Longrightarrow> map_rest d' = map_rest d"
    by (auto simp: map_bars_def bind_eq_Some_conv map_rest_ops dest!: map_rest_loop split: if_splits)
qed

lemma map_rest_sel:
  assumes "map_rest d' = map_rest d"
  shows "entry_vector d' = entry_vector d" "msix_enabled d' = msix_enabled d" "msi_enabled d' = msi_enabled d"
    "got_regions d' = got_regions d" "regions_in_use d' = regions_in_use d" "d_major d' = d_major d" "engine d' = engine d"
    "char_at p d' = char_at p d" "pci_res d' = pci_res d" "left_over d' = left_over d"
  using assms unfolding map_rest_def by (simp_all add: fun_eq_iff pci_res_def left_over_def)

definition quiet :: "xdma_dev \<Rightarrow> bool" where
  "quiet d \<longleftrightarrow> \<not> (msix_enabled d \<and> msi_enabled d) \<and> (\<forall>p. char_at p d = None) \<and> d_major d = 0 \<and> (\<forall>i. bar d i = None) \<and> config_bar_idx d = - 1 \<and>
     (\<forall>c k. engine d c k = None) \<and> \<not> got_regions d \<and> \<not> regions_in_use d"

lemma probe_regions_spec:
  assumes "quiet d" "\<forall>r. held (klog d) r = low_res d r" "g_xdma_class g" "k_chrdev_major K \<noteq> 0" "vectors_ok d"
    "sint (pci_irq K) \<noteq> - 1" "k_request_regions K = 0"
  shows "\<exists>rc g' d'. probe_regions K poll credit (g, d) = Some (rc, g', d') \<and> numbers_from g rc g' d' \<and>
    (rc = 0 \<longrightarrow> up poll g' d' \<and> up_nums K (g_major g) d') \<and>
    (rc \<noteq> 0 \<and> k_create_file K = 0 \<and> engines_granted K poll 1 \<longrightarrow> leaves K (g_major g) (left_over d) d' \<and> marked g g' d')"
proof -
  define d1 where "d1 = (log_call (Get R_regions) d)\<lparr>got_regions := True\<rparr>"
  have q: "\<forall>p. char_at p d1 = None" "d_major d1 = 0" "\<forall>i. bar d1 i = None" "config_bar_idx d1 = - 1" "\<forall>c k. engine d1 c k = None"
    "left_over d1 = left_over d" "vectors_ok d1" "\<not> (msix_enabled d1 \<and> msi_enabled d1)"
  proof -
    have "char_at p d1 = char_at p d" for p by (cases p) (simp_all add: d1_def log_call_def)
    then show "\<forall>p. char_at p d1 = None" using assms(1) by (simp add: quiet_def)
  qed (use assms(1,5) in \<open>simp_all add: d1_def quiet_def left_over_def vectors_ok_def fun_eq_iff log_call_def\<close>)
  have h1: "held (klog d1) r = num (pci_res d1) r + left_over d1 r" for r
  proof -
    have "bar_res d r = 0" using assms(1) by (simp add: quiet_def bar_res_def split: kres.split)
    then have "held (klog d) r = num (pci_res d) r + left_over d r" using assms(2) by (simp add: low_res_def)
    then show ?thesis using assms(1) q(6) by (simp add: d1_def quiet_def pci_res_def)
  qed
  obtain rc d2 where d2: "map_bars K d1 = Some (rc, d2)"
    "rc = 0 \<longrightarrow> config_bar d2 \<noteq> None \<and>
      (\<forall>r. held (klog d2) r = held (klog d1) r + (case r of R_bar j \<Rightarrow> (if bar d2 j \<noteq> None then 1 else 0) | _ \<Rightarrow> 0))"
    "rc \<noteq> 0 \<longrightarrow> held (klog d2) = held (klog d1)" "\<forall>i. bar (unmap_bars d2) i = None"
    using map_bars_spec [OF q(3,4), of K] unfolding if_bool_eq_conj by blast
  have rest: "map_rest d2 = map_rest d1" by (rule map_bars_rest [OF d2(1)])
  note e = map_rest_sel [OF rest]
  have big: "\<forall>i. XDMA_BAR_NUM \<le> i \<longrightarrow> bar d2 i = None"
  proof (intro allI impI)
    fix i assume i: "XDMA_BAR_NUM \<le> i"
    have "bar (unmap_bars d2) i = None" using d2(4) by blast
    then show "bar d2 i = None" using unmap_bars_spec [of d2] i by (simp add: not_less [symmetric])
  qed
  have p: "probe_regions K poll credit (g, d) = (if rc \<noteq> 0 then Some (rc, g, err_map d2)
      else if set_dma_mask K \<noteq> 0 then Some (set_dma_mask K, g, err_mask d2) else probe_irq K poll credit (g, d2))"
    using assms(7) d2(1) by (simp add: probe_regions_def request_regions_def d1_def)
  show ?thesis
  proof (cases "rc = 0")
    case False
    have z: "d_major (err_map d2) = 0" using q(2) idp_sel(1) [of "err_map d2" d2] by (simp add: e)
    have "held (klog (err_map d2)) r = left_over d r" for r
      using False d2(3) h1 q(6) by (simp add: err_map_held e)
    then have "leaves K (g_major g) (left_over d) (err_map d2)" using z by (rule leavesI)
    then show ?thesis unfolding p using False z by (simp add: marked_def)
  next
    case True
    have h2: "held (klog d2) r = low_res d2 r" for r
      using True d2(2) h1 by (simp add: low_res_def e bar_res_def)
    show ?thesis
    proof (cases "set_dma_mask K = 0")
      case False
      have z: "d_major (err_mask d2) = 0" using q(2) idp_sel(1) [of "err_mask d2" d2] by (simp add: e)
      have "held (klog (err_mask d2)) r = left_over d r" for r
        using err_mask_held [OF big, of r 0] h2 q(6) by (simp add: e)
      then have "leaves K (g_major g) (left_over d) (err_mask d2)" using z by (rule leavesI)
      then show ?thesis unfolding p using False True z by (simp add: marked_def)
    next
      case mask: True
      have s: "stage d2 (\<lambda>_. 0)" using q(1,2,8) big h2 by (simp add: stage_def e)
      obtain cfg where cfg: "config_bar d2 = Some cfg" using True d2(2) by auto
      have "\<forall>c k. engine d2 c k = None" "vectors_ok d2" using q by (simp_all add: e vectors_ok_def)
      from probe_irq_spec [OF s assms(3) this(1) assms(4) cfg this(2) assms(6), of poll credit] show ?thesis
        unfolding p using True mask q(6) by (simp add: e)
    qed
  qed
qed


section \<open>Properties\<close>

lemma char_at_alloc: "alloc_dev_instance K b = Some d \<Longrightarrow> char_at p d = None"
  by (cases p) (auto simp: alloc_dev_instance_def split: if_splits)

text \<open>The state in which \<open>probe\<close> requests the regions.\<close>

lemma scan_spec:
  assumes "alloc_dev_instance K b = Some d0" "probe_scan_for_msi K (log_call (Get R_pci) d0) = (rc, d)"
    and "\<forall>i. k_msix_vector K i \<noteq> 0" "k_enable_msix K (MAX_NUM_ENGINES + MAX_USER_IRQ) \<le> 0" "k_enable_msi K \<le> 0"
  shows "rc = 0 \<Longrightarrow> quiet d \<and> (\<forall>r. held (klog d) r = low_res d r) \<and> vectors_ok d"
    and "rc < 0 \<Longrightarrow> \<not> regions_in_use d \<and> held (klog d) = held [Get R_dev, Get R_pci]" and "rc \<le> 0"
    and "d_major d = 0" and "msix_enabled d = msi_msix_capable K PCI_CAP_ID_MSIX"
    and "msi_msix_capable K PCI_CAP_ID_MSIX \<Longrightarrow> k_enable_msix K (MAX_NUM_ENGINES + MAX_USER_IRQ) = 0 \<longleftrightarrow> rc = 0"
proof -
  have c: "char_at p d = None" for p
    using assms(2) char_at_alloc [OF assms(1), of p]
    by (cases p) (auto simp: probe_scan_for_msi_def Let_def log_call_def split: if_splits)
  note d0 = assms(1) [unfolded alloc_dev_instance_def]
  show "d_major d = 0" "msix_enabled d = msi_msix_capable K PCI_CAP_ID_MSIX"
    using assms(2) d0 by (auto simp: probe_scan_for_msi_def Let_def log_call_def split: if_splits)
  show "msi_msix_capable K PCI_CAP_ID_MSIX \<Longrightarrow> k_enable_msix K (MAX_NUM_ENGINES + MAX_USER_IRQ) = 0 \<longleftrightarrow> rc = 0"
    using assms(2) by (auto simp: probe_scan_for_msi_def Let_def)
  show "rc \<le> 0" using assms(2,4,5) by (auto simp: probe_scan_for_msi_def Let_def split: if_splits)
  show "rc = 0 \<Longrightarrow> quiet d \<and> (\<forall>r. held (klog d) r = low_res d r) \<and> vectors_ok d"
    using assms(2,3) d0 c
    by (auto simp: probe_scan_for_msi_def Let_def log_call_def quiet_def low_res_def pci_res_def left_over_def bar_res_def
        vectors_ok_def split: if_splits kres.split)
  show "rc < 0 \<Longrightarrow> \<not> regions_in_use d \<and> held (klog d) = held [Get R_dev, Get R_pci]"
    using assms(2) d0 by (auto simp: probe_scan_for_msi_def Let_def log_call_def split: if_splits)
qed

text \<open>
  How the kernel answers. The hypothesis is that the device class could be created; that
  \<open>alloc_chrdev_region\<close> hands out a major number; that \<open>pci_enable_msix\<close> does not return a positive number (it does
  when there are fewer vectors than asked for, and \<open>probe\<close> then goes on as if it had succeeded); that the
  vectors it fills in are not 0; and that the device's interrupt line is not all ones. The second and
  third restrict the theorems below to the answers the code is prepared for.
\<close>

definition sane :: "kapi \<Rightarrow> globals \<Rightarrow> bool" where
  "sane K g \<longleftrightarrow> g_xdma_class g \<and> k_chrdev_major K \<noteq> 0 \<and> (\<forall>i. k_msix_vector K i \<noteq> 0) \<and>
     k_enable_msix K (MAX_NUM_ENGINES + MAX_USER_IRQ) \<le> 0 \<and> k_enable_msi K \<le> 0 \<and> sint (pci_irq K) \<noteq> - 1"

text \<open>MSI-X, when it has been enabled.\<close>

definition msix_left :: "kapi \<Rightarrow> kres \<Rightarrow> int" where
  "msix_left K r = (if r = R_msix \<and> k_enable_device K = 0 \<and> msi_msix_capable K PCI_CAP_ID_MSIX \<and>
     k_enable_msix K (MAX_NUM_ENGINES + MAX_USER_IRQ) = 0 then 1 else 0)"

lemma probe_spec:
  assumes "sane K g"
  shows "\<exists>rc g' od. probe K poll credit b g = Some (rc, g', od) \<and>
    (case od of None \<Rightarrow> rc = 0 \<and> \<not> k_zalloc_dev K
     | Some d \<Rightarrow> numbers_from g rc g' d \<and> (rc = 0 \<longrightarrow> up poll g' d \<and> up_nums K (g_major g) d) \<and>
         (rc \<noteq> 0 \<and> k_request_regions K = 0 \<and> k_create_file K = 0 \<and> engines_granted K poll 1 \<longrightarrow>
           leaves K (g_major g) (msix_left K) d \<and> marked g g' d))"
proof (cases "alloc_dev_instance K b")
  case None
  then show ?thesis by (auto simp: probe_def alloc_dev_instance_def split: if_splits)
next
  case (Some d0)
  have k0: "klog d0 = [Get R_dev]" "\<not> regions_in_use d0" "d_major d0 = 0"
    using Some by (auto simp: alloc_dev_instance_def split: if_splits)
  show ?thesis
  proof (cases "k_enable_device K = 0")
    case False
    have "leaves K (g_major g) (msix_left K) (err_enable d0)"
      by (rule leavesI) (use k0 False in \<open>simp_all add: err_enable_def msix_left_def\<close>)
    then show ?thesis using k0 False by (simp add: probe_def Some err_enable_def marked_def)
  next
    case en: True
    obtain rc d where s: "probe_scan_for_msi K (log_call (Get R_pci) d0) = (rc, d)" by fastforce
    note sp = scan_spec [OF Some s]
    have sn: "\<forall>i. k_msix_vector K i \<noteq> 0" "k_enable_msix K (MAX_NUM_ENGINES + MAX_USER_IRQ) \<le> 0" "k_enable_msi K \<le> 0"
      using assms by (simp_all add: sane_def)
    note sp = sp [OF sn]
    show ?thesis
    proof (cases "rc < 0")
      case True
      have z: "d_major (err_scan_msi d) = 0" using sp(4) by (simp add: err_scan_msi_def err_enable_def)
      have "held (klog (err_scan_msi d)) r = msix_left K r" for r
        using sp(2,6) True by (simp add: err_scan_msi_def err_enable_def msix_left_def)
      then have "leaves K (g_major g) (msix_left K) (err_scan_msi d)" using z by (rule leavesI)
      then show ?thesis using True en z by (simp add: probe_def Some s marked_def)
    next
      case False
      then have rc: "rc = 0" using sp(3) by simp
      then have q: "quiet d" "\<forall>r. held (klog d) r = low_res d r" "vectors_ok d" using sp(1) by simp_all
      have lo: "left_over d = msix_left K" using sp(5,6) rc en by (auto simp: fun_eq_iff left_over_def msix_left_def)
      have p: "probe K poll credit b g = map_option (\<lambda>(rc, g, d). (rc, g, Some d)) (probe_regions K poll credit (g, d))"
        using en rc by (simp add: probe_def Some s)
      show ?thesis
      proof (cases "k_request_regions K = 0")
        case False
        then show ?thesis unfolding p by (simp add: probe_regions_def request_regions_def)
      next
        case True
        obtain rc' g' d' where "probe_regions K poll credit (g, d) = Some (rc', g', d')" "numbers_from g rc' g' d'"
          "rc' = 0 \<longrightarrow> up poll g' d' \<and> up_nums K (g_major g) d'"
          "rc' \<noteq> 0 \<and> k_create_file K = 0 \<and> engines_granted K poll 1 \<longrightarrow> leaves K (g_major g) (left_over d) d' \<and> marked g g' d'"
          using probe_regions_spec [OF q(1,2) _ _ q(3) _ True] assms unfolding sane_def by blast
        then show ?thesis unfolding p by (auto simp: lo)
      qed
    qed
  qed
qed

lemma release_pci_held:
  assumes "\<not> (msix_enabled d \<and> msi_enabled d)"
  shows "held (klog (release_pci d)) t = held (klog d) t - (num (pci_res d) t - (if t = R_dev then 1 else 0)) - left_over d t"
  using assms by (auto simp: release_pci_def Let_def pci_res_def left_over_def)

lemma remove_spec:
  assumes "up poll g d"
  shows "\<exists>d'. remove poll (g, d) = Some (g\<lparr>dev_present := (dev_present g)(d_instance d := False)\<rparr>, d') \<and>
    (\<forall>K maj. up_nums K maj d \<longrightarrow> (\<forall>r. held (klog d') r = 0 \<or> chrdev_kept K maj r) \<and>
       (maj = 0 \<longrightarrow> held (klog d') (R_chrdev (k_chrdev_major K, XDMA_MINOR_BASE) XDMA_MINOR_COUNT) = 1))"
proof -
  define base where "base = (\<lambda>r. low_res d r + num (irq_res d) r + all_eng_res poll d r + (if r = R_attr then 1 else 0))"
  have u: "chars_ok base (g, d)" "\<forall>i. XDMA_BAR_NUM \<le> i \<longrightarrow> bar d i = None" "\<not> (msix_enabled d \<and> msi_enabled d)"
    using assms by (simp_all add: up_def base_def)
  have b0: "\<forall>n c. base (R_chrdev n c) = 0" by (simp add: base_def)
  obtain cfg where cfg: "config_bar d = Some cfg" using assms by (auto simp: up_def)
  define b where "b = snd (read_interrupts cfg (user_interrupts_disable cfg (NOT 0) (channel_interrupts_disable cfg (NOT 0) (d_bus d))))"
  obtain d1 where d1: "destroy_interfaces (g, d\<lparr>d_bus := b\<rparr>) = Some (g, d1)" "chr_rest d1 = chr_rest (d\<lparr>d_bus := b\<rparr>)"
    "d_instance d1 = d_instance d" "d_major d1 = d_major d" "\<forall>K maj. nums_ok K maj (d\<lparr>d_bus := b\<rparr>) \<longrightarrow> leaves K maj base d1"
    using destroy_interfaces_spec [of base g "d\<lparr>d_bus := b\<rparr>"] u(1) b0 by auto
  define d2 where "d2 = unmap_bars (irq_teardown (remove_engines poll d1))"
  note e1 = chr_rest_sel [OF d1(2)] chr_rest_res [OF d1(2)]
  have r: "eng_rest (remove_engines poll d1) = eng_rest d1"
    "held (klog (remove_engines poll d1)) t = held (klog d1) t - all_eng_res poll d1 t" for t
    by (simp_all add: remove_engines_def remove_engines_fold all_eng_res_def)
  note e = eng_rest_sel [OF r(1)] eng_rest_res [OF r(1)] e1 bus_frames
  have h2: "held (klog d2) t = held (klog d1) t - all_eng_res poll d1 t - num (irq_res d) t - bar_res d t" for t
  proof -
    have "held (klog d2) t = held (klog (irq_teardown (remove_engines poll d1))) t - bar_res (irq_teardown (remove_engines poll d1)) t"
      unfolding d2_def by (rule unmap_bars_held) (use u(2) irq_teardown_spec in \<open>simp add: e\<close>)
    moreover have "bar_res (irq_teardown (remove_engines poll d1)) = bar_res d"
      by (rule bar_res_cong) (use irq_teardown_spec in \<open>simp add: e\<close>)
    ultimately show ?thesis using irq_teardown_spec [of "remove_engines poll d1" t] r(2) by (simp add: e)
  qed
  have s2: "got_regions d2 = got_regions d" "regions_in_use d2 = regions_in_use d" "msix_enabled d2 = msix_enabled d"
    "msi_enabled d2 = msi_enabled d" "d_instance d2 = d_instance d"
    using irq_teardown_spec [of "remove_engines poll d1"] d1(3) by (simp_all add: d2_def e)
  define d' where "d' = log_call (Put R_dev) (log_call (Put R_attr) (log_call (Put (R_slot (d_instance d))) (release_pci d2)))"
  have h: "held (klog d') t = held (klog d1) t - base t - (if t = R_slot (d_instance d) then 1 else 0)" for t
  proof -
    have "pci_res d2 = pci_res d" "left_over d2 = left_over d" using s2 by (simp_all add: fun_eq_iff pci_res_def left_over_def)
    then have "held (klog (release_pci d2)) t = held (klog d2) t - (num (pci_res d) t - (if t = R_dev then 1 else 0)) - left_over d t"
      using release_pci_held [of d2 t] s2 u(3) by simp
    then show ?thesis unfolding h2 by (simp add: d'_def base_def low_res_def e)
  qed
  have inst: "d_instance (release_pci d2) = d_instance d" using s2 by (simp add: release_pci_def Let_def)
  have "(\<forall>r. held (klog d') r = 0 \<or> chrdev_kept K maj r) \<and>
      (maj = 0 \<longrightarrow> held (klog d') (R_chrdev (k_chrdev_major K, XDMA_MINOR_BASE) XDMA_MINOR_COUNT) = 1)" if n: "up_nums K maj d" for K maj
  proof -
    have n': "up_nums K maj (d\<lparr>d_bus := b\<rparr>)" using n by simp
    then have l: "leaves K maj base d1" using d1(5) by (simp add: up_nums_def)
    have mj: "d_major d \<noteq> 0" "maj = 0 \<longrightarrow> nat (d_major d) = k_chrdev_major K" using n by (auto simp: up_nums_def nums_ok_def)
    have "slot_res d1 = [R_slot (d_instance d)]" using d1(3,4) mj(1) by (simp add: slot_res_def)
    then have hd: "held (klog d1) r = base r + (if r = R_slot (d_instance d) then 1 else 0) \<or> chrdev_kept K maj r" for r
      using l [unfolded leaves_def, THEN conjunct1, rule_format, of r] by auto
    have "held (klog d') r = 0 \<or> chrdev_kept K maj r" for r using h [of r] hd [of r] by auto
    moreover have "held (klog d1) (R_chrdev (k_chrdev_major K, XDMA_MINOR_BASE) XDMA_MINOR_COUNT) = 1" if "maj = 0"
      using l n mj that d1(4) by (auto simp: leaves_def up_nums_def e)
    ultimately show ?thesis using h b0 by simp
  qed
  moreover have "remove poll (g, d) = Some (g\<lparr>dev_present := (dev_present g)(d_instance d := False)\<rparr>, d')"
    using cfg d1(3) d1(1) [unfolded b_def] inst by (simp add: remove_def d2_def [symmetric] d'_def Let_def)
  ultimately show ?thesis by blast
qed

text \<open>
  C26: \<open>remove\<close> undoes \<open>probe\<close>, save for the numbers of the files. After a \<open>probe\<close> that succeeded, \<open>remove\<close> returns, and
  the instance number is free for the next device. Nothing that was allocated, mapped, requested, enabled or
  registered for the device is held any longer, except: if the kernel handed out the major number, the
  range of its 255 minors is still registered, for it is given back under other bounds than it was allocated with;
  and with a major number given to the module, a number that \<open>cdev_add\<close> refused may still be
  registered. This is under the answers of the kernel that \<open>sane\<close> describes: \<open>alloc_chrdev_region\<close>
  succeeds, and \<open>pci_enable_msix\<close> does not return a positive number.
\<close>

theorem remove_undoes_probe:
  assumes "sane K g" "probe K poll credit b g = Some (0, g', Some d)"
  shows "\<exists>g'' d''. remove poll (g', d) = Some (g'', d'') \<and> \<not> dev_present g'' (d_instance d) \<and>
    (\<forall>r. held (klog d'') r = 0 \<or> chrdev_kept K (g_major g) r) \<and>
    (g_major g = 0 \<longrightarrow> held (klog d'') (R_chrdev (k_chrdev_major K, XDMA_MINOR_BASE) XDMA_MINOR_COUNT) = 1)"
proof -
  have u: "up poll g' d" "up_nums K (g_major g) d" using probe_spec [OF assms(1), of poll credit b] assms(2) by auto
  from remove_spec [OF u(1)] u(2) show ?thesis by fastforce
qed

text \<open>
  C27: \<open>probe\<close> always returns, and a \<open>probe\<close> that fails gives back what it took, in the order of
  its labels, but not all of it. It leaves MSI-X enabled, if it got that far. If it had handed out an
  instance number, which it does when it creates the files, that number stays marked in the table and taken, and so
  does the range of minors that came with it (\<open>leaves\<close>, as for C25). Nothing else is held. This rests on the regions being free, the file of the
  device being created and no C2H engine failing: those three paths of the code leak more (see the
  findings); and on the answers of the kernel that \<open>sane\<close> describes, which leave out a positive result of
  \<open>pci_enable_msix\<close> and a failing \<open>alloc_chrdev_region\<close>. A device that cannot be allocated is reported as success.
\<close>

theorem probe_failure_releases:
  assumes "sane K g" "k_request_regions K = 0" "k_create_file K = 0" "engines_granted K poll 1"
  shows "\<exists>rc g' od. probe K poll credit b g = Some (rc, g', od) \<and> (od = None \<longleftrightarrow> \<not> k_zalloc_dev K) \<and>
    (rc \<noteq> 0 \<longrightarrow> (\<exists>d. od = Some d \<and> leaves K (g_major g) (msix_left K) d \<and>
       dev_present g' = (if d_major d = 0 then dev_present g else (dev_present g)(d_instance d := True))))"
proof -
  obtain rc g' od where p: "probe K poll credit b g = Some (rc, g', od)"
    "case od of None \<Rightarrow> rc = 0 \<and> \<not> k_zalloc_dev K
     | Some d \<Rightarrow> rc \<noteq> 0 \<longrightarrow> leaves K (g_major g) (msix_left K) d \<and> marked g g' d"
    using probe_spec [OF assms(1), of poll credit b] assms(2-4) by (fastforce split: option.splits)
  have "od = None \<longleftrightarrow> \<not> k_zalloc_dev K" using p(1) by (auto simp: probe_def alloc_dev_instance_def split: if_splits)
  with p show ?thesis unfolding marked_def by (cases od) auto
qed


section \<open>Nothing refused\<close>

definition granted :: "kapi \<Rightarrow> bool \<Rightarrow> bool" where
  "granted K poll \<longleftrightarrow> chars_granted K \<and> engines_granted K poll 0 \<and> engines_granted K poll 1 \<and> (\<forall>v h. k_request_irq K v h = 0) \<and>
     k_zalloc_dev K \<and> k_enable_device K = 0 \<and> k_enable_msix K (MAX_NUM_ENGINES + MAX_USER_IRQ) = 0 \<and> k_enable_msi K = 0 \<and>
     k_request_regions K = 0 \<and> k_dma_mask K 64 \<and> k_create_file K = 0"

lemma irq_setup_granted:
  assumes "\<forall>v h. k_request_irq K v h = 0" "irq_setup K d = Some (rc, d')"
  shows "rc = 0"
proof -
  have "r = 0" if "request_user_irqs K MAX_USER_IRQ 0 e = (r, j, e')" for r j e e'
    using request_user_irqs_spec [OF that] assms(1) by simp
  then show ?thesis using assms
    by (auto simp: irq_setup_def msix_irq_setup_def request_irq_def Let_def bind_eq_Some_conv split_beta prod_eq_iff split: if_splits)
qed

lemma probe_interfaces_granted:
  assumes "granted K poll" "room (g, d)" "probe_interfaces K poll (g, d) = Some (rc, gd')"
  shows "rc = 0"
proof -
  obtain rc1 gd1 where c: "create_interfaces K (g, d) = Some (rc1, gd1)"
    using assms(3) by (cases "create_interfaces K (g, d)") (auto simp: probe_interfaces_def)
  have "rc1 = 0" using create_interfaces_granted [OF _ assms(2) c] assms(1) by (simp add: granted_def)
  then show ?thesis using assms(1,3) c by (auto simp: probe_interfaces_def granted_def bind_eq_Some_conv split_beta Let_def)
qed

lemma probe_irq_granted:
  assumes "granted K poll" "first_free (dev_present g) \<noteq> MAX_XDMA_DEVICES" "probe_irq K poll credit (g, d) = Some (rc, gd')"
  shows "rc = 0"
proof -
  obtain rc1 d1 where i: "irq_setup K d = Some (rc1, d1)"
    using assms(3) by (cases "irq_setup K d") (auto simp: probe_irq_def)
  have "rc1 = 0" using irq_setup_granted [OF _ i] assms(1) by (simp add: granted_def)
  then obtain d2 rc2 d3 where e: "probe_engines K poll d2 = Some (rc2, d3)"
    "(if rc2 \<noteq> 0 then Some (rc2, g, err_engines d3) else probe_interfaces K poll (g, d3)) = Some (rc, gd')"
    using assms(3) i by (auto simp: probe_irq_def bind_eq_Some_conv split_beta Let_def cong: if_cong)
  have "rc2 = 0" using probe_engines_granted [OF _ _ e(1)] assms(1) by (simp add: granted_def)
  moreover have "room (g, d3)" using assms(2) by (simp add: room_def)
  ultimately show ?thesis using probe_interfaces_granted [OF assms(1)] e(2) by auto
qed

lemma probe_granted:
  assumes "granted K poll" "first_free (dev_present g) \<noteq> MAX_XDMA_DEVICES"
    and "\<forall>i. present K i \<longrightarrow> k_iomap K i (map_len K i) = Some (A i)" "\<forall>h a. resp b h a = v a"
    and "i < XDMA_BAR_NUM" "present K i" "is_cfg K v A i" "probe K poll credit b g = Some (rc, g', od)"
  shows "rc = 0"
proof -
  obtain d0 where d0: "alloc_dev_instance K b = Some d0" using assms(1) by (simp add: granted_def alloc_dev_instance_def)
  obtain rc1 d where d: "probe_scan_for_msi K (log_call (Get R_pci) d0) = (rc1, d)" by fastforce
  have rc1: "rc1 = 0" using d assms(1) by (auto simp: granted_def probe_scan_for_msi_def Let_def split: if_splits)
  define d1 where "d1 = (log_call (Get R_regions) d)\<lparr>got_regions := True\<rparr>"
  have e: "d_bus d1 = b" "config_bar_idx d1 = - 1" "user_bar_idx d1 = - 1" "bypass_bar_idx d1 = - 1" "\<forall>i. bar d1 i = None"
    using d0 d assms(1)
    by (auto simp: granted_def alloc_dev_instance_def probe_scan_for_msi_def d1_def Let_def log_call_def split: if_splits)
  have v: "\<forall>h a. resp (d_bus d1) h a = v a" using assms(4) by (simp add: e(1))
  obtain rc2 d2 where m: "map_bars K d1 = Some (rc2, d2)" "rc2 = 0"
    using map_bars_search [OF assms(3) v e(2-5) refl refl] assms(5-7) by auto
  have "probe K poll credit b g = map_option (\<lambda>(rc, g, d). (rc, g, Some d)) (probe_irq K poll credit (g, d2))"
    using assms(1) rc1 m by (simp add: probe_def d0 d granted_def probe_regions_def request_regions_def d1_def set_dma_mask_def)
  then obtain gd' where "probe_irq K poll credit (g, d2) = Some (rc, gd')"
    using assms(8) by (cases "probe_irq K poll credit (g, d2)") auto
  then show ?thesis by (rule probe_irq_granted [OF assms(1,2)])
qed

text \<open>
  C28: a device gets up. If the kernel refuses nothing, an instance number is free, and among the
  BARs there is one with the two identifiers of the config block, \<open>probe\<close> ends with success.
\<close>

theorem probe_succeeds:
  assumes "granted K poll" "first_free (dev_present g) \<noteq> MAX_XDMA_DEVICES"
    and "\<forall>i. present K i \<longrightarrow> k_iomap K i (map_len K i) = Some (A i)" "\<forall>h a. resp b h a = v a"
    and "i < XDMA_BAR_NUM" "present K i" "is_cfg K v A i" "sane K g"
  shows "\<exists>g' d. probe K poll credit b g = Some (0, g', Some d)"
proof -
  obtain rc g' od where p: "probe K poll credit b g = Some (rc, g', od)"
    "case od of None \<Rightarrow> rc = 0 \<and> \<not> k_zalloc_dev K | Some d \<Rightarrow> True"
    using probe_spec [OF assms(8), of poll credit b] by (fastforce split: option.splits)
  have "od \<noteq> None" using p(2) assms(1) by (cases od) (simp_all add: granted_def)
  moreover have "rc = 0" using probe_granted [OF assms(1-7)] p(1) by blast
  ultimately show ?thesis using p(1) by auto
qed

section \<open>Witnesses\<close>

definition demo_bus :: bus where
  "demo_bus = \<lparr>hist = [], resp = (\<lambda>_. demo_ids)\<rparr>"

lemma demo_sane: "sane demo_kapi demo_globals" "granted demo_kapi False"
proof -
  have "\<not> 2 ^ 32 dvd i mod 64 + 100" for i :: nat by (auto dest: dvd_imp_le)
  then have "of_nat (i mod 64 + 100) \<noteq> (0 :: u32)" for i by (simp only: word_of_nat_eq_0_iff) simp
  then show "sane demo_kapi demo_globals" by (simp add: sane_def demo_kapi_def demo_globals_def)
  show "granted demo_kapi False" using demo_granted(1) by (simp add: granted_def engines_granted_def demo_kapi_def)
qed

lemma demo_probe:
  "first_free (dev_present demo_globals) \<noteq> MAX_XDMA_DEVICES"
  "\<forall>i. present demo_kapi i \<longrightarrow> k_iomap demo_kapi i (map_len demo_kapi i) = Some (demo_addr i)"
  "\<forall>h a. resp demo_bus h a = demo_ids a" "1 < XDMA_BAR_NUM" "present demo_kapi 1"
  by (simp_all add: demo_present(1) demo_iomap demo_globals_def first_free_def MAX_XDMA_DEVICES_def upt_rec demo_bus_def
      XDMA_BAR_NUM_def)

theorem probe_succeeds_witness: "\<exists>g' d. probe demo_kapi False 1 demo_bus demo_globals = Some (0, g', Some d)"
  by (rule probe_succeeds [OF demo_sane(2) demo_probe demo_cfg(1) demo_sane(1)])

theorem remove_undoes_probe_witness:
  "\<exists>g' d g'' d''. probe demo_kapi False 1 demo_bus demo_globals = Some (0, g', Some d) \<and>
     remove False (g', d) = Some (g'', d'') \<and> held (klog d'') R_dev = 0 \<and> held (klog d'') (R_slot (d_instance d)) = 0 \<and>
     held (klog d'') (R_chrdev (250, 0) 255) = 1"
proof -
  obtain rc g' od where p: "probe demo_kapi False 1 demo_bus demo_globals = Some (rc, g', od)"
    "case od of None \<Rightarrow> rc = 0 \<and> \<not> k_zalloc_dev demo_kapi | Some d \<Rightarrow> True"
    using probe_spec [OF demo_sane(1), of False 1 demo_bus] by (fastforce split: option.splits)
  have "rc = 0" by (rule probe_granted [OF demo_sane(2) demo_probe demo_cfg(1) p(1)])
  moreover obtain d where "od = Some d" using p(2) by (cases od) (simp_all add: demo_kapi_def)
  ultimately have q: "probe demo_kapi False 1 demo_bus demo_globals = Some (0, g', Some d)" using p(1) by simp
  have k: "\<not> chrdev_kept demo_kapi (g_major demo_globals) R_dev" "\<not> chrdev_kept demo_kapi (g_major demo_globals) (R_slot i)"
    "g_major demo_globals = 0" "k_chrdev_major demo_kapi = 250" for i
    by (simp_all add: chrdev_kept_def demo_globals_def demo_kapi_def)
  show ?thesis using remove_undoes_probe [OF demo_sane(1) q] q k unfolding XDMA_MINOR_BASE_def XDMA_MINOR_COUNT_def by metis
qed

text \<open>A device that cannot be enabled.\<close>

theorem probe_failure_releases_witness:
  "\<exists>rc g' d. probe (demo_kapi\<lparr>k_enable_device := - 19\<rparr>) False 1 demo_bus demo_globals = Some (rc, g', Some d) \<and> rc = - 19 \<and>
     held (klog d) R_dev = 0"
proof -
  let ?K = "demo_kapi\<lparr>k_enable_device := - 19\<rparr>"
  have s: "sane ?K demo_globals" "k_request_regions ?K = 0" "k_create_file ?K = 0" "engines_granted ?K False 1"
    using demo_sane(1) by (simp_all add: sane_def engines_granted_def) (simp_all add: demo_kapi_def)
  obtain g' d where p: "probe ?K False 1 demo_bus demo_globals = Some (- 19, g', Some d)"
    by (simp add: probe_def alloc_dev_instance_def) (simp add: demo_kapi_def)
  then have "leaves ?K (g_major demo_globals) (msix_left ?K) d"
    using probe_failure_releases [OF s, of 1 demo_bus] by auto
  then have "held (klog d) R_dev = msix_left ?K R_dev + num (slot_res d) R_dev \<or> chrdev_kept ?K (g_major demo_globals) R_dev"
    unfolding leaves_def by blast
  then have "held (klog d) R_dev = 0" by (auto simp: msix_left_def slot_res_def chrdev_kept_def split: if_splits)
  then show ?thesis using p by blast
qed

end
