(* ===== verification/Module.thy ===== *)
theory Module
  imports Probe
begin

text \<open>
  Loading and unloading the driver (\<open>xdma_init\<close>, \<open>xdma_exit\<close>), and devices that come and go
  while it is loaded: the kernel calls \<open>probe\<close> and \<open>remove\<close> for each. The state is the driver's global
  variables and the driver data of the devices that are bound to it, in the order of their probing.
\<close>

section \<open>State and operations\<close>

type_synonym bound = "xdma_dev option list"

fun live :: "bound \<Rightarrow> xdma_dev list" where
  "live [] = []"
| "live (od # ds) = (case od of None \<Rightarrow> live ds | Some d \<Rightarrow> d # live ds)"

text \<open>
  A device is bound if \<open>probe\<close> returns 0, which it also does when it could not allocate anything; its
  driver data are then null, and \<open>remove\<close> does nothing for it.
\<close>

definition plug :: "bool \<Rightarrow> u32 \<Rightarrow> kapi \<Rightarrow> bus \<Rightarrow> globals \<times> bound \<Rightarrow> (globals \<times> bound) option" where
  "plug poll credit K b s = (case s of (g, ds) \<Rightarrow> do {
     (rc, g, od) \<leftarrow> probe K poll credit b g;
     Some (g, if rc = 0 then ds @ [od] else ds)
   })"

definition remove_bound :: "bool \<Rightarrow> xdma_dev option \<Rightarrow> globals \<Rightarrow> globals option" where
  "remove_bound poll od g = (case od of None \<Rightarrow> Some g | Some d \<Rightarrow> map_option fst (remove poll (g, d)))"

definition unplug :: "bool \<Rightarrow> nat \<Rightarrow> globals \<times> bound \<Rightarrow> (globals \<times> bound) option" where
  "unplug poll i s = (case s of (g, ds) \<Rightarrow>
     if i < length ds then do {
       g \<leftarrow> remove_bound poll (ds ! i) g;
       Some (g, take i ds @ drop (Suc i) ds)
     } else Some (g, ds))"

fun plug_all :: "bool \<Rightarrow> u32 \<Rightarrow> (kapi \<times> bus) list \<Rightarrow> globals \<times> bound \<Rightarrow> (globals \<times> bound) option" where
  "plug_all poll credit [] s = Some s"
| "plug_all poll credit ((K, b) # Ks) s = do { s \<leftarrow> plug poll credit K b s; plug_all poll credit Ks s }"

text \<open>
  Loading with the devices that are present. \<open>cls\<close> is whether the class could be created, \<open>reg\<close> the
  result of registering the driver, which probes the devices. The table of instance numbers is cleared
  after that. If registering fails, the class remains.
\<close>

definition xdma_init ::
  "bool \<Rightarrow> int \<Rightarrow> bool \<Rightarrow> u32 \<Rightarrow> (kapi \<times> bus) list \<Rightarrow> globals \<Rightarrow> (int \<times> globals \<times> bound) option" where
  "xdma_init cls reg poll credit Ks g =
    (if \<not> cls then Some (- 1, g, [])
     else do {
       let g = g\<lparr>g_xdma_class := True\<rparr>;
       (g, ds) \<leftarrow> (if reg = 0 then plug_all poll credit Ks (g, []) else Some (g, []));
       let g = g\<lparr>dev_present := \<lambda>i. if i < MAX_XDMA_DEVICES then False else dev_present g i\<rparr>;
       Some (reg, g, ds)
     })"

fun unplug_all :: "bool \<Rightarrow> bound \<Rightarrow> globals \<Rightarrow> globals option" where
  "unplug_all poll [] g = Some g"
| "unplug_all poll (od # ds) g = do { g \<leftarrow> remove_bound poll od g; unplug_all poll ds g }"

definition xdma_exit :: "bool \<Rightarrow> globals \<times> bound \<Rightarrow> globals option" where
  "xdma_exit poll s = (case s of (g, ds) \<Rightarrow> do {
     g \<leftarrow> unplug_all poll ds g;
     Some (if g_xdma_class g then g\<lparr>g_xdma_class := False\<rparr> else g)
   })"

section \<open>Devices that come and go\<close>

datatype event = Plug kapi bus | Unplug nat

fun hotplug :: "bool \<Rightarrow> u32 \<Rightarrow> globals \<times> bound \<Rightarrow> event \<Rightarrow> (globals \<times> bound) option" where
  "hotplug poll credit s (Plug K b) = plug poll credit K b s"
| "hotplug poll credit s (Unplug i) = unplug poll i s"

text \<open>How the kernel has to answer for a device, besides having granted the class.\<close>

fun event_ok :: "event \<Rightarrow> bool" where
  "event_ok (Plug K b) \<longleftrightarrow> (\<forall>g. g_xdma_class g \<longrightarrow> sane K g)"
| "event_ok (Unplug i) \<longleftrightarrow> True"

text \<open>
  The invariant: every bound device with driver data is up and has an instance number of its own, which
  is marked in the table.
\<close>

definition bound_ok :: "bool \<Rightarrow> globals \<times> bound \<Rightarrow> bool" where
  "bound_ok poll s \<longleftrightarrow> (case s of (g, ds) \<Rightarrow> g_xdma_class g \<and> distinct (map d_instance (live ds)) \<and>
     (\<forall>d \<in> set (live ds). up poll g d \<and> dev_present g (d_instance d) \<and> d_instance d < MAX_XDMA_DEVICES))"

lemma live_append [simp]: "live (xs @ ys) = live xs @ live ys"
  by (induction xs) (simp_all split: option.split)

lemma up_cong: "g_xdma_class g' = g_xdma_class g \<Longrightarrow> up poll g' d = up poll g d"
  by (simp add: up_def chars_ok_def)

lemma plug_ok:
  assumes "bound_ok poll s" "event_ok (Plug K b)"
  shows "\<exists>s'. plug poll credit K b s = Some s' \<and> bound_ok poll s'"
proof -
  obtain g ds where s: "s = (g, ds)" by fastforce
  have i: "g_xdma_class g" "distinct (map d_instance (live ds))"
    "\<forall>d \<in> set (live ds). up poll g d \<and> dev_present g (d_instance d) \<and> d_instance d < MAX_XDMA_DEVICES"
    using assms(1) by (simp_all add: bound_ok_def s)
  obtain rc g' od where p: "probe K poll credit b g = Some (rc, g', od)"
    "case od of None \<Rightarrow> True | Some d \<Rightarrow> numbers_from g rc g' d \<and> (rc = 0 \<longrightarrow> up poll g' d)"
    using probe_spec [of K g poll credit b] assms(2) i(1) by (fastforce split: option.splits)
  show ?thesis
  proof (cases od)
    case None
    then have "g' = g" using p(1) by (auto simp: probe_def split: option.splits)
    then show ?thesis using p(1) None i by (simp add: plug_def s bound_ok_def)
  next
    case (Some d)
    then have n: "numbers_from g rc g' d" "rc = 0 \<longrightarrow> up poll g' d" using p(2) by simp_all
    have g': "g_xdma_class g' = g_xdma_class g" "\<And>j. dev_present g j \<Longrightarrow> dev_present g' j" using n(1) by (simp_all add: numbers_from_def)
    have old: "\<forall>e \<in> set (live ds). up poll g' e \<and> dev_present g' (d_instance e) \<and> d_instance e < MAX_XDMA_DEVICES"
      using i(3) g' up_cong [OF g'(1)] by simp
    have new: "d_instance d \<notin> d_instance ` set (live ds) \<and> dev_present g' (d_instance d) \<and> d_instance d < MAX_XDMA_DEVICES" if "rc = 0"
      using i(3) that n(1) first_free_free [of "dev_present g"] by (auto simp: numbers_from_def)
    show ?thesis using p(1) Some i(1,2) g'(1) old new n(2) by (auto simp: plug_def s bound_ok_def)
  qed
qed

lemma remove_bound_spec:
  assumes "g_xdma_class g" "\<forall>d \<in> set (live [od]). up poll g d"
  shows "\<exists>g'. remove_bound poll od g = Some g' \<and> g_xdma_class g' = g_xdma_class g \<and>
    (\<forall>i. i \<notin> d_instance ` set (live [od]) \<longrightarrow> dev_present g' i = dev_present g i)"
proof (cases od)
  case (Some d)
  then show ?thesis using remove_spec [of poll g d] assms by (auto simp: remove_bound_def)
qed (simp add: remove_bound_def)

lemma unplug_ok:
  assumes "bound_ok poll s"
  shows "\<exists>s'. unplug poll i s = Some s' \<and> bound_ok poll s'"
proof -
  obtain g ds where s: "s = (g, ds)" by fastforce
  show ?thesis
  proof (cases "i < length ds")
    case True
    define rest where "rest = take i ds @ drop (Suc i) ds"
    have split: "live ds = live (take i ds) @ live [ds ! i] @ live (drop (Suc i) ds)"
      by (subst id_take_nth_drop [OF True]) (simp split: option.split)
    have I: "g_xdma_class g" "distinct (map d_instance (live ds))"
      "\<forall>d \<in> set (live ds). up poll g d \<and> dev_present g (d_instance d) \<and> d_instance d < MAX_XDMA_DEVICES"
      using assms by (simp_all add: bound_ok_def s)
    then have dist: "distinct (map d_instance (live rest))" "d_instance ` set (live [ds ! i]) \<inter> d_instance ` set (live rest) = {}"
      unfolding split by (auto simp: rest_def simp del: live.simps)
    have all: "\<forall>d \<in> set (live rest). up poll g d \<and> dev_present g (d_instance d) \<and> d_instance d < MAX_XDMA_DEVICES"
      "\<forall>d \<in> set (live [ds ! i]). up poll g d"
      using I(3) unfolding split by (auto simp: rest_def simp del: live.simps)
    obtain g' where r: "remove_bound poll (ds ! i) g = Some g'" "g_xdma_class g' = g_xdma_class g"
      "\<forall>j. j \<notin> d_instance ` set (live [ds ! i]) \<longrightarrow> dev_present g' j = dev_present g j"
      using remove_bound_spec [OF I(1) all(2)] by blast
    have "dev_present g' (d_instance d) = dev_present g (d_instance d)" if "d \<in> set (live rest)" for d
      using dist(2) r(3) imageI [OF that, of d_instance] by blast
    then have "bound_ok poll (g', rest)"
      using I(1) dist(1) all(1) r(2) up_cong [OF r(2)] by (simp add: bound_ok_def)
    then show ?thesis using True r(1) by (simp add: unplug_def s rest_def)
  qed (use assms in \<open>simp add: unplug_def s\<close>)
qed

interpretation bus: event_contract "hotplug poll credit" "bound_ok poll" event_ok for poll credit
proof
  fix s e assume "bound_ok poll s" "event_ok e"
  then show "\<exists>s'. hotplug poll credit s e = Some s' \<and> bound_ok poll s'" using plug_ok unplug_ok by (cases e) simp_all
qed

section \<open>Properties\<close>

text \<open>
  C37: devices that are bound at the same time have different instance numbers. From a driver without
  devices, in whatever order devices are plugged in and pulled out, whether probing them succeeds or
  not, every \<open>probe\<close> and \<open>remove\<close> returns, and the numbers of the bound devices are below the limit, marked
  in the table, and pairwise different.
\<close>

theorem hotplug_distinct:
  assumes "g_xdma_class g" "list_all event_ok es"
  shows "\<exists>g' ds. run_ops (hotplug poll credit) (g, []) es = Some (g', ds) \<and> distinct (map d_instance (live ds)) \<and>
    list_all (\<lambda>d. dev_present g' (d_instance d) \<and> d_instance d < MAX_XDMA_DEVICES) (live ds)"
proof -
  have "bound_ok poll (g, [])" using assms(1) by (simp add: bound_ok_def)
  then obtain s where "run_ops (hotplug poll credit) (g, []) es = Some s" "bound_ok poll s" using bus.run_ok assms(2) by blast
  then show ?thesis by (cases s) (auto simp: bound_ok_def list_all_iff)
qed

lemma plug_all_run: "plug_all poll credit Ks s = run_ops (hotplug poll credit) s (map (\<lambda>(K, b). Plug K b) Ks)"
proof (induction Ks arbitrary: s)
  case (Cons x Ks)
  show ?case using Cons.IH by (cases x; cases "hotplug poll credit s (Plug (fst x) (snd x))") simp_all
qed simp

lemma unplug_all_returns:
  "g_xdma_class g \<Longrightarrow> \<forall>d \<in> set (live ds). up poll g d \<Longrightarrow> \<exists>g'. unplug_all poll ds g = Some g' \<and> g_xdma_class g'"
proof (induction ds arbitrary: g)
  case (Cons od ds)
  have "\<forall>d \<in> set (live [od]). up poll g d" "\<forall>d \<in> set (live ds). up poll g d" using Cons.prems(2) by (auto split: option.splits)
  then obtain g' where r: "remove_bound poll od g = Some g'" "g_xdma_class g' = g_xdma_class g" "\<forall>d \<in> set (live ds). up poll g d"
    using remove_bound_spec [OF Cons.prems(1)] by blast
  have "\<forall>d \<in> set (live ds). up poll g' d" using r(3) up_cong [OF r(2)] by simp
  then show ?case using Cons.IH [of g'] Cons.prems(1) r(1,2) by simp
qed simp

text \<open>
  C38: loading and unloading. Loading with any devices present returns; the devices that are bound then
  have different instance numbers, but the table no longer knows any of them. Unloading returns and
  destroys the class.
\<close>

theorem init_exit:
  assumes "list_all (\<lambda>(K, b). event_ok (Plug K b)) Ks"
  shows "\<exists>g1 ds g2. xdma_init True 0 poll credit Ks g = Some (0, g1, ds) \<and> distinct (map d_instance (live ds)) \<and>
    list_all (\<lambda>i. \<not> dev_present g1 i) [0..<MAX_XDMA_DEVICES] \<and>
    xdma_exit poll (g1, ds) = Some g2 \<and> \<not> g_xdma_class g2"
proof -
  let ?g = "g\<lparr>g_xdma_class := True\<rparr>"
  have "bound_ok poll (?g, [])" by (simp add: bound_ok_def)
  moreover have "list_all event_ok (map (\<lambda>(K, b). Plug K b) Ks)" using assms by (auto simp: list_all_iff)
  ultimately obtain g0 ds where s: "plug_all poll credit Ks (?g, []) = Some (g0, ds)" "bound_ok poll (g0, ds)"
    unfolding plug_all_run using bus.run_ok by (metis surj_pair)
  define g1 where "g1 = g0\<lparr>dev_present := \<lambda>i. if i < MAX_XDMA_DEVICES then False else dev_present g0 i\<rparr>"
  have g1: "g_xdma_class g1" "\<forall>d \<in> set (live ds). up poll g1 d"
    using s(2) up_cong [of g1 g0 poll] by (simp_all add: g1_def bound_ok_def)
  obtain g2 where "unplug_all poll ds g1 = Some g2" "g_xdma_class g2" using unplug_all_returns [OF g1] by blast
  then have "xdma_exit poll (g1, ds) = Some (g2\<lparr>g_xdma_class := False\<rparr>)" by (simp add: xdma_exit_def)
  then show ?thesis using s by (auto simp: xdma_init_def g1_def list_all_iff bound_ok_def)
qed

text \<open>
  A number is handed out twice. When a device is probed while the driver is being loaded and a second
  one is plugged in later, both are instance 0, and the names made from the instance number are the same.
\<close>

theorem number_reused_after_load:
  assumes "event_ok (Plug K1 b1)" "event_ok (Plug K2 b2)" "dev_present g = (\<lambda>_. False)"
    and "xdma_init True 0 poll credit [(K1, b1)] g = Some (0, g1, [Some d1])"
    and "plug poll credit K2 b2 (g1, [Some d1]) = Some (g2, [Some d1, Some d2])"
  shows "d_instance d1 = 0 \<and> d_instance d2 = 0"
proof -
  have first: "d_instance d = 0 \<and> (\<forall>i. i \<noteq> 0 \<longrightarrow> dev_present g' i = dev_present h i)"
    if h: "g_xdma_class h" "\<forall>i < MAX_XDMA_DEVICES. \<not> dev_present h i" and K: "event_ok (Plug K b)"
      and p: "plug poll credit K b (h, ds) = Some (g', ds @ [Some d])" for h K b ds g' d
  proof -
    have "first_free (dev_present h) = 0" using h(2) by (simp add: first_free_def MAX_XDMA_DEVICES_def upt_rec)
    moreover obtain od rc g'' where "probe K poll credit b h = Some (rc, g'', od)"
      "case od of None \<Rightarrow> True | Some e \<Rightarrow> numbers_from h rc g'' e"
      using probe_spec [of K h poll credit b] K h(1) by (fastforce split: option.splits)
    ultimately show ?thesis using p by (auto simp: plug_def numbers_from_def split: if_splits)
  qed
  let ?g = "g\<lparr>g_xdma_class := True\<rparr>"
  obtain g0 where p1: "plug poll credit K1 b1 (?g, []) = Some (g0, [] @ [Some d1])"
    and g1: "g1 = g0\<lparr>dev_present := \<lambda>i. if i < MAX_XDMA_DEVICES then False else dev_present g0 i\<rparr>"
    using assms(4) by (auto simp: xdma_init_def bind_eq_Some_conv)
  obtain s' where "plug poll credit K1 b1 (?g, []) = Some s'" "bound_ok poll s'"
    using plug_ok [of poll "(?g, [])" K1 b1 credit] assms(1) by (auto simp: bound_ok_def)
  then have "g_xdma_class g0" using p1 by (auto simp: bound_ok_def)
  then show ?thesis
    using first [OF _ _ assms(1) p1] first [of g1 K2 b2 "[Some d1]" g2 d2] assms(2,3,5) by (auto simp: g1)
qed

section \<open>Witnesses\<close>

lemma demo_event: "event_ok (Plug demo_kapi demo_bus)"
proof -
  have "sane demo_kapi g" if "g_xdma_class g" for g using demo_sane(1) that by (simp add: sane_def)
  then show ?thesis by simp
qed

lemma demo_plug:
  assumes "g_xdma_class g" "\<forall>i. \<not> dev_present g i"
  shows "\<exists>g' d. plug False 1 demo_kapi demo_bus (g, ds) = Some (g', ds @ [Some d])"
proof -
  have "first_free (dev_present g) \<noteq> MAX_XDMA_DEVICES" using assms(2) by (simp add: first_free_def MAX_XDMA_DEVICES_def upt_rec)
  moreover have "sane demo_kapi g" using demo_event assms(1) by simp
  ultimately obtain g' d where "probe demo_kapi False 1 demo_bus g = Some (0, g', Some d)"
    using probe_succeeds [OF demo_sane(2) _ demo_probe(2-5) demo_cfg(1)] by blast
  then show ?thesis by (simp add: plug_def)
qed

theorem hotplug_distinct_witness:
  "\<exists>g' ds. run_ops (hotplug False 1) (demo_globals, []) [Plug demo_kapi demo_bus, Plug demo_kapi demo_bus, Unplug 0] =
     Some (g', ds) \<and> distinct (map d_instance (live ds))"
  using hotplug_distinct [of demo_globals "[Plug demo_kapi demo_bus, Plug demo_kapi demo_bus, Unplug 0]" False 1] demo_event
  by (auto simp: demo_globals_def)

theorem init_exit_witness:
  "\<exists>g1 ds g2. xdma_init True 0 False 1 [(demo_kapi, demo_bus)] demo_globals = Some (0, g1, ds) \<and>
     \<not> dev_present g1 0 \<and> xdma_exit False (g1, ds) = Some g2 \<and> \<not> g_xdma_class g2"
  using init_exit [of "[(demo_kapi, demo_bus)]" False 1 demo_globals] demo_event
  by (auto simp: list_all_iff MAX_XDMA_DEVICES_def)

theorem number_reused_after_load_witness:
  "\<exists>g1 d1 g2 d2. xdma_init True 0 False 1 [(demo_kapi, demo_bus)] demo_globals = Some (0, g1, [Some d1]) \<and>
     plug False 1 demo_kapi demo_bus (g1, [Some d1]) = Some (g2, [Some d1, Some d2]) \<and> d_instance d1 = d_instance d2"
proof -
  have g: "g_xdma_class demo_globals" "dev_present demo_globals = (\<lambda>_. False)" "demo_globals\<lparr>g_xdma_class := True\<rparr> = demo_globals"
    by (simp_all add: demo_globals_def)
  obtain g0 d1 where p: "plug False 1 demo_kapi demo_bus (demo_globals, []) = Some (g0, [Some d1])"
    using demo_plug [of demo_globals "[]"] g(1,2) by auto
  define g1 where "g1 = g0\<lparr>dev_present := \<lambda>i. if i < MAX_XDMA_DEVICES then False else dev_present g0 i\<rparr>"
  have i: "xdma_init True 0 False 1 [(demo_kapi, demo_bus)] demo_globals = Some (0, g1, [Some d1])"
    using p by (simp add: xdma_init_def g(3) g1_def)
  obtain rc g0' od where e: "probe demo_kapi False 1 demo_bus demo_globals = Some (rc, g0', od)"
    "case od of None \<Rightarrow> True | Some e \<Rightarrow> numbers_from demo_globals rc g0' e"
    using probe_spec [of demo_kapi demo_globals False 1 demo_bus] demo_event g(1) by (fastforce split: option.splits)
  then have "g0' = g0" "rc = 0" "od = Some d1" using p by (auto simp: plug_def split: if_splits)
  then have "g_xdma_class g1" "\<forall>i. \<not> dev_present g1 i"
    using e(2) g(1,2) by (auto simp: g1_def numbers_from_def)
  then obtain g2 d2 where p2: "plug False 1 demo_kapi demo_bus (g1, [Some d1]) = Some (g2, [Some d1, Some d2])"
    using demo_plug [of g1 "[Some d1]"] by auto
  show ?thesis using number_reused_after_load [OF demo_event demo_event g(2) i p2] i p2 by auto
qed

end
