(* ===== verification/Ocl.thy ===== *)
theory Ocl
  imports Device Bitstream
begin

text \<open>
  The control node of an SDAccel card, \<open>driver/xdma-ioctl.c\<close> (compiled when \<open>SD_ACCEL\<close> is switched
  on): its ioctl commands, the clock of the OpenCL region, the state of the compute units, and the
  resets. \<open>interrupts_enable\<close>, which \<open>reinit\<close> calls, is not defined anywhere in the repository; it
  is an argument here, as are the parts of the kernel.
\<close>

unbundle bit_operations_syntax

section \<open>State and registers\<close>

type_synonym u16 = "16 word"

definition ENOTTY :: int where "ENOTTY = 25"

definition OCL_CTLR_OFFSET :: u64 where "OCL_CTLR_OFFSET = 0x000000"
definition OCL_CU_CTRL_RANGE :: u64 where "OCL_CU_CTRL_RANGE = 0x1000"
definition OCL_CLKWIZ_STATUS :: u64 where "OCL_CLKWIZ_STATUS = 0x050004"
definition OCL_CLKWIZ_CONFIG :: "nat \<Rightarrow> u64" where "OCL_CLKWIZ_CONFIG n = 0x050200 + 4 * of_nat n"
definition XDMA_7V3_INPUT_FREQ :: u64 where "XDMA_7V3_INPUT_FREQ = 100"
definition XDMA_KU3_INPUT_FREQ :: u64 where "XDMA_KU3_INPUT_FREQ = 200"
definition PCI_MIN_GNT :: u64 where "PCI_MIN_GNT = 0x3e"

record xdma_ocl_clockwiz =
  ocl :: u32
  divide :: u32
  divide_frac :: u32

abbreviation clockwiz :: "u32 \<times> u32 \<times> u32 \<Rightarrow> xdma_ocl_clockwiz" where
  "clockwiz \<equiv> \<lambda>(f, d, r). \<lparr>ocl = f, divide = d, divide_frac = r\<rparr>"

definition frequency_table :: "xdma_ocl_clockwiz list" where
  "frequency_table = map clockwiz
    [(25, 0x28, 0x0), (50, 0x14, 0x0), (75, 0xd, 0x14d), (100, 0xa, 0x0), (125, 0x8, 0x0), (150, 0x6, 0x29a),
     (175, 0x5, 0x2ca), (200, 0x5, 0x0), (225, 0x4, 0x1bc), (250, 0x4, 0x0), (275, 0x3, 0x27c), (300, 0x3, 0x14d),
     (325, 0x3, 0x4c), (350, 0x2, 0x359), (375, 0x2, 0x29a), (400, 0x2, 0x1f4)]"

text \<open>
  The card: the state of the download code; the configuration space of the root port; the numbers
  of the device; the registers of the DMA engines in \<open>lro->engine\<close>; and the control node.
\<close>

record xcl_dev =
  sd :: sd_dev
  root_port :: bus
  pci_vendor :: u16
  pci_device :: u16
  subsystem_vendor :: u16
  subsystem_device :: u16
  feature_id :: u64
  x_magic :: u32
  x_engine :: "nat \<Rightarrow> nat \<Rightarrow> u64 option"
  x_user_char :: "xdma_char option"

text \<open>What the commands need from the kernel; \<open>interrupts_enable\<close> writes to the BARs.\<close>

record xcl_kernel =
  k_string :: "u32 \<Rightarrow> bool"
  k_chunk :: bool
  k_vmalloc :: bool
  k_config :: bool
  k_access_ok :: "u64 \<Rightarrow> u64 \<Rightarrow> bool"
  k_copy_out :: bool
  k_interrupts_enable :: "u32 \<Rightarrow> bus \<Rightarrow> int \<times> bus"

definition on_sd :: "(sd_dev \<Rightarrow> 'a \<times> sd_dev) \<Rightarrow> xcl_dev \<Rightarrow> 'a \<times> xcl_dev" where
  "on_sd f x = (let (r, s) = f (sd x) in (r, x\<lparr>sd := s\<rparr>))"

section \<open>Compute units\<close>

fun cu_scan :: "nat list \<Rightarrow> u32 \<Rightarrow> sd_dev \<Rightarrow> u32 \<times> sd_dev" where
  "cu_scan [] result s = (result, s)"
| "cu_scan (i # is) result s =
    (let (r, s) = srd (OCL_CTLR_OFFSET + of_nat i * OCL_CU_CTRL_RANGE) s
     in cu_scan is (if r = 0x1 then result OR push_bit i r else result) s)"

definition compute_unit_busy :: "sd_dev \<Rightarrow> u32 \<times> sd_dev" where
  "compute_unit_busy s =
    (let (r, s) = srd AXI_GATE_OFFSET_READ s in if r \<noteq> 0x3 then (0, s) else cu_scan [0..<16] 0 s)"

section \<open>The clock\<close>

definition input_freq :: "u16 \<Rightarrow> u64" where
  "input_freq device = (if device = 0x8138 then XDMA_KU3_INPUT_FREQ else XDMA_7V3_INPUT_FREQ)"

text \<open>The computation from the two configuration registers; the products are of 32-bit numbers.\<close>

definition wizard_mul :: "u32 \<Rightarrow> u32" where
  "wizard_mul val =
    (let mul0 = drop_bit 8 (val AND 0xff00);
         mul_frac0 = (if val AND push_bit 26 1 \<noteq> 0 then drop_bit 16 val AND 0x3ff else 0)
     in (mul0 * 1000 + mul_frac0) * 1000)"

definition wizard_div :: "u32 \<Rightarrow> u32 \<Rightarrow> u32" where
  "wizard_div val0 val2 =
    (let div_frac1 = (if val2 AND push_bit 18 1 \<noteq> 0 then drop_bit 8 val2 AND 0x3ff else 0);
         div1 = (val2 AND 0xff) * 1000 + div_frac1
     in (val0 AND 0xff) * 1000 * div1)"

definition wizard_freq :: "u64 \<Rightarrow> u32 \<Rightarrow> u32 \<Rightarrow> u64" where
  "wizard_freq input val0 val2 =
    (if wizard_div val0 val2 = 0 then 0 else (input * ucast (wizard_mul val0)) div ucast (wizard_div val0 val2))"

definition get_ocl_frequency :: "u16 \<Rightarrow> sd_dev \<Rightarrow> u64 \<times> sd_dev" where
  "get_ocl_frequency device s =
    (let (val, s) = srd OCL_CLKWIZ_STATUS s
     in if val AND 1 = 0 then (0, s)
        else let (val0, s) = srd (OCL_CLKWIZ_CONFIG 0) s;
                 (val2, s) = srd (OCL_CLKWIZ_CONFIG 2) s
             in (wizard_freq (input_freq device) val0 val2, s))"

text \<open>\<open>for (i = 0; i < 1000; i++)\<close> has no way out but the end: the last value read counts.\<close>

primrec lock_loop :: "nat \<Rightarrow> u32 \<Rightarrow> sd_dev \<Rightarrow> u32 \<times> sd_dev" where
  "lock_loop 0 val s = (val, s)"
| "lock_loop (Suc n) val s = (let (val, s) = srd OCL_CLKWIZ_STATUS s in lock_loop n val s)"

definition frac_config :: "xdma_ocl_clockwiz \<Rightarrow> u32" where
  "frac_config e =
    (let config = push_bit 8 (divide_frac e);
         config = (if config \<noteq> 0 then config AND push_bit 18 0x1 else config)
     in config OR divide e)"

text \<open>Between closing and opening the gate.\<close>

definition freqscaling_body :: "u16 \<Rightarrow> nat \<Rightarrow> sd_dev \<Rightarrow> int \<times> sd_dev" where
  "freqscaling_body device idx s =
    (let (val, s) = srd (OCL_CLKWIZ_CONFIG 0) s;
         (val, s) = srd (OCL_CLKWIZ_CONFIG 2) s;
         (val, s) = srd OCL_CLKWIZ_STATUS s
     in if val \<noteq> 1 then (- EBUSY, s)
        else let s = swr (if device = 0x8138 then 0x04000501 else 0x04000a01) (OCL_CLKWIZ_CONFIG 0) s;
                 s = swr (frac_config (frequency_table ! idx)) (OCL_CLKWIZ_CONFIG 2) s;
                 s = swr 0x7 (OCL_CLKWIZ_CONFIG 23) s;
                 s = swr 0x2 (OCL_CLKWIZ_CONFIG 23) s;
                 (val, s) = lock_loop 1000 val s
             in if val \<noteq> 1 then (- EINVAL, swr 0 (OCL_CLKWIZ_CONFIG 23) (swr 0x4 (OCL_CLKWIZ_CONFIG 23) s)) else (0, s))"

definition ocl_freqscaling_ioctl :: "user_mem \<Rightarrow> u64 \<Rightarrow> u16 \<Rightarrow> sd_dev \<Rightarrow> (int \<times> sd_dev) option" where
  "ocl_freqscaling_ioctl um arg device s =
    (case copy_from_user um arg 12 of
       None \<Rightarrow> Some (- EFAULT, s)
     | Some obj \<Rightarrow>
         let target = le32 obj 8;
             (val, s) = srd OCL_CLKWIZ_STATUS s
         in if val AND 0x1 = 0 then Some (- EBUSY, s)
            else let (busy, s) = compute_unit_busy s
              in if busy \<noteq> 0 then Some (- EBUSY, s)
                 else if target > 250 \<or> target < ocl (frequency_table ! 0) then Some (- EINVAL, s)
                 else do {
                   let (_, s) = get_ocl_frequency device s;
                   let idx = unat (target div ocl (frequency_table ! 0)) - 1;
                   s \<leftarrow> freezeAXIGate s;
                   let (err, s) = freqscaling_body device idx s;
                   let (_, s) = get_ocl_frequency device s;
                   s \<leftarrow> freeAXIGate s;
                   Some (err, s)
                 })"

section \<open>Information\<close>

record xdma_ioc_info =
  io_vendor :: u16
  io_device :: u16
  io_subsystem_vendor :: u16
  io_subsystem_device :: u16
  dma_engine_version :: u32
  driver_version :: u32
  io_feature_id :: u64
  ocl_frequency :: u32

text \<open>The object that is copied to the process, if that is possible.\<close>

definition version_ioctl :: "xcl_kernel \<Rightarrow> user_mem \<Rightarrow> u64 \<Rightarrow> xcl_dev \<Rightarrow> int \<times> xdma_ioc_info option \<times> xcl_dev" where
  "version_ioctl k um arg x =
    (if copy_from_user um arg 40 = None then (- EFAULT, None, x)
     else let (f, x) = on_sd (get_ocl_frequency (pci_device x)) x;
              obj = \<lparr>io_vendor = pci_vendor x, io_device = pci_device x, io_subsystem_vendor = subsystem_vendor x,
                     io_subsystem_device = subsystem_device x, dma_engine_version = 0, driver_version = 0x10000,
                     io_feature_id = feature_id x, ocl_frequency = ucast f\<rparr>
          in if \<not> k_copy_out k then (- EFAULT, None, x) else (0, Some obj, x))"

section \<open>Resets\<close>

definition reset_ocl_ioctl :: "sd_dev \<Rightarrow> (int \<times> sd_dev) option" where
  "reset_ocl_ioctl s =
    (let (busy, s) = compute_unit_busy s
     in if busy = 0 then Some (0, s)
        else do {
          s \<leftarrow> freezeAXIGate s;
          s \<leftarrow> freeAXIGate s;
          let (busy, s) = compute_unit_busy s;
          Some (if busy \<noteq> 0 then - EBUSY else 0, s)
        })"

definition engine_reinit_mask :: u32 where
  "engine_reinit_mask = XDMA_CTRL_IE_DESC_STOPPED OR XDMA_CTRL_IE_DESC_COMPLETED OR XDMA_CTRL_IE_DESC_ALIGN_MISMATCH OR
     XDMA_CTRL_IE_MAGIC_STOPPED OR XDMA_CTRL_IE_READ_ERROR OR XDMA_CTRL_IE_DESC_ERROR"

definition engine_reinit :: "u64 option \<Rightarrow> bus \<Rightarrow> bus" where
  "engine_reinit e b = (case e of None \<Rightarrow> b | Some regs \<Rightarrow> write_register engine_reinit_mask (ereg regs E_interrupt_enable_mask) b)"

definition reinit :: "xcl_kernel \<Rightarrow> xcl_dev \<Rightarrow> int \<times> xcl_dev" where
  "reinit k x =
    (let (rc, b) = k_interrupts_enable k 0x00ffffff (sd_bus (sd x));
         b = fold (\<lambda>(dir, ch). engine_reinit (x_engine x ch dir)) (List.product [0..<2] [0..<XDMA_CHANNEL_NUM_MAX]) b
     in (rc, x\<lparr>sd := (sd x)\<lparr>sd_bus := b\<rparr>\<rparr>))"

text \<open>The configuration space of the card, dword by dword.\<close>

fun read_config :: "u64 list \<Rightarrow> bus \<Rightarrow> u32 list \<times> bus" where
  "read_config [] b = ([], b)"
| "read_config (i # is) b =
    (let (v, b) = read_register i b; (vs, b) = read_config is b in (v # vs, b))"

definition write_config :: "(u64 \<times> u32) list \<Rightarrow> bus \<Rightarrow> bus" where
  "write_config = fold (\<lambda>(i, v). write_register v i)"

definition config_dwords :: "u64 list" where
  "config_dwords = map (\<lambda>i. 4 * of_nat i) [0..<0x40]"

definition on_cfg :: "(bus \<Rightarrow> 'a \<times> bus) \<Rightarrow> xcl_dev \<Rightarrow> 'a \<times> xcl_dev" where
  "on_cfg f x = (let (r, b) = f (sd_cfg (sd x)) in (r, x\<lparr>sd := (sd x)\<lparr>sd_cfg := b\<rparr>\<rparr>))"

text \<open>A difference that the last reading finds is only reported in the log.\<close>

definition reset_hot_ioctl :: "xcl_kernel \<Rightarrow> xcl_dev \<Rightarrow> int \<times> xcl_dev" where
  "reset_hot_ioctl k x =
    (if \<not> k_config k then (- ENOMEM, x)
     else let (pci_cfg, x) = on_cfg (read_config config_dwords) x;
              (hot, rp) = read_register PCI_MIN_GNT (root_port x);
              hot = hot AND 0xff;
              rp = write_register hot PCI_MIN_GNT (write_register (hot OR 0x40) PCI_MIN_GNT rp);
              x = x\<lparr>root_port := rp\<rparr>;
              (_, x) = on_cfg (\<lambda>b. ((), write_config (zip config_dwords pci_cfg) b)) x;
              (pci_cfg2, x) = on_cfg (read_config config_dwords) x
          in reinit k x)"

section \<open>The commands\<close>

definition XDMA_IOC_MAGIC :: u32 where "XDMA_IOC_MAGIC = 0x78"
definition XDMA_XCL_MAGIC :: u32 where "XDMA_XCL_MAGIC = 0x586C0C6C"

definition IOC_DIR :: "u32 \<Rightarrow> u32" where "IOC_DIR cmd = drop_bit 30 cmd AND 0x3"
definition IOC_TYPE :: "u32 \<Rightarrow> u32" where "IOC_TYPE cmd = drop_bit 8 cmd AND 0xff"
definition IOC_SIZE :: "u32 \<Rightarrow> u32" where "IOC_SIZE cmd = drop_bit 16 cmd AND 0x3fff"

definition IOC :: "u32 \<Rightarrow> u32 \<Rightarrow> u32 \<Rightarrow> u32 \<Rightarrow> u32" where
  "IOC d t nr sz = push_bit 30 d OR push_bit 8 t OR nr OR push_bit 16 sz"

definition XDMA_IOCINFO :: u32 where "XDMA_IOCINFO = IOC 3 XDMA_IOC_MAGIC 1 40"
definition XDMA_IOCICAP :: u32 where "XDMA_IOCICAP = IOC 1 XDMA_IOC_MAGIC 2 16"
definition XDMA_IOCMCAP :: u32 where "XDMA_IOCMCAP = IOC 1 XDMA_IOC_MAGIC 3 16"
definition XDMA_IOCHOTRESET :: u32 where "XDMA_IOCHOTRESET = IOC 1 XDMA_IOC_MAGIC 4 8"
definition XDMA_IOCOCLRESET :: u32 where "XDMA_IOCOCLRESET = IOC 1 XDMA_IOC_MAGIC 5 8"
definition XDMA_IOCFREQSCALING :: u32 where "XDMA_IOCFREQSCALING = IOC 3 XDMA_IOC_MAGIC 6 12"

text \<open>The switch over the commands.\<close>

definition xcl_command ::
  "xcl_kernel \<Rightarrow> user_mem \<Rightarrow> u32 \<Rightarrow> u64 \<Rightarrow> xcl_dev \<Rightarrow> (int \<times> xdma_ioc_info option \<times> xcl_dev) option" where
  "xcl_command k um cmd arg x =
    (let ret = map_option (\<lambda>(rc, s). (rc, None, x\<lparr>sd := s\<rparr>));
         download = (\<lambda>c. bitstream_ioctl (k_string k) (k_chunk k) (k_vmalloc k) (k_access_ok k) um c arg (sd x))
     in if cmd = XDMA_IOCINFO then Some (version_ioctl k um arg x)
        else if cmd = XDMA_IOCICAP then ret (download XDMA_IOCICAPDOWNLOAD)
        else if cmd = XDMA_IOCMCAP then ret (download XDMA_IOCMCAPDOWNLOAD)
        else if cmd = XDMA_IOCOCLRESET then ret (reset_ocl_ioctl (sd x))
        else if cmd = XDMA_IOCHOTRESET then (let (rc, x) = reset_hot_ioctl k x in Some (rc, None, x))
        else if cmd = XDMA_IOCFREQSCALING then ret (ocl_freqscaling_ioctl um arg (pci_device x) (sd x))
        else Some (- ENOTTY, None, x))"

definition char_ctrl_ioctl ::
  "xcl_kernel \<Rightarrow> user_mem \<Rightarrow> xdma_char \<Rightarrow> u32 \<Rightarrow> u64 \<Rightarrow> xcl_dev \<Rightarrow> (int \<times> xdma_ioc_info option \<times> xcl_dev) option" where
  "char_ctrl_ioctl k um lro_char cmd arg x = do {
     BUG_ON (c_magic lro_char \<noteq> MAGIC_CHAR);
     BUG_ON (x_magic x \<noteq> MAGIC_DEVICE);
     (if Some lro_char \<noteq> x_user_char x then Some (- ENOTTY, None, x)
      else if IOC_TYPE cmd \<noteq> XDMA_IOC_MAGIC then Some (- ENOTTY, None, x)
      else if IOC_DIR cmd AND 3 \<noteq> 0 \<and> \<not> k_access_ok k arg (ucast (IOC_SIZE cmd)) then Some (- EFAULT, None, x)
      else case copy_from_user um arg 8 of
        None \<Rightarrow> Some (- EFAULT, None, x)
      | Some obj \<Rightarrow>
          if le32 obj 0 \<noteq> XDMA_XCL_MAGIC then Some (- ENOTTY, None, x) else xcl_command k um cmd arg x)
   }"

definition reset_device_if_running :: "xcl_kernel \<Rightarrow> xcl_dev \<Rightarrow> (int \<times> xcl_dev) option" where
  "reset_device_if_running k x =
    (let (busy, x) = on_sd compute_unit_busy x
     in if busy = 0 then Some (0, x)
        else do {
          (rc, s) \<leftarrow> reset_ocl_ioctl (sd x);
          let x = x\<lparr>sd := s\<rparr>;
          Some (if rc = 0 then (0, x) else reset_hot_ioctl k x)
        })"

section \<open>Reading leaves no trace\<close>

text \<open>The gate and what was written are as before.\<close>

definition quiet :: "sd_dev \<Rightarrow> sd_dev \<Rightarrow> bool" where
  "quiet s s' \<longleftrightarrow> gate_of s' = gate_of s \<and> writes (sd_bus s') = writes (sd_bus s)"

lemma quiet_refl [simp]: "quiet s s"
  by (simp add: quiet_def)

lemma quiet_trans: "quiet s t \<Longrightarrow> quiet t u \<Longrightarrow> quiet s u"
  by (simp add: quiet_def)

lemma quiet_srd: "srd off s = (v, t) \<Longrightarrow> quiet s t"
  using gate_prims(1) [of off s] by (auto simp: quiet_def srd_def Let_def split_beta)

lemma quiet_cu_scan: "cu_scan is r s = (v, t) \<Longrightarrow> quiet s t"
proof (induction "is" r s rule: cu_scan.induct)
  case (2 i "is" result s)
  obtain r u where u: "srd (OCL_CTLR_OFFSET + of_nat i * OCL_CU_CTRL_RANGE) s = (r, u)" by fastforce
  show ?case using quiet_trans [OF quiet_srd [OF u]] "2.IH" [OF u [symmetric] refl] "2.prems" by (simp add: u)
qed simp

lemma quiet_compute_unit_busy: "compute_unit_busy s = (v, t) \<Longrightarrow> quiet s t"
  by (auto simp: compute_unit_busy_def Let_def split: prod.splits if_splits dest: quiet_srd quiet_cu_scan intro: quiet_trans)

lemma quiet_get_ocl_frequency: "get_ocl_frequency d s = (v, t) \<Longrightarrow> quiet s t"
  unfolding get_ocl_frequency_def Let_def
  by (auto split: prod.splits if_splits dest!: quiet_srd intro: quiet_trans)

lemma quiet_lock_loop: "lock_loop n r s = (v, t) \<Longrightarrow> quiet s t"
proof (induction n arbitrary: r s)
  case (Suc n)
  obtain w u where u: "srd OCL_CLKWIZ_STATUS s = (w, u)" by fastforce
  show ?case using quiet_trans [OF quiet_srd [OF u]] Suc.IH [of w u] Suc.prems by (simp add: u)
qed simp

text \<open>What closing and opening the gate write, and when they return.\<close>

definition at_bar :: "sd_dev \<Rightarrow> (u64 \<times> u32) list \<Rightarrow> (u64 \<times> u32) list" where
  "at_bar s = map (\<lambda>(off, v). (user_bar s + off, v))"

definition told :: "sd_dev \<Rightarrow> (u64 \<times> u32) list \<Rightarrow> sd_dev \<Rightarrow> bool" where
  "told s ws s' \<longleftrightarrow> user_bar s' = user_bar s \<and> writes (sd_bus s') = writes (sd_bus s) @ at_bar s ws"

lemma told_trans: "told s ws t \<Longrightarrow> told t ws' u \<Longrightarrow> told s (ws @ ws') u"
  by (simp add: told_def at_bar_def)

lemma told_quiet: "quiet s t \<Longrightarrow> told s [] t"
  by (simp add: told_def quiet_def at_bar_def gate_of_def)

lemma told_srd: "srd off s = (v, t) \<Longrightarrow> told s [] t"
  by (rule told_quiet [OF quiet_srd])

lemma told_swr: "told s [(off, v)] (swr v off s)"
  by (simp add: told_def swr_def at_bar_def)

lemma freeze_spec:
  assumes "\<not> axi_gate_frozen s"
  shows "\<exists>s'. freezeAXIGate s = Some s' \<and> axi_gate_frozen s' \<and> told s [(AXI_GATE_OFFSET, 0)] s'"
proof -
  obtain a t where a: "srd AXI_GATE_OFFSET_READ s = (a, t)" by fastforce
  obtain b u where b: "srd AXI_GATE_OFFSET_READ (swr 0 AXI_GATE_OFFSET t) = (b, u)" by fastforce
  have "told s [(AXI_GATE_OFFSET, 0)] u"
    using told_trans [OF told_trans [OF told_srd [OF a] told_swr] told_srd [OF b]] by simp
  then show ?thesis using assms by (simp add: freezeAXIGate_def a b) (simp add: told_def)
qed

lemma free_spec:
  assumes "axi_gate_frozen s"
  shows "\<exists>s'. freeAXIGate s = Some s' \<and> \<not> axi_gate_frozen s' \<and>
    told s [(AXI_GATE_OFFSET, 2), (AXI_GATE_OFFSET, 0), (AXI_GATE_OFFSET, 2), (AXI_GATE_OFFSET, 3)] s'"
proof -
  obtain v1 t1 where a1: "srd AXI_GATE_OFFSET_READ s = (v1, t1)" by fastforce
  obtain v2 t2 where a2: "srd AXI_GATE_OFFSET_READ (swr 2 AXI_GATE_OFFSET t1) = (v2, t2)" by fastforce
  obtain v3 t3 where a3: "srd AXI_GATE_OFFSET_READ (swr 0 AXI_GATE_OFFSET t2) = (v3, t3)" by fastforce
  obtain v4 t4 where a4: "srd AXI_GATE_OFFSET_READ (swr 2 AXI_GATE_OFFSET t3) = (v4, t4)" by fastforce
  obtain v5 t5 where a5: "srd AXI_GATE_OFFSET_READ (swr 3 AXI_GATE_OFFSET t4) = (v5, t5)" by fastforce
  note step = told_trans [OF told_swr told_srd]
  have "told s [(AXI_GATE_OFFSET, 2), (AXI_GATE_OFFSET, 0), (AXI_GATE_OFFSET, 2), (AXI_GATE_OFFSET, 3)] t5"
    using told_trans [OF told_srd [OF a1] told_trans [OF step [OF a2] told_trans [OF step [OF a3] told_trans [OF step [OF a4] step [OF a5]]]]]
    by simp
  then show ?thesis using assms by (simp add: freeAXIGate_def a1 a2 a3 a4 a5) (simp add: told_def)
qed

section \<open>Setting the clock\<close>

definition base_config :: "u16 \<Rightarrow> u32" where
  "base_config device = (if device = 0x8138 then 0x04000501 else 0x04000a01)"

text \<open>The writes of a setting: of the two registers, to load them, and to go back if there is no lock.\<close>

definition clock_writes :: "u16 \<Rightarrow> nat \<Rightarrow> (u64 \<times> u32) list" where
  "clock_writes device idx =
    [(OCL_CLKWIZ_CONFIG 0, base_config device), (OCL_CLKWIZ_CONFIG 2, frac_config (frequency_table ! idx)),
     (OCL_CLKWIZ_CONFIG 23, 0x7), (OCL_CLKWIZ_CONFIG 23, 0x2)]"

lemma freqscaling_body_spec:
  obtains rc s' ws where "freqscaling_body device idx s = (rc, s')" "gate_of s' = gate_of s" "told s ws s'"
    "rc = 0 \<Longrightarrow> ws = clock_writes device idx"
proof -
  obtain v1 t1 where a1: "srd (OCL_CLKWIZ_CONFIG 0) s = (v1, t1)" by fastforce
  obtain v2 t2 where a2: "srd (OCL_CLKWIZ_CONFIG 2) t1 = (v2, t2)" by fastforce
  obtain v3 t3 where a3: "srd OCL_CLKWIZ_STATUS t2 = (v3, t3)" by fastforce
  have q: "quiet s t3" using quiet_trans [OF quiet_trans [OF quiet_srd [OF a1] quiet_srd [OF a2]] quiet_srd [OF a3]] .
  show ?thesis
  proof (cases "v3 = 1")
    case False
    then show ?thesis using that [of "- EBUSY" t3 "[]"] q told_quiet [OF q]
      by (simp add: freqscaling_body_def a1 a2 a3 quiet_def EBUSY_def)
  next
    case True
    let ?t = "swr 0x2 (OCL_CLKWIZ_CONFIG 23) (swr 0x7 (OCL_CLKWIZ_CONFIG 23)
      (swr (frac_config (frequency_table ! idx)) (OCL_CLKWIZ_CONFIG 2) (swr (base_config device) (OCL_CLKWIZ_CONFIG 0) t3)))"
    obtain v u where l: "lock_loop 1000 v3 ?t = (v, u)" by fastforce
    have g: "gate_of u = gate_of s" using quiet_lock_loop [OF l] q by (simp add: quiet_def gate_prims)
    have w: "told s (clock_writes device idx) u"
      using told_trans [OF told_quiet [OF q] told_trans [OF told_swr told_trans [OF told_swr told_trans [OF told_swr
        told_trans [OF told_swr told_quiet [OF quiet_lock_loop [OF l]]]]]]] by (simp add: clock_writes_def)
    let ?w = "swr 0 (OCL_CLKWIZ_CONFIG 23) (swr 0x4 (OCL_CLKWIZ_CONFIG 23) u)"
    have w': "told s (clock_writes device idx @ [(OCL_CLKWIZ_CONFIG 23, 4)] @ [(OCL_CLKWIZ_CONFIG 23, 0)]) ?w"
      using told_trans [OF w told_trans [OF told_swr told_swr]] by simp
    have e: "freqscaling_body device idx s = (if v \<noteq> 1 then (- EINVAL, ?w) else (0, u))"
      using True l by (simp add: freqscaling_body_def a1 a2 a3 base_config_def)
    show ?thesis
    proof (cases "v = 1")
      case True
      then show ?thesis using that [of 0 u "clock_writes device idx"] e g w by simp
    next
      case False
      then show ?thesis using that [OF _ _ w', of "- EINVAL"] e g by (simp add: gate_prims EINVAL_def)
    qed
  qed
qed

definition gate_close :: "(u64 \<times> u32) list" where
  "gate_close = [(AXI_GATE_OFFSET, 0)]"

definition gate_open :: "(u64 \<times> u32) list" where
  "gate_open = [(AXI_GATE_OFFSET, 2), (AXI_GATE_OFFSET, 0), (AXI_GATE_OFFSET, 2), (AXI_GATE_OFFSET, 3)]"

lemma freqscaling_spec:
  assumes "\<not> axi_gate_frozen s"
  obtains rc s' where "ocl_freqscaling_ioctl um arg device s = Some (rc, s')" "\<not> axi_gate_frozen s'"
    "rc = 0 \<Longrightarrow> \<exists>obj. copy_from_user um arg 12 = Some obj \<and> 25 \<le> le32 obj 8 \<and> le32 obj 8 \<le> 250 \<and>
      told s (gate_close @ clock_writes device (unat (le32 obj 8 div 25) - 1) @ gate_open) s'"
proof (cases "copy_from_user um arg 12")
  case None
  then show ?thesis using that assms by (simp add: ocl_freqscaling_ioctl_def EFAULT_def)
next
  case (Some obj)
  let ?t = "le32 obj 8"
  have ocl0: "ocl (frequency_table ! 0) = 25" by (simp add: frequency_table_def)
  obtain v s1 where a1: "srd OCL_CLKWIZ_STATUS s = (v, s1)" by fastforce
  obtain b s2 where a2: "compute_unit_busy s1 = (b, s2)" by fastforce
  obtain f s3 where a3: "get_ocl_frequency device s2 = (f, s3)" by fastforce
  have q1: "quiet s s1" and q2: "quiet s s2" and q3: "quiet s s3"
    using quiet_srd [OF a1] quiet_compute_unit_busy [OF a2] quiet_get_ocl_frequency [OF a3] by (auto intro: quiet_trans)
  note unfold = ocl_freqscaling_ioctl_def Some option.case Let_def a1 a2 a3 prod.case ocl0
  show ?thesis
  proof (cases "v AND 1 = 0 \<or> b \<noteq> 0 \<or> ?t > 250 \<or> ?t < 25")
    case True
    then obtain rc t where "ocl_freqscaling_ioctl um arg device s = Some (rc, t)" "rc \<noteq> 0" "quiet s t"
      using q1 q2 unfolding unfold by (cases "v AND 1 = 0"; cases "b = 0"; auto simp: EBUSY_def EINVAL_def)
    then show ?thesis using that assms by (auto simp: quiet_def gate_of_def)
  next
    case False
    let ?idx = "unat (?t div 25) - 1"
    have "\<not> axi_gate_frozen s3" using q3 assms by (simp add: quiet_def gate_of_def)
    from freeze_spec [OF this] obtain s4 where a4: "freezeAXIGate s3 = Some s4" "axi_gate_frozen s4" "told s3 gate_close s4"
      unfolding gate_close_def by blast
    obtain rc s5 ws where a5: "freqscaling_body device ?idx s4 = (rc, s5)" "gate_of s5 = gate_of s4" "told s4 ws s5"
      "rc = 0 \<Longrightarrow> ws = clock_writes device ?idx" using freqscaling_body_spec [of device ?idx s4] by metis
    obtain f' s6 where a6: "get_ocl_frequency device s5 = (f', s6)" by fastforce
    have "axi_gate_frozen s6" using quiet_get_ocl_frequency [OF a6] a5(2) a4(2) by (simp add: quiet_def gate_of_def)
    from free_spec [OF this] obtain s7 where a7: "freeAXIGate s6 = Some s7" "\<not> axi_gate_frozen s7" "told s6 gate_open s7"
      unfolding gate_open_def by blast
    have w: "told s (gate_close @ ws @ gate_open) s7"
      using told_trans [OF told_quiet [OF q3] told_trans [OF a4(3) told_trans [OF a5(3)
        told_trans [OF told_quiet [OF quiet_get_ocl_frequency [OF a6]] a7(3)]]]] by simp
    have "ocl_freqscaling_ioctl um arg device s = Some (rc, s7)"
      using False a4(1) a5(1) a6 a7(1) unfolding unfold by simp
    then show ?thesis using that a7(2) a5(4) w False Some by (auto simp: not_less)
  qed
qed

text \<open>The entries that can be asked for, and the frequency that the driver itself computes from what it wrote.\<close>

lemma clock_entry:
  fixes d :: u16
  assumes "i < 10"
  defines "e \<equiv> frequency_table ! i" and "f \<equiv> wizard_freq (input_freq d) (base_config d) (divide (frequency_table ! i))"
  shows "frac_config e = divide e \<and> f = 1000 div ucast (divide e) \<and> ucast (ocl e) \<le> f \<and> (f = ucast (ocl e) \<longleftrightarrow> divide_frac e = 0)"
proof -
  have "i \<in> set [0, 1, 2, 3, 4, 5, 6, 7, 8, 9]" using assms(1) by auto
  then show ?thesis by (auto simp: e_def f_def frequency_table_def frac_config_def wizard_freq_def wizard_div_def wizard_mul_def
     base_config_def input_freq_def XDMA_KU3_INPUT_FREQ_def XDMA_7V3_INPUT_FREQ_def)
qed

lemma clock_index: "25 \<le> t \<Longrightarrow> t \<le> 250 \<Longrightarrow> unat (t div 25) - 1 < 10" for t :: u32
  by (simp add: word_le_nat_alt unat_div)

lemma set_clock:
  assumes "\<not> axi_gate_frozen s" "ocl_freqscaling_ioctl um arg device s = Some (0, s')"
  obtains obj where "copy_from_user um arg 12 = Some obj" "25 \<le> le32 obj 8" "le32 obj 8 \<le> 250" "\<not> axi_gate_frozen s'"
    "told s (gate_close @ clock_writes device (unat (le32 obj 8 div 25) - 1) @ gate_open) s'"
proof (rule freqscaling_spec [OF assms(1), of um arg device])
  fix rc t
  assume "ocl_freqscaling_ioctl um arg device s = Some (rc, t)" "\<not> axi_gate_frozen t"
    "rc = 0 \<Longrightarrow> \<exists>obj. copy_from_user um arg 12 = Some obj \<and> 25 \<le> le32 obj 8 \<and> le32 obj 8 \<le> 250 \<and>
      told s (gate_close @ clock_writes device (unat (le32 obj 8 div 25) - 1) @ gate_open) t"
  then show thesis using assms(2) that by auto
qed

text \<open>A card that answers: not isolated or without work, with a clock that is locked.\<close>

definition locked :: "sd_dev \<Rightarrow> bool" where
  "locked s \<longleftrightarrow> (\<forall>h. resp (sd_bus s) h (user_bar s + OCL_CLKWIZ_STATUS) = 1 \<and>
     resp (sd_bus s) h (user_bar s + AXI_GATE_OFFSET_READ) \<noteq> 3)"

lemma locked_same: "same_dev s t \<Longrightarrow> locked t = locked s"
  by (simp add: locked_def same_dev_def gate_of_def)

lemma locked_reads:
  assumes "locked s"
  shows "\<exists>t. srd OCL_CLKWIZ_STATUS s = (1, t) \<and> locked t" "\<exists>t. compute_unit_busy s = (0, t) \<and> locked t"
    "srd off s = (v, t) \<Longrightarrow> locked t" "locked (swr v off s)"
proof -
  have r: "srd off s = (v, t) \<Longrightarrow> locked t" for off v t
    using locked_same [OF same_dev_prims(1), of off s] assms by simp
  show "srd off s = (v, t) \<Longrightarrow> locked t" by (rule r)
  show "\<exists>t. srd OCL_CLKWIZ_STATUS s = (1, t) \<and> locked t"
    using assms r [of OCL_CLKWIZ_STATUS] by (auto simp: srd_def read_register_def locked_def Let_def)
  obtain g t where g: "srd AXI_GATE_OFFSET_READ s = (g, t)" by fastforce
  have "g \<noteq> 3" using g assms by (auto simp: srd_def read_register_def locked_def Let_def)
  then show "\<exists>t. compute_unit_busy s = (0, t) \<and> locked t" using g r [OF g] by (simp add: compute_unit_busy_def)
  show "locked (swr v off s)" using locked_same [OF same_dev_prims(2)] assms by simp
qed

lemma lock_loop_locked: "locked s \<Longrightarrow> n \<noteq> 0 \<or> r = 1 \<Longrightarrow> fst (lock_loop n r s) = 1"
proof (induction n arbitrary: r s)
  case (Suc n)
  obtain t where "srd OCL_CLKWIZ_STATUS s = (1, t)" "locked t" using locked_reads(1) [OF Suc.prems(1)] by blast
  then show ?case using Suc.IH [of t 1] by simp
qed simp

lemma body_locked:
  assumes "locked s"
  shows "fst (freqscaling_body device idx s) = 0"
proof -
  obtain v1 t1 where a1: "srd (OCL_CLKWIZ_CONFIG 0) s = (v1, t1)" by fastforce
  obtain v2 t2 where a2: "srd (OCL_CLKWIZ_CONFIG 2) t1 = (v2, t2)" by fastforce
  have t2: "locked t2" by (rule locked_reads(3) [OF locked_reads(3) [OF assms a1] a2])
  obtain t3 where a3: "srd OCL_CLKWIZ_STATUS t2 = (1, t3)" "locked t3" using locked_reads(1) [OF t2] by blast
  let ?t = "swr 0x2 (OCL_CLKWIZ_CONFIG 23) (swr 0x7 (OCL_CLKWIZ_CONFIG 23)
      (swr (frac_config (frequency_table ! idx)) (OCL_CLKWIZ_CONFIG 2)
        (swr (if device = 0x8138 then 0x04000501 else 0x04000a01) (OCL_CLKWIZ_CONFIG 0) t3)))"
  have "locked ?t" by (intro locked_reads(4) a3(2))
  then have "fst (lock_loop 1000 1 ?t) = 1" by (rule lock_loop_locked) simp
  then show ?thesis by (simp add: freqscaling_body_def a1 a2 a3(1) split_beta)
qed

section \<open>Reading the clock\<close>

text \<open>The multiplier and the divider in thousandths, without a limit.\<close>

definition mul_thousandths :: "u32 \<Rightarrow> nat" where
  "mul_thousandths val0 =
    1000 * unat (drop_bit 8 val0 AND 0xff) + (if bit val0 26 then unat (drop_bit 16 val0 AND 0x3ff) else 0)"

definition div_thousandths :: "u32 \<Rightarrow> nat" where
  "div_thousandths val2 =
    1000 * unat (val2 AND 0xff) + (if bit val2 18 then unat (drop_bit 8 val2 AND 0x3ff) else 0)"

lemma wizard_bits: "(v AND 0x4000000 = 0) = (\<not> bit v 26)" "(v AND 0x40000 = 0) = (\<not> bit v 18)" for v :: u32
  using and_exp_eq_0_iff_not_bit [of v 26] and_exp_eq_0_iff_not_bit [of v 18] by simp_all

lemma unat_and_mask: "unat (v AND 0xff) \<le> 255" "unat (v AND 0x3ff) \<le> 1023" for v :: u32
proof -
  have "v AND 0xff \<le> 0xff" "v AND 0x3ff \<le> 0x3ff" by (rule word_and_le1)+
  then show "unat (v AND 0xff) \<le> 255" "unat (v AND 0x3ff) \<le> 1023" by (simp_all add: word_le_nat_alt)
qed

lemma unat_wizard_mul: "unat (wizard_mul val0) = 1000 * mul_thousandths val0"
proof -
  have "drop_bit 8 (0xff00 :: u32) = 0xff" by code_simp
  then have e: "drop_bit 8 (val0 AND 0xff00) = drop_bit 8 val0 AND 0xff" by (simp only: drop_bit_and)
  have b: "unat (drop_bit 8 val0 AND 0xff) \<le> 255" "unat (drop_bit 16 val0 AND 0x3ff) \<le> 1023" by (rule unat_and_mask)+
  have w: "wizard_mul val0 = of_nat (1000 * mul_thousandths val0)"
    unfolding wizard_mul_def Let_def e by (simp add: mul_thousandths_def wizard_bits algebra_simps)
  have "1000 * mul_thousandths val0 < 2 ^ 32" using b by (simp add: mul_thousandths_def)
  then show ?thesis unfolding w unsigned_of_nat by (simp add: take_bit_nat_eq_self)
qed

lemma wizard_div_thousandths: "wizard_div val0 val2 = of_nat (1000 * unat (val0 AND 0xff) * div_thousandths val2)"
  by (simp add: wizard_div_def div_thousandths_def Let_def wizard_bits algebra_simps)

lemma wizard_freq_spec:
  assumes "1000 * unat (val0 AND 0xff) * div_thousandths val2 < 2 ^ 32" "unat input < 2 ^ 32"
  shows "unat (wizard_freq input val0 val2) =
    (unat input * (1000 * mul_thousandths val0)) div (1000 * unat (val0 AND 0xff) * div_thousandths val2)"
proof -
  have d: "unat (wizard_div val0 val2) = 1000 * unat (val0 AND 0xff) * div_thousandths val2"
    using assms(1) unfolding wizard_div_thousandths unsigned_of_nat by (simp add: take_bit_nat_eq_self)
  have "unat input * unat (wizard_mul val0) < 2 ^ 32 * 2 ^ 32"
    using assms(2) unsigned_less [of "wizard_mul val0", where ?'a = nat] by (intro mult_strict_mono) auto
  then have m: "unat (input * ucast (wizard_mul val0)) = unat input * (1000 * mul_thousandths val0)"
    by (simp add: unat_word_ariths unat_up unat_wizard_mul)
  have z: "(wizard_div val0 val2 = 0) = (unat (wizard_div val0 val2) = 0)" by (simp add: unat_eq_zero)
  show ?thesis unfolding wizard_freq_def z by (auto simp: d unat_div unat_up m)
qed

section \<open>The gate over all commands\<close>

lemma gate_reinit: "axi_gate_frozen (sd (snd (reinit k x))) = axi_gate_frozen (sd x)"
  by (simp add: reinit_def Let_def split_beta)

lemma gate_reset_hot: "axi_gate_frozen (sd (snd (reset_hot_ioctl k x))) = axi_gate_frozen (sd x)"
  by (simp add: reset_hot_ioctl_def Let_def split_beta gate_reinit on_cfg_def)

lemma gate_version: "axi_gate_frozen (sd (snd (snd (version_ioctl k um arg x)))) = axi_gate_frozen (sd x)"
proof -
  obtain f t where f: "get_ocl_frequency (pci_device x) (sd x) = (f, t)" by fastforce
  have "axi_gate_frozen t = axi_gate_frozen (sd x)" using quiet_get_ocl_frequency [OF f] by (simp add: quiet_def gate_of_def)
  then show ?thesis by (simp add: version_ioctl_def Let_def on_sd_def f)
qed

lemma reset_ocl_spec:
  assumes "\<not> axi_gate_frozen s"
  obtains rc s' where "reset_ocl_ioctl s = Some (rc, s')" "\<not> axi_gate_frozen s'"
proof -
  obtain b t where b: "compute_unit_busy s = (b, t)" by fastforce
  have t: "\<not> axi_gate_frozen t" using quiet_compute_unit_busy [OF b] assms by (simp add: quiet_def gate_of_def)
  obtain u where u: "freezeAXIGate t = Some u" "axi_gate_frozen u" using freeze_spec [OF t] by blast
  obtain w where w: "freeAXIGate u = Some w" "\<not> axi_gate_frozen w" using free_spec [OF u(2)] by blast
  obtain c y where y: "compute_unit_busy w = (c, y)" by fastforce
  have "\<not> axi_gate_frozen y" using quiet_compute_unit_busy [OF y] w(2) by (simp add: quiet_def gate_of_def)
  then show ?thesis using that t by (cases "b = 0") (simp_all add: reset_ocl_ioctl_def b u(1) w(1) y)
qed

lemma command_gate:
  assumes call: "xcl_command k um cmd arg x = Some (rc, out, x')" and open_gate: "\<not> axi_gate_frozen (sd x)"
  shows "\<not> axi_gate_frozen (sd x')"
proof -
  have part: "\<not> axi_gate_frozen (sd x')"
    if "map_option (\<lambda>(rc, s). (rc, None, x\<lparr>sd := s\<rparr>)) r = Some (rc, out, x')" "\<And>rc s'. r = Some (rc, s') \<Longrightarrow> \<not> axi_gate_frozen s'" for r
    using that by auto
  have icap: "\<not> axi_gate_frozen s'"
    if "bitstream_ioctl (k_string k) (k_chunk k) (k_vmalloc k) (k_access_ok k) um c arg (sd x) = Some (y, s')" for c y s'
    by (rule bitstream_ioctl_gate [OF that open_gate])
  have reset: "\<not> axi_gate_frozen s'" if "reset_ocl_ioctl (sd x) = Some (y, s')" for y s'
    by (rule reset_ocl_spec [OF open_gate]) (use that in simp)
  have clock: "\<not> axi_gate_frozen s'" if "ocl_freqscaling_ioctl um arg (pci_device x) (sd x) = Some (y, s')" for y s'
    by (rule freqscaling_spec [OF open_gate, of um arg "pci_device x"]) (use that in simp)
  note unfold = xcl_command_def Let_def
  show ?thesis
  proof (cases "cmd = XDMA_IOCINFO \<or> cmd = XDMA_IOCHOTRESET")
    case True
    then show ?thesis using call gate_version [of k um arg x] gate_reset_hot [of k x] open_gate
      by (auto simp: unfold split_beta dest: icap reset split: if_splits)
  next
    case False
    then show ?thesis using call part [OF _ icap] part [OF _ reset] part [OF _ clock] open_gate
      unfolding unfold by (auto split: if_split_asm simp del: map_option_eq_Some)
  qed
qed

lemma char_ctrl_gate:
  assumes "char_ctrl_ioctl k um c cmd arg x = Some (rc, out, x')" "\<not> axi_gate_frozen (sd x)"
  shows "\<not> axi_gate_frozen (sd x')"
proof -
  have "x' = x \<or> xcl_command k um cmd arg x = Some (rc, out, x')"
    using assms(1) by (auto simp: char_ctrl_ioctl_def split: if_splits option.splits)
  then show ?thesis using command_gate assms(2) by blast
qed

section \<open>The hot reset\<close>

lemma read_config_writes [simp]: "writes (snd (read_config is b)) = writes b"
proof (induction "is" b rule: read_config.induct)
  case (2 i "is" b)
  obtain v c where c: "read_register i b = (v, c)" by fastforce
  have "writes c = writes b" using writes_read [of i b] by (simp add: c)
  then show ?case using "2.IH" [OF c [symmetric] refl] by (simp add: c split_beta)
qed simp

lemma length_read_config [simp]: "length (fst (read_config is b)) = length is"
  by (induction "is" arbitrary: b) (simp_all add: split_beta)

lemma writes_write_config: "writes (write_config vs b) = writes b @ vs"
  by (induction vs arbitrary: b) (auto simp: write_config_def)

lemma distinct_config_dwords: "distinct config_dwords" "length config_dwords = 0x40"
proof -
  show "length config_dwords = 0x40" by (simp add: config_dwords_def)
  have "inj_on (\<lambda>i. 4 * of_nat i :: u64) {0..<0x40}"
  proof (rule inj_on_inverseI)
    fix i :: nat
    assume "i \<in> {0..<0x40}"
    then have "4 * i < 2 ^ 64" by simp
    then have "unat (of_nat (4 * i) :: u64) = 4 * i" unfolding unsigned_of_nat by (simp add: take_bit_nat_eq_self)
    then show "unat (4 * of_nat i :: u64) div 4 = i" by simp
  qed
  then show "distinct config_dwords" by (simp add: config_dwords_def distinct_map)
qed

lemma reset_hot_spec:
  fixes x :: xcl_dev
  assumes "k_config k"
  defines "saved \<equiv> fst (read_config config_dwords (sd_cfg (sd x)))" and "hot \<equiv> fst (read_register PCI_MIN_GNT (root_port x)) AND 0xff"
  shows "writes (sd_cfg (sd (snd (reset_hot_ioctl k x)))) = writes (sd_cfg (sd x)) @ zip config_dwords saved"
    and "writes (root_port (snd (reset_hot_ioctl k x))) = writes (root_port x) @ [(PCI_MIN_GNT, hot OR 0x40), (PCI_MIN_GNT, hot)]"
  using assms(1)
  by (simp_all add: reset_hot_ioctl_def Let_def split_beta reinit_def on_cfg_def writes_write_config saved_def hot_def)

text \<open>The last value written to each dword is the one that was read first.\<close>

lemma reset_hot_restores:
  assumes "k_config k" "i < 0x40"
  shows "last_write (sd_cfg (sd (snd (reset_hot_ioctl k x)))) (config_dwords ! i) = Some (fst (read_config config_dwords (sd_cfg (sd x))) ! i)"
proof -
  let ?z = "zip config_dwords (fst (read_config config_dwords (sd_cfg (sd x))))"
  have "distinct (map fst (rev ?z))" using distinct_config_dwords by (simp add: rev_map [symmetric])
  moreover have "?z ! i \<in> set (rev ?z)" using assms(2) distinct_config_dwords(2) by (simp del: nth_zip)
  ultimately have "map_of (rev ?z) (config_dwords ! i) = Some (fst (read_config config_dwords (sd_cfg (sd x))) ! i)"
    using assms(2) distinct_config_dwords(2) by (simp add: map_of_is_SomeI)
  then show ?thesis by (simp add: last_write_def reset_hot_spec(1) [OF assms(1)] map_add_Some_iff)
qed

section \<open>Properties\<close>

text \<open>
  C31: whatever the process asks for, the gate is open afterwards. Every command of the control node
  that starts with an open gate and returns leaves it open, on all paths: a download closes it and
  opens it again whether or not the bitstream could be written, and so do setting the clock and the
  reset of the OpenCL region.
\<close>

theorem char_ctrl_ioctl_gate:
  assumes "char_ctrl_ioctl k um lro_char cmd arg x = Some (rc, out, x')" "\<not> axi_gate_frozen (sd x)"
  shows "\<not> axi_gate_frozen (sd x')"
  by (rule char_ctrl_gate [OF assms])

text \<open>A locked card takes every target frequency from 25 to 250.\<close>

lemma freqscaling_locked:
  assumes "\<not> axi_gate_frozen s" "locked s" "copy_from_user um arg 12 = Some obj" "25 \<le> le32 obj 8" "le32 obj 8 \<le> 250"
  shows "\<exists>s'. ocl_freqscaling_ioctl um arg device s = Some (0, s')"
proof -
  obtain s1 where s1: "srd OCL_CLKWIZ_STATUS s = (1, s1)" "locked s1" using locked_reads(1) [OF assms(2)] by blast
  obtain s2 where s2: "compute_unit_busy s1 = (0, s2)" "locked s2" using locked_reads(2) [OF s1(2)] by blast
  have g2: "\<not> axi_gate_frozen s2"
    using quiet_trans [OF quiet_srd [OF s1(1)] quiet_compute_unit_busy [OF s2(1)]] assms(1) by (simp add: quiet_def gate_of_def)
  obtain f s3 where s3: "get_ocl_frequency device s2 = (f, s3)" by fastforce
  have g3: "\<not> axi_gate_frozen s3" using quiet_get_ocl_frequency [OF s3] g2 by (simp add: quiet_def gate_of_def)
  have l3: "locked s3"
    using s3 s2(2) unfolding get_ocl_frequency_def Let_def by (auto split: prod.splits if_splits) (meson locked_reads(3))+
  obtain s4 where s4: "freezeAXIGate s3 = Some s4" "axi_gate_frozen s4" using freeze_spec [OF g3] by blast
  have l4: "locked s4"
  proof -
    obtain v t where "srd AXI_GATE_OFFSET_READ s3 = (v, t)" by fastforce
    moreover obtain w u where "srd AXI_GATE_OFFSET_READ (swr 0 AXI_GATE_OFFSET t) = (w, u)" by fastforce
    ultimately have "locked u" "s4 = u\<lparr>axi_gate_frozen := True\<rparr>"
      using l3 s4(1) g3 by (auto simp: freezeAXIGate_def intro: locked_reads(3) locked_reads(4))
    then show ?thesis by (simp add: locked_def)
  qed
  obtain s5 where s5: "freqscaling_body device (unat (le32 obj 8 div 25) - 1) s4 = (0, s5)"
    using body_locked [OF l4] by (metis prod.collapse)
  have g5: "axi_gate_frozen s5" using s4(2) s5 freqscaling_body_spec [of device "unat (le32 obj 8 div 25) - 1" s4]
    by (auto simp: gate_of_def)
  obtain f' s6 where s6: "get_ocl_frequency device s5 = (f', s6)" by fastforce
  have "axi_gate_frozen s6" using quiet_get_ocl_frequency [OF s6] g5 by (simp add: quiet_def gate_of_def)
  then obtain s7 where "freeAXIGate s6 = Some s7" using free_spec by blast
  moreover have "ocl (frequency_table ! 0) = 25" by (simp add: frequency_table_def)
  moreover have "\<not> 250 < le32 obj 8" "\<not> le32 obj 8 < 25" using assms(4,5) by (simp_all add: not_less)
  ultimately show ?thesis
    by (simp add: ocl_freqscaling_ioctl_def Let_def assms(3) s1(1) s2(1) s3 s4(1) s5 s6 del: One_nat_def)
qed

text \<open>A process that asks for 225 MHz, and a card that is locked.\<close>

definition ask_225 :: user_mem where
  "ask_225 a = Some (if unat a < 12 then [0x6C, 0x0C, 0x6C, 0x58, 0, 0, 0, 0, 225, 0, 0, 0] ! unat a else 0)"

definition locked_dev :: sd_dev where
  "locked_dev = (constant_dev 1)\<lparr>axi_gate_frozen := False\<rparr>"

definition control_node :: xdma_char where
  "control_node = \<lparr>c_magic = MAGIC_CHAR, cdevno = (0, 0), c_bar = 0, c_engine = None, c_user_irq = None, c_type = CHAR_USER,
     c_sys_device = Dev_ptr\<rparr>"

definition locked_card :: xcl_dev where
  "locked_card = \<lparr>sd = locked_dev, root_port = \<lparr>hist = [], resp = \<lambda>_ _. 0\<rparr>, pci_vendor = 0x10ee, pci_device = 0x8138,
     subsystem_vendor = 0, subsystem_device = 0, feature_id = 0, x_magic = MAGIC_DEVICE, x_engine = \<lambda>_ _. None,
     x_user_char = Some control_node\<rparr>"

definition easy_kernel :: xcl_kernel where
  "easy_kernel = \<lparr>k_string = \<lambda>_. True, k_chunk = True, k_vmalloc = True, k_config = True, k_access_ok = \<lambda>_ _. True,
     k_copy_out = True, k_interrupts_enable = \<lambda>_ b. (0, b)\<rparr>"

lemma ask_225:
  "copy_from_user ask_225 0 12 = Some [0x6C, 0x0C, 0x6C, 0x58, 0, 0, 0, 0, 225, 0, 0, 0]"
  "copy_from_user ask_225 0 8 = Some [0x6C, 0x0C, 0x6C, 0x58, 0, 0, 0, 0]"
  "le32 [0x6C, 0x0C, 0x6C, 0x58, 0, 0, 0, 0, 225, 0, 0, 0] 8 = 225" "le32 [0x6C, 0x0C, 0x6C, 0x58, 0, 0, 0, 0] 0 = XDMA_XCL_MAGIC"
  by (simp_all add: copy_from_user_def ask_225_def le32_def XDMA_XCL_MAGIC_def upt_rec)

lemma locked_dev: "locked locked_dev" "\<not> axi_gate_frozen locked_dev"
  by (simp_all add: locked_dev_def locked_def constant_dev_def)

lemma scaled: "\<exists>s'. ocl_freqscaling_ioctl ask_225 0 0x8138 locked_dev = Some (0, s')"
  using freqscaling_locked [OF locked_dev(2,1) ask_225(1), of "0x8138"] by (simp add: ask_225(3))

theorem char_ctrl_ioctl_gate_witness:
  "\<exists>x'. char_ctrl_ioctl easy_kernel ask_225 control_node XDMA_IOCFREQSCALING 0 locked_card = Some (0, None, x') \<and>
     \<not> axi_gate_frozen (sd x')"
proof -
  obtain s' where s': "ocl_freqscaling_ioctl ask_225 0 0x8138 locked_dev = Some (0, s')" using scaled by blast
  have cmd: "XDMA_IOCFREQSCALING = 0xc00c7806" "XDMA_IOCINFO \<noteq> 0xc00c7806" "XDMA_IOCICAP \<noteq> 0xc00c7806" "XDMA_IOCMCAP \<noteq> 0xc00c7806"
    "XDMA_IOCOCLRESET \<noteq> 0xc00c7806" "XDMA_IOCHOTRESET \<noteq> 0xc00c7806" "IOC_TYPE 0xc00c7806 = XDMA_IOC_MAGIC" by code_simp+
  have "xcl_command easy_kernel ask_225 0xc00c7806 0 locked_card = Some (0, None, locked_card\<lparr>sd := s'\<rparr>)"
    using s' cmd(2-) [symmetric] by (simp add: xcl_command_def cmd(1) locked_card_def)
  then have run: "char_ctrl_ioctl easy_kernel ask_225 control_node XDMA_IOCFREQSCALING 0 locked_card = Some (0, None, locked_card\<lparr>sd := s'\<rparr>)"
    using cmd(7) by (simp add: char_ctrl_ioctl_def cmd(1) ask_225 control_node_def locked_card_def easy_kernel_def)
  then show ?thesis using char_ctrl_ioctl_gate [OF run] locked_dev(2) by (simp add: locked_card_def)
qed

text \<open>
  The fraction of the divider is lost. A setting of the clock that reports success wrote, with
  the gate closed, the base configuration and then the divider of the entry for the target
  frequency, without its fraction: the code masks the shifted fraction with the enable bit instead of
  setting that bit. By the driver's own formula the clock is then as requested for the entries
  without a fraction, and faster than the entry for all others.
\<close>

theorem freqscaling_drops_fraction:
  assumes "ocl_freqscaling_ioctl um arg device s = Some (0, s')" "\<not> axi_gate_frozen s"
  shows "\<exists>obj e f. copy_from_user um arg 12 = Some obj \<and> e = frequency_table ! (unat (le32 obj 8 div 25) - 1) \<and>
     writes (sd_bus s') = writes (sd_bus s) @ at_bar s (gate_close @
       [(OCL_CLKWIZ_CONFIG 0, base_config device), (OCL_CLKWIZ_CONFIG 2, divide e), (OCL_CLKWIZ_CONFIG 23, 7), (OCL_CLKWIZ_CONFIG 23, 2)] @
       gate_open) \<and>
     f = wizard_freq (input_freq device) (base_config device) (divide e) \<and>
     ucast (ocl e) \<le> f \<and> (f = ucast (ocl e) \<longleftrightarrow> divide_frac e = 0)"
proof -
  obtain obj where o: "copy_from_user um arg 12 = Some obj" "25 \<le> le32 obj 8" "le32 obj 8 \<le> 250"
    "told s (gate_close @ clock_writes device (unat (le32 obj 8 div 25) - 1) @ gate_open) s'"
    by (rule set_clock [OF assms(2,1)])
  let ?e = "frequency_table ! (unat (le32 obj 8 div 25) - 1)"
  let ?f = "wizard_freq (input_freq device) (base_config device) (divide ?e)"
  have e: "frac_config ?e = divide ?e" "ucast (ocl ?e) \<le> ?f" "?f = ucast (ocl ?e) \<longleftrightarrow> divide_frac ?e = 0"
    using clock_entry [OF clock_index [OF o(2,3)], of device] by blast+
  have "writes (sd_bus s') = writes (sd_bus s) @ at_bar s (gate_close @
       [(OCL_CLKWIZ_CONFIG 0, base_config device), (OCL_CLKWIZ_CONFIG 2, divide ?e), (OCL_CLKWIZ_CONFIG 23, 7), (OCL_CLKWIZ_CONFIG 23, 2)] @
       gate_open)" using o(4) unfolding told_def clock_writes_def e(1) by blast
  then show ?thesis using o(1) e(2,3) by blast
qed

theorem freqscaling_drops_fraction_witness:
  "\<exists>s'. ocl_freqscaling_ioctl ask_225 0 0x8138 locked_dev = Some (0, s') \<and>
     (OCL_CLKWIZ_CONFIG 2, 4) \<in> set (writes (sd_bus s')) \<and> wizard_freq 200 0x04000501 4 = 250"
proof -
  obtain s' where s': "ocl_freqscaling_ioctl ask_225 0 0x8138 locked_dev = Some (0, s')" using scaled by blast
  have "unat (225 div 25 :: u32) - 1 = 8" by simp
  moreover have "divide (frequency_table ! 8) = 4" by (simp add: frequency_table_def)
  moreover have "wizard_freq 200 0x04000501 4 = 250" by code_simp
  ultimately show ?thesis using s' freqscaling_drops_fraction [OF s' locked_dev(2)]
    by (auto simp: ask_225 at_bar_def locked_dev_def constant_dev_def)
qed

text \<open>
  The frequency that is reported is exact as long as the divider fits. The frequency computed from
  the two configuration registers is the input frequency times the multiplier through the divider,
  with three decimals of each counted and rounded down, if the product of the divider's two parts
  stays below the limit of the 32-bit variable; a larger one wraps around without notice.
\<close>

theorem wizard_freq_exact:
  assumes "1000 * unat (val0 AND 0xff) * div_thousandths val2 < 2 ^ 32" "unat input < 2 ^ 32"
  shows "unat (wizard_freq input val0 val2) =
    (unat input * (1000 * mul_thousandths val0)) div (1000 * unat (val0 AND 0xff) * div_thousandths val2)"
  by (rule wizard_freq_spec [OF assms])

text \<open>200 MHz times 5 through 6.666; and a divider of 17 times 255, where 200 MHz times 255 / 4335 would be 11 MHz.\<close>

theorem wizard_freq_exact_witness:
  "unat (wizard_freq 200 0x04000501 (0x40006 OR push_bit 8 0x29a)) = 150 \<and>
   wizard_freq 200 0x0000ff11 0xff = 1273 \<and> 200 * 255 div (17 * 255) = (11 :: nat)"
proof -
  have d: "div_thousandths (0x40006 OR push_bit 8 0x29a) = 6666" "mul_thousandths 0x04000501 = 5000"
    "unat (0x04000501 AND 0xff :: u32) = 1" by code_simp+
  have "wizard_freq 200 0x0000ff11 0xff = 1273" by code_simp
  then show ?thesis using wizard_freq_exact [of "0x04000501" "0x40006 OR push_bit 8 0x29a" 200] unfolding d by simp
qed

text \<open>
  C32: a hot reset puts the configuration space back. If its buffer is allocated, the reset toggles
  the reset bit of the root port and leaves that register as it was; and the last value written to
  each of the 64 dwords of the card's configuration space is the value that was read before the
  reset.
\<close>

theorem reset_hot_restores_config:
  assumes "k_config k"
  shows "map (last_write (sd_cfg (sd (snd (reset_hot_ioctl k x))))) config_dwords =
      map Some (fst (read_config config_dwords (sd_cfg (sd x)))) \<and>
    (\<exists>hot. hot = fst (read_register PCI_MIN_GNT (root_port x)) AND 0xff \<and>
      writes (root_port (snd (reset_hot_ioctl k x))) = writes (root_port x) @ [(PCI_MIN_GNT, hot OR 0x40), (PCI_MIN_GNT, hot)])"
proof -
  have "map (last_write (sd_cfg (sd (snd (reset_hot_ioctl k x))))) config_dwords =
      map Some (fst (read_config config_dwords (sd_cfg (sd x))))"
    by (rule nth_equalityI) (simp_all add: reset_hot_restores [OF assms] distinct_config_dwords(2))
  then show ?thesis using reset_hot_spec(2) [OF assms] by simp
qed

theorem reset_hot_restores_config_witness:
  "map (last_write (sd_cfg (sd (snd (reset_hot_ioctl easy_kernel locked_card))))) config_dwords = replicate 64 (Some 1) \<and>
   writes (root_port (snd (reset_hot_ioctl easy_kernel locked_card))) = [(PCI_MIN_GNT, 0x40), (PCI_MIN_GNT, 0)]"
proof -
  have r: "fst (read_config is b) = replicate (length is) 1" if "resp b = (\<lambda>_ _. 1)" for "is" b
    using that
  proof (induction "is" arbitrary: b)
    case (Cons i "is")
    have "resp (snd (read_register i b)) = (\<lambda>_ _. 1)" using Cons.prems by simp
    then show ?case using Cons.IH Cons.prems by (simp add: split_beta) (simp add: read_register_def)
  qed simp
  have "k_config easy_kernel" by (simp add: easy_kernel_def)
  from reset_hot_restores_config [OF this, of locked_card] show ?thesis
    by (simp add: r locked_card_def locked_dev_def constant_dev_def distinct_config_dwords map_replicate read_register_def writes_def)
qed

end
