(* ===== verification/Spec2Isabelle.thy ===== *)
theory Spec2Isabelle
  imports Programs Measure RegRw Keisoku Module Ocl
begin

text \<open>
  A verification of the drivers of this repository. The main one is the Xilinx XDMA driver for PCI
  Express, \<open>src/Official_Xilinx/driver\<close>: \<open>driver/xdma-core.c\<close> and \<open>driver/xdma-sgm.c\<close>, and
  \<open>driver/xdma-bit.c\<close> and \<open>driver/xdma-ioctl.c\<close>, which the accelerator cards use, with the headers
  under \<open>include\<close>. The others are the drivers of the memory of two boards, \<open>src/MTE/vc707_memcpy/FPGA.c\<close>
  and \<open>src/MTE/vcu108_memcpy/FPGA.c\<close>, and their forerunners \<open>src/MTE/vc707/driver.c\<close>,
  \<open>src/old_driver/driver.c\<close> and \<open>src/test/driver.c\<close>. The drivers share no code and no state.

  \<^bold>\<open>The XDMA driver.\<close> Loading it (\<open>xdma_init\<close>) registers it with the kernel, which calls \<open>probe\<close> for
  each device. It maps the BARs, finds among them the one
  with the registers of the DMA core, sets up the interrupts, creates an engine for every channel
  and direction that the hardware has, and a character device for every engine, for the registers
  and for the user interrupts. A read or write of a channel's file pins the pages of the user
  buffer, builds a chain of descriptors over them and queues it on the engine; the interrupt
  handler, or a polling loop, completes transfers in order and restarts the engine on the rest of
  the queue. A streaming channel from the device instead has a ring of receive buffers that is
  filled as long as the channel is open and that reads consume. On an accelerator card there is also
  a control node, whose ioctls load bitstreams (through the HWICAP core behind a BAR, or the MCAP
  registers in configuration space), set the clock and reset the card.

  \<^bold>\<open>The board drivers.\<close> The file of a board gives a process the memory behind a BAR. In \<open>FPGA.c\<close>, a
  read or write carries a command block with addresses and copies through a buffer of one page; in
  the forerunners it copies word by word, at the position of the file, through a static array.

  \<^bold>\<open>The theories\<close>, in the order in which they build on each other:
  \<^item> \<open>XPrelude\<close>: machine integers, \<open>BUG_ON\<close>, word lemmas, runs of operations and the locales of their contracts.
  \<^item> \<open>Mmio\<close>: register blocks as field lists; \<open>read_register\<close>, \<open>write_register\<close> over a history of
    accesses; \<open>build_u32\<close>, \<open>build_u64\<close>; enabling and disabling of interrupts.
  \<^item> \<open>Desc\<close>: descriptors and their chains (\<open>xdma_desc_alloc\<close> to \<open>xdma_desc_set_source\<close>).
  \<^item> \<open>Sgm\<close>: \<open>xdma-sgm.c\<close>, the scatter-gather mapper with its page references, and \<open>rvmalloc\<close>.
  \<^item> \<open>Xfer\<close>: transfers, from \<open>transfer_create\<close> to \<open>transfer_destroy\<close>.
  \<^item> \<open>Engine\<close>: the state of an engine, start and stop, \<open>transfer_queue\<close>.
  \<^item> \<open>Service\<close>: \<open>engine_service\<close> with all its parts, and the polling of the writeback.
  \<^item> \<open>Ring\<close>: the receive ring of a streaming channel, with open, close and read.
  \<^item> \<open>SgdmaChar\<close>: synchronous and asynchronous requests on a channel's file.
  \<^item> \<open>Perf\<close>: the ioctls of a channel and the performance measurement.
  \<^item> \<open>Machine\<close>: an engine as a state machine over submissions and interrupts.
  \<^item> \<open>Dma\<close>: what requests do to the bytes of the process and of the card, when
    the device executes the descriptors.
  \<^item> \<open>Programs\<close>: the programs that move files to and from the card, on top of it all;
    \<open>Measure\<close>, \<open>RegRw\<close>: the ones that measure a channel and that access registers.
  \<^item> \<open>Device\<close>, \<open>Irq\<close>, \<open>Bars\<close>, \<open>Engines\<close>, \<open>CharDev\<close>, \<open>Probe\<close>: the device structure, its interrupts, its
    BARs and the files over them, its engines, its character devices, and bringing it up and down.
  \<^item> \<open>Module\<close>: loading and unloading the driver, and devices that come and go in between.
  \<^item> \<open>BitHeader\<close>, \<open>Bitstream\<close>, \<open>Ocl\<close>: the header of a bit file and its format; downloads through
    HWICAP and MCAP; the clock, the compute units and the resets of a card.
  \<^item> \<open>Fpga\<close>: \<open>FPGA.c\<close> of both boards.
  \<^item> \<open>Virtex\<close>: the forerunners. \<open>MTE/vc707/driver.c\<close> is modelled; where \<open>old_driver/driver.c\<close>
    differs, its own functions are added; of \<open>test/driver.c\<close>, the file operations and the probe.
  \<^item> \<open>BoardUsers\<close>, \<open>Keisoku\<close>: the programs that try out and measure the boards, over these drivers.

  \<^bold>\<open>Conventions.\<close> A function that may end in \<open>BUG_ON\<close>, a null pointer or a lock it already holds,
  or that may not end at all, returns an option; \<open>None\<close> is that it does not return. Error codes are
  the integers of the code. Structures are records, pointers to engines and transfers are numbers,
  lists are lists. Integers have their C width wherever that matters. A device is a function from
  the history of accesses to the value a read returns, so that every statement holds for every
  device that satisfies its hypotheses; the memory of a board is a store of bytes.
  The kernel's answers are arguments: a record \<open>kapi\<close> for the
  calls of \<open>probe\<close>, functions for page lookup and user memory elsewhere. What the driver takes from
  the kernel and gives back is recorded in a log (\<open>klog\<close>, or the log of the board drivers), and \<open>held\<close>
  or \<open>balance\<close> says what is still taken.
  The host is little-endian, and the compile-time switches have their values in the sources
  (\<open>SD_ACCEL\<close> and \<open>XDMA_STATUS_DUMPS\<close> are 0, \<open>CHAIN_MULTIPLE_TRANSFERS\<close> is 0, \<open>FORCE_IR_DESC_COMPLETED\<close>
  is 0); \<open>xdma-bit.c\<close> and \<open>xdma-ioctl.c\<close>, which are empty without \<open>SD_ACCEL\<close>, are modelled as they are
  compiled with it.

  \<^bold>\<open>Interfaces.\<close> Locales state what one part promises another, and each is interpreted on the code's
  model: the three ways to edit the control bits of a descriptor (\<open>ctl_edit\<close>), the receive ring as a
  bounded queue (\<open>fifo\<close>), operations that return and keep an invariant if their
  precondition holds (\<open>guarded_contract\<close>, for an engine; \<open>event_contract\<close>, its case of preconditions
  that do not look at the state, for the loaded driver), the steps of \<open>create_interfaces\<close>
  (\<open>step_relation\<close>), the file of a channel, on which the user programs rest (\<open>channel_file\<close>), and the file of a board, whose
  bytes are encoded differently by two drivers (\<open>board_file\<close>).

  \<^bold>\<open>Loops.\<close> Loops over arrays and lists recurse on them. Loops that wait for the hardware run over
  the list of values the hardware shows, or are \<open>partial_function (option)\<close>; the theorems then
  state that they return. Where the code itself counts its attempts, the model recurses on that count.

  \<^bold>\<open>What is shown.\<close>
  \<^item> Data: the chain of a transfer moves exactly the bytes of the request; page references balance; a
    request of any size completes and puts the bytes of the user where they belong, and nothing
    else, so that a file sent to the card comes back; the ring delivers packets whole and in order.
  \<^item> Engines: the queue is served in order, every submission completes, and no interleaving of
    submissions and interrupts panics, provided that no interrupt meets a running engine that says it is busy or
    reports descriptors it was not given: on those the driver does panic.
  \<^item> Devices: probing is undone by removing, and by its own error paths, up to the numbers and the interrupt
    mode that the theorems name; every file has the type its magic number says; the
    instance numbers of the devices present are distinct under any sequence of hot-plug events, and
    loading and unloading return (but loading forgets which numbers it has handed out).
  \<^item> Cards: the parser of bit files accepts exactly its format; a download through HWICAP writes the
    words of the bitstream in order; every command of the control node that returns leaves the AXI gate open;
    a hot reset restores the configuration space.
  \<^item> Boards: what is written is read back and nothing else on the board changes; two writers that
    interleave corrupt each other's data. One measurement program moves a quarter of its data, another none.
  Where the code does not do what it means to do, a theorem states what it does and the manifest
  lists the finding.

  \<^bold>\<open>Not modelled.\<close> Messages and dumps to the log, and what \<open>xdma_config\<close> would print; the parts of
  \<open>xdma-core.c\<close> compiled only with \<open>SD_ACCEL\<close>, as it is switched off; the constants of the performance
  monitor and the flash, which no code uses; \<open>driver-32bit\<close>, an earlier copy of the same functions;
  the option parsing and the output of the user programs under \<open>tests\<close>, and in all user programs the
  clock; the generated files; locks other than
  those that can deadlock a single caller, since the model runs one operation at a time, except where
  interleavings are stated.
\<close>

end
